(* ===== verification/Prelude.thy ===== *)
theory Prelude
  imports "HOL-Library.Word"
begin

text \<open>
  What every component shares: the result type of operations that may throw, the machine
  integer types, the collections of facts the component proofs are run with, and generic lemmas on
  words, on \<open>of_bool\<close> carries and on lists.
\<close>

unbundle bit_operations_syntax

section \<open>Machine integers\<close>

type_synonym u8 = "8 word"
type_synonym u16 = "16 word"
type_synonym u32 = "32 word"
type_synonym u64 = "64 word"

section \<open>Results of operations that may throw\<close>

text \<open>
  A JavaScriptCore operation either returns a value or leaves an exception pending and returns a
  null result; \<open>Inl e\<close> is the pending exception, \<open>Inr r\<close> the returned value.
  \<open>andThen m f\<close> is the code's \<open>r = m(); RETURN_IF_EXCEPTION(scope, ...); f(r)\<close>.
\<close>

datatype js_error = RangeError | OutOfMemoryError | SyntaxError

type_synonym 'a throws = "js_error + 'a"

definition andThen :: "'a throws \<Rightarrow> ('a \<Rightarrow> 'b throws) \<Rightarrow> 'b throws" where
  "andThen m f = (case m of Inl e \<Rightarrow> Inl e | Inr r \<Rightarrow> f r)"

lemma andThen_simps [simp]:
  "andThen (Inl e) f = Inl e"
  "andThen (Inr r) f = f r"
  by (simp_all add: andThen_def)

lemma andThen_eq_Inr_iff: "andThen m f = Inr r \<longleftrightarrow> (\<exists>x. m = Inr x \<and> f x = Inr r)"
  by (cases m) auto

lemma andThen_eq_Inl_iff: "andThen m f = Inl e \<longleftrightarrow> m = Inl e \<or> (\<exists>x. m = Inr x \<and> f x = Inl e)"
  by (cases m) auto

section \<open>Fact collections\<close>

named_theorems uint_arith_simps "the integer value of a wrapping word operation"
named_theorems dval_simps "the value of a list of digits under the list operations"

section \<open>Words and integers\<close>

lemma uint_add_mod: "uint (a + b) = (uint a + uint b) mod 2 ^ LENGTH('a)" for a b :: "'a::len word"
  by (simp add: uint_word_ariths)

lemma uint_of_bool [simp]: "uint (of_bool p :: 'a::len word) = of_bool p"
  by simp

lemma of_bool_le_one_int [simp]: "(of_bool p :: int) \<le> 1"
  by simp

lemma word_add_carry:
  fixes a b :: "'a::len word"
  shows "uint (a + b) + 2 ^ LENGTH('a) * of_bool (a + b < a) = uint a + uint b"
proof -
  have "uint (a + b) = (if uint a + uint b < 2 ^ LENGTH('a) then uint a + uint b
      else uint a + uint b - 2 ^ LENGTH('a))"
    by (rule uint_plus_if')
  moreover have "a + b < a \<longleftrightarrow> uint (a + b) < uint a"
    by (simp add: word_less_def)
  moreover have "0 \<le> uint b" "uint b < 2 ^ LENGTH('a)"
    by simp_all
  ultimately show ?thesis
    by (auto split: if_splits)
qed

lemma word_sub_borrow:
  fixes a b :: "'a::len word"
  shows "uint (a - b) - 2 ^ LENGTH('a) * of_bool (a < a - b) = uint a - uint b"
proof -
  have "uint (a - b) = (if uint b \<le> uint a then uint a - uint b
      else uint a - uint b + 2 ^ LENGTH('a))"
    by (rule uint_sub_if')
  moreover have "a < a - b \<longleftrightarrow> uint a < uint (a - b)"
    by (simp add: word_less_def)
  moreover have "0 \<le> uint b" "uint b < 2 ^ LENGTH('a)"
    by simp_all
  ultimately show ?thesis
    by (auto split: if_splits)
qed

lemma uint_drop_bit: "uint (drop_bit n w) = uint w div 2 ^ n" for w :: "'a::len word"
  by (rule bit_eqI) (simp add: bit_unsigned_iff bit_drop_bit_eq flip: drop_bit_eq_div)

lemma uint_and_mask: "uint (w AND mask n) = uint w mod 2 ^ n" for w :: "'a::len word"
  by (metis take_bit_eq_mask unsigned_take_bit_eq take_bit_eq_mod)

lemma uint_push_bit:
  "uint (push_bit n w) = (uint w * 2 ^ n) mod 2 ^ LENGTH('a)" for w :: "'a::len word"
  by (metis unsigned_push_bit_eq push_bit_eq_mult take_bit_eq_mod)

lemma uint_ucast_widen:
  "LENGTH('a) \<le> LENGTH('b) \<Longrightarrow> uint (ucast w :: 'b::len word) = uint w" for w :: "'a::len word"
  by (rule bit_eqI) (auto simp: bit_unsigned_iff dest: bit_imp_le_length)

lemma uint_or_disjoint:
  fixes a b :: "'a::len word"
  assumes "a AND b = 0"
  shows "uint (a OR b) = uint a + uint b"
proof -
  have "uint a AND uint b = 0"
    using assms by (metis unsigned_and_eq unsigned_0)
  then show ?thesis
    using plus_and_or [of "uint a" "uint b"] by (simp add: unsigned_or_eq)
qed

lemma drop_bit_eq_0_iff_uint: "drop_bit i w = 0 \<longleftrightarrow> uint w < 2 ^ i" for w :: "'a::len word"
proof -
  have "drop_bit i w = 0 \<longleftrightarrow> uint (drop_bit i w) = 0"
    by (simp only: uint_0_iff)
  also have "\<dots> \<longleftrightarrow> uint w div 2 ^ i = 0"
    by (simp only: uint_drop_bit)
  also have "\<dots> \<longleftrightarrow> uint w < 2 ^ i"
    by (auto simp: zdiv_eq_0_iff)
  finally show ?thesis .
qed

lemma uint_mult_small: "uint x * uint y < 2 ^ LENGTH('a) \<Longrightarrow> uint (x * y) = uint x * uint y" for x y :: "'a::len word"
  by (simp add: uint_word_ariths)
lemma uint_plus_small: "uint x + uint y < 2 ^ LENGTH('a) \<Longrightarrow> uint (x + y) = uint x + uint y" for x y :: "'a::len word"
  by (simp add: uint_word_ariths)
lemma uint_minus_one: "x \<noteq> 0 \<Longrightarrow> uint (x - 1) = uint x - 1" for x :: "'a::len word"
  by (metis add_diff_cancel_left' diff_add_cancel uint_1_eq uint_minus_simple_alt word_less_1 word_le_sub1 word_not_simps(1) linorder_not_le uint_sub_lem word_le_def word_less_def)

lemma uint_eq_modI: "uint w = k" if "w = word_of_int k" "0 \<le> k" "k < 2 ^ LENGTH('a)" for w :: "'a::len word"
  using that by (simp add: unsigned_of_int take_bit_int_eq_self)

lemma odd_unat_iff: "odd (unat w) \<longleftrightarrow> bit w 0" for w :: "'a::len word"
  by (simp add: bit_unsigned_iff flip: bit_0)

lemma and_one_neq_0_iff: "w AND 1 \<noteq> 0 \<longleftrightarrow> odd (unat w)" for w :: "'a::len word"
proof -
  have "w AND 1 \<noteq> 0 \<longleftrightarrow> odd w"
    by (simp only: and_one_eq even_iff_mod_2_eq_zero)
  then show ?thesis
    by (simp add: odd_unat_iff bit_0)
qed

section \<open>Integer quotients\<close>

lemma int_div_less_iff: "0 < v \<Longrightarrow> N div v < q \<longleftrightarrow> N < q * v" for N v q :: int
proof -
  assume v: "0 < v"
  have e: "N = v * (N div v) + N mod v" by simp
  have m: "0 \<le> N mod v" "N mod v < v" using v by simp_all
  show ?thesis
  proof
    assume "N div v < q"
    then have "v * (N div v) + v \<le> q * v"
      using mult_left_mono [of "N div v + 1" q v] v by (simp add: algebra_simps)
    with e m show "N < q * v" by linarith
  next
    assume l: "N < q * v"
    show "N div v < q"
    proof (rule ccontr)
      assume "\<not> N div v < q"
      then have "q * v \<le> v * (N div v)"
        using mult_left_mono [of q "N div v" v] v by (simp add: algebra_simps)
      with e m l show False by linarith
    qed
  qed
qed

lemma int_le_div_iff: "0 < v \<Longrightarrow> q \<le> N div v \<longleftrightarrow> q * v \<le> N" for N v q :: int
  using int_div_less_iff [of v N q] by linarith

section \<open>Bits of words as natural numbers\<close>

lemma unat_take_bit_mod: "unat (take_bit n w) = unat w mod 2 ^ n" for w :: "'a::len word"
  unfolding unsigned_take_bit_eq by (rule take_bit_eq_mod)

lemma unat_and_mask_mod: "unat (w AND mask n) = unat w mod 2 ^ n" for w :: "'a::len word"
  by (simp add: unat_take_bit_mod flip: take_bit_eq_mask)

lemma unat_drop_bit_div: "unat (drop_bit n w) = unat w div 2 ^ n" for w :: "'a::len word"
  unfolding unsigned_drop_bit_eq by (simp add: drop_bit_eq_div take_bit_nat_eq_self)

lemma unat_push_bit_mod: "unat (push_bit n w) = unat w * 2 ^ n mod 2 ^ LENGTH('a)" for w :: "'a::len word"
  unfolding unsigned_push_bit_eq push_bit_eq_mult [where 'a = nat] by (rule take_bit_eq_mod)

lemma bit_below: "unat w < 2 ^ k \<Longrightarrow> bit w n \<Longrightarrow> n < k" for w :: "'a::len word"
proof -
  assume w: "unat w < 2 ^ k" "bit w n"
  then have "take_bit k w = w" by (simp only: word_unat_eq_iff unat_take_bit_mod mod_less)
  with w(2) have "bit (take_bit k w) n" by simp
  then show "n < k" unfolding bit_take_bit_iff by simp
qed

lemma unat_or_push_bit: "unat a < 2 ^ k \<Longrightarrow> unat (push_bit k b OR a) = unat (push_bit k b) + unat a" for a b :: "'a::len word"
proof -
  assume a: "unat a < 2 ^ k"
  have "push_bit k b AND a = 0"
  proof (rule bit_eqI)
    fix n
    show "bit (push_bit k b AND a) n = bit 0 n" using bit_below [OF a, of n] unfolding bit_and_iff bit_push_bit_iff by auto
  qed
  then have "int (unat (push_bit k b OR a)) = int (unat (push_bit k b) + unat a)" using uint_or_disjoint by simp
  then show ?thesis by (simp only: of_nat_eq_iff)
qed

lemma unat_shift_or:
  fixes a b :: "'a::len word"
  assumes "unat b < 2 ^ k" "unat a * 2 ^ k < 2 ^ LENGTH('a)"
  shows "unat (push_bit k a OR b) = unat a * 2 ^ k + unat b"
  using unat_or_push_bit [OF assms(1), of a] assms(2) by (simp add: unat_push_bit_mod)

lemma word_of_unat: "of_nat (unat w) = w" for w :: "'a::len word"
  by simp

section \<open>Codecs\<close>

text \<open>
  The contract of an encoder and a decoder that reads back what the encoder wrote, both failing with \<open>None\<close>: \<open>valid\<close> are
  the values the encoder is meant for, \<open>fits\<close> the encodings short enough for the limits of both.
\<close>

locale decodable =
  fixes encode :: "'a \<Rightarrow> 'b option" and decode :: "'b \<Rightarrow> 'a option"
    and valid :: "'a \<Rightarrow> bool" and fits :: "'b \<Rightarrow> bool"
  assumes decode_encode: "valid a \<Longrightarrow> encode a = Some b \<Longrightarrow> fits b \<Longrightarrow> decode b = Some a"
begin

lemma encode_inj: "valid a \<Longrightarrow> valid a' \<Longrightarrow> encode a = Some b \<Longrightarrow> encode a' = Some b \<Longrightarrow> fits b \<Longrightarrow> a = a'"
  using decode_encode [of a b] decode_encode [of a' b] by simp

end

text \<open>A codec also has only one encoding of each value: the decoder accepts nothing else.\<close>

locale codec = decodable +
  assumes encode_decode: "fits b \<Longrightarrow> decode b = Some a \<Longrightarrow> valid a \<and> encode a = Some b"
begin

lemma decode_iff: "fits b \<Longrightarrow> decode b = Some a \<longleftrightarrow> valid a \<and> encode a = Some b"
  using decode_encode encode_decode by blast

lemma decode_unique: "fits b \<Longrightarrow> fits b' \<Longrightarrow> decode b = Some a \<Longrightarrow> decode b' = Some a \<Longrightarrow> b = b'"
  using encode_decode [of b a] encode_decode [of b' a] by simp

end

end
