(* ===== verification/BigIntDigits.thy ===== *)
theory BigIntDigits
  imports Prelude
begin

text \<open>
  The digit helpers of \<open>JSC::JSBigInt\<close> (JavaScriptCore/runtime/JSBigInt.cpp and JSBigInt.h, with
  \<open>clz\<close> from WTF/wtf/MathExtras.h). A \<open>Digit\<close> is \<open>UCPURegister\<close>, 64 bits on the modelled
  64-bit targets; \<open>+\<close>, \<open>-\<close>, \<open>*\<close> wrap around. A C++ reference parameter that is written (the carry, the
  borrow, the high half, the remainder) is returned beside the result. The main fact is that
  the portable branch of \<open>digitDiv\<close>, Warren's long division by half digits, computes quotient
  and remainder of a two-digit number; the interface \<open>digit_divider\<close> is what the
  multi-digit divisions rely on.
\<close>

section \<open>Constants\<close>

type_synonym digit = u64

definition digitBits :: nat where "digitBits = 64"

definition halfDigitBits :: nat where "halfDigitBits = digitBits div 2"

definition halfDigitMask :: digit where "halfDigitMask = push_bit halfDigitBits 1 - 1"

text \<open>The weight of one digit position, for the specifications.\<close>

definition dbase :: int where "dbase = 2 ^ 64"

lemma dbase_pos [simp]: "0 < dbase" "0 \<le> dbase" "dbase \<noteq> 0" "1 < dbase" "1 \<le> dbase"
  by (simp_all add: dbase_def)

lemma uint_less_dbase [simp]: "uint (d :: digit) < dbase"
  using uint_lt2p [of d] by (simp add: dbase_def)

lemma uint_le_dbase_minus_one [simp]: "uint (d :: digit) \<le> dbase - 1"
  using uint_less_dbase [of d] by linarith

section \<open>Addition, subtraction and multiplication of digits\<close>

definition digitAdd :: "digit \<Rightarrow> digit \<Rightarrow> digit \<Rightarrow> digit \<times> digit" where
  "digitAdd a b carry =
     (let result = a + b
      in (result, carry + of_bool (result < a)))"

definition digitSub :: "digit \<Rightarrow> digit \<Rightarrow> digit \<Rightarrow> digit \<times> digit" where
  "digitSub a b borrow =
     (let result = a - b
      in (result, borrow + of_bool (a < result)))"

text \<open>\<open>TwoDigit\<close> is \<open>UInt128\<close>; the pair is (low half, high half).\<close>

definition digitMul :: "digit \<Rightarrow> digit \<Rightarrow> digit \<times> digit" where
  "digitMul a b =
     (let result = (ucast a :: 128 word) * ucast b
      in (ucast result, ucast (drop_bit digitBits result)))"

function digitPow_loop :: "digit \<Rightarrow> digit \<Rightarrow> digit \<Rightarrow> digit" where
  "digitPow_loop result base exponent =
     (if 0 < exponent
      then digitPow_loop (if exponent AND 1 \<noteq> 0 then result * base else result)
             (base * base) (drop_bit 1 exponent)
      else result)"
  by pat_completeness auto
termination
  by (relation "measure (\<lambda>(result, base, exponent). unat exponent)")
    (auto simp: unat_drop_bit_eq drop_bit_eq_div unat_div_distrib word_less_nat_alt)

definition digitPow :: "digit \<Rightarrow> digit \<Rightarrow> digit" where
  "digitPow base exponent = digitPow_loop 1 base exponent"

declare digitPow_loop.simps [simp del]

definition productGreaterThan :: "digit \<Rightarrow> digit \<Rightarrow> digit \<Rightarrow> digit \<Rightarrow> bool" where
  "productGreaterThan factor1 factor2 high low =
     (let (resultLow, resultHigh) = digitMul factor1 factor2
      in high < resultHigh \<or> (resultHigh = high \<and> low < resultLow))"

lemma digitAdd_carry: "snd (digitAdd a b c) = c + of_bool (a + b < a)"
  by (simp add: digitAdd_def Let_def)

lemma digitAdd_value:
  "uint (fst (digitAdd a b c)) + dbase * of_bool (a + b < a) = uint a + uint b"
  using word_add_carry [of a b] by (simp add: digitAdd_def Let_def dbase_def)

lemma digitSub_value:
  "uint (fst (digitSub a b c)) - dbase * of_bool (a < a - b) = uint a - uint b"
  using word_sub_borrow [of a b] by (simp add: digitSub_def Let_def dbase_def)

lemma digitMul_value:
  assumes "digitMul a b = (low, high)"
  shows "uint low + dbase * uint high = uint a * uint b"
proof -
  let ?r = "(ucast a :: 128 word) * ucast b"
  have "uint a * uint b < 2 ^ 64 * 2 ^ 64"
    by (intro mult_strict_mono') (use uint_lt2p [of a] uint_lt2p [of b] in simp_all)
  then have r: "uint ?r = uint a * uint b"
    by (simp add: uint_word_ariths uint_ucast_widen)
  have low: "uint low = uint ?r mod 2 ^ 64"
    using assms by (auto simp: digitMul_def Let_def unsigned_ucast_eq take_bit_eq_mod)
  have "high = ucast (drop_bit 64 ?r)"
    using assms by (auto simp: digitMul_def Let_def digitBits_def)
  moreover have "uint (drop_bit 64 ?r) = uint ?r div 2 ^ 64"
    by (rule uint_drop_bit)
  moreover have "uint ?r div 2 ^ 64 < 2 ^ 64"
    using \<open>uint a * uint b < 2 ^ 64 * 2 ^ 64\<close> unfolding r by simp
  ultimately have high: "uint high = uint ?r div 2 ^ 64"
    by (simp add: unsigned_ucast_eq take_bit_int_eq_self pos_imp_zdiv_nonneg_iff)
  show ?thesis
    unfolding low high by (simp add: dbase_def r)
qed

section \<open>Division of two digits by one\<close>

fun clz_loop :: "digit \<Rightarrow> nat \<Rightarrow> nat \<Rightarrow> nat" where
  "clz_loop uValue 0 zeroCount = zeroCount"
| "clz_loop uValue (Suc i) zeroCount =
     (if drop_bit i uValue \<noteq> 0 then zeroCount else clz_loop uValue i (Suc zeroCount))"

definition clz :: "digit \<Rightarrow> nat" where
  "clz value = clz_loop value digitBits 0"

lemma clz_loop_correct:
  assumes "uint v < 2 ^ n" "v \<noteq> 0"
  shows "\<exists>k. clz_loop v n z = z + k \<and> k < n \<and> 2 ^ (n - 1) \<le> uint v * 2 ^ k \<and> uint v * 2 ^ k < 2 ^ n"
  using assms
proof (induction n arbitrary: z)
  case 0
  then have "uint v < 1"
    by simp
  with uint_nonnegative [of v] have "uint v = 0"
    by linarith
  with 0 show ?case
    by (simp add: uint_0_iff)
next
  case (Suc n)
  show ?case
  proof (cases "uint v < 2 ^ n")
    case True
    with Suc.IH [of "Suc z"] Suc.prems(2) obtain k where
      k: "clz_loop v n (Suc z) = Suc z + k" "k < n" "2 ^ (n - 1) \<le> uint v * 2 ^ k" "uint v * 2 ^ k < 2 ^ n"
      by blast
    from k(2) have "(2::int) ^ n = 2 * 2 ^ (n - 1)"
      by (metis Suc_diff_1 less_nat_zero_code not_gr_zero power_Suc)
    with k True show ?thesis
      by (intro exI [of _ "Suc k"]) (simp add: drop_bit_eq_0_iff_uint)
  next
    case False
    with Suc.prems show ?thesis
      by (intro exI [of _ 0]) (simp add: drop_bit_eq_0_iff_uint)
  qed
qed

lemma clz_bounds:
  assumes "v \<noteq> 0"
  shows "clz v < 64" "2 ^ 63 \<le> uint v * 2 ^ clz v" "uint v * 2 ^ clz v < 2 ^ 64"
  using clz_loop_correct [of v 64 0] assms uint_lt2p [of v]
  by (auto simp: clz_def digitBits_def)


definition halfDigitBase :: digit where "halfDigitBase = push_bit halfDigitBits 1"

lemma half_consts: "halfDigitBits = 32" "halfDigitMask = mask 32" "uint halfDigitBase = 2 ^ 32"
  "halfDigitBase = 2 ^ 32"
  by (simp_all add: halfDigitBits_def halfDigitMask_def halfDigitBase_def digitBits_def push_bit_eq_mult mask_eq_exp_minus_1)

function digitDiv_adjust :: "digit \<Rightarrow> digit \<Rightarrow> digit \<Rightarrow> digit \<Rightarrow> digit \<Rightarrow> digit" where
  "digitDiv_adjust vn1 vn0 un q rhat =
     (if halfDigitBase \<le> q \<or> rhat * halfDigitBase + un < q * vn0
      then (let q' = q - 1; rhat' = rhat + vn1
            in if halfDigitBase \<le> rhat' then q' else digitDiv_adjust vn1 vn0 un q' rhat')
      else q)"
  by pat_completeness auto
termination
proof (relation "measure (\<lambda>(vn1, vn0, un, q, rhat). unat q)", goal_cases)
  case (2 vn1 vn0 un q rhat q' rhat')
  have "q \<noteq> 0"
    using 2(1) by (auto simp: word_le_def half_consts)
  with 2(2) show ?case
    by (simp add: unat_minus_one) (simp add: word_less_nat_alt unat_gt_0)
qed simp

declare digitDiv_adjust.simps [simp del]

definition digitDiv :: "digit \<Rightarrow> digit \<Rightarrow> digit \<Rightarrow> digit \<times> digit" where
  "digitDiv high low divisor0 =
     (let s = clz divisor0;
          divisor = push_bit s divisor0;
          vn1 = drop_bit halfDigitBits divisor;
          vn0 = divisor AND halfDigitMask;
          sZeroMask = signed_drop_bit (digitBits - 1) (- of_nat s :: digit);
          shiftMask = digitBits - 1;
          un32 = push_bit s high OR (drop_bit ((digitBits - s) AND shiftMask) low AND sZeroMask);
          un10 = push_bit s low;
          un1 = drop_bit halfDigitBits un10;
          un0 = un10 AND halfDigitMask;
          q1 = digitDiv_adjust vn1 vn0 un1 (un32 div vn1) (un32 - (un32 div vn1) * vn1);
          un21 = un32 * halfDigitBase + un1 - q1 * divisor;
          q0 = digitDiv_adjust vn1 vn0 un0 (un21 div vn1) (un21 - (un21 div vn1) * vn1)
      in (q1 * halfDigitBase + q0,
          drop_bit s (un21 * halfDigitBase + un0 - q0 * divisor)))"

lemma two_half_bound:
  fixes x y :: int
  assumes "0 \<le> x" "x < 2 ^ 32" "0 \<le> y" "y < 2 ^ 32"
  shows "x * 2 ^ 32 + y < 2 ^ 64" "x * y < 2 ^ 64"
proof -
  show "x * 2 ^ 32 + y < 2 ^ 64" using assms by simp
  have "x * y < 2 ^ 32 * 2 ^ 32"
    by (rule mult_strict_mono') (use assms in simp_all)
  then show "x * y < 2 ^ 64" by simp
qed

lemma digitDiv_adjust_test:
  fixes vn0 un q rhat :: digit
  assumes "uint vn0 < 2 ^ 32" "uint un < 2 ^ 32" "uint rhat < 2 ^ 32"
  shows "halfDigitBase \<le> q \<or> rhat * halfDigitBase + un < q * vn0 \<longleftrightarrow>
     2 ^ 32 \<le> uint q \<or> uint rhat * 2 ^ 32 + uint un < uint q * uint vn0"
proof -
  have r: "uint (rhat * halfDigitBase) = uint rhat * 2 ^ 32"
    by (subst uint_mult_small) (use assms in \<open>simp_all add: half_consts\<close>)
  have "uint (rhat * halfDigitBase + un) = uint rhat * 2 ^ 32 + uint un"
    by (subst uint_plus_small) (use assms two_half_bound(1) [of "uint rhat" "uint un"] in \<open>simp_all add: r\<close>)
  moreover have "uint (q * vn0) = uint q * uint vn0" if "uint q < 2 ^ 32"
    by (subst uint_mult_small) (use assms that two_half_bound(2) [of "uint q" "uint vn0"] in simp_all)
  ultimately show ?thesis
    by (cases "uint q < 2 ^ 32") (auto simp: word_le_def word_less_def half_consts)
qed

lemma trial_too_big:
  fixes u un v1 v0 q rhat b :: int
  assumes "q * v1 + rhat = u" "0 < v1 * b + v0"
  shows "(u * b + un) div (v1 * b + v0) < q \<longleftrightarrow> rhat * b + un < q * v0"
proof -
  have "u * b + un < q * (v1 * b + v0) \<longleftrightarrow> rhat * b + un < q * v0"
    unfolding assms(1)[symmetric] by (auto simp: algebra_simps)
  then show ?thesis
    using assms(2) by (simp add: int_div_less_iff)
qed

lemma digitDiv_adjust_correct:
  fixes vn1 vn0 un q rhat :: digit
  assumes "uint q * uint vn1 + uint rhat = u" "uint rhat < 2 ^ 32"
    "uint q \<le> 2 ^ 32 + 1" "(u * 2 ^ 32 + uint un) div v \<le> uint q"
    and "v = uint vn1 * 2 ^ 32 + uint vn0" "u < v"
    and "uint vn1 < 2 ^ 32" "0 < uint vn1" "uint vn0 < 2 ^ 32" "uint un < 2 ^ 32" 
  shows "uint (digitDiv_adjust vn1 vn0 un q rhat) = (u * 2 ^ 32 + uint un) div v"
  using assms
proof (induction vn1 vn0 un q rhat rule: digitDiv_adjust.induct)
  case (1 vn1 vn0 un q rhat)
  let ?b = "2 ^ 32 :: int"
  let ?Q = "(u * ?b + uint un) div v"
  have vpos: "0 < v" unfolding 1(6) using 1(9) by (simp add: add_pos_nonneg)
  have small: "?Q < ?b"
  proof -
    have "u * ?b + uint un < ?b * v" using 1(7,11) by (simp add: 1(6))
    then show ?thesis using vpos by (simp add: int_div_less_iff)
  qed
  show ?case
  proof (cases "?b \<le> uint q \<or> uint rhat * ?b + uint un < uint q * uint vn0")
    case False
    then have "\<not> (halfDigitBase \<le> q \<or> rhat * halfDigitBase + un < q * vn0)"
      using digitDiv_adjust_test 1 by blast
    then have "digitDiv_adjust vn1 vn0 un q rhat = q"
      by (subst digitDiv_adjust.simps) simp
    moreover have "\<not> ?Q < uint q"
      using trial_too_big [of "uint q" "uint vn1" "uint rhat" u ?b "uint vn0" "uint un"] False 1 vpos by auto
    ultimately show ?thesis using 1(5) by simp
  next
    case True
    then have t: "halfDigitBase \<le> q \<or> rhat * halfDigitBase + un < q * vn0"
      using digitDiv_adjust_test 1 by blast
    have big: "?Q < uint q"
      using trial_too_big [of "uint q" "uint vn1" "uint rhat" u ?b "uint vn0" "uint un"] True 1 vpos small by auto
    moreover have "0 \<le> u"
      unfolding 1(2) [symmetric] by simp
    then have "0 \<le> ?Q"
      using vpos by (simp add: pos_imp_zdiv_nonneg_iff)
    ultimately have "0 < uint q"
      by (rule le_less_trans [rotated])
    then have q1: "uint (q - 1) = uint q - 1"
      by (intro uint_minus_one) (auto simp del: word_neq_0_conv)
    have r1: "uint (rhat + vn1) = uint rhat + uint vn1"
      by (rule uint_plus_small) (use 1 in simp)
    have inv: "uint (q - 1) * uint vn1 + uint (rhat + vn1) = u"
      using 1(2) by (simp add: q1 r1 algebra_simps)
    show ?thesis
    proof (cases "halfDigitBase \<le> rhat + vn1")
      case True
      then have rb: "?b \<le> uint (rhat + vn1)" by (simp add: word_le_def half_consts)
      have "uint (q - 1) * uint vn0 \<le> ?b * ?b"
        by (rule mult_mono) (use 1 q1 in simp_all)
      also have "\<dots> \<le> uint (rhat + vn1) * ?b + uint un"
        by (rule add_increasing2) (use rb in \<open>simp_all add: mult_right_mono\<close>)
      finally have "\<not> ?Q < uint (q - 1)"
        using trial_too_big [OF inv, of ?b "uint vn0" "uint un"] 1 vpos by simp
      with big q1 have "uint (q - 1) = ?Q" by linarith
      then show ?thesis using t True
        by (subst digitDiv_adjust.simps) simp
    next
      case False
      then have rb: "uint (rhat + vn1) < ?b" by (simp add: word_le_def half_consts)
      have "uint (digitDiv_adjust vn1 vn0 un (q - 1) (rhat + vn1)) = ?Q"
        by (rule 1(1) [OF t refl refl False inv rb]) (use 1 big q1 in simp_all)
      then show ?thesis using t False
        by (subst digitDiv_adjust.simps) simp
    qed
  qed
qed

lemma digitDiv_half_step:
  fixes u un d :: digit
  assumes d: "2 ^ 63 \<le> uint d" and u: "uint u < uint d" and un: "uint un < 2 ^ 32"
  defines "q \<equiv> digitDiv_adjust (drop_bit 32 d) (d AND mask 32) un (u div drop_bit 32 d)
                 (u - (u div drop_bit 32 d) * drop_bit 32 d)"
  shows "uint q = (uint u * 2 ^ 32 + uint un) div uint d" "uint q < 2 ^ 32"
    "uint (u * halfDigitBase + un - q * d) = (uint u * 2 ^ 32 + uint un) mod uint d"
proof -
  let ?v1 = "drop_bit 32 d" and ?v0 = "d AND mask 32" and ?N = "uint u * 2 ^ 32 + uint un"
  have v1: "uint ?v1 = uint d div 2 ^ 32" by (rule uint_drop_bit)
  have v0: "uint ?v0 = uint d mod 2 ^ 32" by (rule uint_and_mask)
  have dv: "uint d = uint ?v1 * 2 ^ 32 + uint ?v0" unfolding v1 v0 by simp
  have v1b: "2 ^ 31 \<le> uint ?v1" "uint ?v1 < 2 ^ 32" "uint ?v0 < 2 ^ 32"
    unfolding v1 v0 using d uint_lt2p [of d] by (simp_all add: int_le_div_iff int_div_less_iff)
  have qh: "uint (u div ?v1) = uint u div uint ?v1"
    by (rule uint_div_distrib)
  have rh: "uint (u - (u div ?v1) * ?v1) = uint u mod uint ?v1"
    by (metis minus_div_mult_eq_mod uint_mod_distrib)
  have rb: "uint u mod uint ?v1 < 2 ^ 32"
    by (rule less_trans [OF pos_mod_bound]) (use v1b in simp_all)
  have qr: "uint (u div ?v1) * uint ?v1 + uint (u - (u div ?v1) * ?v1) = uint u"
    unfolding qh rh by simp
  have Nd: "?N < uint d * 2 ^ 32"
    using u un by simp
  have qle: "uint (u div ?v1) \<le> 2 ^ 32 + 1"
  proof -
    have "uint u < (2 ^ 32 + 2) * uint ?v1"
      using u v1b unfolding dv by simp
    then have "uint u div uint ?v1 < 2 ^ 32 + 2"
      using v1b by (simp add: int_div_less_iff)
    then show ?thesis by (simp add: qh)
  qed
  have Qle: "?N div uint d \<le> uint (u div ?v1)"
  proof -
    have "uint u < (uint u div uint ?v1 + 1) * uint ?v1"
      using v1b int_div_less_iff [of "uint ?v1" "uint u" "uint u div uint ?v1 + 1"] by simp
    then have "?N < (uint u div uint ?v1 + 1) * uint ?v1 * 2 ^ 32"
      using un by simp
    also have "\<dots> \<le> (uint u div uint ?v1 + 1) * uint d"
      unfolding mult.assoc
      by (rule mult_left_mono) (use dv v1b in \<open>simp_all add: pos_imp_zdiv_nonneg_iff add_nonneg_nonneg\<close>)
    finally have "?N div uint d < uint u div uint ?v1 + 1"
      using d by (subst int_div_less_iff) simp_all
    then show ?thesis by (simp add: qh)
  qed
  show q: "uint q = ?N div uint d"
    unfolding q_def
    by (rule digitDiv_adjust_correct [OF qr _ qle Qle dv u])
      (use v1b un rh rb in simp_all)
  show "uint q < 2 ^ 32"
    unfolding q using Nd d by (subst int_div_less_iff) (simp_all add: mult.commute)
  have "u * halfDigitBase + un - q * d = word_of_int (?N - uint q * uint d)"
    by (simp add: half_consts)
  moreover have "?N - uint q * uint d = ?N mod uint d"
    unfolding q by (rule minus_div_mult_eq_mod)
  ultimately have w: "u * halfDigitBase + un - q * d = word_of_int (?N mod uint d)"
    by (simp only:)
  have "0 < uint d"
    using d by simp
  then have "0 \<le> ?N mod uint d" "?N mod uint d < 2 ^ LENGTH(64)"
    by (simp, intro less_trans [OF pos_mod_bound uint_lt2p])
  then show "uint (u * halfDigitBase + un - q * d) = ?N mod uint d"
    by (rule uint_eq_modI [OF w])
qed

lemma digitDiv_normalize:
  fixes high low :: digit
  assumes "s < 64" "uint high * 2 ^ s < 2 ^ 64"
  defines "un32 \<equiv> push_bit s high OR (drop_bit ((64 - s) AND 63) low
              AND (signed_drop_bit 63 (- of_nat s :: digit)))"
  shows "uint un32 * 2 ^ 64 + uint (push_bit s low) = (uint high * 2 ^ 64 + uint low) * 2 ^ s"
proof (cases "s = 0")
  case True
  then show ?thesis by (simp add: un32_def)
next
  case False
  with \<open>s < 64\<close> have s: "0 < s" "s < 64" by simp_all
  have amt: "(64 - s) AND 63 = 64 - s"
  proof -
    have "mask 6 = (63 :: nat)"
      by (simp add: mask_eq_exp_minus_1)
    then have "(64 - s) AND 63 = (64 - s) mod 2 ^ 6"
      by (metis take_bit_eq_mask take_bit_eq_mod)
    with s show ?thesis by simp
  qed
  have "sint (- of_nat s :: digit) = - int s"
  proof -
    have "- of_nat s = (word_of_int (- int s) :: digit)" by simp
    then have "sint (- of_nat s :: digit) = signed_take_bit 63 (- int s)"
      by (simp only: signed_of_int) simp
    with s show ?thesis by (simp add: signed_take_bit_int_eq_self)
  qed
  then have "sint (signed_drop_bit 63 (- of_nat s :: digit)) = - 1"
    using s by (simp add: sint_signed_drop_bit_eq drop_bit_eq_div)
  then have zmask: "signed_drop_bit 63 (- of_nat s :: digit) = - 1"
    by (metis sint_n1 signed_word_eqI)
  let ?k = "2 ^ s :: int" and ?lo = "drop_bit (64 - s) low"
  have "push_bit s high AND ?lo = 0"
    using s by (auto simp: bit_eq_iff bit_simps dest: bit_imp_le_length)
  then have "uint un32 = uint (push_bit s high) + uint ?lo"
    unfolding un32_def amt zmask by (simp add: uint_or_disjoint)
  also have "uint (push_bit s high) = uint high * ?k"
    using assms(2) by (simp add: uint_push_bit)
  also have "uint ?lo = uint low div 2 ^ (64 - s)"
    by (rule uint_drop_bit)
  also have "uint low div 2 ^ (64 - s) = uint low * ?k div 2 ^ 64"
  proof -
    have e: "(2::int) ^ 64 = 2 ^ (64 - s) * ?k"
      using s by (simp flip: power_add)
    show ?thesis unfolding e by simp
  qed
  finally have "uint un32 * 2 ^ 64 = uint high * ?k * 2 ^ 64 + uint low * ?k div 2 ^ 64 * 2 ^ 64"
    by (simp add: algebra_simps)
  moreover have "uint (push_bit s low) = uint low * ?k mod 2 ^ 64"
    by (simp add: uint_push_bit)
  ultimately show ?thesis
    using div_mult_mod_eq [of "uint low * ?k" "2 ^ 64"] by (simp add: algebra_simps)
qed

lemma digitDiv_correct:
  assumes "uint high < uint divisor" "digitDiv high low divisor = (q, r)"
  shows "uint q = (uint high * 2 ^ 64 + uint low) div uint divisor"
    "uint r = (uint high * 2 ^ 64 + uint low) mod uint divisor"
proof -
  let ?s = "clz divisor" and ?n = "uint high * 2 ^ 64 + uint low"
  let ?k = "2 ^ ?s :: int"
  define d where "d = push_bit ?s divisor"
  define un32 where "un32 = push_bit ?s high OR (drop_bit ((64 - ?s) AND 63) low
              AND (signed_drop_bit 63 (- of_nat ?s :: digit)))"
  define un10 where "un10 = push_bit ?s low"
  have "divisor \<noteq> 0" using assms(1) by auto
  note s = clz_bounds [OF this]
  have d: "uint d = uint divisor * ?k"
    unfolding d_def using s by (simp add: uint_push_bit)
  have "uint high * ?k < uint divisor * ?k"
    using assms(1) by simp
  with s(3) have "uint high * ?k < 2 ^ 64"
    by linarith
  then have n: "uint un32 * 2 ^ 64 + uint un10 = ?n * ?k"
    unfolding un32_def un10_def using s(1) by (intro digitDiv_normalize)
  have "?n < uint divisor * 2 ^ 64"
    using assms(1) uint_lt2p [of low] by simp
  then have "?n * ?k < uint d * 2 ^ 64"
    unfolding d by simp
  then have "uint un32 * 2 ^ 64 < uint d * 2 ^ 64"
    unfolding n [symmetric] using uint_nonnegative [of un10] by linarith
  then have u: "uint un32 < uint d"
    by simp
  let ?un1 = "drop_bit 32 un10" and ?un0 = "un10 AND mask 32"
  have un: "uint ?un1 < 2 ^ 32" "uint ?un0 < 2 ^ 32" "uint un10 = uint ?un1 * 2 ^ 32 + uint ?un0"
    using uint_lt2p [of un10] by (simp_all add: uint_drop_bit uint_and_mask int_div_less_iff)
  define q1 where "q1 = digitDiv_adjust (drop_bit 32 d) (d AND mask 32) ?un1 (un32 div drop_bit 32 d)
                 (un32 - (un32 div drop_bit 32 d) * drop_bit 32 d)"
  define un21 where "un21 = un32 * halfDigitBase + ?un1 - q1 * d"
  define q0 where "q0 = digitDiv_adjust (drop_bit 32 d) (d AND mask 32) ?un0 (un21 div drop_bit 32 d)
                 (un21 - (un21 div drop_bit 32 d) * drop_bit 32 d)"
  have d63: "2 ^ 63 \<le> uint d" using s d by simp
  note h1 = digitDiv_half_step [OF d63 u un(1), folded q1_def, folded un21_def]
  have u21: "uint un21 < uint d" using h1(3) d63 by simp
  note h0 = digitDiv_half_step [OF d63 u21 un(2), folded q0_def]
  have qr: "q = q1 * halfDigitBase + q0" "r = drop_bit ?s (un21 * halfDigitBase + ?un0 - q0 * d)"
    using assms(2)
    by (simp_all add: digitDiv_def Let_def half_consts(1,2) digitBits_def q1_def q0_def un21_def
        un32_def un10_def d_def)
  have "?n * ?k = (uint un32 * 2 ^ 32 + uint ?un1) * 2 ^ 32 + uint ?un0"
    unfolding n [symmetric] un(3) by simp
  also have "\<dots> = (uint q1 * uint d + uint un21) * 2 ^ 32 + uint ?un0"
    unfolding h1(1,3) by simp
  also have "\<dots> = uint q1 * 2 ^ 32 * uint d + (uint un21 * 2 ^ 32 + uint ?un0)"
    by (simp add: algebra_simps)
  also have "\<dots> = (uint q1 * 2 ^ 32 + uint q0) * uint d + (uint un21 * 2 ^ 32 + uint ?un0) mod uint d"
    unfolding h0(1) by (simp add: distrib_right)
  finally have eq: "?n * ?k = uint d * (uint q1 * 2 ^ 32 + uint q0) + (uint un21 * 2 ^ 32 + uint ?un0) mod uint d"
    by (simp only: mult.commute)
  have "0 < uint d" using d63 by simp
  then have m: "0 \<le> (uint un21 * 2 ^ 32 + uint ?un0) mod uint d" "(uint un21 * 2 ^ 32 + uint ?un0) mod uint d < uint d"
    by simp_all
  have "?n * ?k div uint d = uint q1 * 2 ^ 32 + uint q0"
    by (rule int_div_pos_eq [OF eq m])
  moreover have "?n * ?k mod uint d = (uint un21 * 2 ^ 32 + uint ?un0) mod uint d"
    by (rule int_mod_pos_eq [OF eq m])
  ultimately have div: "?n div uint divisor = uint q1 * 2 ^ 32 + uint q0"
    and mod: "(?n mod uint divisor) * ?k = (uint un21 * 2 ^ 32 + uint ?un0) mod uint d"
    unfolding d by (simp_all add: mult_mod_left)
  have "uint q1 * 2 ^ 32 + uint q0 < 2 ^ 64"
    using h1(2) h0(2) by (intro two_half_bound) simp_all
  then have "uint q = uint q1 * 2 ^ 32 + uint q0"
    unfolding qr by (intro uint_eq_modI) (simp_all add: half_consts)
  then show "uint q = ?n div uint divisor"
    by (simp only: div)
  show "uint r = ?n mod uint divisor"
    unfolding qr uint_drop_bit h0(3) mod [symmetric] by simp
qed

lemmas digit_value_simps = digitAdd_value digitSub_value digitMul_value

section \<open>The interface of the digit division\<close>

text \<open>
  \<open>digitDiv\<close> has one body per compiler and processor: the \<open>divq\<close> instruction, or the portable
  code above. The divisions of longer numbers take the division of two digits by one
  as a parameter and rely on this contract only. The second law (the quotient fits a digit) is
  what the assertion \<open>high < divisor\<close> is for.
\<close>

type_synonym digit_div = "digit \<Rightarrow> digit \<Rightarrow> digit \<Rightarrow> digit \<times> digit"

locale digit_divider =
  fixes dv :: "digit \<Rightarrow> digit \<Rightarrow> digit \<Rightarrow> digit \<times> digit"
  assumes dv_quotient: "uint high < uint divisor \<Longrightarrow>
      uint (fst (dv high low divisor)) = (uint high * dbase + uint low) div uint divisor"
    and dv_remainder: "uint high < uint divisor \<Longrightarrow>
      uint (snd (dv high low divisor)) = (uint high * dbase + uint low) mod uint divisor"
begin

lemma dv_value:
  assumes "uint high < uint divisor" "dv high low divisor = (q, r)"
  shows "uint high * dbase + uint low = uint q * uint divisor + uint r" "uint r < uint divisor"
proof -
  have "0 < uint divisor"
    using assms(1) uint_nonnegative [of high] by linarith
  with dv_quotient [OF assms(1), of low] dv_remainder [OF assms(1), of low]
  show "uint high * dbase + uint low = uint q * uint divisor + uint r" "uint r < uint divisor"
    by (simp_all add: assms(2))
qed

end

interpretation portable: digit_divider digitDiv
proof
  fix high divisor low :: digit
  assume "uint high < uint divisor"
  from digitDiv_correct [OF this, of low]
  show "uint (fst (digitDiv high low divisor)) = (uint high * dbase + uint low) div uint divisor"
    "uint (snd (digitDiv high low divisor)) = (uint high * dbase + uint low) mod uint divisor"
    by (metis dbase_def prod.collapse)+
qed

section \<open>Comparison of a product, and powers of a digit\<close>

lemma productGreaterThan_iff:
  "productGreaterThan f1 f2 high low \<longleftrightarrow> uint high * dbase + uint low < uint f1 * uint f2"
proof -
  obtain l h where lh: "digitMul f1 f2 = (l, h)"
    by (cases "digitMul f1 f2")
  note v = digitMul_value [OF lh, symmetric]
  have "high < h \<or> (h = high \<and> low < l) \<longleftrightarrow>
      uint high * dbase + uint low < uint l + dbase * uint h"
  proof (cases "uint high" "uint h" rule: linorder_cases)
    case less
    then have "dbase * (uint high + 1) \<le> dbase * uint h"
      by (intro mult_left_mono) simp_all
    then have "dbase * uint high + uint low < uint l + dbase * uint h"
      unfolding distrib_left using uint_less_dbase [of low] uint_nonnegative [of l] by linarith
    with less show ?thesis
      by (simp add: word_less_def mult.commute)
  next
    case equal
    then show ?thesis
      by (simp add: word_less_def word_uint_eq_iff algebra_simps)
  next
    case greater
    then have "dbase * (uint h + 1) \<le> dbase * uint high"
      by (intro mult_left_mono) simp_all
    then have "uint l + dbase * uint h < dbase * uint high + uint low"
      unfolding distrib_left using uint_less_dbase [of l] uint_nonnegative [of low] by linarith
    with greater show ?thesis
      by (simp add: word_less_def word_uint_eq_iff mult.commute)
  qed
  then show ?thesis
    by (simp add: productGreaterThan_def lh v)
qed

lemma digitPow_loop_eq: "digitPow_loop result base exponent = result * base ^ unat exponent"
proof (induction result base exponent rule: digitPow_loop.induct)
  case (1 result base exponent)
  show ?case
  proof (cases "0 < exponent")
    case True
    have half: "unat (drop_bit 1 exponent) = unat exponent div 2"
      by (simp add: unat_drop_bit_eq drop_bit_eq_div unat_div_distrib)
    have odd: "exponent AND 1 \<noteq> 0 \<longleftrightarrow> odd (unat exponent)"
      by (rule and_one_neq_0_iff)
    have step: "(base * base) ^ (unat exponent div 2) * (if odd (unat exponent) then base else 1)
        = base ^ unat exponent"
      by (cases "even (unat exponent)")
        (auto elim!: evenE oddE simp: power_mult_distrib power_mult power2_eq_square)
    have "digitPow_loop result base exponent =
        (if odd (unat exponent) then result * base else result) * (base * base) ^ (unat exponent div 2)"
      using 1 [OF True] True by (subst digitPow_loop.simps) (simp only: half odd if_True)
    also have "\<dots> = result * ((base * base) ^ (unat exponent div 2) * (if odd (unat exponent) then base else 1))"
      by simp
    finally show ?thesis
      unfolding step .
  next
    case False
    then show ?thesis
      by (subst digitPow_loop.simps) (simp add: word_greater_zero_iff)
  qed
qed

lemma digitPow_eq: "digitPow base exponent = base ^ unat exponent"
  by (simp add: digitPow_def digitPow_loop_eq)

end
