(* ===== verification/BigIntMagnitude.thy ===== *)
theory BigIntMagnitude
  imports BigIntDigits
begin

text \<open>
  The \<open>JSBigInt\<close> cell and the loops that work on absolute values (JSBigInt.cpp): allocation and
  trimming, negation, comparison, addition and subtraction. A cell is its sign and its
  digits, least significant first; a heap pointer is the cell, since no operation modelled
  here lets a caller see a cell it still fills. The value of a digit list is \<open>dval\<close>; each loop has one
  equation that says what it does to that value.
\<close>

section \<open>The cell\<close>

record js_bigint =
  m_sign :: bool
  m_data :: "digit list"

definition bi_length :: "js_bigint \<Rightarrow> nat" where
  "bi_length x = length (m_data x)"

definition isZero :: "js_bigint \<Rightarrow> bool" where
  "isZero x = (bi_length x = 0)"

definition maxLengthBits :: nat where "maxLengthBits = 1024 * 1024"

definition maxLength :: nat where "maxLength = maxLengthBits div digitBits"

text \<open>
  \<open>createWithLength\<close> leaves the digits uninitialised; the zeros below stand for them, and every
  caller writes each digit before it is read. The allocator itself never fails here:
  the only error is the length limit.
\<close>

definition createWithLength :: "nat \<Rightarrow> js_bigint throws" where
  "createWithLength len =
     (if maxLength < len then Inl OutOfMemoryError
      else Inr \<lparr>m_sign = False, m_data = replicate len 0\<rparr>)"

definition createZero :: "js_bigint throws" where
  "createZero = createWithLength 0"

text \<open>\<open>createFrom(int32_t)\<close>: the magnitude of \<open>value\<close> is computed as a 64-bit integer.\<close>

definition createFrom_int32 :: "32 word \<Rightarrow> js_bigint throws" where
  "createFrom_int32 val =
     (if val = 0 then createZero
      else andThen (createWithLength 1) (\<lambda>bigInt.
        if val <s 0
        then Inr (bigInt\<lparr>m_data := [- (scast val :: 64 word)], m_sign := True\<rparr>)
        else Inr (bigInt\<lparr>m_data := [scast val]\<rparr>)))"

definition createFromImpl :: "64 word \<Rightarrow> bool \<Rightarrow> js_bigint throws" where
  "createFromImpl val sign =
     (if val = 0 then createZero
      else andThen (createWithLength 1) (\<lambda>bigInt.
        Inr (bigInt\<lparr>m_data := [val], m_sign := sign\<rparr>)))"

definition createFrom_int64 :: "64 word \<Rightarrow> js_bigint throws" where
  "createFrom_int64 val =
     (if val <s 0 then createFromImpl (- (val + 1) + 1) True else createFromImpl val False)"

definition createFrom_Int128 :: "128 word \<Rightarrow> js_bigint throws" where
  "createFrom_Int128 val =
     (if val = 0 then createZero
      else
        let (unsignedValue, sign) = (if val <s 0 then (- (val + 1) + 1, True) else (val, False))
        in if unsignedValue \<le> mask 64 then createFromImpl (ucast unsignedValue) sign
           else andThen (createWithLength 2) (\<lambda>bigInt.
             Inr (bigInt\<lparr>m_data := [ucast unsignedValue, ucast (drop_bit 64 unsignedValue)],
                          m_sign := sign\<rparr>)))"

fun rightTrim_loop :: "digit list \<Rightarrow> nat \<Rightarrow> nat" where
  "rightTrim_loop ds 0 = 0"
| "rightTrim_loop ds (Suc nonZeroIndex) =
     (if ds ! nonZeroIndex = 0 then rightTrim_loop ds nonZeroIndex else Suc nonZeroIndex)"

definition rightTrim :: "js_bigint \<Rightarrow> js_bigint throws" where
  "rightTrim this =
     (if isZero this then Inr this
      else
        let newLength = rightTrim_loop (m_data this) (bi_length this)
        in if newLength = 0 then createZero
           else if newLength = bi_length this then Inr this
           else andThen (createWithLength newLength) (\<lambda>trimmedBigInt.
             Inr (trimmedBigInt\<lparr>m_data := take newLength (m_data this), m_sign := m_sign this\<rparr>)))"

text \<open>\<open>copy\<close> and \<open>unaryMinusImpl\<close>.\<close>

definition copy_bigint :: "js_bigint \<Rightarrow> js_bigint throws" where
  "copy_bigint x =
     andThen (createWithLength (bi_length x)) (\<lambda>result.
       Inr (result\<lparr>m_data := m_data x, m_sign := m_sign x\<rparr>))"

definition unaryMinusImpl :: "js_bigint \<Rightarrow> js_bigint throws" where
  "unaryMinusImpl x =
     (if isZero x then createZero
      else andThen (copy_bigint x) (\<lambda>result. Inr (result\<lparr>m_sign := \<not> m_sign x\<rparr>)))"

section \<open>Values and the canonical form\<close>

fun dval :: "digit list \<Rightarrow> int" where
  "dval [] = 0"
| "dval (d # ds) = uint d + dbase * dval ds"

definition bigint_val :: "js_bigint \<Rightarrow> int" where
  "bigint_val x = (if m_sign x then - dval (m_data x) else dval (m_data x))"

text \<open>
  The well-formedness every operation keeps: no leading zero digit, zero has no sign, and the
  length is within the limit.
\<close>

definition trimmed :: "digit list \<Rightarrow> bool" where
  "trimmed ds \<longleftrightarrow> ds = [] \<or> last ds \<noteq> 0"

definition canonical :: "js_bigint \<Rightarrow> bool" where
  "canonical x \<longleftrightarrow> trimmed (m_data x) \<and> (m_data x = [] \<longrightarrow> \<not> m_sign x) \<and> bi_length x \<le> maxLength"

lemma dval_nonneg [simp, intro]: "0 \<le> dval ds"
  by (induction ds) simp_all

lemma dval_append [dval_simps]: "dval (xs @ ys) = dval xs + dbase ^ length xs * dval ys"
  by (induction xs) (simp_all add: algebra_simps)

lemma dval_replicate_0 [dval_simps]: "dval (replicate n 0) = 0"
  by (induction n) simp_all

lemma dval_less: "dval ds < dbase ^ length ds"
proof (induction ds)
  case (Cons d ds)
  have "uint d + dbase * dval ds < dbase + dbase * dval ds"
    by simp
  also have "\<dots> = dbase * (dval ds + 1)"
    by (simp add: algebra_simps)
  also have "\<dots> \<le> dbase * dbase ^ length ds"
    using Cons.IH by (intro mult_left_mono) simp_all
  finally show ?case
    by simp
qed simp

lemma dval_update:
  "i < length ds \<Longrightarrow> dval (ds[i := d]) = dval ds + dbase ^ i * (uint d - uint (ds ! i))"
proof (induction ds arbitrary: i)
  case (Cons a ds)
  show ?case
  proof (cases i)
    case (Suc j)
    with Cons have "dval (ds[j := d]) = dval ds + dbase ^ j * (uint d - uint (ds ! j))"
      by simp
    then show ?thesis
      by (simp add: Suc distrib_left mult.assoc)
  qed simp
qed simp

lemma dval_eq_0_iff: "dval ds = 0 \<longleftrightarrow> (\<forall>d \<in> set ds. d = 0)"
  by (induction ds) (auto simp: add_nonneg_eq_0_iff uint_0_iff)

lemma dval_last_ge: "ds \<noteq> [] \<Longrightarrow> last ds \<noteq> 0 \<Longrightarrow> dbase ^ (length ds - 1) \<le> dval ds"
proof -
  assume ds: "ds \<noteq> []" "last ds \<noteq> 0"
  then obtain xs d where xs: "ds = xs @ [d]" "d \<noteq> 0"
    by (metis append_butlast_last_id)
  have "1 \<le> uint d"
    using xs(2) uint_nonnegative [of d] by (metis int_one_le_iff_zero_less order_le_less uint_0_iff)
  then have "dbase ^ length xs * 1 \<le> dbase ^ length xs * uint d"
    by (intro mult_left_mono) simp_all
  then show ?thesis
    by (simp add: xs dval_simps add_increasing)
qed

lemma dval_div_base: "dval (d # ds) div dbase = dval ds" "dval (d # ds) mod dbase = uint d"
  by (simp_all add: div_mult_self4 mod_mult_self4 zdiv_eq_0_iff
      add.commute [of "uint d"])

lemma dval_inj: "length xs = length ys \<Longrightarrow> dval xs = dval ys \<Longrightarrow> xs = ys"
proof (induction xs ys rule: list_induct2)
  case (Cons x xs y ys)
  from Cons.prems have "dval (x # xs) div dbase = dval (y # ys) div dbase"
    "dval (x # xs) mod dbase = dval (y # ys) mod dbase"
    by simp_all
  then have "dval xs = dval ys" "uint x = uint y"
    unfolding dval_div_base by simp_all
  with Cons.IH show ?case
    by (simp add: word_uint_eq_iff)
qed simp

section \<open>Trimming\<close>

lemma trimmed_length_le:
  assumes "trimmed xs" "dval xs < dbase ^ n"
  shows "length xs \<le> n"
proof (cases "xs = []")
  case False
  with assms(1) have "dbase ^ (length xs - 1) \<le> dval xs"
    by (intro dval_last_ge) (auto simp: trimmed_def)
  with assms(2) have "dbase ^ (length xs - 1) < dbase ^ n"
    by linarith
  then have "length xs - 1 < n"
    using power_strict_increasing_iff [of dbase "length xs - 1" n] by simp
  then show ?thesis by simp
qed simp

lemma trimmed_dval_inj:
  assumes "trimmed xs" "trimmed ys" "dval xs = dval ys"
  shows "xs = ys"
  using assms trimmed_length_le [of xs "length ys"] trimmed_length_le [of ys "length xs"]
    dval_less [of xs] dval_less [of ys]
  by (intro dval_inj) simp_all

lemma trimmed_dval_eq_0: "trimmed ds \<Longrightarrow> dval ds = 0 \<longleftrightarrow> ds = []"
  by (cases ds rule: rev_cases) (auto simp: trimmed_def dval_eq_0_iff)

lemma canonical_inj:
  assumes "canonical x" "canonical y" "bigint_val x = bigint_val y"
  shows "x = y"
proof -
  have t: "trimmed (m_data x)" "trimmed (m_data y)" "m_data x = [] \<longrightarrow> \<not> m_sign x" "m_data y = [] \<longrightarrow> \<not> m_sign y"
    using assms by (auto simp: canonical_def)
  have "dval (m_data x) = dval (m_data y)"
    using assms(3) dval_nonneg [of "m_data x"] dval_nonneg [of "m_data y"]
    unfolding bigint_val_def by (auto split: if_splits simp del: dval_nonneg)
  moreover from this have d: "m_data x = m_data y"
    using t by (intro trimmed_dval_inj)
  ultimately have "m_sign x = m_sign y"
    using assms(3) t trimmed_dval_eq_0 [of "m_data x"] unfolding bigint_val_def
    by (auto split: if_splits)
  with d show ?thesis by (cases x; cases y) simp
qed

lemma rightTrim_loop_props:
  assumes "n \<le> length ds"
  shows "rightTrim_loop ds n \<le> n" "dval (take (rightTrim_loop ds n) ds) = dval (take n ds)"
    "trimmed (take (rightTrim_loop ds n) ds)"
  using assms
proof (induction n)
  case (Suc n)
  {
    case 1
    with Suc show ?case by (simp add: le_SucI)
  next
    case 2
    with Suc show ?case by (simp add: take_Suc_conv_app_nth dval_simps)
  next
    case 3
    then have "last (take (Suc n) ds) = ds ! n"
      by (simp add: take_Suc_conv_app_nth)
    with 3 Suc show ?case by (auto simp: trimmed_def)
  }
qed (simp_all add: trimmed_def)

lemma createWithLength_Inr: "n \<le> maxLength \<Longrightarrow> createWithLength n = Inr \<lparr>m_sign = False, m_data = replicate n 0\<rparr>"
  by (simp add: createWithLength_def)

lemma createWithLength_error: "createWithLength n = Inl e \<longleftrightarrow> maxLength < n \<and> e = OutOfMemoryError"
  by (auto simp: createWithLength_def)

lemma createZero_eq: "createZero = Inr \<lparr>m_sign = False, m_data = []\<rparr>"
  by (simp add: createZero_def createWithLength_def)

lemma canonical_zero [simp]: "canonical \<lparr>m_sign = False, m_data = []\<rparr>" "bigint_val \<lparr>m_sign = False, m_data = []\<rparr> = 0"
  by (simp_all add: canonical_def trimmed_def bi_length_def bigint_val_def)

lemma rightTrim_correct:
  assumes "length ds \<le> maxLength" "ds = [] \<longrightarrow> \<not> s"
  obtains r where "rightTrim \<lparr>m_sign = s, m_data = ds\<rparr> = Inr r" "canonical r"
    "bigint_val r = (if s then - dval ds else dval ds)"
proof -
  let ?n = "rightTrim_loop ds (length ds)"
  note p = rightTrim_loop_props [of "length ds" ds, simplified]
  show ?thesis
  proof (cases "?n = 0 \<or> ds = []")
    case True
    then have "dval ds = 0"
      using p(2) by auto
    moreover have "rightTrim \<lparr>m_sign = s, m_data = ds\<rparr> = Inr \<lparr>m_sign = False, m_data = []\<rparr>"
      using True assms(2) by (auto simp: rightTrim_def isZero_def bi_length_def createZero_eq)
    ultimately show ?thesis
      by (intro that [OF _ canonical_zero(1)]) simp_all
  next
    case False
    have le: "?n \<le> maxLength"
      using p(1) assms(1) by simp
    have "rightTrim \<lparr>m_sign = s, m_data = ds\<rparr> = Inr \<lparr>m_sign = s, m_data = take ?n ds\<rparr>"
      using False le by (auto simp: rightTrim_def isZero_def bi_length_def createWithLength_def Let_def)
    moreover have "canonical \<lparr>m_sign = s, m_data = take ?n ds\<rparr>"
      using False le p by (auto simp: canonical_def bi_length_def)
    ultimately show ?thesis
      using p(2) by (intro that) (auto simp: bigint_val_def)
  qed
qed

section \<open>Comparison\<close>

datatype ComparisonResult = Equal | Undefined | GreaterThan | LessThan

fun absoluteCompare_loop :: "digit list \<Rightarrow> digit list \<Rightarrow> nat \<Rightarrow> ComparisonResult" where
  "absoluteCompare_loop xs ys 0 = Equal"
| "absoluteCompare_loop xs ys (Suc i) =
     (if xs ! i = ys ! i then absoluteCompare_loop xs ys i
      else if ys ! i < xs ! i then GreaterThan else LessThan)"

definition absoluteCompare :: "js_bigint \<Rightarrow> js_bigint \<Rightarrow> ComparisonResult" where
  "absoluteCompare x y =
     (let diff = int (bi_length x) - int (bi_length y)
      in if diff \<noteq> 0 then (if diff < 0 then LessThan else GreaterThan)
         else absoluteCompare_loop (m_data x) (m_data y) (bi_length x))"

definition compareImpl :: "js_bigint \<Rightarrow> js_bigint \<Rightarrow> ComparisonResult" where
  "compareImpl x y =
     (let xSign = m_sign x
      in if xSign \<noteq> m_sign y then (if xSign then LessThan else GreaterThan)
         else
           let result = absoluteCompare x y
           in if result = GreaterThan then (if xSign then LessThan else GreaterThan)
              else if result = LessThan then (if xSign then GreaterThan else LessThan)
              else Equal)"

fun equals_loop :: "digit list \<Rightarrow> digit list \<Rightarrow> bool" where
  "equals_loop (x # xs) (y # ys) = (if x \<noteq> y then False else equals_loop xs ys)"
| "equals_loop _ _ = True"

definition equals :: "js_bigint \<Rightarrow> js_bigint \<Rightarrow> bool" where
  "equals x y =
     (if m_sign x \<noteq> m_sign y then False
      else if bi_length x \<noteq> bi_length y then False
      else equals_loop (m_data x) (m_data y))"

text \<open>The specification of the comparisons.\<close>

definition int_compare :: "int \<Rightarrow> int \<Rightarrow> ComparisonResult" where
  "int_compare a b = (if a < b then LessThan else if b < a then GreaterThan else Equal)"

lemma absoluteCompare_loop_correct:
  assumes "n \<le> length xs" "n \<le> length ys"
  shows "absoluteCompare_loop xs ys n = int_compare (dval (take n xs)) (dval (take n ys))"
  using assms
proof (induction n)
  case (Suc n)
  let ?a = "dval (take n xs)" and ?b = "dval (take n ys)" and ?w = "dbase ^ n"
  have ab: "0 \<le> ?a" "?a < ?w" "0 \<le> ?b" "?b < ?w"
    using Suc.prems dval_less [of "take n xs"] dval_less [of "take n ys"] by simp_all
  have e: "dval (take (Suc n) zs) = dval (take n zs) + ?w * uint (zs ! n)" if "Suc n \<le> length zs" for zs
    using that by (simp add: take_Suc_conv_app_nth dval_simps)
  have lt: "p + ?w * uint c < q + ?w * uint d" if "uint c < uint d" "p < ?w" "0 \<le> q" for p q and c d :: digit
  proof -
    have "?w * (uint c + 1) \<le> ?w * uint d"
      using that by (intro mult_left_mono) simp_all
    then show ?thesis
      using that(2,3) unfolding distrib_left by linarith
  qed
  show ?case
    using Suc lt [of "xs ! n" "ys ! n" ?a ?b] lt [of "ys ! n" "xs ! n" ?b ?a] ab
    by (cases "uint (xs ! n)" "uint (ys ! n)" rule: linorder_cases)
      (auto simp: e int_compare_def word_less_def word_uint_eq_iff)
qed (simp add: int_compare_def)

lemma absoluteCompare_correct:
  assumes "trimmed (m_data x)" "trimmed (m_data y)"
  shows "absoluteCompare x y = int_compare (dval (m_data x)) (dval (m_data y))"
proof -
  have lt: "dval xs < dval ys" if "length xs < length ys" "trimmed ys" for xs ys
  proof (rule ccontr)
    assume "\<not> dval xs < dval ys"
    then have "dval ys < dbase ^ length xs"
      using dval_less [of xs] by simp
    with that show False
      using trimmed_length_le [of ys "length xs"] by simp
  qed
  show ?thesis
    using assms lt [of "m_data x" "m_data y"] lt [of "m_data y" "m_data x"]
      absoluteCompare_loop_correct [of "bi_length x" "m_data x" "m_data y"]
    by (cases "bi_length x" "bi_length y" rule: linorder_cases)
      (auto simp: absoluteCompare_def Let_def int_compare_def bi_length_def)
qed

lemma compareImpl_correct:
  assumes "canonical x" "canonical y"
  shows "compareImpl x y = int_compare (bigint_val x) (bigint_val y)"
proof -
  have nz: "m_sign z \<Longrightarrow> 0 < dval (m_data z)" if "canonical z" for z
    using that trimmed_dval_eq_0 [of "m_data z"] dval_nonneg [of "m_data z"]
    by (auto simp: canonical_def order_less_le)
  have a: "absoluteCompare x y = int_compare (dval (m_data x)) (dval (m_data y))"
    using assms by (intro absoluteCompare_correct) (simp_all add: canonical_def)
  show ?thesis
    using nz [OF assms(1)] nz [OF assms(2)] dval_nonneg [of "m_data x"] dval_nonneg [of "m_data y"]
    unfolding compareImpl_def Let_def a bigint_val_def int_compare_def by (auto simp del: dval_nonneg)
qed

lemma equals_iff_eq: "equals x y \<longleftrightarrow> x = y"
proof -
  have "equals_loop xs ys \<longleftrightarrow> xs = ys" if "length xs = length ys" for xs ys
    using that by (induction xs ys rule: list_induct2) auto
  then show ?thesis
    by (cases x; cases y) (auto simp: equals_def bi_length_def)
qed

section \<open>Carry and borrow steps\<close>

text \<open>
  A step of a loop calls \<open>digitAdd\<close> or \<open>digitSub\<close> two or three times on one carry, which starts at
  0; \<open>uint n < 3\<close> below only says that the carry itself does not wrap.
\<close>

lemma digitAdd_step:
  assumes "digitAdd a b n = (s, n')" "uint n < 3"
  shows "uint s + dbase * uint n' = uint a + uint b + dbase * uint n" "uint n' \<le> uint n + 1"
proof -
  have n': "uint n' = uint n + of_bool (a + b < a)"
    using assms digitAdd_carry [of a b n] by (auto simp: uint_plus_small split: if_splits)
  then show "uint n' \<le> uint n + 1"
    by simp
  show "uint s + dbase * uint n' = uint a + uint b + dbase * uint n"
    using digitAdd_value [of a b n] assms(1) unfolding n' by (simp add: distrib_left)
qed

lemma digitSub_step:
  assumes "digitSub a b n = (s, n')" "uint n < 3"
  shows "uint s - dbase * uint n' = uint a - uint b - dbase * uint n" "uint n' \<le> uint n + 1"
proof -
  have "snd (digitSub a b n) = n + of_bool (a < a - b)"
    by (simp add: digitSub_def Let_def)
  then have n': "uint n' = uint n + of_bool (a < a - b)"
    using assms by (auto simp: uint_plus_small split: if_splits)
  then show "uint n' \<le> uint n + 1"
    by simp
  show "uint s - dbase * uint n' = uint a - uint b - dbase * uint n"
    using digitSub_value [of a b n] assms(1) unfolding n' by (simp add: distrib_left)
qed

lemma digitAdd_two:
  assumes "digitAdd a b 0 = (s, n)" "digitAdd s c n = (s', n')"
  shows "uint s' + dbase * uint n' = uint a + uint b + uint c" "uint n' \<le> 2"
  using digitAdd_step [OF assms(1)] digitAdd_step [OF assms(2)] by simp_all

lemma digitSub_two:
  assumes "digitSub a b 0 = (s, n)" "digitSub s c n = (s', n')"
  shows "uint s' - dbase * uint n' = uint a - uint b - uint c" "uint n' \<le> 2"
  using digitSub_step [OF assms(1)] digitSub_step [OF assms(2)] by simp_all

section \<open>Addition and subtraction of absolute values\<close>

text \<open>The second loop of \<open>absoluteAdd\<close>, with the final \<open>setDigit(i, carry)\<close>.\<close>

fun absoluteAdd_rest :: "digit list \<Rightarrow> digit \<Rightarrow> digit list" where
  "absoluteAdd_rest [] carry = [carry]"
| "absoluteAdd_rest (x # xs) carry =
     (let (sum, newCarry) = digitAdd x carry 0
      in sum # absoluteAdd_rest xs newCarry)"

fun absoluteAdd_loop :: "digit list \<Rightarrow> digit list \<Rightarrow> digit \<Rightarrow> digit list" where
  "absoluteAdd_loop xs [] carry = absoluteAdd_rest xs carry"
| "absoluteAdd_loop [] (y # ys) carry = [carry]"
| "absoluteAdd_loop (x # xs) (y # ys) carry =
     (let (sum, newCarry) = digitAdd x y 0;
          (sum, newCarry) = digitAdd sum carry newCarry
      in sum # absoluteAdd_loop xs ys newCarry)"

function absoluteAdd :: "js_bigint \<Rightarrow> js_bigint \<Rightarrow> bool \<Rightarrow> js_bigint throws" where
  "absoluteAdd x y resultSign =
     (if bi_length x < bi_length y then absoluteAdd y x resultSign
      else if isZero x then Inr x
      else if isZero y then (if resultSign = m_sign x then Inr x else unaryMinusImpl x)
      else andThen (createWithLength (bi_length x + 1)) (\<lambda>result.
        rightTrim (result\<lparr>m_data := absoluteAdd_loop (m_data x) (m_data y) 0, m_sign := resultSign\<rparr>)))"
  by pat_completeness auto
termination
  by (relation "measure (\<lambda>(x, y, resultSign). bi_length y - bi_length x)") auto

declare absoluteAdd.simps [simp del]

fun absoluteSub_rest :: "digit list \<Rightarrow> digit \<Rightarrow> digit list" where
  "absoluteSub_rest [] borrow = []"
| "absoluteSub_rest (x # xs) borrow =
     (let (difference, newBorrow) = digitSub x borrow 0
      in difference # absoluteSub_rest xs newBorrow)"

fun absoluteSub_loop :: "digit list \<Rightarrow> digit list \<Rightarrow> digit \<Rightarrow> digit list" where
  "absoluteSub_loop xs [] borrow = absoluteSub_rest xs borrow"
| "absoluteSub_loop [] (y # ys) borrow = []"
| "absoluteSub_loop (x # xs) (y # ys) borrow =
     (let (difference, newBorrow) = digitSub x y 0;
          (difference, newBorrow) = digitSub difference borrow newBorrow
      in difference # absoluteSub_loop xs ys newBorrow)"

definition absoluteSub :: "js_bigint \<Rightarrow> js_bigint \<Rightarrow> bool \<Rightarrow> js_bigint throws" where
  "absoluteSub x y resultSign =
     (let comparisonResult = absoluteCompare x y
      in if isZero x then Inr x
         else if isZero y then (if resultSign = m_sign x then Inr x else unaryMinusImpl x)
         else if comparisonResult = Equal then createZero
         else andThen (createWithLength (bi_length x)) (\<lambda>result.
           rightTrim (result\<lparr>m_data := absoluteSub_loop (m_data x) (m_data y) 0,
                             m_sign := resultSign\<rparr>)))"

lemma absoluteAdd_rest_value:
  "dval (absoluteAdd_rest xs c) = dval xs + uint c \<and> length (absoluteAdd_rest xs c) = length xs + 1"
proof (induction xs arbitrary: c)
  case (Cons x xs)
  obtain s n where s: "digitAdd x c 0 = (s, n)" by fastforce
  show ?case
    using digitAdd_step(1) [OF s] Cons.IH [of n] by (simp add: s distrib_left)
qed simp_all

lemma absoluteAdd_loop_value:
  assumes "length ys \<le> length xs"
  shows "dval (absoluteAdd_loop xs ys c) = dval xs + dval ys + uint c"
    "length (absoluteAdd_loop xs ys c) = length xs + 1"
  using assms
proof (induction xs ys c rule: absoluteAdd_loop.induct)
  case (3 x xs y ys c)
  obtain s n where s: "digitAdd x y 0 = (s, n)" by fastforce
  obtain s' n' where s': "digitAdd s c n = (s', n')" by fastforce
  note IH = 3(1,2) [OF s [symmetric] refl s' [symmetric] refl]
  {
    case 1
    then show ?case
      using digitAdd_two(1) [OF s s'] IH(1) by (simp add: s s' distrib_left)
  next
    case 2
    then show ?case
      using IH(2) by (simp add: s s')
  }
qed (simp_all add: absoluteAdd_rest_value)

text \<open>A subtraction loop is exact up to a multiple of the weight above its last digit.\<close>

lemma absoluteSub_rest_value:
  "\<exists>out. dval (absoluteSub_rest xs b) = dval xs - uint b + dbase ^ length xs * out
     \<and> length (absoluteSub_rest xs b) = length xs"
proof (induction xs arbitrary: b)
  case Nil
  show ?case by (intro exI [of _ "uint b"]) simp
next
  case (Cons x xs)
  obtain s n where s: "digitSub x b 0 = (s, n)" by fastforce
  from Cons.IH obtain out where
    IH: "dval (absoluteSub_rest xs n) = dval xs - uint n + dbase ^ length xs * out"
    "length (absoluteSub_rest xs n) = length xs"
    by blast
  show ?case
    using digitSub_step(1) [OF s] IH(2)
    by (intro exI [of _ out]) (simp add: s IH(1) distrib_left right_diff_distrib mult.assoc)
qed

lemma absoluteSub_loop_value:
  "length ys \<le> length xs \<Longrightarrow>
     \<exists>out. dval (absoluteSub_loop xs ys b) = dval xs - dval ys - uint b + dbase ^ length xs * out
       \<and> length (absoluteSub_loop xs ys b) = length xs"
proof (induction xs ys b rule: absoluteSub_loop.induct)
  case (1 xs b)
  show ?case using absoluteSub_rest_value [of xs b] by simp
next
  case (3 x xs y ys b)
  obtain s n where s: "digitSub x y 0 = (s, n)" by fastforce
  obtain s' n' where s': "digitSub s b n = (s', n')" by fastforce
  from 3(1) [OF s [symmetric] refl s' [symmetric] refl] 3(2) obtain out where
    IH: "dval (absoluteSub_loop xs ys n') = dval xs - dval ys - uint n' + dbase ^ length xs * out"
    "length (absoluteSub_loop xs ys n') = length xs"
    by auto
  show ?case
    using digitSub_two(1) [OF s s'] IH(2)
    by (intro exI [of _ out]) (simp add: s s' IH(1) distrib_left right_diff_distrib mult.assoc)
qed simp

lemma exact_if_in_range:
  fixes p q w out :: int
  assumes "p = q + w * out" "0 \<le> p" "p < w" "0 \<le> q" "q < w"
  shows "p = q"
  using assms by (metis mod_mult_self2 mod_pos_pos_trivial)

lemma absoluteSub_loop_exact:
  assumes "length ys \<le> length xs" "dval ys \<le> dval xs"
  shows "dval (absoluteSub_loop xs ys 0) = dval xs - dval ys"
    "length (absoluteSub_loop xs ys 0) = length xs"
proof -
  from absoluteSub_loop_value [OF assms(1), of 0] obtain out where
    out: "dval (absoluteSub_loop xs ys 0) = dval xs - dval ys + dbase ^ length xs * out"
    and len: "length (absoluteSub_loop xs ys 0) = length xs"
    by auto
  show "length (absoluteSub_loop xs ys 0) = length xs" by (rule len)
  have "dval xs - dval ys < dbase ^ length xs"
    using dval_less [of xs] dval_nonneg [of ys] by linarith
  then show "dval (absoluteSub_loop xs ys 0) = dval xs - dval ys"
    using assms(2) dval_less [of "absoluteSub_loop xs ys 0"] len
    by (intro exact_if_in_range [OF out]) simp_all
qed

text \<open>What the operations on absolute values return, for operands in canonical form.\<close>

lemma unaryMinusImpl_correct:
  assumes "canonical x"
  obtains r where "unaryMinusImpl x = Inr r" "canonical r" "bigint_val r = - bigint_val x"
proof (cases "isZero x")
  case True
  then show ?thesis
    using assms by (intro that [OF _ canonical_zero(1)])
      (auto simp: unaryMinusImpl_def createZero_eq isZero_def bi_length_def canonical_def bigint_val_def)
next
  case False
  then show ?thesis
    using assms by (intro that [of "x\<lparr>m_sign := \<not> m_sign x\<rparr>"])
      (auto simp: unaryMinusImpl_def copy_bigint_def createWithLength_def isZero_def bi_length_def
        canonical_def bigint_val_def)
qed

definition with_sign :: "bool \<Rightarrow> int \<Rightarrow> int" where
  "with_sign s v = (if s then - v else v)"

lemma bigint_val_with_sign: "bigint_val x = with_sign (m_sign x) (dval (m_data x))"
  by (simp add: bigint_val_def with_sign_def)

lemma same_or_negated:
  assumes "canonical x"
  obtains r where "(if s = m_sign x then Inr x else unaryMinusImpl x) = Inr r" "canonical r"
    "bigint_val r = with_sign s (dval (m_data x))"
proof (cases "s = m_sign x")
  case True
  then show ?thesis
    using assms by (intro that [of x]) (simp_all add: bigint_val_with_sign)
next
  case False
  moreover from unaryMinusImpl_correct [OF assms] obtain r where
    "unaryMinusImpl x = Inr r" "canonical r" "bigint_val r = - bigint_val x"
    by blast
  ultimately show ?thesis
    by (intro that [of r]) (auto simp: bigint_val_with_sign with_sign_def)
qed

lemma rightTrim_with_sign:
  assumes "length ds \<le> maxLength" "ds \<noteq> []"
  obtains r where "rightTrim \<lparr>m_sign = s, m_data = ds\<rparr> = Inr r" "canonical r"
    "bigint_val r = with_sign s (dval ds)"
  using rightTrim_correct [OF assms(1)] assms(2) unfolding with_sign_def by blast

lemma absoluteAdd_correct:
  assumes "canonical x" "canonical y" "isZero x \<or> isZero y \<or> max (bi_length x) (bi_length y) < maxLength"
  shows "\<exists>r. absoluteAdd x y s = Inr r \<and> canonical r \<and>
      bigint_val r = with_sign s (dval (m_data x) + dval (m_data y))"
  using assms
proof (induction x y s rule: absoluteAdd.induct)
  case (1 x y s)
  show ?case
  proof (cases "bi_length x < bi_length y")
    case True
    with 1 show ?thesis
      by (subst absoluteAdd.simps) (auto simp: add.commute max.commute)
  next
    case False
    note len = this
    show ?thesis
    proof (cases "isZero y")
      case True
      then have y0: "m_data y = []" by (simp add: isZero_def bi_length_def)
      from same_or_negated [OF 1(2)] obtain r where
        r: "(if s = m_sign x then Inr x else unaryMinusImpl x) = Inr r" "canonical r"
          "bigint_val r = with_sign s (dval (m_data x))"
        by blast
      show ?thesis
      proof (cases "isZero x")
        case True
        with 1(2) show ?thesis
          by (subst absoluteAdd.simps)
            (auto simp: y0 isZero_def bi_length_def bigint_val_def with_sign_def)
      next
        case False
        with r len y0 show ?thesis
          by (subst absoluteAdd.simps) (auto simp: isZero_def bi_length_def)
      qed
    next
      case False
      let ?ds = "absoluteAdd_loop (m_data x) (m_data y) 0"
      have v: "dval ?ds = dval (m_data x) + dval (m_data y)" "length ?ds = bi_length x + 1"
        using absoluteAdd_loop_value [of "m_data y" "m_data x" 0] len by (simp_all add: bi_length_def)
      have "\<not> isZero x" using False len by (simp add: isZero_def)
      with 1(4) False have lt: "max (bi_length x) (bi_length y) < maxLength" by simp
      with v(2) have "length ?ds \<le> maxLength" "?ds \<noteq> []" by auto
      from rightTrim_with_sign [OF this] obtain r where
        r: "rightTrim \<lparr>m_sign = s, m_data = ?ds\<rparr> = Inr r" "canonical r" "bigint_val r = with_sign s (dval ?ds)"
        by blast
      have "absoluteAdd x y s = rightTrim \<lparr>m_sign = s, m_data = ?ds\<rparr>"
        using False len lt by (subst absoluteAdd.simps) (simp add: createWithLength_def isZero_def)
      with r v show ?thesis by simp
    qed
  qed
qed

lemma absoluteAdd_error:
  assumes "\<not> isZero x" "\<not> isZero y" "max (bi_length x) (bi_length y) = maxLength"
  shows "absoluteAdd x y s = Inl OutOfMemoryError"
proof (cases "bi_length x < bi_length y")
  case True
  then have "absoluteAdd x y s = absoluteAdd y x s" by (subst absoluteAdd.simps) simp
  also have "\<dots> = Inl OutOfMemoryError"
    using True assms by (subst absoluteAdd.simps) (simp add: createWithLength_def max_def)
  finally show ?thesis .
next
  case False
  then show ?thesis
    using assms by (subst absoluteAdd.simps) (simp add: createWithLength_def max_def split: if_splits)
qed

lemma absoluteSub_correct:
  assumes "canonical x" "canonical y" "dval (m_data y) \<le> dval (m_data x)"
  shows "\<exists>r. absoluteSub x y s = Inr r \<and> canonical r \<and>
      bigint_val r = with_sign s (dval (m_data x) - dval (m_data y))"
proof -
  have t: "trimmed (m_data x)" "trimmed (m_data y)" "bi_length x \<le> maxLength"
    using assms by (simp_all add: canonical_def)
  have cmp: "absoluteCompare x y = int_compare (dval (m_data x)) (dval (m_data y))"
    using t by (intro absoluteCompare_correct)
  have len: "length (m_data y) \<le> length (m_data x)"
    using t(2) assms(3) dval_less [of "m_data x"] by (intro trimmed_length_le) simp_all
  consider "isZero x" | "\<not> isZero x" "isZero y" | "\<not> isZero x" "\<not> isZero y" "dval (m_data x) = dval (m_data y)"
    | "\<not> isZero x" "\<not> isZero y" "dval (m_data y) < dval (m_data x)"
    using assms(3) by fastforce
  then show ?thesis
  proof cases
    case 1
    with len assms(1) show ?thesis
      by (auto simp: absoluteSub_def isZero_def bi_length_def bigint_val_def with_sign_def)
  next
    case 2
    from same_or_negated [OF assms(1)] obtain r where
      "(if s = m_sign x then Inr x else unaryMinusImpl x) = Inr r" "canonical r"
      "bigint_val r = with_sign s (dval (m_data x))"
      by blast
    with 2 show ?thesis
      by (auto simp: absoluteSub_def isZero_def bi_length_def Let_def)
  next
    case 3
    then show ?thesis
      by (auto simp: absoluteSub_def cmp int_compare_def createZero_eq with_sign_def canonical_zero)
  next
    case 4
    let ?ds = "absoluteSub_loop (m_data x) (m_data y) 0"
    note v = absoluteSub_loop_exact [OF len assms(3)]
    have "length ?ds \<le> maxLength" "?ds \<noteq> []"
      using v(2) t(3) 4(1) by (auto simp: bi_length_def isZero_def)
    from rightTrim_with_sign [OF this] obtain r where
      r: "rightTrim \<lparr>m_sign = s, m_data = ?ds\<rparr> = Inr r" "canonical r" "bigint_val r = with_sign s (dval ?ds)"
      by blast
    have "absoluteSub x y s = rightTrim \<lparr>m_sign = s, m_data = ?ds\<rparr>"
      using 4 t(3) by (simp add: absoluteSub_def cmp int_compare_def createWithLength_def)
    with r v show ?thesis by simp
  qed
qed

end
