(* ===== verification/BigIntMultiply.thy ===== *)
theory BigIntMultiply
  imports BigIntMagnitude
begin

text \<open>
  Multiplication in JSBigInt.cpp: \<open>internalMultiplyAdd\<close> (a number times a digit plus a digit, also in
  place, for parsing), \<open>multiplyAccumulate\<close> (the inner loop of the school method, on an accumulator
  written in place) and \<open>multiplyImpl\<close>. Each loop keeps the value of what is written
  plus the weight of what \<open>carry\<close> and \<open>high\<close> still hold.
\<close>


lemma sign_update: "r\<lparr>m_sign := s\<rparr> = \<lparr>m_sign = s, m_data = m_data r\<rparr>" for r :: js_bigint
  by (cases r) simp

section \<open>Multiplication by one digit\<close>

text \<open>
  The loop of \<open>internalMultiplyAdd\<close>: the written digits, and the last \<open>carry\<close> and \<open>high\<close>. A digit
  of the source is read before the digit of the result at the same index is written, so that the
  in-place call \<open>inplaceMultiplyAdd\<close> is the same function.
\<close>

fun internalMultiplyAdd_loop :: "digit list \<Rightarrow> digit \<Rightarrow> digit \<Rightarrow> digit \<Rightarrow> digit list \<times> digit \<times> digit" where
  "internalMultiplyAdd_loop [] factor carry high = ([], carry, high)"
| "internalMultiplyAdd_loop (current # ds) factor carry high =
     (let (current, newHigh) = digitMul current factor;
          (current, newCarry) = digitAdd current high 0;
          (current, newCarry) = digitAdd current carry newCarry;
          (rest, carry', high') = internalMultiplyAdd_loop ds factor newCarry newHigh
      in (current # rest, carry', high'))"

definition internalMultiplyAdd :: "js_bigint \<Rightarrow> digit \<Rightarrow> digit \<Rightarrow> nat \<Rightarrow> js_bigint \<Rightarrow> js_bigint" where
  "internalMultiplyAdd source factor summand n result =
     (let (ds, carry, high) = internalMultiplyAdd_loop (take n (m_data source)) factor summand 0
      in result\<lparr>m_data :=
           (if n < bi_length result then ds @ (carry + high) # replicate (bi_length result - n - 1) 0
            else ds)\<rparr>)"

definition inplaceMultiplyAdd :: "js_bigint \<Rightarrow> digit \<Rightarrow> digit \<Rightarrow> js_bigint" where
  "inplaceMultiplyAdd this factor summand =
     internalMultiplyAdd this factor summand (bi_length this) this"

lemma internalMultiplyAdd_loop_value:
  assumes "internalMultiplyAdd_loop ds f c h = (r, c', h')"
  shows "dval r + dbase ^ length ds * (uint c' + uint h') = dval ds * uint f + uint c + uint h
    \<and> length r = length ds"
  using assms
proof (induction ds arbitrary: c h r)
  case (Cons d ds)
  obtain lo hi where m: "digitMul d f = (lo, hi)" by fastforce
  obtain s n where s: "digitAdd lo h 0 = (s, n)" by fastforce
  obtain s' n' where s': "digitAdd s c n = (s', n')" by fastforce
  obtain q where q: "internalMultiplyAdd_loop ds f n' hi = (q, c', h')" "r = s' # q"
    using Cons.prems by (auto simp: m s s' split: prod.splits)
  have v: "uint s' + dbase * uint n' = uint lo + uint h + uint c" "uint lo + dbase * uint hi = uint d * uint f"
    using digitAdd_two(1) [OF s s'] digitMul_value [OF m] by simp_all
  from Cons.IH [OF q(1)] have l: "length q = length ds"
    and IH: "dbase * (dval q + dbase ^ length ds * (uint c' + uint h')) = dbase * (dval ds * uint f + uint n' + uint hi)"
    by simp_all
  from IH v show ?case
    unfolding q(2) by (simp add: l algebra_simps)
qed simp

lemma internalMultiplyAdd_value:
  assumes "n \<le> bi_length source" "n < bi_length result"
  shows "dval (m_data (internalMultiplyAdd source f c n result)) = dval (take n (m_data source)) * uint f + uint c"
    "bi_length (internalMultiplyAdd source f c n result) = bi_length result"
proof -
  let ?ds = "take n (m_data source)"
  obtain r c' h' where l: "internalMultiplyAdd_loop ?ds f c 0 = (r, c', h')"
    by (metis prod_cases3)
  have len: "length ?ds = n"
    using assms(1) by (simp add: bi_length_def)
  have v: "dval r + dbase ^ n * (uint c' + uint h') = dval ?ds * uint f + uint c" "length r = n"
    using internalMultiplyAdd_loop_value [OF l] len by simp_all
  have "dval ?ds * uint f + uint c < dbase ^ n * dbase"
  proof -
    have "dval ?ds * uint f \<le> (dbase ^ n - 1) * (dbase - 1)"
      using dval_less [of ?ds] len by (intro mult_mono) simp_all
    moreover have "(dbase ^ n - 1) * (dbase - 1) + (dbase - 1) = dbase ^ n * dbase - dbase ^ n"
      by (simp add: algebra_simps)
    moreover have "0 < dbase ^ n" "uint c \<le> dbase - 1"
      by simp_all
    ultimately show ?thesis by linarith
  qed
  then have "dbase ^ n * (uint c' + uint h') < dbase ^ n * dbase"
    using v(1) dval_nonneg [of r] by linarith
  then have ch: "uint (c' + h') = uint c' + uint h'"
    by (intro uint_plus_small) (simp add: dbase_def)
  show "dval (m_data (internalMultiplyAdd source f c n result)) = dval ?ds * uint f + uint c"
    using v assms(2) by (simp add: internalMultiplyAdd_def l dval_simps ch)
  show "bi_length (internalMultiplyAdd source f c n result) = bi_length result"
    using v assms(2) by (simp add: internalMultiplyAdd_def l bi_length_def)
qed

lemma inplaceMultiplyAdd_value:
  assumes "dval (m_data x) * uint f + uint c < dbase ^ bi_length x"
  shows "dval (m_data (inplaceMultiplyAdd x f c)) = dval (m_data x) * uint f + uint c"
    "bi_length (inplaceMultiplyAdd x f c) = bi_length x"
    "m_sign (inplaceMultiplyAdd x f c) = m_sign x"
proof -
  obtain r c' h' where l: "internalMultiplyAdd_loop (m_data x) f c 0 = (r, c', h')"
    by (metis prod_cases3)
  have v: "dval r + dbase ^ bi_length x * (uint c' + uint h') = dval (m_data x) * uint f + uint c"
    "length r = bi_length x"
    using internalMultiplyAdd_loop_value [OF l] by (simp_all add: bi_length_def)
  have "dbase ^ bi_length x * (uint c' + uint h') < dbase ^ bi_length x * 1"
    using v(1) assms dval_nonneg [of r] by linarith
  then have "uint c' + uint h' < 1"
    by simp
  then have "uint c' + uint h' = 0"
    using uint_nonnegative [of c'] uint_nonnegative [of h'] by linarith
  with v show "dval (m_data (inplaceMultiplyAdd x f c)) = dval (m_data x) * uint f + uint c"
    "bi_length (inplaceMultiplyAdd x f c) = bi_length x" "m_sign (inplaceMultiplyAdd x f c) = m_sign x"
    by (simp_all add: inplaceMultiplyAdd_def internalMultiplyAdd_def bi_length_def l)
qed

section \<open>Multiply and accumulate\<close>

text \<open>
  The accumulator is written in place. The loop over the multiplicand returns the accumulator, the
  index after the last written digit, \<open>carry\<close> and \<open>high\<close>; the second loop stops at the end of
  the accumulator, which the code only asserts it does not reach.
\<close>

fun multiplyAccumulate_loop ::
    "digit list \<Rightarrow> digit \<Rightarrow> digit list \<Rightarrow> nat \<Rightarrow> digit \<Rightarrow> digit \<Rightarrow> digit list \<times> nat \<times> digit \<times> digit" where
  "multiplyAccumulate_loop [] multiplier accumulator accumulatorIndex carry high =
     (accumulator, accumulatorIndex, carry, high)"
| "multiplyAccumulate_loop (multiplicandDigit # ds) multiplier accumulator accumulatorIndex carry high =
     (let acc = accumulator ! accumulatorIndex;
          (acc, newCarry) = digitAdd acc high 0;
          (acc, newCarry) = digitAdd acc carry newCarry;
          (low, high) = digitMul multiplier multiplicandDigit;
          (acc, newCarry) = digitAdd acc low newCarry
      in multiplyAccumulate_loop ds multiplier (accumulator[accumulatorIndex := acc])
           (accumulatorIndex + 1) newCarry high)"

function multiplyAccumulate_carry :: "digit list \<Rightarrow> nat \<Rightarrow> digit \<Rightarrow> digit \<Rightarrow> digit list" where
  "multiplyAccumulate_carry accumulator accumulatorIndex carry high =
     (if (carry \<noteq> 0 \<or> high \<noteq> 0) \<and> accumulatorIndex < length accumulator
      then
        let acc = accumulator ! accumulatorIndex;
            (acc, newCarry) = digitAdd acc high 0;
            (acc, newCarry) = digitAdd acc carry newCarry
        in multiplyAccumulate_carry (accumulator[accumulatorIndex := acc]) (accumulatorIndex + 1) newCarry 0
      else accumulator)"
  by pat_completeness auto
termination
  by (relation "measure (\<lambda>(accumulator, accumulatorIndex, carry, high). length accumulator - accumulatorIndex)")
    auto

declare multiplyAccumulate_carry.simps [simp del]

definition multiplyAccumulate :: "js_bigint \<Rightarrow> digit \<Rightarrow> js_bigint \<Rightarrow> nat \<Rightarrow> js_bigint" where
  "multiplyAccumulate multiplicand multiplier accumulator accumulatorIndex =
     (if multiplier = 0 then accumulator
      else
        let (acc, accumulatorIndex, carry, high) =
              multiplyAccumulate_loop (m_data multiplicand) multiplier (m_data accumulator) accumulatorIndex 0 0
        in accumulator\<lparr>m_data := multiplyAccumulate_carry acc accumulatorIndex carry high\<rparr>)"

lemma multiplyAccumulate_loop_value:
  assumes "multiplyAccumulate_loop ms m acc i c h = (acc', i', c', h')" "i + length ms \<le> length acc" "uint c \<le> 3"
  shows "dval acc' + dbase ^ i' * (uint c' + uint h') = dval acc + dbase ^ i * (uint m * dval ms + uint c + uint h)
    \<and> i' = i + length ms \<and> length acc' = length acc"
  using assms
proof (induction ms m acc i c h rule: multiplyAccumulate_loop.induct)
  case (2 d ms m acc i c h)
  obtain s n where s: "digitAdd (acc ! i) h 0 = (s, n)" by fastforce
  obtain s' n' where s': "digitAdd s c n = (s', n')" by fastforce
  obtain lo hi where p: "digitMul m d = (lo, hi)" by fastforce
  obtain s'' n'' where s'': "digitAdd s' lo n' = (s'', n'')" by fastforce
  note a = digitAdd_two [OF s s']
  have n': "uint n' < 3" using a(2) by linarith
  note b = digitAdd_step [OF s'' n'] digitMul_value [OF p]
  have c3: "uint n'' \<le> 3" using b(2) a(2) by linarith
  have rec: "multiplyAccumulate_loop ms m (acc[i := s'']) (i + 1) n'' hi = (acc', i', c', h')"
    using 2(2) by (simp add: s s' p s'')
  from 2(1) [OF refl s [symmetric] refl s' [symmetric] refl p [symmetric] refl s'' [symmetric] refl rec _ c3] 2(3)
  have IH: "dval acc' + dbase ^ i' * (uint c' + uint h') =
        dval (acc[i := s'']) + dbase ^ (i + 1) * (uint m * dval ms + uint n'' + uint hi)"
    and i': "i' = i + 1 + length ms \<and> length acc' = length acc"
    by auto
  note IH
  also have "dval (acc[i := s'']) + dbase ^ (i + 1) * (uint m * dval ms + uint n'' + uint hi) =
      dval acc + dbase ^ i * ((uint s'' + dbase * uint n'') - uint (acc ! i)
        + dbase * uint hi + uint m * (dbase * dval ms))"
    using 2(3) by (subst dval_update) (simp_all add: algebra_simps)
  also have "(uint s'' + dbase * uint n'') - uint (acc ! i) + dbase * uint hi = uint m * uint d + uint c + uint h"
    using a(1) b(1,3) by linarith
  finally show ?case using i' by (simp add: algebra_simps)
qed simp_all

lemma multiplyAccumulate_carry_value:
  assumes "dval acc + dbase ^ i * (uint c + uint h) < dbase ^ length acc" "i \<le> length acc"
  shows "dval (multiplyAccumulate_carry acc i c h) = dval acc + dbase ^ i * (uint c + uint h)
    \<and> length (multiplyAccumulate_carry acc i c h) = length acc"
  using assms
proof (induction acc i c h rule: multiplyAccumulate_carry.induct)
  case (1 acc i c h)
  show ?case
  proof (cases "(c \<noteq> 0 \<or> h \<noteq> 0) \<and> i < length acc")
    case True
    obtain s n where s: "digitAdd (acc ! i) h 0 = (s, n)" by fastforce
    obtain s' n' where s': "digitAdd s c n = (s', n')" by fastforce
    have "dbase ^ i * (uint s' + dbase * uint n') = dbase ^ i * (uint (acc ! i) + uint h + uint c)"
      using digitAdd_two(1) [OF s s'] by simp
    then have e: "dval (acc[i := s']) + dbase ^ (i + 1) * (uint n' + uint (0 :: digit)) =
        dval acc + dbase ^ i * (uint c + uint h)"
      using True by (simp add: dval_update algebra_simps)
    from 1(1) [OF True refl s [symmetric] refl s' [symmetric] refl] 1(2) True
    show ?thesis
      unfolding e by (subst (1 2) multiplyAccumulate_carry.simps) (simp add: s s')
  next
    case False
    have "c = 0 \<and> h = 0"
    proof (rule ccontr)
      assume nz: "\<not> (c = 0 \<and> h = 0)"
      with False 1(3) have i: "i = length acc" by simp
      have "1 \<le> uint c + uint h"
        using nz uint_nonnegative [of c] uint_nonnegative [of h]
        by (metis add.commute add_nonneg_eq_0_iff int_one_le_iff_zero_less less_le uint_0_iff add_nonneg_nonneg)
      then have "dbase ^ i * 1 \<le> dbase ^ i * (uint c + uint h)"
        by (intro mult_left_mono) simp_all
      with 1(2) dval_nonneg [of acc] show False unfolding i by linarith
    qed
    then show ?thesis
      by (subst (1 2) multiplyAccumulate_carry.simps) simp
  qed
qed

lemma multiplyAccumulate_value:
  assumes "dval (m_data acc) + dbase ^ i * (uint m * dval (m_data x)) < dbase ^ bi_length acc"
    "i + bi_length x \<le> bi_length acc"
  shows "dval (m_data (multiplyAccumulate x m acc i)) = dval (m_data acc) + dbase ^ i * (uint m * dval (m_data x))"
    "bi_length (multiplyAccumulate x m acc i) = bi_length acc"
    "m_sign (multiplyAccumulate x m acc i) = m_sign acc"
proof -
  obtain a i' c' h' where l: "multiplyAccumulate_loop (m_data x) m (m_data acc) i 0 0 = (a, i', c', h')"
    by (metis prod_cases4)
  from multiplyAccumulate_loop_value [OF l] assms(2)
  have v: "dval a + dbase ^ i' * (uint c' + uint h') = dval (m_data acc) + dbase ^ i * (uint m * dval (m_data x))"
    and i': "i' = i + bi_length x" "length a = bi_length acc"
    by (auto simp: bi_length_def)
  have "dval (multiplyAccumulate_carry a i' c' h') = dval a + dbase ^ i' * (uint c' + uint h')
    \<and> length (multiplyAccumulate_carry a i' c' h') = length a"
    by (rule multiplyAccumulate_carry_value) (use v i' assms in simp_all)
  with v i'
  show "dval (m_data (multiplyAccumulate x m acc i)) = dval (m_data acc) + dbase ^ i * (uint m * dval (m_data x))"
    "bi_length (multiplyAccumulate x m acc i) = bi_length acc"
    "m_sign (multiplyAccumulate x m acc i) = m_sign acc"
    by (simp_all add: multiplyAccumulate_def l bi_length_def)
qed

section \<open>The product\<close>

fun multiplyImpl_loop :: "digit list \<Rightarrow> js_bigint \<Rightarrow> js_bigint \<Rightarrow> nat \<Rightarrow> js_bigint" where
  "multiplyImpl_loop [] y result i = result"
| "multiplyImpl_loop (d # ds) y result i =
     multiplyImpl_loop ds y (multiplyAccumulate y d result i) (i + 1)"

definition multiplyImpl :: "js_bigint \<Rightarrow> js_bigint \<Rightarrow> js_bigint throws" where
  "multiplyImpl x y =
     (if isZero x then Inr x
      else if isZero y then Inr y
      else
        let resultLength = bi_length x + bi_length y
        in andThen (createWithLength resultLength) (\<lambda>result.
             let result = result\<lparr>m_data := replicate resultLength 0\<rparr>;
                 result = multiplyImpl_loop (m_data x) y result 0
             in rightTrim (result\<lparr>m_sign := m_sign x \<noteq> m_sign y\<rparr>)))"

lemma multiplyImpl_loop_value:
  assumes "dval (m_data r) + dbase ^ i * (dval ds * dval (m_data y)) < dbase ^ bi_length r"
    "i + length ds + bi_length y \<le> bi_length r"
  shows "dval (m_data (multiplyImpl_loop ds y r i)) = dval (m_data r) + dbase ^ i * (dval ds * dval (m_data y))
    \<and> bi_length (multiplyImpl_loop ds y r i) = bi_length r"
  using assms
proof (induction ds y r i rule: multiplyImpl_loop.induct)
  case (2 d ds y r i)
  let ?y = "dval (m_data y)"
  have e: "dval (d # ds) * ?y = uint d * ?y + dbase * (dval ds * ?y)"
    by (simp add: algebra_simps)
  have "0 \<le> dbase ^ i * (dbase * (dval ds * ?y))"
    by simp
  then have "dval (m_data r) + dbase ^ i * (uint d * ?y) < dbase ^ bi_length r"
    using 2(2) unfolding e distrib_left by linarith
  note a = multiplyAccumulate_value [OF this]
  have len: "i + bi_length y \<le> bi_length r" using 2(3) by simp
  show ?case
    using 2 a len unfolding e by (simp add: distrib_left ac_simps)
qed simp

lemma multiplyImpl_correct:
  assumes "canonical x" "canonical y" "bi_length x + bi_length y \<le> maxLength"
  obtains r where "multiplyImpl x y = Inr r" "canonical r" "bigint_val r = bigint_val x * bigint_val y"
proof (cases "isZero x \<or> isZero y")
  case True
  then show ?thesis
    using assms by (intro that [of "if isZero x then x else y"])
      (auto simp: multiplyImpl_def isZero_def bi_length_def bigint_val_def)
next
  case False
  let ?n = "bi_length x + bi_length y" and ?x = "dval (m_data x)" and ?y = "dval (m_data y)"
  let ?r = "multiplyImpl_loop (m_data x) y \<lparr>m_sign = False, m_data = replicate ?n 0\<rparr> 0"
  have "?x * ?y < dbase ^ bi_length x * dbase ^ bi_length y"
    by (intro mult_strict_mono') (use dval_less [of "m_data x"] dval_less [of "m_data y"] in \<open>simp_all add: bi_length_def\<close>)
  then have r: "dval (m_data ?r) = ?x * ?y" "length (m_data ?r) = ?n"
    using multiplyImpl_loop_value [of "\<lparr>m_sign = False, m_data = replicate ?n 0\<rparr>" 0 "m_data x" y]
    by (simp_all add: bi_length_def dval_simps power_add)
  have "?n \<noteq> 0" using False by (simp add: isZero_def)
  then have "length (m_data ?r) \<le> maxLength" "m_data ?r \<noteq> []"
    using r(2) assms(3) by auto
  from rightTrim_with_sign [OF this] obtain t where
    t: "rightTrim \<lparr>m_sign = m_sign x \<noteq> m_sign y, m_data = m_data ?r\<rparr> = Inr t" "canonical t"
      "bigint_val t = with_sign (m_sign x \<noteq> m_sign y) (?x * ?y)"
    unfolding r(1) by blast
  have "multiplyImpl x y = Inr t"
    using False assms(3) t(1) by (simp add: multiplyImpl_def createWithLength_def Let_def sign_update)
  with t show ?thesis
    by (intro that) (auto simp: bigint_val_with_sign with_sign_def)
qed

lemma multiplyImpl_error:
  assumes "\<not> isZero x" "\<not> isZero y" "maxLength < bi_length x + bi_length y"
  shows "multiplyImpl x y = Inl OutOfMemoryError"
  using assms by (simp add: multiplyImpl_def createWithLength_def)

end
