(* ===== verification/BigIntDivision.thy ===== *)
theory BigIntDivision
  imports BigIntMultiply
begin

text \<open>
  Division in JSBigInt.cpp: \<open>absoluteDivWithDigitDivisor\<close> (by one digit), and
  \<open>absoluteDivWithBigIntDivisor\<close>, Knuth's Algorithm D, with the operations it is made of: the shifts by
  less than a digit, the in-place addition and subtraction at an index, the estimate of a quotient
  digit and its corrections. The division of two digits by one is a parameter \<open>dv\<close>; the results
  are proved in the locale \<open>digit_divider\<close> and hold for the code's \<open>digitDiv\<close> by the interpretation
  \<open>portable\<close>.
\<close>


section \<open>Division by one digit\<close>

text \<open>The loop from the most significant digit down, on the reversed digits.\<close>

fun absoluteDivWithDigitDivisor_loop :: "digit_div \<Rightarrow> digit list \<Rightarrow> digit \<Rightarrow> digit \<Rightarrow> digit list \<times> digit" where
  "absoluteDivWithDigitDivisor_loop dv [] divisor remainder = ([], remainder)"
| "absoluteDivWithDigitDivisor_loop dv (d # ds) divisor remainder =
     (let (q, remainder) = dv remainder d divisor;
          (qs, remainder) = absoluteDivWithDigitDivisor_loop dv ds divisor remainder
      in (q # qs, remainder))"

text \<open>
  \<open>quot\<close> (the code's \<open>quotient\<close>) is \<open>None\<close> for a null pointer (only the remainder is wanted), \<open>Some None\<close> for a pointer
  to a null cell (a fresh cell is allocated), \<open>Some (Some q)\<close> for a cell to be written.
\<close>

definition absoluteDivWithDigitDivisor ::
    "digit_div \<Rightarrow> js_bigint \<Rightarrow> digit \<Rightarrow> js_bigint option option \<Rightarrow> (js_bigint option option \<times> digit) throws" where
  "absoluteDivWithDigitDivisor dv x divisor quot =
     (if divisor = 1
      then Inr (case quot of None \<Rightarrow> None | Some _ \<Rightarrow> Some (Some x), 0)
      else
        let len = bi_length x;
            (qs, remainder) = absoluteDivWithDigitDivisor_loop dv (rev (m_data x)) divisor 0
        in case quot of
             None \<Rightarrow> Inr (None, remainder)
           | Some q \<Rightarrow>
               andThen (case q of None \<Rightarrow> createWithLength len | Some cell \<Rightarrow> Inr cell) (\<lambda>cell.
                 Inr (Some (Some (cell\<lparr>m_data := rev qs @ drop len (m_data cell)\<rparr>)), remainder)))"

lemma uint_pos: "w \<noteq> 0 \<Longrightarrow> 0 < uint w" for w :: "'a::len word"
  by (metis order_le_less uint_0_iff uint_nonnegative)

context digit_divider
begin

lemma divide_by_digit:
  assumes "absoluteDivWithDigitDivisor_loop dv ds v r = (qs, r')" "uint r < uint v"
  shows "uint r * dbase ^ length ds + dval (rev ds) = dval (rev qs) * uint v + uint r'
    \<and> uint r' < uint v \<and> length qs = length ds"
  using assms
proof (induction ds arbitrary: r qs)
  case (Cons d ds)
  obtain q s where q: "dv r d v = (q, s)" by fastforce
  obtain ps where ps: "absoluteDivWithDigitDivisor_loop dv ds v s = (ps, r')" "qs = q # ps"
    using Cons.prems(1) by (auto simp: q split: prod.splits)
  note d = dv_value [OF Cons.prems(2) q]
  note IH = Cons.IH [OF ps(1) d(2)]
  have "uint r * dbase ^ length (d # ds) + dval (rev (d # ds)) =
      dbase ^ length ds * (uint r * dbase + uint d) + dval (rev ds)"
    by (simp add: dval_simps algebra_simps)
  also have "\<dots> = dbase ^ length ds * (uint q * uint v) + (uint s * dbase ^ length ds + dval (rev ds))"
    unfolding d(1) by (simp add: algebra_simps)
  also have "\<dots> = dval (rev qs) * uint v + uint r'"
    using IH by (simp add: ps(2) dval_simps algebra_simps)
  finally show ?case using IH ps(2) by simp
qed simp

lemma absoluteDivWithDigitDivisor_correct:
  assumes "v \<noteq> 0" "bi_length x \<le> maxLength"
  obtains q r where "absoluteDivWithDigitDivisor dv x v (Some None) = Inr (Some (Some q), r)"
    "dval (m_data q) = dval (m_data x) div uint v" "uint r = dval (m_data x) mod uint v"
    "bi_length q = bi_length x"
proof -
  obtain qs r where l: "absoluteDivWithDigitDivisor_loop dv (rev (m_data x)) v 0 = (qs, r)" by fastforce
  have "uint (0 :: digit) < uint v"
    using assms(1) by (simp add: uint_pos)
  from divide_by_digit [OF l this]
  have "dval (m_data x) = uint v * dval (rev qs) + uint r" "uint r < uint v" and len: "length qs = bi_length x"
    by (simp_all add: bi_length_def mult.commute)
  then have qr: "dval (rev qs) = dval (m_data x) div uint v" "uint r = dval (m_data x) mod uint v"
    using int_div_pos_eq [of _ "uint v" "dval (rev qs)" "uint r"] int_mod_pos_eq [of _ "uint v" "dval (rev qs)" "uint r"]
    by simp_all
  show ?thesis
  proof (cases "v = 1")
    case True
    then show ?thesis
      by (intro that [of x 0]) (simp_all add: absoluteDivWithDigitDivisor_def)
  next
    case False
    then show ?thesis
      using assms(2) l qr len
      by (intro that [of "\<lparr>m_sign = False, m_data = rev qs\<rparr>" r])
        (simp_all add: absoluteDivWithDigitDivisor_def createWithLength_def bi_length_def)
  qed
qed

lemma absoluteDivWithDigitDivisor_remainder:
  assumes "v \<noteq> 0"
  obtains r where "absoluteDivWithDigitDivisor dv x v None = Inr (None, r)" "uint r = dval (m_data x) mod uint v"
proof -
  obtain qs r where l: "absoluteDivWithDigitDivisor_loop dv (rev (m_data x)) v 0 = (qs, r)" by fastforce
  have "uint (0 :: digit) < uint v"
    using assms(1) by (simp add: uint_pos)
  from divide_by_digit [OF l this]
  have "dval (m_data x) = uint v * dval (rev qs) + uint r" "uint r < uint v"
    by (simp_all add: mult.commute)
  then have "uint r = dval (m_data x) mod uint v"
    using int_mod_pos_eq [of _ "uint v" "dval (rev qs)" "uint r"] by simp
  with l show ?thesis
    by (cases "v = 1") (auto simp: absoluteDivWithDigitDivisor_def intro: that)
qed

end

section \<open>Shifts by less than a digit\<close>

datatype LeftShiftMode = SameSizeResult | AlwaysAddOneDigit

text \<open>The loops that shift by \<open>0 < shift < digitBits\<close>; the carry of the left shift is returned.\<close>

fun leftShift_loop :: "nat \<Rightarrow> digit \<Rightarrow> digit list \<Rightarrow> digit list \<times> digit" where
  "leftShift_loop shift carry [] = ([], carry)"
| "leftShift_loop shift carry (d # ds) =
     (let (rest, carry') = leftShift_loop shift (drop_bit (digitBits - shift) d) ds
      in ((push_bit shift d OR carry) # rest, carry'))"

fun rightShift_loop :: "nat \<Rightarrow> digit \<Rightarrow> digit list \<Rightarrow> digit list" where
  "rightShift_loop shift carry [] = [carry]"
| "rightShift_loop shift carry (d # ds) =
     (push_bit (digitBits - shift) d OR carry) # rightShift_loop shift (drop_bit shift d) ds"

definition absoluteLeftShiftAlwaysCopy :: "js_bigint \<Rightarrow> nat \<Rightarrow> LeftShiftMode \<Rightarrow> js_bigint throws" where
  "absoluteLeftShiftAlwaysCopy x shift mode =
     (let n = bi_length x;
          resultLength = (if mode = AlwaysAddOneDigit then n + 1 else n)
      in andThen (createWithLength resultLength) (\<lambda>result.
           if shift = 0
           then Inr (result\<lparr>m_data := m_data x @ (if mode = AlwaysAddOneDigit then [0] else [])\<rparr>)
           else
             let (ds, carry) = leftShift_loop shift 0 (m_data x)
             in Inr (result\<lparr>m_data := ds @ (if mode = AlwaysAddOneDigit then [carry] else [])\<rparr>)))"

definition inplaceRightShift :: "js_bigint \<Rightarrow> nat \<Rightarrow> js_bigint" where
  "inplaceRightShift this shift =
     (if shift = 0 then this
      else this\<lparr>m_data := rightShift_loop shift (drop_bit shift (m_data this ! 0)) (tl (m_data this))\<rparr>)"

lemma dbase_split: "s \<le> 64 \<Longrightarrow> dbase = 2 ^ (64 - s) * 2 ^ s"
  by (simp add: dbase_def flip: power_add)

lemma left_shift_digit:
  fixes d c :: digit
  assumes "0 < s" "s < 64" "uint c < 2 ^ s"
  shows "uint (push_bit s d OR c) + dbase * uint (drop_bit (64 - s) d) = 2 ^ s * uint d + uint c"
    "uint (drop_bit (64 - s) d) < 2 ^ s"
proof -
  have "push_bit s d AND c = 0"
  proof (rule bit_eqI)
    fix n
    have "take_bit s (uint c) = uint c"
      by (rule take_bit_int_eq_self) (use assms(3) in simp_all)
    then have "bit (uint c) n \<Longrightarrow> n < s"
      by (metis bit_take_bit_iff)
    then have "\<not> bit c n" if "s \<le> n"
      using that bit_imp_le_length [of c n] by (auto simp: bit_uint_iff)
    then show "bit (push_bit s d AND c) n = bit 0 n"
      by (auto simp: bit_simps)
  qed
  then have o1: "uint (push_bit s d OR c) = uint (push_bit s d) + uint c"
    by (rule uint_or_disjoint)
  have p: "uint (push_bit s d) = uint d * 2 ^ s mod dbase"
    by (simp add: uint_push_bit dbase_def)
  have h: "uint (drop_bit (64 - s) d) = uint d * 2 ^ s div dbase"
    using assms(2) by (simp add: uint_drop_bit dbase_split [of s])
  show "uint (push_bit s d OR c) + dbase * uint (drop_bit (64 - s) d) = 2 ^ s * uint d + uint c"
    unfolding o1 p h using mult_div_mod_eq [of dbase "uint d * 2 ^ s"] by (simp only: mult.commute [of "2 ^ s"])
  have "uint d * 2 ^ s < 2 ^ s * dbase"
    by (simp add: mult.commute)
  then show "uint (drop_bit (64 - s) d) < 2 ^ s"
    unfolding h by (simp add: int_div_less_iff)
qed

lemma leftShift_loop_value:
  assumes "0 < s" "s < 64" "uint c < 2 ^ s" "leftShift_loop s c ds = (r, c')"
  shows "dval r + dbase ^ length ds * uint c' = 2 ^ s * dval ds + uint c \<and> length r = length ds"
  using assms(3,4)
proof (induction ds arbitrary: c r)
  case (Cons d ds)
  obtain q where q: "leftShift_loop s (drop_bit (64 - s) d) ds = (q, c')" "r = (push_bit s d OR c) # q"
    using Cons.prems(2) by (auto simp: digitBits_def split: prod.splits)
  note v = left_shift_digit [OF assms(1,2) Cons.prems(1), of d]
  note IH = Cons.IH [OF v(2) q(1)]
  note e = arg_cong [OF conjunct1 [OF IH], of "\<lambda>z. dbase * z", unfolded distrib_left]
  show ?case
    using v(1) e IH unfolding q(2) by (simp add: distrib_left ac_simps)
qed simp

lemma right_shift_digit:
  fixes d c :: digit
  assumes "0 < s" "s < 64" "uint c < 2 ^ (64 - s)"
  shows "uint (push_bit (64 - s) d OR c) + dbase * uint (drop_bit s d) = 2 ^ (64 - s) * uint d + uint c"
    "uint (drop_bit s d) < 2 ^ (64 - s)"
  using left_shift_digit [of "64 - s" c d] assms by simp_all

lemma rightShift_loop_value:
  assumes "0 < s" "s < 64" "uint c < 2 ^ (64 - s)"
  shows "dval (rightShift_loop s c ds) = uint c + 2 ^ (64 - s) * dval ds
    \<and> length (rightShift_loop s c ds) = length ds + 1"
  using assms(3)
proof (induction ds arbitrary: c)
  case (Cons d ds)
  note v = right_shift_digit [OF assms(1,2) Cons.prems, of d]
  note IH = Cons.IH [OF v(2)]
  show ?case
    using v(1) IH by (simp add: digitBits_def distrib_left distrib_right ac_simps)
qed simp

lemma rightShift_loop_div:
  assumes "0 < s" "s < 64"
  shows "dval (rightShift_loop s (drop_bit s d) ds) = dval (d # ds) div 2 ^ s"
proof -
  have "uint (drop_bit s d) < 2 ^ (64 - s)"
    using right_shift_digit(2) [OF assms, of 0 d] by simp
  from rightShift_loop_value [OF assms this, of ds]
  have "dval (rightShift_loop s (drop_bit s d) ds) = uint d div 2 ^ s + 2 ^ (64 - s) * dval ds"
    by (simp add: uint_drop_bit)
  moreover have "dval (d # ds) = uint d + 2 ^ (64 - s) * dval ds * 2 ^ s"
    using dbase_split [of s] assms(2) by simp
  ultimately show ?thesis by (simp del: dval.simps)
qed

lemma absoluteLeftShiftAlwaysCopy_add:
  assumes "s < 64" "bi_length x < maxLength"
  obtains r where "absoluteLeftShiftAlwaysCopy x s AlwaysAddOneDigit = Inr r"
    "dval (m_data r) = 2 ^ s * dval (m_data x)" "bi_length r = bi_length x + 1"
proof (cases "s = 0")
  case True
  with assms that [of "\<lparr>m_sign = False, m_data = m_data x @ [0]\<rparr>"] show ?thesis
    by (simp add: absoluteLeftShiftAlwaysCopy_def createWithLength_def dval_simps bi_length_def)
next
  case False
  obtain ds c where l: "leftShift_loop s 0 (m_data x) = (ds, c)" by fastforce
  with False assms leftShift_loop_value [of s 0 "m_data x" ds c] that [of "\<lparr>m_sign = False, m_data = ds @ [c]\<rparr>"]
  show ?thesis
    by (simp add: absoluteLeftShiftAlwaysCopy_def createWithLength_def dval_simps bi_length_def)
qed

lemma absoluteLeftShiftAlwaysCopy_same:
  assumes "s < 64" "bi_length x \<le> maxLength" "2 ^ s * dval (m_data x) < dbase ^ bi_length x"
  obtains r where "absoluteLeftShiftAlwaysCopy x s SameSizeResult = Inr r"
    "dval (m_data r) = 2 ^ s * dval (m_data x)" "bi_length r = bi_length x"
proof (cases "s = 0")
  case True
  with assms that [of "\<lparr>m_sign = False, m_data = m_data x\<rparr>"] show ?thesis
    by (simp add: absoluteLeftShiftAlwaysCopy_def createWithLength_def bi_length_def)
next
  case False
  obtain ds c where l: "leftShift_loop s 0 (m_data x) = (ds, c)" by fastforce
  have v: "dval ds + dbase ^ bi_length x * uint c = 2 ^ s * dval (m_data x)" "length ds = bi_length x"
    using False assms(1) leftShift_loop_value [of s 0 "m_data x" ds c] l by (simp_all add: bi_length_def)
  then have "dbase ^ bi_length x * uint c < dbase ^ bi_length x * 1"
    using assms(3) dval_nonneg [of ds] by linarith
  then have "uint c < 1" by simp
  then have "uint c = 0" using uint_nonnegative [of c] by linarith
  with False assms l v that [of "\<lparr>m_sign = False, m_data = ds\<rparr>"]
  show ?thesis
    by (simp add: absoluteLeftShiftAlwaysCopy_def createWithLength_def bi_length_def)
qed

lemma inplaceRightShift_value:
  assumes "s < 64" "m_data x \<noteq> []"
  shows "dval (m_data (inplaceRightShift x s)) = dval (m_data x) div 2 ^ s"
    "bi_length (inplaceRightShift x s) = bi_length x"
proof -
  obtain d ds where x: "m_data x = d # ds"
    using assms(2) by (cases "m_data x") auto
  show "dval (m_data (inplaceRightShift x s)) = dval (m_data x) div 2 ^ s"
    using assms(1) rightShift_loop_div [of s d ds] by (simp add: inplaceRightShift_def x)
  have "uint (drop_bit s d) < 2 ^ (64 - s)" if "0 < s"
    using right_shift_digit(2) [of s 0 d] assms(1) that by simp
  then show "bi_length (inplaceRightShift x s) = bi_length x"
    using assms(1) rightShift_loop_value [of s "drop_bit s d" ds] by (simp add: inplaceRightShift_def bi_length_def x)
qed

lemma uint_plus_one_le_dbase [simp]: "uint (d :: digit) + 1 \<le> dbase"
  using uint_less_dbase [of d] by linarith

section \<open>Addition and subtraction in place\<close>

fun absoluteInplaceAdd_loop :: "digit list \<Rightarrow> nat \<Rightarrow> digit list \<Rightarrow> digit \<Rightarrow> digit list \<times> digit" where
  "absoluteInplaceAdd_loop this i [] carry = (this, carry)"
| "absoluteInplaceAdd_loop this i (d # ds) carry =
     (let (sum, newCarry) = digitAdd (this ! i) d 0;
          (sum, newCarry) = digitAdd sum carry newCarry
      in absoluteInplaceAdd_loop (this[i := sum]) (i + 1) ds newCarry)"

definition absoluteInplaceAdd :: "js_bigint \<Rightarrow> js_bigint \<Rightarrow> nat \<Rightarrow> js_bigint \<times> digit" where
  "absoluteInplaceAdd this summand startIndex =
     (let (ds, carry) = absoluteInplaceAdd_loop (m_data this) startIndex (m_data summand) 0
      in (this\<lparr>m_data := ds\<rparr>, carry))"

fun absoluteInplaceSub_loop :: "digit list \<Rightarrow> nat \<Rightarrow> digit list \<Rightarrow> digit \<Rightarrow> digit list \<times> digit" where
  "absoluteInplaceSub_loop this i [] borrow = (this, borrow)"
| "absoluteInplaceSub_loop this i (d # ds) borrow =
     (let (difference, newBorrow) = digitSub (this ! i) d 0;
          (difference, newBorrow) = digitSub difference borrow newBorrow
      in absoluteInplaceSub_loop (this[i := difference]) (i + 1) ds newBorrow)"

definition absoluteInplaceSub :: "js_bigint \<Rightarrow> js_bigint \<Rightarrow> nat \<Rightarrow> js_bigint \<times> digit" where
  "absoluteInplaceSub this subtrahend startIndex =
     (let (ds, borrow) = absoluteInplaceSub_loop (m_data this) startIndex (m_data subtrahend) 0
      in (this\<lparr>m_data := ds\<rparr>, borrow))"

text \<open>
  Both loops change the digits of a window only; the window is described by the digits before it,
  \<open>ps\<close>, its own digits \<open>ws\<close> and the digits after it, \<open>rs\<close>.
\<close>

lemma absoluteInplaceAdd_loop_window:
  assumes "length ws = length ds" "uint c \<le> 1"
  shows "\<exists>ws' c'. absoluteInplaceAdd_loop (ps @ ws @ rs) (length ps) ds c = (ps @ ws' @ rs, c')
    \<and> length ws' = length ds \<and> uint c' \<le> 1
    \<and> dval ws' + dbase ^ length ds * uint c' = dval ws + dval ds + uint c"
  using assms
proof (induction ws ds arbitrary: ps c rule: list_induct2)
  case (Cons w ws d ds)
  obtain s n where s: "digitAdd w d 0 = (s, n)" by fastforce
  obtain s' n' where s': "digitAdd s c n = (s', n')" by fastforce
  note v = digitAdd_two(1) [OF s s']
  have "dbase * uint n' < dbase * 2"
    using v Cons.prems uint_less_dbase [of w] uint_less_dbase [of d] uint_nonnegative [of s'] by linarith
  then have "uint n' \<le> 1" by simp
  from Cons.IH [OF this, of "ps @ [s']"] obtain ws' c' where
    IH: "absoluteInplaceAdd_loop ((ps @ [s']) @ ws @ rs) (length (ps @ [s'])) ds n' = ((ps @ [s']) @ ws' @ rs, c')"
    "length ws' = length ds" "uint c' \<le> 1" "dval ws' + dbase ^ length ds * uint c' = dval ws + dval ds + uint n'"
    by blast
  note e = arg_cong [OF IH(4), of "\<lambda>z. dbase * z", unfolded distrib_left]
  show ?case
    using IH(1-3) v e
    by (intro exI [of _ "s' # ws'"] exI [of _ c']) (simp add: s s' nth_append list_update_append distrib_left ac_simps)
qed simp

lemma absoluteInplaceSub_loop_window:
  assumes "length ws = length ds" "uint c \<le> 1"
  shows "\<exists>ws' c'. absoluteInplaceSub_loop (ps @ ws @ rs) (length ps) ds c = (ps @ ws' @ rs, c')
    \<and> length ws' = length ds \<and> uint c' \<le> 1
    \<and> dval ws' - dbase ^ length ds * uint c' = dval ws - dval ds - uint c"
  using assms
proof (induction ws ds arbitrary: ps c rule: list_induct2)
  case (Cons w ws d ds)
  obtain s n where s: "digitSub w d 0 = (s, n)" by fastforce
  obtain s' n' where s': "digitSub s c n = (s', n')" by fastforce
  note v = digitSub_two(1) [OF s s']
  have "dbase * uint n' < dbase * 2"
    using v Cons.prems uint_less_dbase [of s'] uint_less_dbase [of d] uint_nonnegative [of w] by linarith
  then have "uint n' \<le> 1" by simp
  from Cons.IH [OF this, of "ps @ [s']"] obtain ws' c' where
    IH: "absoluteInplaceSub_loop ((ps @ [s']) @ ws @ rs) (length (ps @ [s'])) ds n' = ((ps @ [s']) @ ws' @ rs, c')"
    "length ws' = length ds" "uint c' \<le> 1" "dval ws' - dbase ^ length ds * uint c' = dval ws - dval ds - uint n'"
    by blast
  note e = arg_cong [OF IH(4), of "\<lambda>z. dbase * z", unfolded right_diff_distrib]
  show ?case
    using IH(1-3) v e
    by (intro exI [of _ "s' # ws'"] exI [of _ c']) (simp add: s s' nth_append list_update_append distrib_left ac_simps)
qed simp

section \<open>The estimate of a quotient digit\<close>

function qhat_loop :: "digit \<Rightarrow> digit \<Rightarrow> digit \<Rightarrow> digit \<Rightarrow> digit \<Rightarrow> digit" where
  "qhat_loop vn1 vn2 ujn2 qhat rhat =
     (if productGreaterThan qhat vn2 rhat ujn2
      then
        let qhat = qhat - 1;
            prevRhat = rhat;
            rhat = rhat + vn1
        in if rhat < prevRhat then qhat else qhat_loop vn1 vn2 ujn2 qhat rhat
      else qhat)"
  by pat_completeness auto
termination
proof (relation "measure (\<lambda>(vn1, vn2, ujn2, qhat, rhat). unat qhat)", goal_cases)
  case (2 vn1 vn2 ujn2 qhat rhat q' p' r')
  have "qhat \<noteq> 0"
  proof
    assume "qhat = 0"
    with 2(1) have "uint rhat * dbase + uint ujn2 < 0"
      by (simp add: productGreaterThan_iff)
    moreover have "0 \<le> uint rhat * dbase + uint ujn2" by simp
    ultimately show False by linarith
  qed
  with 2(2) show ?case
    by (simp add: unat_minus_one) (simp add: word_less_nat_alt unat_gt_0)
qed simp

declare qhat_loop.simps [simp del]

text \<open>Step D3: the estimate from the two leading digits, corrected with the third.\<close>

definition estimate_qhat :: "digit_div \<Rightarrow> digit \<Rightarrow> digit \<Rightarrow> digit \<Rightarrow> digit \<Rightarrow> digit \<Rightarrow> digit" where
  "estimate_qhat dv vn1 vn2 ujn ujn1 ujn2 =
     (if ujn \<noteq> vn1
      then let (qhat, rhat) = dv ujn ujn1 vn1 in qhat_loop vn1 vn2 ujn2 qhat rhat
      else - 1)"

text \<open>
  The loop keeps the quotient a lower bound on the estimate and ends with an estimate that the
  three leading digits allow.
\<close>

lemma qhat_loop_correct:
  fixes U Q :: int
  assumes "uint qhat * uint vn1 + uint rhat = U"
    and "\<And>q. U * dbase + uint ujn2 < q * (uint vn1 * dbase + uint vn2) \<Longrightarrow> Q < q"
    and "Q \<le> uint qhat" "0 \<le> Q"
  shows "Q \<le> uint (qhat_loop vn1 vn2 ujn2 qhat rhat)
    \<and> uint (qhat_loop vn1 vn2 ujn2 qhat rhat) * (uint vn1 * dbase + uint vn2) \<le> U * dbase + uint ujn2"
  using assms(1-3)
proof (induction vn1 vn2 ujn2 qhat rhat rule: qhat_loop.induct)
  case (1 vn1 vn2 ujn2 qhat rhat)
  let ?v = "uint vn1 * dbase + uint vn2"
  have split: "uint qhat * ?v = (U - uint rhat) * dbase + uint qhat * uint vn2"
    unfolding 1(2) [symmetric] by (simp add: algebra_simps)
  show ?case
  proof (cases "productGreaterThan qhat vn2 rhat ujn2")
    case True
    note gt' = this
    then have gt: "uint rhat * dbase + uint ujn2 < uint qhat * uint vn2"
      by (simp add: productGreaterThan_iff)
    then have "uint qhat \<noteq> 0"
      by (metis add_nonneg_nonneg dbase_pos(2) mult_nonneg_nonneg mult_zero_left not_le uint_nonnegative)
    then have q1: "uint (qhat - 1) = uint qhat - 1"
      by (intro uint_minus_one) auto
    have "U * dbase + uint ujn2 < uint qhat * ?v"
      unfolding split using gt by (simp add: left_diff_distrib)
    then have Q: "Q \<le> uint (qhat - 1)"
      using 1(3) [of "uint qhat"] q1 by simp
    have step: "uint (qhat - 1) * uint vn1 + (uint rhat + uint vn1) = U"
      unfolding q1 using 1(2) by (simp add: algebra_simps)
    show ?thesis
    proof (cases "rhat + vn1 < rhat")
      case True
      then have "uint (rhat + vn1) + dbase = uint rhat + uint vn1"
        using word_add_carry [of rhat vn1] by (simp add: dbase_def)
      then have "dbase \<le> uint rhat + uint vn1"
        using uint_nonnegative [of "rhat + vn1"] by linarith
      then have "dbase * dbase \<le> (uint rhat + uint vn1) * dbase"
        by (intro mult_right_mono) simp_all
      moreover have "uint (qhat - 1) * uint vn2 \<le> dbase * dbase"
        by (intro mult_mono) (simp_all add: less_imp_le)
      moreover have "0 \<le> uint ujn2"
        by simp
      moreover have "uint (qhat - 1) * ?v = (U - (uint rhat + uint vn1)) * dbase + uint (qhat - 1) * uint vn2"
        unfolding step [symmetric] by (simp add: algebra_simps)
      ultimately have "uint (qhat - 1) * ?v \<le> U * dbase + uint ujn2"
        unfolding left_diff_distrib by linarith
      with Q True gt' show ?thesis
        by (subst (1 2) qhat_loop.simps) (simp add: Let_def)
    next
      case False
      then have "uint (rhat + vn1) = uint rhat + uint vn1"
        using word_add_carry [of rhat vn1] by simp
      with step have "uint (qhat - 1) * uint vn1 + uint (rhat + vn1) = U" by simp
      from 1(1) [OF gt' refl refl refl False this 1(3) Q] False gt' show ?thesis
        by (subst (1 2) qhat_loop.simps) (simp add: Let_def)
    qed
  next
    case False
    then have "uint qhat * uint vn2 \<le> uint rhat * dbase + uint ujn2"
      by (simp add: productGreaterThan_iff)
    then have "uint qhat * ?v \<le> U * dbase + uint ujn2"
      unfolding split by (simp add: left_diff_distrib)
    with 1(4) False show ?thesis
      by (subst (1 2) qhat_loop.simps) simp
  qed
qed

text \<open>
  The estimate is the quotient digit or one more (Knuth, 4.3.1, Theorem B), for a divisor
  \<open>V = vr + K * (vn2 + B * vn1)\<close> with a normalised leading digit and a window
  \<open>W = wr + K * (ujn2 + B * (ujn1 + B * ujn)) < V * B\<close>.
\<close>

lemma quotient_less_if_leading:
  fixes K U V2 W V q wr vr :: int
  assumes "W = wr + K * U" "wr < K" "V = vr + K * V2" "0 \<le> vr" "0 < K" "0 < V2" "0 \<le> U" "U < q * V2"
  shows "W div V < q"
proof -
  have "0 < q * V2" using assms by linarith
  then have "0 < q" using assms(6) by (simp add: zero_less_mult_iff)
  have "K * (U + 1) \<le> K * (q * V2)"
    using assms by (intro mult_left_mono) simp_all
  moreover have "0 \<le> q * vr"
    using \<open>0 < q\<close> assms(4) by simp
  ultimately have "W < q * V"
    using assms(1-3) by (simp add: algebra_simps)
  moreover have "0 < V"
    using assms by (simp add: add_nonneg_pos)
  ultimately show ?thesis by (simp add: int_div_less_iff)
qed

lemma quotient_ge_if_leading:
  fixes K U V2 W V q wr vr :: int
  assumes "W = wr + K * U" "0 \<le> wr" "V = vr + K * V2" "0 \<le> vr" "vr < K" "q * V2 \<le> U" "0 \<le> q" "q \<le> D"
    "D * K \<le> V" "0 < V"
  shows "q \<le> W div V + 1"
proof -
  have "q * vr \<le> D * K"
    using assms by (intro mult_mono) simp_all
  moreover have "K * (q * V2) \<le> K * U"
    using assms by (intro mult_left_mono) simp_all
  moreover have "(q - 1) * V = K * (q * V2) + q * vr - V"
    unfolding assms(3) by (simp add: algebra_simps)
  ultimately have "(q - 1) * V \<le> W"
    using assms(1,2,9) by linarith
  then have "q - 1 \<le> W div V"
    using assms(10) by (simp add: int_le_div_iff)
  then show ?thesis by simp
qed

lemma normalised_top_quotient:
  fixes B K W V v ur r :: int
  assumes "W = ur + K * (B * B * v)" "0 \<le> ur" "V = r + K * (B * v)" "r < K * B" "B \<le> 2 * v" "2 \<le> B" "0 < K" "0 < V"
  shows "B - 2 \<le> W div V"
proof -
  have "(B - 2) * r \<le> (B - 2) * (K * B)"
    using assms by (intro mult_left_mono) simp_all
  moreover have "K * B * B \<le> K * B * (2 * v)"
    using assms by (intro mult_left_mono) simp_all
  moreover have "(B - 2) * V = (B - 2) * r + K * (B * B * v) - K * B * (2 * v)"
    "(B - 2) * (K * B) = K * B * B - 2 * (K * B)" "0 < K * B"
    unfolding assms(3) using assms(6,7) by (simp_all add: algebra_simps)
  ultimately have "(B - 2) * V \<le> W"
    using assms(1,2) by linarith
  then show ?thesis
    using assms(8) by (simp add: int_le_div_iff)
qed

context digit_divider
begin

lemma estimate_qhat_correct:
  fixes vr wr K :: int and vn1 vn2 ujn ujn1 ujn2 :: digit
  defines "V \<equiv> vr + K * (uint vn1 * dbase + uint vn2)"
    and "W \<equiv> wr + K * ((uint ujn * dbase + uint ujn1) * dbase + uint ujn2)"
  assumes b: "0 \<le> vr" "vr < K" "0 \<le> wr" "wr < K" "dbase \<le> 2 * uint vn1" "W < V * dbase"
  shows "W div V \<le> uint (estimate_qhat dv vn1 vn2 ujn ujn1 ujn2)"
    "uint (estimate_qhat dv vn1 vn2 ujn ujn1 ujn2) \<le> W div V + 1"
proof -
  let ?q = "estimate_qhat dv vn1 vn2 ujn ujn1 ujn2"
  let ?V2 = "uint vn1 * dbase + uint vn2" and ?U = "uint ujn * dbase + uint ujn1"
  have K: "0 < K" using b by linarith
  have vn1: "0 < uint vn1" using b(5) dbase_pos(1) by linarith
  then have V2: "dbase \<le> ?V2" "0 < ?V2"
    using mult_right_mono [of 1 "uint vn1" dbase] by (simp_all add: add_pos_nonneg add_increasing2)
  have V: "dbase * K \<le> V" "0 < V"
  proof -
    have "K * dbase \<le> K * ?V2"
      using V2(1) K by (intro mult_left_mono) simp_all
    then show le: "dbase * K \<le> V"
      unfolding V_def using b(1) by (simp add: mult.commute)
    show "0 < V"
      using le K by (smt (verit) dbase_pos(1) mult_pos_pos)
  qed
  have W0: "0 \<le> W" unfolding W_def using b(3) K by simp
  have less: "W div V < q" if "?U * dbase + uint ujn2 < q * ?V2" for q
    by (rule quotient_less_if_leading [OF W_def[THEN meta_eq_to_obj_eq] b(4) V_def[THEN meta_eq_to_obj_eq] b(1) K V2(2) _ that]) simp
  have "W div V < dbase"
    using b(6) V(2) by (simp add: int_div_less_iff mult.commute)
  have top: "uint ujn \<le> uint vn1"
  proof -
    have "V < K * (?V2 + 1)"
      unfolding V_def using b(2) by (simp add: distrib_left)
    also have "\<dots> \<le> K * ((uint vn1 + 1) * dbase)"
      using K uint_less_dbase [of vn2] by (intro mult_left_mono) (simp_all add: distrib_right)
    finally have "V * dbase < K * ((uint vn1 + 1) * dbase) * dbase"
      by simp
    moreover have "K * (uint ujn * dbase) * dbase \<le> W"
      unfolding W_def using b(3) K by (simp add: algebra_simps)
    ultimately have "K * (uint ujn * dbase) * dbase < K * ((uint vn1 + 1) * dbase) * dbase"
      using b(6) by linarith
    then show ?thesis using K by simp
  qed
  have "W div V \<le> uint ?q \<and> uint ?q \<le> W div V + 1"
  proof (cases "ujn = vn1")
    case True
    have e: "uint ?q = dbase - 1"
      using True by (simp add: estimate_qhat_def dbase_def unsigned_minus_1_eq_mask mask_eq_exp_minus_1)
    have "dbase - 2 \<le> W div V"
    proof (rule normalised_top_quotient [of W _ K dbase "uint vn1" V _])
      show "W = (wr + K * (uint ujn1 * dbase + uint ujn2)) + K * (dbase * dbase * uint vn1)"
        unfolding W_def True by (simp add: algebra_simps)
      show "V = (vr + K * uint vn2) + K * (dbase * uint vn1)"
        unfolding V_def by (simp add: algebra_simps)
      have "K * (uint vn2 + 1) \<le> K * dbase"
        using K by (intro mult_left_mono) simp_all
      then show "vr + K * uint vn2 < K * dbase"
        using b(2) unfolding distrib_left by linarith
    qed (use b K V in \<open>simp_all add: dbase_def\<close>)
    with e \<open>W div V < dbase\<close> show ?thesis by linarith
  next
    case False
    then have lt: "uint ujn < uint vn1"
      using top by (simp add: word_uint_eq_iff)
    obtain qhat rhat where q: "dv ujn ujn1 vn1 = (qhat, rhat)" by fastforce
    note d = dv_value [OF lt q]
    have "W div V \<le> uint qhat"
    proof -
      have "?U + 1 \<le> (uint qhat + 1) * uint vn1"
        using d by (simp add: distrib_right)
      then have "(?U + 1) * dbase \<le> (uint qhat + 1) * uint vn1 * dbase"
        by (rule mult_right_mono) simp
      moreover have "0 \<le> (uint qhat + 1) * uint vn2" by simp
      moreover have "(uint qhat + 1) * ?V2 = (uint qhat + 1) * uint vn1 * dbase + (uint qhat + 1) * uint vn2"
        by (simp add: distrib_left mult.assoc)
      ultimately have "?U * dbase + uint ujn2 < (uint qhat + 1) * ?V2"
        using uint_less_dbase [of ujn2] unfolding distrib_right [of ?U 1] by linarith
      from less [OF this] show ?thesis by simp
    qed
    moreover have "0 \<le> W div V"
      using W0 V(2) by (simp add: pos_imp_zdiv_nonneg_iff)
    ultimately have "W div V \<le> uint (qhat_loop vn1 vn2 ujn2 qhat rhat)
      \<and> uint (qhat_loop vn1 vn2 ujn2 qhat rhat) * ?V2 \<le> ?U * dbase + uint ujn2"
      by (intro qhat_loop_correct d(1) [symmetric] less)
    then have l: "W div V \<le> uint ?q" "uint ?q * ?V2 \<le> ?U * dbase + uint ujn2"
      using False by (simp_all add: estimate_qhat_def q)
    have "uint ?q \<le> W div V + 1"
      by (rule quotient_ge_if_leading [OF W_def[THEN meta_eq_to_obj_eq] b(3) V_def[THEN meta_eq_to_obj_eq] b(1,2) l(2) _ _ V])
        (simp_all add: less_imp_le)
    with l(1) show ?thesis by simp
  qed
  then show "W div V \<le> uint ?q" "uint ?q \<le> W div V + 1"
    by simp_all
qed

end

section \<open>Algorithm D\<close>

text \<open>
  One iteration of the main loop (steps D3 to D6) at index \<open>j\<close>: the quotient digit, the remaining
  dividend and the scratch product \<open>qhatv\<close>.
\<close>

definition knuthD_step ::
    "digit_div \<Rightarrow> js_bigint \<Rightarrow> nat \<Rightarrow> nat \<Rightarrow> js_bigint \<Rightarrow> js_bigint \<Rightarrow> digit \<times> js_bigint \<times> js_bigint" where
  "knuthD_step dv divisor n j u qhatv =
     (let vn1 = m_data divisor ! (n - 1);
          ujn = m_data u ! (j + n);
          qhat = estimate_qhat dv vn1 (m_data divisor ! (n - 2)) ujn
                   (m_data u ! (j + n - 1)) (m_data u ! (j + n - 2));
          qhatv = internalMultiplyAdd divisor qhat 0 n qhatv;
          (u, c) = absoluteInplaceSub u qhatv j
      in if c \<noteq> 0
         then
           let (u, c) = absoluteInplaceAdd u divisor j;
               u = u\<lparr>m_data := (m_data u)[j + n := m_data u ! (j + n) + c]\<rparr>
           in (qhat - 1, u, qhatv)
         else (qhat, u, qhatv))"

fun knuthD_loop ::
    "digit_div \<Rightarrow> js_bigint \<Rightarrow> nat \<Rightarrow> nat \<Rightarrow> js_bigint \<Rightarrow> js_bigint \<Rightarrow> js_bigint option \<Rightarrow> js_bigint \<times> js_bigint option" where
  "knuthD_loop dv divisor n 0 u qhatv q = (u, q)"
| "knuthD_loop dv divisor n (Suc j) u qhatv q =
     (let (qhat, u, qhatv) = knuthD_step dv divisor n j u qhatv
      in knuthD_loop dv divisor n j u qhatv (map_option (\<lambda>q. q\<lparr>m_data := (m_data q)[j := qhat]\<rparr>) q))"

text \<open>
  \<open>wantQuotient\<close> and \<open>wantRemainder\<close> say whether the code's two result pointers are not null.
\<close>

definition absoluteDivWithBigIntDivisor ::
    "digit_div \<Rightarrow> js_bigint \<Rightarrow> js_bigint \<Rightarrow> bool \<Rightarrow> bool \<Rightarrow> (js_bigint option \<times> js_bigint option) throws" where
  "absoluteDivWithBigIntDivisor dv dividend divisor wantQuotient wantRemainder =
     (let n = bi_length divisor;
          m = bi_length dividend - n
      in andThen (if wantQuotient then andThen (createWithLength (m + 1)) (\<lambda>q. Inr (Some q)) else Inr None) (\<lambda>q.
         andThen (createWithLength (n + 1)) (\<lambda>qhatv.
         let lastDigit = m_data divisor ! (n - 1);
             shift = clz lastDigit
         in andThen (if 0 < shift then absoluteLeftShiftAlwaysCopy divisor shift SameSizeResult else Inr divisor) (\<lambda>divisor.
            andThen (absoluteLeftShiftAlwaysCopy dividend shift AlwaysAddOneDigit) (\<lambda>u.
            let (u, q) = knuthD_loop dv divisor n (m + 1) u qhatv q
            in Inr (q, if wantRemainder then Some (inplaceRightShift u shift) else None))))))"

lemma split_last_two: "2 \<le> length xs \<Longrightarrow> xs = take (length xs - 2) xs @ [xs ! (length xs - 2), xs ! (length xs - 1)]"
proof -
  assume l: "2 \<le> length xs"
  then obtain k where k: "length xs = Suc (Suc k)"
    by (metis add_2_eq_Suc le_Suc_ex)
  then have "drop k xs = [xs ! k, xs ! Suc k]"
    by (simp flip: Cons_nth_drop_Suc)
  with k show ?thesis
    using append_take_drop_id [of k xs] by simp
qed

lemma split_window:
  assumes "j + n < length xs" "2 \<le> n"
  shows "\<exists>ws. xs = take j xs @ ws @ drop (j + n + 1) xs \<and> length ws = n + 1 \<and>
    ws = take (n - 2) (drop j xs) @ [xs ! (j + n - 2), xs ! (j + n - 1), xs ! (j + n)]"
proof (intro exI conjI)
  let ?ws = "take (n + 1) (drop j xs)"
  show "xs = take j xs @ ?ws @ drop (j + n + 1) xs"
    by (metis add.assoc add.commute append_take_drop_id drop_drop)
  show "length ?ws = n + 1" using assms by simp
  from assms(2) obtain k where k: "n = Suc (Suc k)"
    by (metis add_2_eq_Suc le_Suc_ex)
  show "?ws = take (n - 2) (drop j xs) @ [xs ! (j + n - 2), xs ! (j + n - 1), xs ! (j + n)]"
    using assms by (simp add: k take_Suc_conv_app_nth)
qed

context digit_divider
begin

lemma estimate_window:
  fixes vs us :: "digit list" and j n :: nat
  defines "V \<equiv> dval vs" and "W \<equiv> dval (drop j us)"
  assumes n: "length vs = n" "2 \<le> n" and norm: "dbase \<le> 2 * uint (vs ! (n - 1))"
    and j: "j + n < length us" and W: "W < V * dbase"
  shows "\<exists>ws. us = take j us @ ws @ drop (j + n + 1) us \<and> length ws = n + 1 \<and> dval ws = W
      \<and> dval (drop (j + n + 1) us) = 0"
    "let q = estimate_qhat dv (vs ! (n - 1)) (vs ! (n - 2)) (us ! (j + n)) (us ! (j + n - 1)) (us ! (j + n - 2))
     in W div V \<le> uint q \<and> uint q \<le> W div V + 1"
proof -
  let ?K = "dbase ^ (n - 2)" and ?ps = "take j us" and ?rs = "drop (j + n + 1) us"
  let ?vr = "dval (take (n - 2) vs)" and ?wr = "dval (take (n - 2) (drop j us))"
  have "dval vs = dval (take (n - 2) vs @ [vs ! (n - 2), vs ! (n - 1)])"
    using split_last_two [of vs] n by (intro arg_cong [of _ _ dval]) simp
  then have V: "V = ?vr + ?K * (uint (vs ! (n - 1)) * dbase + uint (vs ! (n - 2)))"
    unfolding V_def by (simp add: dval_simps n algebra_simps)
  from split_window [OF j n(2)] obtain ws where
    ws: "us = ?ps @ ws @ ?rs" "length ws = n + 1"
      "ws = take (n - 2) (drop j us) @ [us ! (j + n - 2), us ! (j + n - 1), us ! (j + n)]"
    by blast
  have dj: "drop j us = ws @ ?rs"
    using arg_cong [OF ws(1), of "drop j"] j by simp
  have "W < dbase ^ (n + 1) * 1"
    using less_trans [OF W, of "dbase ^ n * dbase"] dval_less [of vs] n(1) by (simp add: V_def mult.commute)
  moreover have Wsum: "W = dval ws + dbase ^ (n + 1) * dval ?rs"
    unfolding W_def dj using ws(2) by (simp add: dval_simps)
  ultimately have "dbase ^ (n + 1) * dval ?rs < dbase ^ (n + 1) * 1"
    using dval_nonneg [of ws] by linarith
  then have "dval ?rs < 1" by simp
  then have rs0: "dval ?rs = 0" using dval_nonneg [of ?rs] by linarith
  then have Wws: "W = dval ws" using Wsum by simp
  with ws(1,2) rs0 show "\<exists>ws. us = ?ps @ ws @ ?rs \<and> length ws = n + 1 \<and> dval ws = W \<and> dval ?rs = 0"
    by blast
  have "length (take (n - 2) (drop j us)) = n - 2" using j n by simp
  then have Weq: "W = ?wr + ?K * ((uint (us ! (j + n)) * dbase + uint (us ! (j + n - 1))) * dbase + uint (us ! (j + n - 2)))"
    unfolding Wws by (subst ws(3)) (simp add: dval_simps algebra_simps)
  have vrb: "0 \<le> ?vr" "?vr < ?K" "0 \<le> ?wr" "?wr < ?K"
    using dval_less [of "take (n - 2) vs"] dval_less [of "take (n - 2) (drop j us)"] n j
    by simp_all
  note W' = W [unfolded V Weq]
  show "let q = estimate_qhat dv (vs ! (n - 1)) (vs ! (n - 2)) (us ! (j + n)) (us ! (j + n - 1)) (us ! (j + n - 2))
     in W div V \<le> uint q \<and> uint q \<le> W div V + 1"
    unfolding Let_def V Weq using estimate_qhat_correct [OF vrb norm W'] by blast
qed

end

text \<open>Steps D4 to D6 on a window: the subtraction, and the addition back when it borrows.\<close>

lemma subtract_and_add_back:
  fixes ws vs rs :: "digit list" and q :: int
  defines "V \<equiv> dval vs" and "W \<equiv> dval ws"
  assumes len: "length ws = length vs + 1" and V0: "0 < V" and W: "W < V * dbase"
    and q: "W div V \<le> q" "q \<le> W div V + 1"
    and ts: "length ts = length vs + 1" "dval ts = V * q"
    and sub: "absoluteInplaceSub_loop (ps @ ws @ rs) (length ps) ts 0 = (us', c)"
  shows "c = 0 \<Longrightarrow> q = W div V \<and> (\<exists>ws'. us' = ps @ ws' @ rs \<and> length ws' = length ws \<and> dval ws' = W mod V)"
    "c \<noteq> 0 \<Longrightarrow> q = W div V + 1 \<and> (\<exists>ws' us2 c2. absoluteInplaceAdd_loop us' (length ps) vs 0 = (us2, c2) \<and>
       us2[length ps + length vs := us2 ! (length ps + length vs) + c2] = ps @ ws' @ rs \<and>
       length ws' = length ws \<and> dval ws' = W mod V)"
proof -
  let ?n = "length vs"
  from absoluteInplaceSub_loop_window [of ws ts 0 ps rs] sub len ts obtain ws' where
    ws': "us' = ps @ ws' @ rs" "length ws' = ?n + 1" "uint c \<le> 1"
      "dval ws' - dbase ^ (?n + 1) * uint c = W - V * q"
    unfolding W_def by auto
  have m: "0 \<le> W mod V" "W mod V < V" "W = V * (W div V) + W mod V"
    using V0 by simp_all
  have q2: "q = W div V \<or> q = W div V + 1" using q by linarith
  have lt: "dval ws' < dbase ^ (?n + 1)" using dval_less [of ws'] ws'(2) by simp
  show "q = W div V \<and> (\<exists>ws'. us' = ps @ ws' @ rs \<and> length ws' = length ws \<and> dval ws' = W mod V)" if "c = 0"
  proof -
    have e: "dval ws' = W - V * q" using that ws'(4) by simp
    have "q \<noteq> W div V + 1"
    proof
      assume "q = W div V + 1"
      then have "dval ws' = W - (V * (W div V) + V)" using e by (simp add: distrib_left)
      with m show False using dval_nonneg [of ws'] by linarith
    qed
    with q2 e ws'(1,2) len show ?thesis by (auto simp: minus_mult_div_eq_mod)
  qed
  show "q = W div V + 1 \<and> (\<exists>ws' us2 c2. absoluteInplaceAdd_loop us' (length ps) vs 0 = (us2, c2) \<and>
       us2[length ps + ?n := us2 ! (length ps + ?n) + c2] = ps @ ws' @ rs \<and>
       length ws' = length ws \<and> dval ws' = W mod V)" if "c \<noteq> 0"
  proof -
    have c1: "uint c = 1" using that ws'(3) uint_pos [of c] by linarith
    have "q \<noteq> W div V"
    proof
      assume "q = W div V"
      with c1 ws'(4) have "dval ws' - dbase ^ (?n + 1) = W mod V" by (simp add: minus_mult_div_eq_mod)
      with lt m(1) show False by linarith
    qed
    with q2 have q1: "q = W div V + 1" by simp
    obtain lo hi where lh: "ws' = lo @ [hi]" "length lo = ?n"
      using ws'(2) by (cases ws' rule: rev_cases) auto
    from absoluteInplaceAdd_loop_window [of lo vs 0 ps "hi # rs"] lh(2) obtain lo' c2 where
      add: "absoluteInplaceAdd_loop us' (length ps) vs 0 = (ps @ lo' @ hi # rs, c2)" "length lo' = ?n"
        "dval lo' + dbase ^ ?n * uint c2 = dval lo + V"
      unfolding V_def ws'(1) lh(1) by auto
    let ?ws = "lo' @ [hi + c2]"
    obtain k where k: "uint (hi + c2) = uint hi + uint c2 + dbase * k"
      using word_add_carry [of hi c2] by (intro that [of "- of_bool (hi + c2 < hi)"]) (simp add: dbase_def)
    have e: "W mod V = W - V * q + V" unfolding q1 by (simp add: distrib_left minus_mult_div_eq_mod)
    have dw: "dval ?ws = W mod V + dbase ^ (?n + 1) * (k + 1)"
      unfolding e using ws'(4) c1 add(2,3) lh k by (simp add: dval_simps distrib_left algebra_simps)
    have "V < dbase ^ (?n + 1)"
      unfolding V_def by (rule less_le_trans [OF dval_less]) simp
    then have "W mod V < dbase ^ (?n + 1)" using m(2) by linarith
    moreover have "dval ?ws < dbase ^ (?n + 1)" using dval_less [of ?ws] add(2) by simp
    ultimately have "dval ?ws = W mod V"
      by (intro exact_if_in_range [OF dw] dval_nonneg m(1))
    moreover have "(ps @ lo' @ hi # rs)[length ps + ?n := (ps @ lo' @ hi # rs) ! (length ps + ?n) + c2] = ps @ ?ws @ rs"
      using add(2) by (simp add: nth_append list_update_append)
    ultimately show ?thesis
      using q1 add len by (intro conjI exI [of _ ?ws] exI [of _ c2] exI [of _ "ps @ lo' @ hi # rs"]) simp_all
  qed
qed

context digit_divider
begin

lemma knuthD_step_correct:
  fixes divisor u :: js_bigint and j n :: nat
  defines "V \<equiv> dval (m_data divisor)" and "W \<equiv> dval (drop j (m_data u))"
  assumes n: "bi_length divisor = n" "2 \<le> n" and norm: "dbase \<le> 2 * uint (m_data divisor ! (n - 1))"
    and j: "j + n < bi_length u" and W: "W < V * dbase" and qv: "bi_length qhatv = n + 1"
  obtains q u' qv' where "knuthD_step dv divisor n j u qhatv = (q, u', qv')"
    "uint q = W div V" "dval (drop j (m_data u')) = W mod V"
    "take j (m_data u') = take j (m_data u)" "bi_length u' = bi_length u" "bi_length qv' = n + 1"
proof -
  let ?vs = "m_data divisor" and ?us = "m_data u"
  let ?ps = "take j ?us" and ?rs = "drop (j + n + 1) ?us"
  have l: "length ?vs = n" "j + n < length ?us" "length ?ps = j"
    using n j by (simp_all add: bi_length_def)
  define qhat where "qhat = estimate_qhat dv (?vs ! (n - 1)) (?vs ! (n - 2)) (?us ! (j + n)) (?us ! (j + n - 1)) (?us ! (j + n - 2))"
  from estimate_window [OF l(1) n(2) norm l(2)] W obtain ws where
    ws: "?us = ?ps @ ws @ ?rs" "length ws = n + 1" "dval ws = W" "dval ?rs = 0"
    and est: "W div V \<le> uint qhat" "uint qhat \<le> W div V + 1"
    unfolding V_def W_def qhat_def Let_def by blast
  have "0 \<le> W" unfolding W_def by simp
  then have V0: "0 < V" using W by (metis dbase_pos(2) le_less_trans less_le_not_le mult_nonpos_nonneg not_le)
  define qv' where "qv' = internalMultiplyAdd divisor qhat 0 n qhatv"
  have qv': "dval (m_data qv') = V * uint qhat" "length (m_data qv') = n + 1"
    using internalMultiplyAdd_value [of n divisor qhatv qhat 0] n qv l(1)
    by (simp_all add: qv'_def V_def bi_length_def)
  obtain us' c where sub: "absoluteInplaceSub_loop ?us j (m_data qv') 0 = (us', c)" by fastforce
  then have "absoluteInplaceSub_loop (?ps @ ws @ ?rs) (length ?ps) (m_data qv') 0 = (us', c)"
    using ws(1) l(3) by simp
  note sab = subtract_and_add_back [where ws = ws and vs = ?vs, unfolded ws(3) l(1), folded V_def,
      OF ws(2) V0 W est qv'(2,1) this, unfolded l(3)]
  have xs: "\<exists>xs. xs = ?ps @ zs @ ?rs \<and> length xs = length ?us \<and> dval (drop j xs) = dval zs \<and> take j xs = ?ps"
    if "length zs = length ws" for zs
    using that ws(2,4) l(2,3) by (intro exI [of _ "?ps @ zs @ ?rs"]) (simp add: dval_simps)
  show thesis
  proof (cases "c = 0")
    case True
    from sab(1) [OF True] xs obtain xs where
      z: "uint qhat = W div V" "us' = xs" "length xs = length ?us" "dval (drop j xs) = W mod V" "take j xs = ?ps"
      by metis
    have step: "knuthD_step dv divisor n j u qhatv = (qhat, u\<lparr>m_data := xs\<rparr>, qv')"
      unfolding knuthD_step_def Let_def qhat_def [symmetric] qv'_def [symmetric] absoluteInplaceSub_def
      using True sub z(2) by simp
    show ?thesis
      by (rule that [OF step z(1)]) (use z qv'(2) in \<open>simp_all add: bi_length_def\<close>)
  next
    case False
    from sab(2) [OF False] obtain zs us2 c2 where
      z: "uint qhat = W div V + 1" "absoluteInplaceAdd_loop us' j ?vs 0 = (us2, c2)"
        "us2[j + n := us2 ! (j + n) + c2] = ?ps @ zs @ ?rs" "length zs = length ws" "dval zs = W mod V"
      by blast
    from xs [OF z(4)] obtain xs where
      x: "xs = ?ps @ zs @ ?rs" "length xs = length ?us" "dval (drop j xs) = dval zs" "take j xs = ?ps"
      by blast
    have step: "knuthD_step dv divisor n j u qhatv = (qhat - 1, u\<lparr>m_data := xs\<rparr>, qv')"
      unfolding knuthD_step_def Let_def qhat_def [symmetric] qv'_def [symmetric]
        absoluteInplaceSub_def absoluteInplaceAdd_def x(1)
      using False sub z(2,3) by simp
    have "0 \<le> W div V" using \<open>0 \<le> W\<close> V0 by (simp add: pos_imp_zdiv_nonneg_iff)
    then have "qhat \<noteq> 0" using z(1) by auto
    then have "uint (qhat - 1) = W div V" using z(1) by (simp add: uint_minus_one)
    then show ?thesis
      by (rule that [OF step]) (use x(2-4) z(5) qv'(2) in \<open>simp_all add: bi_length_def\<close>)
  qed
qed

text \<open>The loop divides: the written quotient digits and the rest of the dividend.\<close>

lemma knuthD_loop_correct:
  fixes divisor :: js_bigint and n :: nat
  defines "V \<equiv> dval (m_data divisor)"
  assumes n: "bi_length divisor = n" "2 \<le> n" and norm: "dbase \<le> 2 * uint (m_data divisor ! (n - 1))"
    and k: "k + n \<le> bi_length u" and W: "dval (drop k (m_data u)) < V" and qv: "bi_length qhatv = n + 1"
  shows "\<exists>u' q' Q. knuthD_loop dv divisor n k u qhatv q = (u', q') \<and> bi_length u' = bi_length u
    \<and> dval (m_data u) = V * Q + dval (m_data u') \<and> dval (m_data u') < V \<and> (q = None \<longrightarrow> q' = None)
    \<and> (\<forall>cell. q = Some cell \<and> k \<le> bi_length cell \<longrightarrow>
         (\<exists>cell'. q' = Some cell' \<and> bi_length cell' = bi_length cell
           \<and> drop k (m_data cell') = drop k (m_data cell) \<and> dval (take k (m_data cell')) = Q))"
  using k W qv
proof (induction k arbitrary: u qhatv q)
  case 0
  then show ?case by (intro exI [of _ u] exI [of _ q] exI [of _ 0]) auto
next
  case (Suc j)
  let ?us = "m_data u" and ?W = "dval (drop j (m_data u))"
  have "drop j ?us = ?us ! j # drop (Suc j) ?us"
    using Suc.prems(1) n by (simp add: Cons_nth_drop_Suc bi_length_def)
  then have "?W < dbase + dbase * dval (drop (Suc j) ?us)" by simp
  also have "\<dots> = dbase * (dval (drop (Suc j) ?us) + 1)" by (simp add: distrib_left)
  also have "\<dots> \<le> dbase * V" using Suc.prems(2) by (intro mult_left_mono) simp_all
  finally have W: "?W < V * dbase" by (simp add: mult.commute)
  have jb: "j + n < bi_length u" using Suc.prems(1) by simp
  obtain q1 u1 qv1 where s: "knuthD_step dv divisor n j u qhatv = (q1, u1, qv1)"
    "uint q1 = ?W div V" "dval (drop j (m_data u1)) = ?W mod V"
    "take j (m_data u1) = take j ?us" "bi_length u1 = bi_length u" "bi_length qv1 = n + 1"
    by (rule knuthD_step_correct [OF n norm jb W [unfolded V_def] Suc.prems(3), folded V_def])
  have "0 < V" using dval_nonneg [of "drop (Suc j) ?us"] Suc.prems(2) by linarith
  then have lt: "dval (drop j (m_data u1)) < V" using s(3) by simp
  let ?q = "map_option (\<lambda>q. q\<lparr>m_data := (m_data q)[j := q1]\<rparr>) q"
  have "j + n \<le> bi_length u1" using s(5) Suc.prems(1) by simp
  from Suc.IH [OF this lt s(6), of ?q, unfolded s(5)] obtain u' q' Q where
    IH: "knuthD_loop dv divisor n j u1 qv1 ?q = (u', q')" "bi_length u' = bi_length u"
      "dval (m_data u1) = V * Q + dval (m_data u')" "dval (m_data u') < V" "?q = None \<longrightarrow> q' = None"
      "\<forall>cell. ?q = Some cell \<and> j \<le> bi_length cell \<longrightarrow> (\<exists>cell'. q' = Some cell' \<and> bi_length cell' = bi_length cell
           \<and> drop j (m_data cell') = drop j (m_data cell) \<and> dval (take j (m_data cell')) = Q)"
    by (elim exE conjE) (rule that)
  have tk: "dval xs = dval (take j xs) + dbase ^ j * dval (drop j xs)" if "j \<le> length xs" for xs
    using dval_append [of "take j xs" "drop j xs"] that by simp
  have "dbase ^ j * ?W = dbase ^ j * (V * uint q1) + dbase ^ j * (?W mod V)"
    unfolding s(2) by (simp flip: distrib_left)
  then have val: "dval ?us = V * (Q + dbase ^ j * uint q1) + dval (m_data u')"
    using tk [of ?us] tk [of "m_data u1"] s(3-5) IH(3) Suc.prems(1)
    by (simp add: bi_length_def distrib_left ac_simps)
  have cell: "\<exists>cell'. q' = Some cell' \<and> bi_length cell' = bi_length cell
      \<and> drop (Suc j) (m_data cell') = drop (Suc j) (m_data cell) \<and> dval (take (Suc j) (m_data cell')) = Q + dbase ^ j * uint q1"
    if cell: "q = Some cell" "Suc j \<le> bi_length cell" for cell
  proof -
    let ?cell = "cell\<lparr>m_data := (m_data cell)[j := q1]\<rparr>"
    from IH(6) cell obtain cell' where
      c: "q' = Some cell'" "bi_length cell' = bi_length cell" "drop j (m_data cell') = drop j ((m_data cell)[j := q1])"
        "dval (take j (m_data cell')) = Q"
      by (auto simp: bi_length_def)
    have "drop j ((m_data cell)[j := q1]) = q1 # drop (Suc j) (m_data cell)"
      using cell(2) by (simp add: bi_length_def drop_update_swap Cons_nth_drop_Suc [symmetric])
    moreover have "drop j (m_data cell') = m_data cell' ! j # drop (Suc j) (m_data cell')"
      using c(2) cell(2) by (simp add: bi_length_def Cons_nth_drop_Suc)
    ultimately have "m_data cell' ! j = q1" "drop (Suc j) (m_data cell') = drop (Suc j) (m_data cell)"
      using c(3) by simp_all
    with c cell(2) show ?thesis
      by (intro exI [of _ cell']) (simp add: take_Suc_conv_app_nth dval_simps bi_length_def)
  qed
  have "knuthD_loop dv divisor n (Suc j) u qhatv q = (u', q')" by (simp add: s(1) IH(1))
  moreover have "q = None \<longrightarrow> q' = None" using IH(5) by simp
  ultimately show ?case
    using IH(2,4) val cell
    by (intro exI [of _ u'] exI [of _ q'] exI [of _ "Q + dbase ^ j * uint q1"] conjI) blast+
qed

end

lemma dval_top:
  assumes "xs \<noteq> []"
  shows "dval xs = dval (take (length xs - 1) xs) + dbase ^ (length xs - 1) * uint (xs ! (length xs - 1))"
    "dval (take (length xs - 1) xs) < dbase ^ (length xs - 1)"
proof -
  have "xs = take (length xs - 1) xs @ [xs ! (length xs - 1)]"
    using assms by (metis butlast_conv_take append_butlast_last_id last_conv_nth)
  then have "dval xs = dval (take (length xs - 1) xs @ [xs ! (length xs - 1)])"
    by (rule arg_cong)
  then show "dval xs = dval (take (length xs - 1) xs) + dbase ^ (length xs - 1) * uint (xs ! (length xs - 1))"
    by (simp add: dval_simps)
  show "dval (take (length xs - 1) xs) < dbase ^ (length xs - 1)"
    using dval_less [of "take (length xs - 1) xs"] by simp
qed

text \<open>Step D1: after the shift the divisor keeps its length and its leading digit is normalised.\<close>

lemma normalise_divisor:
  fixes ds :: "digit list"
  assumes "ds \<noteq> []" "ds ! (length ds - 1) \<noteq> 0"
  defines "s \<equiv> clz (ds ! (length ds - 1))"
  shows "2 ^ s * dval ds < dbase ^ length ds" "2 ^ 63 * dbase ^ (length ds - 1) \<le> 2 ^ s * dval ds"
    "\<lbrakk>length vs = length ds; dval vs = 2 ^ s * dval ds\<rbrakk> \<Longrightarrow> dbase \<le> 2 * uint (vs ! (length ds - 1))"
proof -
  let ?k = "length ds - 1" and ?t = "ds ! (length ds - 1)"
  note top = dval_top [OF assms(1)] and s = clz_bounds [OF assms(2), folded s_def]
  have len: "length ds = Suc ?k" using assms(1) by (cases ds) auto
  have t: "2 ^ s * (uint ?t + 1) \<le> dbase"
  proof -
    have e: "dbase = 2 ^ s * 2 ^ (64 - s)"
      using s(1) dbase_split [of s] by (simp add: mult.commute)
    have "2 ^ s * uint ?t < 2 ^ s * 2 ^ (64 - s)"
      using s(3) e by (simp add: dbase_def mult.commute)
    then have "uint ?t + 1 \<le> 2 ^ (64 - s)" by simp
    then show ?thesis unfolding e by (rule mult_left_mono) simp
  qed
  have "dval ds < dbase ^ ?k * (uint ?t + 1)"
    using top unfolding distrib_left by linarith
  then have "2 ^ s * dval ds < 2 ^ s * (dbase ^ ?k * (uint ?t + 1))" by simp
  also have "\<dots> = dbase ^ ?k * (2 ^ s * (uint ?t + 1))" by (simp add: ac_simps)
  also have "\<dots> \<le> dbase ^ ?k * dbase" using t by (intro mult_left_mono) simp_all
  finally show "2 ^ s * dval ds < dbase ^ length ds"
    by (subst len) (simp add: mult.commute)
  have "dbase ^ ?k * 2 ^ 63 \<le> dbase ^ ?k * (uint ?t * 2 ^ s)"
    by (rule mult_left_mono [OF s(2)]) simp
  also have "\<dots> \<le> 2 ^ s * dval ds"
    using top(1) dval_nonneg [of "take ?k ds"] by (simp add: distrib_left ac_simps del: dval_nonneg)
  finally have ge: "dbase ^ ?k * 2 ^ 63 \<le> 2 ^ s * dval ds" .
  then show "2 ^ 63 * dbase ^ ?k \<le> 2 ^ s * dval ds" by (simp add: mult.commute)
  assume vs: "length vs = length ds" "dval vs = 2 ^ s * dval ds"
  then have "vs \<noteq> []" using assms(1) by auto
  note vt = dval_top [OF this, unfolded vs(1)]
  have "dbase ^ ?k * 2 ^ 63 < dbase ^ ?k * (uint (vs ! ?k) + 1)"
    using vt ge vs(2) unfolding distrib_left mult_1_right by linarith
  then have "2 ^ 63 < uint (vs ! ?k) + 1"
    by (simp only: mult_less_cancel_left_pos zero_less_power dbase_pos)
  then show "dbase \<le> 2 * uint (vs ! ?k)"
    unfolding dbase_def by simp
qed

context digit_divider
begin

lemma absoluteDivWithBigIntDivisor_correct:
  assumes d: "trimmed (m_data divisor)" "2 \<le> bi_length divisor" "bi_length divisor \<le> bi_length x" "bi_length x < maxLength"
  obtains q r where
    "absoluteDivWithBigIntDivisor dv x divisor wantQ wantR = Inr (q, if wantR then Some r else None)"
    "wantQ \<Longrightarrow> \<exists>cell. q = Some cell \<and> dval (m_data cell) = dval (m_data x) div dval (m_data divisor)
       \<and> bi_length cell = bi_length x - bi_length divisor + 1"
    "dval (m_data r) = dval (m_data x) mod dval (m_data divisor)" "bi_length r = bi_length x + 1"
proof -
  let ?n = "bi_length divisor" and ?x = "dval (m_data x)" and ?v = "dval (m_data divisor)"
  let ?m = "bi_length x - ?n" and ?d = "m_data divisor ! (?n - 1)"
  let ?s = "clz ?d"
  have ne: "m_data divisor \<noteq> []" using d(2) by (auto simp: bi_length_def)
  then have last: "?d \<noteq> 0"
    using d(1) by (simp add: trimmed_def bi_length_def last_conv_nth)
  note s = clz_bounds [OF last] and N = normalise_divisor [OF ne, folded bi_length_def, OF last]
  obtain v where v: "(if 0 < ?s then absoluteLeftShiftAlwaysCopy divisor ?s SameSizeResult else Inr divisor) = Inr v"
    "dval (m_data v) = 2 ^ ?s * ?v" "bi_length v = ?n"
  proof (cases "0 < ?s")
    case True
    obtain r where "absoluteLeftShiftAlwaysCopy divisor ?s SameSizeResult = Inr r"
      "dval (m_data r) = 2 ^ ?s * ?v" "bi_length r = ?n"
      by (rule absoluteLeftShiftAlwaysCopy_same [OF s(1) _ N(1)]) (use d in simp_all)
    with True show ?thesis by (intro that [of r]) simp_all
  next
    case False
    then show ?thesis by (intro that [of divisor]) simp_all
  qed
  obtain u where u: "absoluteLeftShiftAlwaysCopy x ?s AlwaysAddOneDigit = Inr u"
    "dval (m_data u) = 2 ^ ?s * ?x" "bi_length u = bi_length x + 1"
    using absoluteLeftShiftAlwaysCopy_add [OF s(1) d(4)] by blast
  have top: "dval (drop (?m + 1) (m_data u)) < dval (m_data v)"
  proof -
    have "dval (m_data u) = dval (take (?m + 1) (m_data u)) + dbase ^ (?m + 1) * dval (drop (?m + 1) (m_data u))"
      using dval_append [of "take (?m + 1) (m_data u)" "drop (?m + 1) (m_data u)"] u(3) d(2,3) by (simp add: bi_length_def)
    then have "dbase ^ (?m + 1) * dval (drop (?m + 1) (m_data u)) \<le> 2 ^ ?s * ?x"
      using dval_nonneg [of "take (?m + 1) (m_data u)"] u(2) by linarith
    also have "2 ^ ?s * ?x < 2 ^ ?s * dbase ^ bi_length x"
      using dval_less [of "m_data x"] by (simp add: bi_length_def)
    also have "\<dots> \<le> 2 ^ 63 * dbase ^ bi_length x"
      using s(1) by (intro mult_right_mono power_increasing) simp_all
    also have "dbase ^ bi_length x = dbase ^ (?n - 1) * dbase ^ (?m + 1)"
      using d(2,3) by (subst power_add [symmetric]) simp
    also have "2 ^ 63 * (dbase ^ (?n - 1) * dbase ^ (?m + 1)) \<le> dval (m_data v) * dbase ^ (?m + 1)"
      unfolding v(2) mult.assoc [symmetric] by (rule mult_right_mono [OF N(2)]) simp
    finally show ?thesis by (simp add: mult.commute)
  qed
  have run: "\<exists>u' q' Q. knuthD_loop dv v ?n (?m + 1) u qhatv q = (u', q') \<and> bi_length u' = bi_length u
    \<and> dval (m_data u) = dval (m_data v) * Q + dval (m_data u') \<and> dval (m_data u') < dval (m_data v) \<and> (q = None \<longrightarrow> q' = None)
    \<and> (\<forall>cell. q = Some cell \<and> ?m + 1 \<le> bi_length cell \<longrightarrow>
         (\<exists>cell'. q' = Some cell' \<and> bi_length cell' = bi_length cell
           \<and> drop (?m + 1) (m_data cell') = drop (?m + 1) (m_data cell) \<and> dval (take (?m + 1) (m_data cell')) = Q))"
    if "bi_length qhatv = ?n + 1" for qhatv q
    by (rule knuthD_loop_correct [OF v(3) d(2) _ _ top that])
       (use N(3) v u d(2,3) in \<open>simp_all add: bi_length_def\<close>)
  let ?qh = "\<lparr>m_sign = False, m_data = replicate (?n + 1) 0\<rparr>"
    and ?q = "\<lparr>m_sign = False, m_data = replicate (?m + 1) 0\<rparr>"
  have sizes: "createWithLength (?m + 1) = Inr ?q" "createWithLength (?n + 1) = Inr ?qh"
    using d by (simp_all add: createWithLength_def)
  have result: "Q = ?x div ?v \<and> dval (m_data (inplaceRightShift u' ?s)) = ?x mod ?v"
    if "dval (m_data u) = dval (m_data v) * Q + dval (m_data u')" "dval (m_data u') < dval (m_data v)"
      "bi_length u' = bi_length u" for Q u'
  proof -
    define r where "r = ?x - ?v * Q"
    have e: "dval (m_data u') = r * 2 ^ ?s"
      using that(1) unfolding u(2) v(2) r_def by (simp add: algebra_simps)
    have "r * 2 ^ ?s < ?v * 2 ^ ?s"
      using that(2) unfolding e v(2) by (simp only: mult.commute)
    then have "r < ?v" by simp
    moreover have "0 \<le> r"
      using dval_nonneg [of "m_data u'"] unfolding e by (simp add: zero_le_mult_iff del: dval_nonneg)
    moreover have "?x = ?v * Q + r" by (simp add: r_def)
    ultimately have qr: "?x div ?v = Q" "?x mod ?v = r"
      using int_div_pos_eq int_mod_pos_eq by metis+
    have "m_data u' \<noteq> []" using that(3) u(3) by (auto simp: bi_length_def)
    from inplaceRightShift_value(1) [OF s(1) this] show ?thesis
      unfolding e qr by simp
  qed
  have "bi_length ?qh = ?n + 1" by (simp add: bi_length_def)
  from run [OF this, of "if wantQ then Some ?q else None"] obtain u' q' Q where
    w: "knuthD_loop dv v ?n (?m + 1) u ?qh (if wantQ then Some ?q else None) = (u', q')"
    "bi_length u' = bi_length u" "dval (m_data u) = dval (m_data v) * Q + dval (m_data u')"
    "dval (m_data u') < dval (m_data v)" "(if wantQ then Some ?q else None) = None \<longrightarrow> q' = None"
    and cells: "\<forall>cell. (if wantQ then Some ?q else None) = Some cell \<and> ?m + 1 \<le> bi_length cell \<longrightarrow>
         (\<exists>cell'. q' = Some cell' \<and> bi_length cell' = bi_length cell
           \<and> drop (?m + 1) (m_data cell') = drop (?m + 1) (m_data cell) \<and> dval (take (?m + 1) (m_data cell')) = Q)"
    by (elim exE conjE) (rule that)
  note Q = result [OF w(3,4,2)]
  have "\<exists>cell. q' = Some cell \<and> dval (m_data cell) = ?x div ?v \<and> bi_length cell = ?m + 1" if wantQ
  proof -
    have "bi_length ?q = ?m + 1" by (simp only: bi_length_def js_bigint.select_convs length_replicate)
    with cells that obtain cell where "q' = Some cell" "bi_length cell = ?m + 1" "dval (take (?m + 1) (m_data cell)) = Q"
      by (metis (no_types, lifting) le_refl)
    with Q show ?thesis by (simp add: bi_length_def)
  qed
  moreover have "absoluteDivWithBigIntDivisor dv x divisor wantQ wantR = Inr (q', if wantR then Some (inplaceRightShift u' ?s) else None)"
    using w(1) by (cases wantQ; simp only: absoluteDivWithBigIntDivisor_def sizes v(1) u(1) Let_def andThen_simps if_True if_False prod.case)
  moreover have "bi_length (inplaceRightShift u' ?s) = bi_length x + 1"
    using inplaceRightShift_value(2) [OF s(1), of u'] w(2) u(3) by (cases "m_data u'") (simp_all add: bi_length_def)
  ultimately show thesis
    using Q by (intro that [of q' "inplaceRightShift u' ?s"]) simp_all
qed

end

end
