(* ===== verification/BigIntArith.thy ===== *)
theory BigIntArith
  imports BigIntDivision "HOL-Library.Signed_Division"
begin

text \<open>
  The operations on signed numbers in JSBigInt.cpp, the \<open>...Impl\<close> functions the interpreter's
  operators call: addition, subtraction, increment, decrement, complement, division, remainder and
  exponentiation, and the comparisons with an \<open>int32_t\<close>. With \<open>USE(BIGINT32)\<close> off every
  operand is a heap cell, so \<open>HeapBigIntImpl\<close> and \<open>toHeapBigInt\<close> are the cell itself. Each
  operation returns a canonical cell whose value is the mathematical result, or the error the code throws.
\<close>


section \<open>Adding and subtracting one\<close>

datatype SignOption = Unsigned | Signed

fun willOverflow_loop :: "digit list \<Rightarrow> bool" where
  "willOverflow_loop [] = True"
| "willOverflow_loop (d # ds) = (if - 1 \<noteq> d then False else willOverflow_loop ds)"

fun absoluteAddOne_loop :: "digit list \<Rightarrow> digit \<Rightarrow> digit list \<times> digit" where
  "absoluteAddOne_loop [] carry = ([], carry)"
| "absoluteAddOne_loop (d # ds) carry =
     (let (sum, newCarry) = digitAdd d carry 0;
          (rest, carry) = absoluteAddOne_loop ds newCarry
      in (sum # rest, carry))"

definition absoluteAddOne :: "js_bigint \<Rightarrow> SignOption \<Rightarrow> js_bigint throws" where
  "absoluteAddOne x signOption =
     (let inputLength = bi_length x;
          resultLength = inputLength + of_bool (willOverflow_loop (m_data x))
      in andThen (createWithLength resultLength) (\<lambda>result.
           let (ds, carry) = absoluteAddOne_loop (m_data x) 1
           in rightTrim (result\<lparr>m_data := ds @ (if inputLength < resultLength then [carry] else []),
                                m_sign := (signOption = Signed)\<rparr>)))"

fun absoluteSubOne_loop :: "digit list \<Rightarrow> digit \<Rightarrow> digit list \<times> digit" where
  "absoluteSubOne_loop [] borrow = ([], borrow)"
| "absoluteSubOne_loop (d # ds) borrow =
     (let (difference, newBorrow) = digitSub d borrow 0;
          (rest, borrow) = absoluteSubOne_loop ds newBorrow
      in (difference # rest, borrow))"

definition absoluteSubOne :: "js_bigint \<Rightarrow> nat \<Rightarrow> js_bigint throws" where
  "absoluteSubOne x resultLength =
     andThen (createWithLength resultLength) (\<lambda>result.
       let (ds, borrow) = absoluteSubOne_loop (m_data x) 1
       in rightTrim (result\<lparr>m_data := ds @ replicate (resultLength - bi_length x) borrow\<rparr>))"

lemma willOverflow_loop_iff: "willOverflow_loop ds \<longleftrightarrow> dval ds = dbase ^ length ds - 1"
proof (induction ds)
  case (Cons d ds)
  have b: "dval ds \<le> dbase ^ length ds - 1" using dval_less [of ds] by simp
  have m: "- 1 = d \<longleftrightarrow> uint d = dbase - 1"
    by (auto simp: word_uint_eq_iff dbase_def unsigned_minus_1_eq_mask mask_eq_exp_minus_1)
  have "uint d + dbase * dval ds = dbase * dbase ^ length ds - 1 \<longleftrightarrow>
      uint d = dbase - 1 \<and> dval ds = dbase ^ length ds - 1"
  proof
    assume e: "uint d + dbase * dval ds = dbase * dbase ^ length ds - 1"
    have "dbase * (dval ds) \<le> dbase * (dbase ^ length ds - 1)"
      using b by (intro mult_left_mono) simp_all
    then have "uint d = dbase - 1"
      using e uint_less_dbase [of d] unfolding right_diff_distrib mult_1_right by linarith
    with e show "uint d = dbase - 1 \<and> dval ds = dbase ^ length ds - 1"
      by (simp add: algebra_simps) (metis dbase_pos(3) mult_cancel_left right_diff_distrib' mult_1_right
        add_diff_cancel_left' diff_add_cancel)
  qed (simp add: right_diff_distrib)
  with Cons.IH show ?case by (simp add: m)
qed simp

lemma absoluteAddOne_loop_value:
  "absoluteAddOne_loop ds c = (r, c') \<Longrightarrow>
     dval r + dbase ^ length ds * uint c' = dval ds + uint c \<and> length r = length ds"
proof (induction ds arbitrary: c r)
  case (Cons d ds)
  obtain s n where s: "digitAdd d c 0 = (s, n)" by fastforce
  obtain q where q: "absoluteAddOne_loop ds n = (q, c')" "r = s # q"
    using Cons.prems by (auto simp: s split: prod.splits)
  from Cons.IH [OF q(1)] have IH: "dval q + dbase ^ length ds * uint c' = dval ds + uint n" "length q = length ds"
    by simp_all
  note e = arg_cong [OF IH(1), of "\<lambda>z. dbase * z", unfolded distrib_left]
  show ?case
    using digitAdd_step(1) [OF s] e IH(2) by (simp add: q(2) distrib_left ac_simps)
qed simp

lemma absoluteSubOne_loop_value:
  "absoluteSubOne_loop ds b = (r, b') \<Longrightarrow>
     dval r - dbase ^ length ds * uint b' = dval ds - uint b \<and> length r = length ds"
proof (induction ds arbitrary: b r)
  case (Cons d ds)
  obtain s n where s: "digitSub d b 0 = (s, n)" by fastforce
  obtain q where q: "absoluteSubOne_loop ds n = (q, b')" "r = s # q"
    using Cons.prems by (auto simp: s split: prod.splits)
  from Cons.IH [OF q(1)] have IH: "dval q - dbase ^ length ds * uint b' = dval ds - uint n" "length q = length ds"
    by simp_all
  note e = arg_cong [OF IH(1), of "\<lambda>z. dbase * z", unfolded right_diff_distrib]
  show ?case
    using digitSub_step(1) [OF s] e IH(2) by (simp add: q(2) right_diff_distrib ac_simps)
qed simp

lemma absoluteAddOne_correct:
  assumes "bi_length x \<le> maxLength" "dval (m_data x) + 1 < dbase ^ maxLength"
  obtains r where "absoluteAddOne x signOption = Inr r" "canonical r"
    "bigint_val r = with_sign (signOption = Signed) (dval (m_data x) + 1)"
proof -
  let ?ds = "m_data x" and ?o = "willOverflow_loop (m_data x)"
  obtain r c where l: "absoluteAddOne_loop ?ds 1 = (r, c)" by fastforce
  from absoluteAddOne_loop_value [OF this] have v: "dval r + dbase ^ bi_length x * uint c = dval ?ds + 1" "length r = bi_length x"
    by (simp_all add: bi_length_def)
  let ?r = "r @ (if ?o then [c] else [])"
  have val: "dval ?r = dval ?ds + 1"
  proof (cases ?o)
    case False
    then have "dval ?ds + 1 < dbase ^ bi_length x"
      using dval_less [of ?ds] by (simp add: willOverflow_loop_iff bi_length_def)
    then have "dbase ^ bi_length x * uint c < dbase ^ bi_length x * 1"
      using v(1) dval_nonneg [of r] by linarith
    then have "uint c < 1" by simp
    then have "uint c = 0" using uint_nonnegative [of c] by linarith
    with v False show ?thesis by simp
  qed (use v in \<open>simp add: dval_simps\<close>)
  have ne: "?r \<noteq> []" using v(2) by (cases ?ds) (auto simp: bi_length_def)
  have len: "bi_length x + of_bool ?o \<le> maxLength"
  proof (cases ?o)
    case True
    with assms(2) have "dbase ^ bi_length x < dbase ^ maxLength"
      by (simp add: willOverflow_loop_iff bi_length_def)
    then have "bi_length x < maxLength"
      using power_strict_increasing_iff [of dbase] by simp
    then show ?thesis by simp
  qed (use assms in simp)
  then have "length ?r \<le> maxLength" using v(2) by (cases ?o) simp_all
  from rightTrim_with_sign [OF this ne] obtain t where
    "rightTrim \<lparr>m_sign = (signOption = Signed), m_data = ?r\<rparr> = Inr t" "canonical t"
    "bigint_val t = with_sign (signOption = Signed) (dval ?r)"
    by blast
  with len l val show ?thesis
    by (intro that [of t]) (simp_all add: absoluteAddOne_def createWithLength_def)
qed

lemma absoluteSubOne_correct:
  assumes "0 < dval (m_data x)" "bi_length x \<le> n" "n \<le> maxLength"
  obtains r where "absoluteSubOne x n = Inr r" "canonical r" "bigint_val r = dval (m_data x) - 1" "\<not> m_sign r"
proof -
  let ?ds = "m_data x"
  obtain r b where l: "absoluteSubOne_loop ?ds 1 = (r, b)" by fastforce
  from absoluteSubOne_loop_value [OF this] have v: "dval r - dbase ^ bi_length x * uint b = dval ?ds - 1" "length r = bi_length x"
    by (simp_all add: bi_length_def)
  have "dbase ^ bi_length x * uint b < dbase ^ bi_length x * 1"
    using v(1) assms(1) dval_less [of r, unfolded v(2)] by linarith
  then have "uint b < 1" by simp
  then have b: "b = 0" using uint_pos [of b] by linarith
  let ?r = "r @ replicate (n - bi_length x) b"
  have "length ?r \<le> maxLength" using v(2) assms(2,3) by simp
  moreover have ne: "?r \<noteq> []" using v(2) assms(1) by (cases ?ds) (auto simp: bi_length_def)
  ultimately obtain t where
    t: "rightTrim \<lparr>m_sign = False, m_data = ?r\<rparr> = Inr t" "canonical t" "bigint_val t = with_sign False (dval ?r)"
    by (rule rightTrim_with_sign) blast
  have "dval ?r = dval ?ds - 1" using v b by (simp add: dval_simps)
  moreover have "\<not> m_sign t"
    using t by (auto simp: rightTrim_def createZero_eq createWithLength_def Let_def andThen_eq_Inr_iff split: if_splits)
  ultimately show ?thesis
    using t l assms(2,3) by (intro that [of t]) (simp_all add: absoluteSubOne_def createWithLength_def with_sign_def)
qed

section \<open>Addition, subtraction, increment, decrement and complement\<close>

definition addImpl :: "js_bigint \<Rightarrow> js_bigint \<Rightarrow> js_bigint throws" where
  "addImpl x y =
     (let xSign = m_sign x
      in if xSign = m_sign y then absoluteAdd x y xSign
         else
           let comparisonResult = absoluteCompare x y
           in if comparisonResult = GreaterThan \<or> comparisonResult = Equal then absoluteSub x y xSign
              else absoluteSub y x (\<not> xSign))"

definition subImpl :: "js_bigint \<Rightarrow> js_bigint \<Rightarrow> js_bigint throws" where
  "subImpl x y =
     (let xSign = m_sign x
      in if xSign \<noteq> m_sign y then absoluteAdd x y xSign
         else
           let comparisonResult = absoluteCompare x y
           in if comparisonResult = GreaterThan \<or> comparisonResult = Equal then absoluteSub x y xSign
              else absoluteSub y x (\<not> xSign))"

definition incImpl :: "js_bigint \<Rightarrow> js_bigint throws" where
  "incImpl x =
     (if \<not> m_sign x then absoluteAddOne x Unsigned
      else andThen (absoluteSubOne x (bi_length x)) (\<lambda>result.
        if isZero result then Inr result else Inr (result\<lparr>m_sign := True\<rparr>)))"

definition decImpl :: "js_bigint \<Rightarrow> js_bigint throws" where
  "decImpl x =
     (if isZero x then createFrom_int32 (- 1)
      else if \<not> m_sign x then absoluteSubOne x (bi_length x)
      else absoluteAddOne x Signed)"

definition bitwiseNotImpl :: "js_bigint \<Rightarrow> js_bigint throws" where
  "bitwiseNotImpl x =
     (if m_sign x then absoluteSubOne x (bi_length x) else absoluteAddOne x Signed)"

lemma canonicalD:
  assumes "canonical x"
  shows "trimmed (m_data x)" "bi_length x \<le> maxLength" "m_sign x \<Longrightarrow> 0 < dval (m_data x)"
    "dval (m_data x) = \<bar>bigint_val x\<bar>" "isZero x \<longleftrightarrow> bigint_val x = 0" "m_sign x \<longleftrightarrow> bigint_val x < 0"
proof -
  show t: "trimmed (m_data x)" and "bi_length x \<le> maxLength" using assms by (simp_all add: canonical_def)
  show pos: "m_sign x \<Longrightarrow> 0 < dval (m_data x)"
    using assms trimmed_dval_eq_0 [OF t] dval_nonneg [of "m_data x"] by (auto simp: canonical_def order_less_le)
  show "dval (m_data x) = \<bar>bigint_val x\<bar>" by (simp add: bigint_val_def)
  show "isZero x \<longleftrightarrow> bigint_val x = 0"
    using trimmed_dval_eq_0 [OF t] by (simp add: isZero_def bi_length_def bigint_val_def)
  show "m_sign x \<longleftrightarrow> bigint_val x < 0"
    using pos dval_nonneg [of "m_data x"] by (auto simp: bigint_val_def not_less simp del: dval_nonneg)
qed

lemma createFrom_int32_minus_one:
  "createFrom_int32 (- 1) = Inr \<lparr>m_sign = True, m_data = [1]\<rparr>"
  "canonical \<lparr>m_sign = True, m_data = [1]\<rparr>" "bigint_val \<lparr>m_sign = True, m_data = [1]\<rparr> = - 1"
  by (simp_all add: createFrom_int32_def createWithLength_def canonical_def trimmed_def bi_length_def bigint_val_def
      maxLength_def maxLengthBits_def digitBits_def word_sless_alt)

lemma canonical_compare:
  assumes "canonical x" "canonical y"
  shows "absoluteCompare x y = int_compare \<bar>bigint_val x\<bar> \<bar>bigint_val y\<bar>"
  using absoluteCompare_correct [of x y] canonicalD(1,4) [OF assms(1)] canonicalD(1,4) [OF assms(2)] by simp

lemma signed_difference:
  assumes "canonical x" "canonical y"
  shows "\<exists>r. (if absoluteCompare x y = GreaterThan \<or> absoluteCompare x y = Equal then absoluteSub x y s
      else absoluteSub y x (\<not> s)) = Inr r \<and> canonical r
    \<and> bigint_val r = with_sign s (dval (m_data x) - dval (m_data y))"
proof (cases "dval (m_data y) \<le> dval (m_data x)")
  case True
  then have "absoluteCompare x y = GreaterThan \<or> absoluteCompare x y = Equal"
    using assms by (auto simp: canonical_compare int_compare_def canonicalD(4))
  with absoluteSub_correct [OF assms True, of s] show ?thesis by simp
next
  case False
  then have "\<not> (absoluteCompare x y = GreaterThan \<or> absoluteCompare x y = Equal)"
    using assms by (auto simp: canonical_compare int_compare_def canonicalD(4))
  with absoluteSub_correct [OF assms(2,1), of "\<not> s"] False show ?thesis by (auto simp: with_sign_def)
qed

lemma addImpl_correct:
  assumes "canonical x" "canonical y" "isZero x \<or> isZero y \<or> max (bi_length x) (bi_length y) < maxLength \<or> m_sign x \<noteq> m_sign y"
  shows "\<exists>r. addImpl x y = Inr r \<and> canonical r \<and> bigint_val r = bigint_val x + bigint_val y"
proof (cases "m_sign x = m_sign y")
  case True
  with assms(3) have "isZero x \<or> isZero y \<or> max (bi_length x) (bi_length y) < maxLength" by simp
  from absoluteAdd_correct [OF assms(1,2) this, of "m_sign x"] obtain r where
    "absoluteAdd x y (m_sign x) = Inr r" "canonical r" "bigint_val r = with_sign (m_sign x) (dval (m_data x) + dval (m_data y))"
    by blast
  with True show ?thesis
    by (intro exI [of _ r]) (simp add: addImpl_def bigint_val_def with_sign_def)
next
  case False
  from signed_difference [OF assms(1,2), of "m_sign x"] obtain r where
    "addImpl x y = Inr r" "canonical r" "bigint_val r = with_sign (m_sign x) (dval (m_data x) - dval (m_data y))"
    using False unfolding addImpl_def Let_def by (simp only: if_False) blast
  with False show ?thesis
    by (intro exI [of _ r]) (simp add: bigint_val_def with_sign_def)
qed

lemma subImpl_correct:
  assumes "canonical x" "canonical y" "isZero x \<or> isZero y \<or> max (bi_length x) (bi_length y) < maxLength \<or> m_sign x = m_sign y"
  shows "\<exists>r. subImpl x y = Inr r \<and> canonical r \<and> bigint_val r = bigint_val x - bigint_val y"
proof (cases "m_sign x = m_sign y")
  case True
  from signed_difference [OF assms(1,2), of "m_sign x"] obtain r where
    "subImpl x y = Inr r" "canonical r" "bigint_val r = with_sign (m_sign x) (dval (m_data x) - dval (m_data y))"
    using True unfolding subImpl_def Let_def by (simp only: simp_thms if_False) blast
  with True show ?thesis
    by (intro exI [of _ r]) (simp add: bigint_val_def with_sign_def)
next
  case False
  with assms(3) have "isZero x \<or> isZero y \<or> max (bi_length x) (bi_length y) < maxLength" by simp
  from absoluteAdd_correct [OF assms(1,2) this, of "m_sign x"] obtain r where
    "absoluteAdd x y (m_sign x) = Inr r" "canonical r" "bigint_val r = with_sign (m_sign x) (dval (m_data x) + dval (m_data y))"
    by blast
  with False show ?thesis
    by (intro exI [of _ r]) (simp add: subImpl_def bigint_val_def with_sign_def)
qed

lemma decremented:
  assumes "canonical x" "bigint_val x \<noteq> 0"
  obtains r where "absoluteSubOne x (bi_length x) = Inr r" "canonical r" "bigint_val r = \<bar>bigint_val x\<bar> - 1" "\<not> m_sign r"
proof -
  have "0 < dval (m_data x)" using assms canonicalD(4) [OF assms(1)] by simp
  from absoluteSubOne_correct [OF this order_refl canonicalD(2) [OF assms(1)]] that show ?thesis
    unfolding canonicalD(4) [OF assms(1)] by blast
qed

lemma incImpl_correct:
  assumes "canonical x" "bigint_val x + 1 < dbase ^ maxLength"
  shows "\<exists>r. incImpl x = Inr r \<and> canonical r \<and> bigint_val r = bigint_val x + 1"
proof (cases "m_sign x")
  case True
  then have "bigint_val x < 0" using canonicalD(6) [OF assms(1)] by simp
  with decremented [OF assms(1)] obtain r where
    r: "absoluteSubOne x (bi_length x) = Inr r" "canonical r" "bigint_val r = - bigint_val x - 1" "\<not> m_sign r"
    by (metis abs_of_neg less_irrefl)
  show ?thesis
  proof (cases "isZero r")
    case True
    with r \<open>m_sign x\<close> canonicalD(5) [OF r(2)] show ?thesis
      by (simp add: incImpl_def)
  next
    case False
    with r \<open>m_sign x\<close> show ?thesis
      by (auto simp: incImpl_def canonical_def bigint_val_def bi_length_def isZero_def)
  qed
next
  case False
  with assms(2) have "dval (m_data x) + 1 < dbase ^ maxLength" by (simp add: bigint_val_def)
  from absoluteAddOne_correct [OF canonicalD(2) [OF assms(1)] this, of Unsigned] obtain r where
    "absoluteAddOne x Unsigned = Inr r" "canonical r" "bigint_val r = with_sign False (dval (m_data x) + 1)" by auto
  with False show ?thesis
    by (intro exI [of _ r]) (simp add: incImpl_def with_sign_def bigint_val_def)
qed

lemma decImpl_correct:
  assumes "canonical x" "- (dbase ^ maxLength) < bigint_val x - 1"
  shows "\<exists>r. decImpl x = Inr r \<and> canonical r \<and> bigint_val r = bigint_val x - 1"
proof (cases "bigint_val x = 0")
  case True
  with canonicalD(5) [OF assms(1)] createFrom_int32_minus_one show ?thesis
    by (simp add: decImpl_def)
next
  case False
  show ?thesis
  proof (cases "m_sign x")
    case True
    with assms(2) have "dval (m_data x) + 1 < dbase ^ maxLength" by (simp add: bigint_val_def)
    from absoluteAddOne_correct [OF canonicalD(2) [OF assms(1)] this, of Signed] obtain r where
      "absoluteAddOne x Signed = Inr r" "canonical r" "bigint_val r = with_sign True (dval (m_data x) + 1)" by auto
    with True False canonicalD(5) [OF assms(1)] show ?thesis
      by (intro exI [of _ r]) (simp add: decImpl_def with_sign_def bigint_val_def)
  next
    case False
    from decremented [OF assms(1) \<open>bigint_val x \<noteq> 0\<close>] obtain r where
      "absoluteSubOne x (bi_length x) = Inr r" "canonical r" "bigint_val r = \<bar>bigint_val x\<bar> - 1"
      by blast
    with False \<open>bigint_val x \<noteq> 0\<close> canonicalD(5,6) [OF assms(1)] show ?thesis
      by (intro exI [of _ r]) (simp add: decImpl_def)
  qed
qed

lemma bitwiseNotImpl_correct:
  assumes "canonical x" "bigint_val x + 1 < dbase ^ maxLength"
  shows "\<exists>r. bitwiseNotImpl x = Inr r \<and> canonical r \<and> bigint_val r = NOT (bigint_val x)"
proof (cases "m_sign x")
  case True
  then have "bigint_val x < 0" using canonicalD(6) [OF assms(1)] by simp
  with decremented [OF assms(1)] obtain r where
    "absoluteSubOne x (bi_length x) = Inr r" "canonical r" "bigint_val r = - bigint_val x - 1"
    by (metis abs_of_neg less_irrefl)
  with True show ?thesis
    by (intro exI [of _ r]) (simp add: bitwiseNotImpl_def not_eq_complement)
next
  case False
  with assms(2) have "dval (m_data x) + 1 < dbase ^ maxLength" by (simp add: bigint_val_def)
  from absoluteAddOne_correct [OF canonicalD(2) [OF assms(1)] this, of Signed] obtain r where
    "absoluteAddOne x Signed = Inr r" "canonical r" "bigint_val r = with_sign True (dval (m_data x) + 1)" by auto
  with False show ?thesis
    by (intro exI [of _ r]) (simp add: bitwiseNotImpl_def with_sign_def bigint_val_def not_eq_complement)
qed

section \<open>Division and remainder\<close>

definition divideImpl :: "digit_div \<Rightarrow> js_bigint \<Rightarrow> js_bigint \<Rightarrow> js_bigint throws" where
  "divideImpl dv x y =
     (if isZero y then Inl RangeError
      else if absoluteCompare x y = LessThan then createZero
      else
        let resultSign = (m_sign x \<noteq> m_sign y)
        in if bi_length y = 1
           then
             let divisor = m_data y ! 0
             in if divisor = 1
                then (if resultSign = m_sign x then Inr x else unaryMinusImpl x)
                else andThen (absoluteDivWithDigitDivisor dv x divisor (Some None)) (\<lambda>(quot, remainder).
                  rightTrim ((the (the quot))\<lparr>m_sign := resultSign\<rparr>))
           else andThen (absoluteDivWithBigIntDivisor dv x y True False) (\<lambda>(quot, remainder).
             rightTrim ((the quot)\<lparr>m_sign := resultSign\<rparr>)))"

definition remainderImpl :: "digit_div \<Rightarrow> js_bigint \<Rightarrow> js_bigint \<Rightarrow> js_bigint throws" where
  "remainderImpl dv x y =
     (if isZero y then Inl RangeError
      else if absoluteCompare x y = LessThan then Inr x
      else if bi_length y = 1
      then
        let divisor = m_data y ! 0
        in if divisor = 1 then createZero
           else andThen (absoluteDivWithDigitDivisor dv x divisor None) (\<lambda>(quot, remainderDigit).
             if remainderDigit = 0 then createZero
             else andThen (createWithLength 1) (\<lambda>remainder.
               rightTrim (remainder\<lparr>m_data := [remainderDigit], m_sign := m_sign x\<rparr>)))
      else andThen (absoluteDivWithBigIntDivisor dv x y False True) (\<lambda>(quot, remainder).
        rightTrim ((the remainder)\<lparr>m_sign := m_sign x\<rparr>)))"

lemma with_sign_0 [simp]: "with_sign s 0 = 0"
  by (simp add: with_sign_def)

lemma canonical_not_less:
  assumes "canonical x" "canonical y" "absoluteCompare x y \<noteq> LessThan"
  shows "dval (m_data y) \<le> dval (m_data x)" "bi_length y \<le> bi_length x"
proof -
  show "dval (m_data y) \<le> dval (m_data x)"
    using assms(3) by (auto simp: canonical_compare [OF assms(1,2)] int_compare_def canonicalD(4) [OF assms(1)]
        canonicalD(4) [OF assms(2)] split: if_splits)
  then show "bi_length y \<le> bi_length x"
    using trimmed_length_le [OF canonicalD(1) [OF assms(2)], of "bi_length x"] dval_less [of "m_data x"]
    by (simp add: bi_length_def)
qed

lemma one_digit_value: "bi_length y = 1 \<Longrightarrow> dval (m_data y) = uint (m_data y ! 0)"
  by (cases "m_data y") (auto simp: bi_length_def)

lemma with_sign_sdiv:
  assumes "canonical x" "canonical y"
  shows "with_sign (m_sign x \<noteq> m_sign y) (dval (m_data x) div dval (m_data y)) = bigint_val x sdiv bigint_val y"
    "with_sign (m_sign x) (dval (m_data x) mod dval (m_data y)) = bigint_val x smod bigint_val y"
  using assms unfolding canonicalD(4) [OF assms(1)] canonicalD(4) [OF assms(2)] canonicalD(6) [OF assms(1)] canonicalD(6) [OF assms(2)]
  by (cases "bigint_val x" "0 :: int" rule: linorder_cases; cases "bigint_val y" "0 :: int" rule: linorder_cases;
      simp add: with_sign_def signed_divide_int_def signed_modulo_int_def)+

lemma small_quotient:
  assumes "canonical x" "canonical y" "absoluteCompare x y = LessThan"
  shows "bigint_val x sdiv bigint_val y = 0" "bigint_val x smod bigint_val y = bigint_val x"
proof -
  have lt: "dval (m_data x) < dval (m_data y)"
    using assms(3) by (simp add: canonical_compare [OF assms(1,2)] int_compare_def canonicalD(4) [OF assms(1)]
        canonicalD(4) [OF assms(2)] split: if_splits)
  show "bigint_val x sdiv bigint_val y = 0"
    unfolding with_sign_sdiv(1) [OF assms(1,2), symmetric] using lt by (simp add: with_sign_def)
  show "bigint_val x smod bigint_val y = bigint_val x"
    unfolding with_sign_sdiv(2) [OF assms(1,2), symmetric] using lt by (simp add: bigint_val_with_sign)
qed

lemma rightTrim_signed:
  assumes "bi_length q \<le> maxLength" "m_data q \<noteq> []"
  obtains r where "rightTrim (q\<lparr>m_sign := s\<rparr>) = Inr r" "canonical r" "bigint_val r = with_sign s (dval (m_data q))"
  using rightTrim_with_sign [of "m_data q" s] assms unfolding sign_update bi_length_def by blast

context digit_divider
begin

lemma divideImpl_correct:
  assumes "canonical x" "canonical y" "bigint_val y \<noteq> 0" "bi_length x < maxLength \<or> bi_length y = 1"
  shows "\<exists>r. divideImpl dv x y = Inr r \<and> canonical r \<and> bigint_val r = bigint_val x sdiv bigint_val y"
proof (cases "absoluteCompare x y = LessThan")
  case True
  with assms canonicalD(5) [OF assms(2)] small_quotient(1) [OF assms(1,2) True] show ?thesis
    by (simp add: divideImpl_def createZero_eq)
next
  case False
  let ?s = "m_sign x \<noteq> m_sign y"
  have y: "\<not> isZero y" using assms canonicalD(5) by simp
  note ge = canonical_not_less [OF assms(1,2) False]
  have ylen: "0 < bi_length y" using y by (simp add: isZero_def)
  have *: "\<exists>r. rightTrim (q\<lparr>m_sign := ?s\<rparr>) = Inr r \<and> canonical r \<and> bigint_val r = bigint_val x sdiv bigint_val y"
    if "dval (m_data q) = dval (m_data x) div dval (m_data y)" "bi_length q \<le> bi_length x" "0 < bi_length q" for q
    using rightTrim_signed [of q ?s] that with_sign_sdiv(1) [OF assms(1,2)] canonicalD(2) [OF assms(1)]
    by (metis bi_length_def le_trans length_greater_0_conv)
  show ?thesis
  proof (cases "bi_length y = 1")
    case True
    let ?d = "m_data y ! 0"
    note d = one_digit_value [OF True]
    show ?thesis
    proof (cases "?d = 1")
      case True
      then have "dval (m_data y) = 1" using d by simp
      then have "bigint_val x sdiv bigint_val y = with_sign ?s (dval (m_data x))"
        using with_sign_sdiv(1) [OF assms(1,2)] by simp
      moreover obtain r where "(if ?s = m_sign x then Inr x else unaryMinusImpl x) = Inr r" "canonical r"
        "bigint_val r = with_sign ?s (dval (m_data x))"
        by (rule same_or_negated [OF assms(1)])
      moreover have "divideImpl dv x y = (if ?s = m_sign x then Inr x else unaryMinusImpl x)"
        using \<open>bi_length y = 1\<close> True False y unfolding divideImpl_def Let_def by simp
      ultimately show ?thesis by metis
    next
      case False
      have "?d \<noteq> 0" using d assms(3) canonicalD(4) [OF assms(2)] by auto
      from absoluteDivWithDigitDivisor_correct [OF this canonicalD(2) [OF assms(1)]] obtain q r where
        q: "absoluteDivWithDigitDivisor dv x ?d (Some None) = Inr (Some (Some q), r)"
          "dval (m_data q) = dval (m_data x) div dval (m_data y)" "bi_length q = bi_length x"
        unfolding d by blast
      have "divideImpl dv x y = rightTrim (q\<lparr>m_sign := ?s\<rparr>)"
        using \<open>absoluteCompare x y \<noteq> LessThan\<close> y True False q(1) unfolding divideImpl_def Let_def by simp
      with * [OF q(2)] q(3) ge(2) ylen show ?thesis by simp
    qed
  next
    case big: False
    then have n: "2 \<le> bi_length y" "bi_length x < maxLength" using ylen assms(4) by auto
    from absoluteDivWithBigIntDivisor_correct [OF canonicalD(1) [OF assms(2)] n(1) ge(2) n(2), of True False] obtain q where
      q: "absoluteDivWithBigIntDivisor dv x y True False = Inr (Some q, None)"
        "dval (m_data q) = dval (m_data x) div dval (m_data y)" "bi_length q = bi_length x - bi_length y + 1"
      by auto
    have "divideImpl dv x y = rightTrim (q\<lparr>m_sign := ?s\<rparr>)"
      using False y big q(1) unfolding divideImpl_def Let_def by simp
    with * [OF q(2)] q(3) ge(2) ylen show ?thesis by simp
  qed
qed

lemma remainderImpl_correct:
  assumes "canonical x" "canonical y" "bigint_val y \<noteq> 0" "bi_length x < maxLength \<or> bi_length y = 1"
  shows "\<exists>r. remainderImpl dv x y = Inr r \<and> canonical r \<and> bigint_val r = bigint_val x smod bigint_val y"
proof (cases "absoluteCompare x y = LessThan")
  case True
  with assms canonicalD(5) [OF assms(2)] small_quotient(2) [OF assms(1,2) True] show ?thesis
    by (simp add: remainderImpl_def)
next
  case False
  have y: "\<not> isZero y" using assms canonicalD(5) by simp
  note ge = canonical_not_less [OF assms(1,2) False]
  have ylen: "0 < bi_length y" using y by (simp add: isZero_def)
  note sm = with_sign_sdiv(2) [OF assms(1,2)]
  show ?thesis
  proof (cases "bi_length y = 1")
    case True
    let ?d = "m_data y ! 0"
    note d = one_digit_value [OF True]
    show ?thesis
    proof (cases "?d = 1")
      case True
      then have "bigint_val x smod bigint_val y = 0"
        unfolding sm [symmetric] by (simp add: with_sign_def d)
      with \<open>bi_length y = 1\<close> True False y show ?thesis
        by (simp add: remainderImpl_def createZero_eq)
    next
      case False
      have "?d \<noteq> 0" using d assms(3) canonicalD(4) [OF assms(2)] by auto
      from absoluteDivWithDigitDivisor_remainder [OF this, of x] obtain r where
        r: "absoluteDivWithDigitDivisor dv x ?d None = Inr (None, r)" "uint r = dval (m_data x) mod dval (m_data y)"
        unfolding d by blast
      have e: "remainderImpl dv x y = (if r = 0 then createZero else rightTrim \<lparr>m_sign = m_sign x, m_data = [r]\<rparr>)"
        using \<open>absoluteCompare x y \<noteq> LessThan\<close> y True False r(1) unfolding remainderImpl_def Let_def
        by (simp add: createWithLength_def maxLength_def maxLengthBits_def digitBits_def)
      have "length [r] \<le> maxLength" by (simp add: maxLength_def maxLengthBits_def digitBits_def)
      from rightTrim_with_sign [OF this, of "m_sign x"] obtain t where
        "rightTrim \<lparr>m_sign = m_sign x, m_data = [r]\<rparr> = Inr t" "canonical t" "bigint_val t = with_sign (m_sign x) (uint r)"
        by auto
      with e r(2) show ?thesis
        unfolding sm [symmetric] by (cases "r = 0") (simp_all add: createZero_eq)
    qed
  next
    case big: False
    then have n: "2 \<le> bi_length y" "bi_length x < maxLength" using ylen assms(4) by auto
    from absoluteDivWithBigIntDivisor_correct [OF canonicalD(1) [OF assms(2)] n(1) ge(2) n(2), of False True] obtain q r where
      r: "absoluteDivWithBigIntDivisor dv x y False True = Inr (q, Some r)"
        "dval (m_data r) = dval (m_data x) mod dval (m_data y)" "bi_length r = bi_length x + 1"
      by auto
    have e: "remainderImpl dv x y = rightTrim (r\<lparr>m_sign := m_sign x\<rparr>)"
      using False y big r(1) unfolding remainderImpl_def Let_def by simp
    have "bi_length r \<le> maxLength" "m_data r \<noteq> []" using r(3) n(2) by (auto simp: bi_length_def)
    from rightTrim_signed [OF this, of "m_sign x"] e r(2) sm show ?thesis by metis
  qed
qed

end

lemma divideImpl_by_zero: "isZero y \<Longrightarrow> divideImpl dv x y = Inl RangeError" "isZero y \<Longrightarrow> remainderImpl dv x y = Inl RangeError"
  by (simp_all add: divideImpl_def remainderImpl_def)

text \<open>
  The shifted copy of the dividend has one digit more: with a divisor of two or more digits a dividend
  of the maximal length cannot be divided, although quotient and remainder are smaller.
\<close>

lemma divideImpl_max_length:
  assumes "canonical x" "canonical y" "bi_length x = maxLength" "2 \<le> bi_length y" "absoluteCompare x y \<noteq> LessThan"
  shows "divideImpl dv x y = Inl OutOfMemoryError" "remainderImpl dv x y = Inl OutOfMemoryError"
proof -
  have y: "\<not> isZero y" "bi_length y \<noteq> 1" using assms(4) by (simp_all add: isZero_def)
  have "absoluteDivWithBigIntDivisor dv x y q r = Inl OutOfMemoryError" for q r
  proof -
    have shift: "absoluteLeftShiftAlwaysCopy x s AlwaysAddOneDigit = Inl OutOfMemoryError" for s
      using assms(3) by (simp add: absoluteLeftShiftAlwaysCopy_def createWithLength_def)
    have "\<exists>v. absoluteLeftShiftAlwaysCopy y s SameSizeResult = Inr v" for s
      using canonicalD(2) [OF assms(2)]
      by (auto simp: absoluteLeftShiftAlwaysCopy_def createWithLength_def Let_def split: prod.split)
    then obtain v where v: "absoluteLeftShiftAlwaysCopy y s SameSizeResult = Inr (v s)" for s by metis
    show ?thesis
      using assms(3,4) by (simp add: absoluteDivWithBigIntDivisor_def Let_def shift v createWithLength_def)
  qed
  with y assms(5) show "divideImpl dv x y = Inl OutOfMemoryError" "remainderImpl dv x y = Inl OutOfMemoryError"
    unfolding divideImpl_def remainderImpl_def Let_def by simp_all
qed

section \<open>Exponentiation\<close>

function exponentiate_loop :: "nat \<Rightarrow> js_bigint \<Rightarrow> js_bigint option \<Rightarrow> js_bigint option throws" where
  "exponentiate_loop n runningSquare result =
     (if n = 0 then Inr result
      else andThen (multiplyImpl runningSquare runningSquare) (\<lambda>runningSquare.
        if odd n
        then (case result of
                None \<Rightarrow> exponentiate_loop (n div 2) runningSquare (Some runningSquare)
              | Some result \<Rightarrow> andThen (multiplyImpl result runningSquare) (\<lambda>result.
                  exponentiate_loop (n div 2) runningSquare (Some result)))
        else exponentiate_loop (n div 2) runningSquare result))"
  by pat_completeness auto
termination
  by (relation "measure (\<lambda>(n, runningSquare, result). n)") auto

declare exponentiate_loop.simps [simp del]

definition exponentiateImpl :: "js_bigint \<Rightarrow> js_bigint \<Rightarrow> js_bigint throws" where
  "exponentiateImpl base exponent =
     (if m_sign exponent then Inl RangeError
      else if isZero exponent then createFrom_int32 1
      else if isZero base then Inr base
      else if bi_length base = 1 \<and> m_data base ! 0 = 1
      then (if m_sign base \<and> \<not> (m_data exponent ! 0 AND 1 \<noteq> 0) then unaryMinusImpl base else Inr base)
      else if 1 < bi_length exponent then Inl OutOfMemoryError
      else
        let expValue = m_data exponent ! 0
        in if expValue = 1 then Inr base
           else if maxLengthBits \<le> unat expValue then Inl OutOfMemoryError
           else
             let n = unat expValue
             in if bi_length base = 1 \<and> m_data base ! 0 = 2
                then
                  let neededDigits = 1 + n div digitBits
                  in andThen (createWithLength neededDigits) (\<lambda>result.
                       let msd = push_bit (n mod digitBits) 1
                       in Inr (result\<lparr>m_data := (replicate neededDigits 0)[neededDigits - 1 := msd],
                                      m_sign := (m_sign base \<and> odd n)\<rparr>))
                else andThen (exponentiate_loop (n div 2) base (if odd n then Some base else None)) (\<lambda>result.
                  Inr (the result)))"

lemma canonical_length_le: "canonical x \<Longrightarrow> \<bar>bigint_val x\<bar> < dbase ^ n \<Longrightarrow> bi_length x \<le> n"
  using trimmed_length_le [of "m_data x" n] by (simp add: canonicalD(1,4) bi_length_def)

lemma canonical_abs_less: "canonical x \<Longrightarrow> \<bar>bigint_val x\<bar> < dbase ^ bi_length x"
  using dval_less [of "m_data x"] by (simp add: bigint_val_def bi_length_def)

text \<open>The product, also with its length.\<close>

lemma multiplyImpl_length:
  assumes "canonical x" "canonical y" "bi_length x + bi_length y \<le> maxLength"
  obtains r where "multiplyImpl x y = Inr r" "canonical r" "bigint_val r = bigint_val x * bigint_val y"
    "bi_length r \<le> bi_length x + bi_length y"
proof -
  obtain r where r: "multiplyImpl x y = Inr r" "canonical r" "bigint_val r = bigint_val x * bigint_val y"
    by (rule multiplyImpl_correct [OF assms])
  have "\<bar>bigint_val x\<bar> * \<bar>bigint_val y\<bar> < dbase ^ bi_length x * dbase ^ bi_length y"
    by (intro mult_strict_mono' canonical_abs_less assms) simp_all
  then have "bi_length r \<le> bi_length x + bi_length y"
    using r by (intro canonical_length_le) (simp_all add: abs_mult power_add)
  with r show ?thesis by (rule that)
qed

lemma multiplyImpl_Inr:
  assumes "canonical x" "canonical y" "multiplyImpl x y = Inr r"
  shows "canonical r" "bigint_val r = bigint_val x * bigint_val y"
proof -
  have "canonical r \<and> bigint_val r = bigint_val x * bigint_val y"
  proof (cases "bi_length x + bi_length y \<le> maxLength")
    case True
    with multiplyImpl_correct [OF assms(1,2) True] assms(3) show ?thesis by (metis Inr_inject)
  next
    case False
    then have "isZero x \<or> isZero y" using multiplyImpl_error [of x y] assms(3) by auto
    with assms show ?thesis
      by (auto simp: multiplyImpl_def canonicalD(5) split: if_splits)
  qed
  then show "canonical r" "bigint_val r = bigint_val x * bigint_val y" by simp_all
qed

definition opt_val :: "js_bigint option \<Rightarrow> int" where
  "opt_val r = (case r of None \<Rightarrow> 1 | Some r \<Rightarrow> bigint_val r)"

lemma opt_val_simps [simp]: "opt_val None = 1" "opt_val (Some r) = bigint_val r"
  by (simp_all add: opt_val_def)

lemma exponentiate_loop_correct:
  assumes "exponentiate_loop n s res = Inr res'" "canonical s" "\<forall>r. res = Some r \<longrightarrow> canonical r"
  shows "(\<forall>r. res' = Some r \<longrightarrow> canonical r) \<and> opt_val res' = opt_val res * bigint_val s ^ (2 * n)
    \<and> (0 < n \<or> res \<noteq> None \<longrightarrow> res' \<noteq> None)"
  using assms
proof (induction n s res rule: exponentiate_loop.induct)
  case (1 n s res)
  show ?case
  proof (cases "n = 0")
    case True
    with 1(4-6) show ?thesis by (auto simp: exponentiate_loop.simps [of 0])
  next
    case False
    with 1(4) obtain s2 where s2: "multiplyImpl s s = Inr s2"
      by (subst (asm) exponentiate_loop.simps) (auto simp: andThen_eq_Inr_iff)
    note c = multiplyImpl_Inr [OF 1(5,5) s2]
    have pow: "bigint_val s ^ (2 * n) = (if odd n then bigint_val s2 else 1) * bigint_val s2 ^ (2 * (n div 2))"
      unfolding c(2) by (cases "odd n") (auto elim!: oddE evenE simp: power_mult power_mult_distrib power2_eq_square power_add)
    note call = 1(4) [unfolded exponentiate_loop.simps [of n s res] s2 andThen_simps]
    show ?thesis
    proof (cases "odd n")
      case odd: True
      show ?thesis
      proof (cases res)
        case None
        have "exponentiate_loop (n div 2) s2 (Some s2) = Inr res'"
          using call False odd by (simp add: None)
        from 1(1) [OF False odd None this c(1)] c(1) show ?thesis
          using odd by (simp add: pow None)
      next
        case (Some r)
        with call False odd obtain r2 where
          r2: "multiplyImpl r s2 = Inr r2" "exponentiate_loop (n div 2) s2 (Some r2) = Inr res'"
          by (auto simp: andThen_eq_Inr_iff)
        have "canonical r" using 1(6) Some by simp
        note c2 = multiplyImpl_Inr [OF this c(1) r2(1)]
        from 1(2) [OF False odd Some r2(2) c(1)] c2 show ?thesis
          using odd by (simp add: pow Some mult.assoc)
      qed
    next
      case even: False
      then have "exponentiate_loop (n div 2) s2 res = Inr res'"
        using call False by simp
      from 1(3) [OF False even this c(1) 1(6)] False even show ?thesis
        by (auto simp: pow)
    qed
  qed
qed

lemma exponentiate_loop_total:
  assumes "canonical s" "\<forall>r. res = Some r \<longrightarrow> canonical r"
    "bi_length s * (2 * n) + (case res of None \<Rightarrow> 0 | Some r \<Rightarrow> bi_length r) \<le> maxLength"
  shows "\<exists>res'. exponentiate_loop n s res = Inr res'"
  using assms
proof (induction n s res rule: exponentiate_loop.induct)
  case (1 n s res)
  note unf = exponentiate_loop.simps [of n s res]
  show ?case
  proof (cases "n = 0")
    case False
    have "bi_length s * 2 \<le> bi_length s * (2 * n)" using False by (intro mult_le_mono2) simp
    with 1(6) have "bi_length s + bi_length s \<le> maxLength" by linarith
    then obtain s2 where s2: "multiplyImpl s s = Inr s2" "canonical s2" "bi_length s2 \<le> bi_length s + bi_length s"
      by (rule multiplyImpl_length [OF 1(4,4)]) blast
    have "bi_length s2 * n \<le> (bi_length s + bi_length s) * n"
      using s2(3) by (rule mult_right_mono) simp
    then have b: "bi_length s2 * n + (case res of None \<Rightarrow> 0 | Some r \<Rightarrow> bi_length r) \<le> maxLength"
      using 1(6) by (simp add: algebra_simps)
    show ?thesis
    proof (cases "odd n")
      case odd: True
      then have n: "n = 2 * (n div 2) + 1" by (metis odd_two_times_div_two_succ)
      have b2: "bi_length s2 * (2 * (n div 2)) + bi_length s2 + (case res of None \<Rightarrow> 0 | Some r \<Rightarrow> bi_length r) \<le> maxLength"
        using b by (subst (asm) n) (simp add: algebra_simps)
      show ?thesis
      proof (cases res)
        case None
        from 1(1) [OF False odd None s2(2)] s2(2) b2 None False odd show ?thesis
          unfolding unf s2(1) andThen_simps by simp
      next
        case (Some r)
        then have "canonical r" "bi_length r + bi_length s2 \<le> maxLength" using 1(5) b2 by simp_all
        then obtain r2 where r2: "multiplyImpl r s2 = Inr r2" "canonical r2" "bi_length r2 \<le> bi_length r + bi_length s2"
          by (rule multiplyImpl_length [OF _ s2(2)]) blast
        from 1(2) [OF False odd Some s2(2), of r2] r2 b2 Some False odd show ?thesis
          unfolding unf s2(1) andThen_simps by simp
      qed
    next
      case even: False
      then have n: "n = 2 * (n div 2)" by simp
      with 1(3) [OF False even s2(2) 1(5)] b False even show ?thesis
        unfolding unf s2(1) andThen_simps by simp
    qed
  qed (simp add: exponentiate_loop.simps [of 0])
qed

lemma exponent_digit:
  assumes "canonical e" "0 < bigint_val e" "bi_length e \<le> 1"
  shows "bi_length e = 1" "nat (bigint_val e) = unat (m_data e ! 0)"
proof -
  show l: "bi_length e = 1"
    using assms canonicalD(5) [OF assms(1)] by (auto simp: isZero_def)
  have "bigint_val e = uint (m_data e ! 0)"
    using one_digit_value [OF l] canonicalD(4) [OF assms(1)] assms(2) by simp
  then show "nat (bigint_val e) = unat (m_data e ! 0)" by simp
qed

lemma power_of_two_digits:
  fixes n :: nat
  defines "ds \<equiv> (replicate (1 + n div digitBits) 0)[1 + n div digitBits - 1 := push_bit (n mod digitBits) (1 :: digit)]"
  shows "dval ds = 2 ^ n" "length ds = 1 + n div digitBits" "trimmed ds"
proof -
  have u: "uint (push_bit (n mod 64) (1 :: digit)) = 2 ^ (n mod 64)"
  proof -
    have "(2::int) ^ (n mod 64) < 2 ^ 64" by (intro power_strict_increasing) simp_all
    then show ?thesis unfolding uint_push_bit by simp
  qed
  then have u2: "uint (2 ^ (n mod 64) :: digit) = 2 ^ (n mod 64)" by simp
  have ds: "ds = replicate (n div 64) 0 @ [push_bit (n mod 64) 1]"
  proof -
    have "replicate (1 + n div digitBits) (0 :: digit) = replicate (n div digitBits) 0 @ [0]"
      by (simp add: replicate_append_same)
    then show ?thesis
      unfolding ds_def by (simp only: list_update_append) (simp add: digitBits_def)
  qed
  have "(2::int) ^ n = 2 ^ (64 * (n div 64) + n mod 64)" by simp
  also have "\<dots> = dbase ^ (n div 64) * 2 ^ (n mod 64)"
    by (simp only: power_add power_mult dbase_def)
  finally show "dval ds = 2 ^ n" by (simp add: ds dval_simps u2)
  show "length ds = 1 + n div digitBits" by (simp add: ds digitBits_def)
  have "push_bit (n mod 64) (1 :: digit) \<noteq> 0"
    using u by (metis power_not_zero uint_0_iff zero_neq_numeral)
  then show "trimmed ds" by (simp add: ds trimmed_def)
qed

lemma exponent_parity:
  assumes "canonical e" "0 < bigint_val e"
  shows "odd (nat (bigint_val e)) \<longleftrightarrow> m_data e ! 0 AND 1 \<noteq> 0"
proof -
  obtain d ds where d: "m_data e = d # ds"
    using assms canonicalD(4) [OF assms(1)] by (cases "m_data e") auto
  have "even dbase" by (simp add: dbase_def)
  then have "odd (dval (m_data e)) \<longleftrightarrow> odd (uint d)" by (simp add: d)
  moreover have "dval (m_data e) = bigint_val e" using canonicalD(4) [OF assms(1)] assms(2) by simp
  moreover have "odd (uint d) \<longleftrightarrow> odd (unat d)"
  proof -
    have "uint d = int (unat d)" by simp
    then show ?thesis by presburger
  qed
  ultimately have "odd (nat (bigint_val e)) \<longleftrightarrow> odd (unat d)"
    using assms(2) by (simp add: even_nat_iff)
  then show ?thesis unfolding d by (simp only: and_one_neq_0_iff nth_Cons_0)
qed

lemma power_of_minus_two_value:
  assumes "bi_length x = 1" "m_data x ! 0 = 2"
  shows "bigint_val x ^ n = with_sign (m_sign x \<and> odd n) (2 ^ n)"
proof -
  have "dval (m_data x) = 2" using one_digit_value [OF assms(1)] assms(2) by simp
  then show ?thesis by (cases "even n") (simp_all add: bigint_val_def with_sign_def)
qed

lemma exponentiate_large:
  assumes "canonical x" "0 < n" "n \<noteq> 1"
  shows "exponentiate_loop (n div 2) x (if odd n then Some x else None) = Inr res \<Longrightarrow>
      canonical (the res) \<and> bigint_val (the res) = bigint_val x ^ n"
proof -
  assume l: "exponentiate_loop (n div 2) x (if odd n then Some x else None) = Inr res"
  have "0 < n div 2" using assms(2,3) by (cases n) auto
  have "\<forall>r. (if odd n then Some x else None) = Some r \<longrightarrow> canonical r" using assms(1) by simp
  note c = exponentiate_loop_correct [OF l assms(1) this]
  from c \<open>0 < n div 2\<close> obtain r where
    r: "res = Some r" "canonical r" "bigint_val r = opt_val (if odd n then Some x else None) * bigint_val x ^ (2 * (n div 2))"
    by (cases res) auto
  have "opt_val (if odd n then Some x else None) * bigint_val x ^ (2 * (n div 2)) = bigint_val x ^ n"
    by (cases "odd n") (simp_all flip: power_Suc)
  with r show ?thesis by simp
qed

lemma exponentiateImpl_Inr:
  assumes "canonical x" "canonical e" "exponentiateImpl x e = Inr r"
  shows "0 \<le> bigint_val e" "canonical r" "bigint_val r = bigint_val x ^ nat (bigint_val e)"
proof -
  let ?n = "unat (m_data e ! 0)"
  have s: "\<not> m_sign e" using assms(3) by (auto simp: exponentiateImpl_def)
  then show e0: "0 \<le> bigint_val e" using canonicalD(6) [OF assms(2)] by simp
  have "canonical r \<and> bigint_val r = bigint_val x ^ nat (bigint_val e)"
  proof -
    consider "isZero e" | "\<not> isZero e" "isZero x"
      | "\<not> isZero e" "\<not> isZero x" "bi_length x = 1" "m_data x ! 0 = 1"
      | "\<not> isZero e" "\<not> isZero x" "\<not> (bi_length x = 1 \<and> m_data x ! 0 = 1)"
      by blast
    then show ?thesis
    proof cases
      case 1
      then have "r = \<lparr>m_sign = False, m_data = [1]\<rparr>"
        using assms(3) s by (simp add: exponentiateImpl_def createFrom_int32_def createWithLength_def maxLength_def
          maxLengthBits_def digitBits_def word_sless_alt)
      with 1 canonicalD(5) [OF assms(2)] show ?thesis
        by (simp add: canonical_def trimmed_def bi_length_def bigint_val_def maxLength_def maxLengthBits_def digitBits_def)
    next
      case 2
      with assms s canonicalD(5) [OF assms(1)] canonicalD(5) [OF assms(2)] e0 show ?thesis
        by (auto simp: exponentiateImpl_def power_0_left)
    next
      case 3
      have e: "0 < bigint_val e" using e0 3(1) canonicalD(5) [OF assms(2)] by simp
      have x: "bigint_val x = with_sign (m_sign x) 1"
        using one_digit_value [OF 3(3)] 3(4) by (simp add: bigint_val_with_sign)
      have u: "unaryMinusImpl x = Inr t \<Longrightarrow> canonical t \<and> bigint_val t = - bigint_val x" for t
        using unaryMinusImpl_correct [OF assms(1)] by (metis Inr_inject)
      have "(if m_sign x \<and> even (nat (bigint_val e)) then unaryMinusImpl x else Inr x) = Inr r"
        using assms(3) s 3 exponent_parity [OF assms(2) e] by (simp add: exponentiateImpl_def)
      with u x assms(1) show ?thesis
        by (auto simp: with_sign_def split: if_splits)
    next
      case 4
      have e: "0 < bigint_val e" using e0 4(1) canonicalD(5) [OF assms(2)] by simp
      note call = assms(3) [unfolded exponentiateImpl_def if_not_P [OF s] if_not_P [OF 4(1)] if_not_P [OF 4(2)]
          if_not_P [OF 4(3)] Let_def]
      have le: "bi_length e \<le> 1" using call by (auto split: if_splits)
      note n = exponent_digit [OF assms(2) e le]
      show ?thesis
      proof (cases "m_data e ! 0 = 1")
        case True
        with call le n assms(1) show ?thesis by simp
      next
        case False
        then have n0: "?n \<noteq> 1" "0 < ?n"
          using e n(2) by (auto simp: word_unat_eq_iff)
        moreover have "?n < maxLengthBits"
          using call le False by (auto split: if_splits)
        ultimately have n1: "?n \<noteq> 1" "0 < ?n" "?n < maxLengthBits" by simp_all
        show ?thesis
        proof (cases "bi_length x = 1 \<and> m_data x ! 0 = 2")
          case True
          note p = power_of_two_digits [of ?n]
          have "1 + ?n div digitBits \<le> maxLength"
            using n1(3) by (simp add: maxLength_def maxLengthBits_def digitBits_def)
          with call le False n1 True have
            "r = \<lparr>m_sign = m_sign x \<and> odd ?n, m_data = (replicate (1 + ?n div digitBits) 0)[1 + ?n div digitBits - 1 := push_bit (?n mod digitBits) 1]\<rparr>"
            by (simp add: createWithLength_def)
          then show ?thesis
            using p \<open>1 + ?n div digitBits \<le> maxLength\<close> power_of_minus_two_value [of x ?n] True
            unfolding n(2) by (auto simp: canonical_def bi_length_def bigint_val_with_sign simp del: replicate_Suc)
        next
          case big: False
          then obtain res where "exponentiate_loop (?n div 2) x (if odd ?n then Some x else None) = Inr res" "r = the res"
            using call le False n1 by (auto simp: andThen_eq_Inr_iff split: if_splits)
          with exponentiate_large [OF assms(1) n1(2,1)] show ?thesis
            unfolding n(2) by simp
        qed
      qed
    qed
  qed
  then show "canonical r" "bigint_val r = bigint_val x ^ nat (bigint_val e)" by simp_all
qed

lemma exponentiate_loop_start:
  assumes "canonical x" "bi_length x * n \<le> maxLength"
  shows "\<exists>res. exponentiate_loop (n div 2) x (if odd n then Some x else None) = Inr res"
proof (rule exponentiate_loop_total [OF assms(1)])
  have "bi_length x * (2 * (n div 2)) + bi_length x * (n mod 2) = bi_length x * n"
    by (simp flip: distrib_left)
  moreover have "bi_length x * (n mod 2) = (case if odd n then Some x else None of None \<Rightarrow> 0 | Some r \<Rightarrow> bi_length r)"
    by (cases "odd n") (simp_all add: odd_iff_mod_2_eq_one)
  ultimately show "bi_length x * (2 * (n div 2)) + (case if odd n then Some x else None of None \<Rightarrow> 0 | Some r \<Rightarrow> bi_length r) \<le> maxLength"
    using assms(2) by linarith
qed (use assms(1) in simp)

lemma exponentiateImpl_total:
  assumes "canonical x" "canonical e" "0 \<le> bigint_val e" "bi_length x * nat (bigint_val e) \<le> maxLength"
  shows "\<exists>r. exponentiateImpl x e = Inr r"
proof -
  have s: "\<not> m_sign e" using assms(3) canonicalD(6) [OF assms(2)] by simp
  consider "isZero e" | "\<not> isZero e" "isZero x"
    | "\<not> isZero e" "\<not> isZero x" "bi_length x = 1 \<and> m_data x ! 0 = 1"
    | "\<not> isZero e" "\<not> isZero x" "\<not> (bi_length x = 1 \<and> m_data x ! 0 = 1)"
    by blast
  then show ?thesis
  proof cases
    case 1
    with s show ?thesis
      by (simp add: exponentiateImpl_def createFrom_int32_def createWithLength_def maxLength_def maxLengthBits_def
          digitBits_def word_sless_alt)
  next
    case 2
    with s show ?thesis by (simp add: exponentiateImpl_def)
  next
    case 3
    with s unaryMinusImpl_correct [OF assms(1)] show ?thesis
      unfolding exponentiateImpl_def by simp blast
  next
    case 4
    have e: "0 < bigint_val e" using assms(3) 4(1) canonicalD(5) [OF assms(2)] by simp
    let ?n = "nat (bigint_val e)"
    have "1 * ?n \<le> bi_length x * ?n"
      using 4(2) by (intro mult_le_mono1) (simp add: isZero_def)
    then have n: "?n \<le> maxLength" using assms(4) by linarith
    then have "bigint_val e < dbase ^ 1"
      by (simp add: maxLength_def maxLengthBits_def digitBits_def dbase_def)
    then have le: "bi_length e \<le> 1"
      using canonical_length_le [OF assms(2), of 1] assms(3) by simp
    note d = exponent_digit [OF assms(2) e le]
    have m: "\<not> maxLengthBits \<le> unat (m_data e ! 0)" "1 + unat (m_data e ! 0) div digitBits \<le> maxLength"
      using n unfolding d(2) by (simp_all add: maxLength_def maxLengthBits_def digitBits_def)
    have "\<exists>res. exponentiate_loop (?n div 2) x (if odd ?n then Some x else None) = Inr res"
      by (rule exponentiate_loop_start [OF assms(1,4)])
    then obtain res where "exponentiate_loop (?n div 2) x (if odd ?n then Some x else None) = Inr res" by blast
    moreover have "\<not> 1 < bi_length e" using le by simp
    ultimately show ?thesis
      unfolding exponentiateImpl_def if_not_P [OF s] if_not_P [OF 4(1)] if_not_P [OF 4(2)] if_not_P [OF 4(3)]
        Let_def d(2) if_not_P [OF m(1)] createWithLength_Inr [OF m(2)]
      by (cases "m_data e ! 0 = 1"; cases "bi_length x = 1 \<and> m_data x ! 0 = 2") (simp_all only: simp_thms if_True if_False andThen_simps sum.inject ex_simps)
  qed
qed

section \<open>Comparison with a machine integer\<close>

text \<open>\<open>Int32BigIntImpl\<close>, the view of an \<open>int32_t\<close> as a number.\<close>

definition int32Impl :: "32 word \<Rightarrow> js_bigint" where
  "int32Impl val =
     \<lparr>m_sign = val <s 0,
      m_data = (if val = 0 then [] else [if val <s 0 then - scast val else scast val])\<rparr>"

definition compare_int32_bigint :: "32 word \<Rightarrow> js_bigint \<Rightarrow> ComparisonResult" where
  "compare_int32_bigint x y = compareImpl (int32Impl x) y"

definition compare_bigint_int32 :: "js_bigint \<Rightarrow> 32 word \<Rightarrow> ComparisonResult" where
  "compare_bigint_int32 x y = compareImpl x (int32Impl y)"

lemma uint_scast_abs:
  fixes v :: "32 word"
  shows "uint (if v <s 0 then - (scast v :: digit) else scast v) = \<bar>sint v\<bar>"
proof -
  have r: "- (2 ^ 31) \<le> sint v" "sint v < 2 ^ 31"
    using sint_ge [of v] sint_lt [of v] by simp_all
  have sc: "scast v = (word_of_int (sint v) :: digit)"
    by (rule scast_eq)
  show ?thesis
  proof (cases "v <s 0")
    case True
    then have "sint v < 0" by (simp add: word_sless_alt)
    have "- (scast v :: digit) = word_of_int (- sint v)" unfolding sc by simp
    with True r \<open>sint v < 0\<close> show ?thesis
      by (simp add: uint_eq_modI)
  next
    case False
    then have "0 \<le> sint v" by (simp add: word_sless_alt not_less)
    with False r sc show ?thesis
      by (simp add: uint_eq_modI)
  qed
qed

lemma int32Impl_correct: "canonical (int32Impl v)" "bigint_val (int32Impl v) = sint v"
proof -
  let ?d = "if v <s 0 then - (scast v :: digit) else scast v"
  have nz: "?d \<noteq> 0" if "v \<noteq> 0"
  proof
    assume "?d = 0"
    then have "sint v = 0" using uint_scast_abs [of v] by simp
    with that show False using signed_word_eqI [of v 0] by simp
  qed
  have z: "\<not> (0 :: 32 word) <s 0" by (simp add: word_sless_alt)
  show "canonical (int32Impl v)"
    using nz z unfolding int32Impl_def canonical_def trimmed_def bi_length_def
    by (cases "v = 0") (simp_all add: maxLength_def maxLengthBits_def digitBits_def)
  have "v <s 0 \<longleftrightarrow> sint v < 0" by (simp add: word_sless_alt)
  then show "bigint_val (int32Impl v) = sint v"
    using uint_scast_abs [of v] by (auto simp: int32Impl_def bigint_val_def)
qed

lemma createFrom_int32_correct: "createFrom_int32 v = Inr (int32Impl v)"
  by (simp add: createFrom_int32_def int32Impl_def createZero_eq createWithLength_def maxLength_def maxLengthBits_def
      digitBits_def word_sless_alt)

lemma compare_int32_correct:
  assumes "canonical x"
  shows "compare_int32_bigint v x = int_compare (sint v) (bigint_val x)"
    "compare_bigint_int32 x v = int_compare (bigint_val x) (sint v)"
  using assms by (simp_all add: compare_int32_bigint_def compare_bigint_int32_def compareImpl_correct int32Impl_correct)

section \<open>When exponentiation gives up\<close>

text \<open>A non-zero number is at least the power of the base its length stands for; hence a product that is refused
  for its length has at least \<open>maxLength\<close> digits.\<close>

lemma canonical_abs_ge:
  assumes "canonical x" "bigint_val x \<noteq> 0"
  shows "dbase ^ (bi_length x - 1) \<le> \<bar>bigint_val x\<bar>"
proof (rule ccontr)
  assume "\<not> ?thesis"
  then have "bi_length x \<le> bi_length x - 1" by (intro canonical_length_le [OF assms(1)]) simp
  then have "bi_length x = 0" by simp
  then show False using assms(2) canonicalD(5) [OF assms(1)] by (simp add: isZero_def)
qed

lemma multiplyImpl_Inl:
  assumes "canonical x" "canonical y" "multiplyImpl x y = Inl err"
  shows "err = OutOfMemoryError \<and> dbase ^ (maxLength - 1) \<le> \<bar>bigint_val x * bigint_val y\<bar>"
proof -
  have nz: "\<not> isZero x" "\<not> isZero y" using assms(3) by (auto simp: multiplyImpl_def split: if_splits)
  then have v: "bigint_val x \<noteq> 0" "bigint_val y \<noteq> 0"
    using canonicalD(5) [OF assms(1)] canonicalD(5) [OF assms(2)] by simp_all
  have len: "maxLength < bi_length x + bi_length y"
  proof (rule ccontr)
    assume "\<not> ?thesis"
    then have "bi_length x + bi_length y \<le> maxLength" by simp
    from multiplyImpl_correct [OF assms(1,2) this] assms(3) show False by (metis sum.simps(4))
  qed
  have l: "1 \<le> bi_length x" "1 \<le> bi_length y" using nz by (simp_all add: isZero_def)
  have "dbase ^ (maxLength - 1) \<le> dbase ^ ((bi_length x - 1) + (bi_length y - 1))"
    using len l by (intro power_increasing) simp_all
  also have "\<dots> = dbase ^ (bi_length x - 1) * dbase ^ (bi_length y - 1)" by (rule power_add)
  also have "\<dots> \<le> \<bar>bigint_val x\<bar> * \<bar>bigint_val y\<bar>"
    by (intro mult_mono canonical_abs_ge assms v) simp_all
  finally show ?thesis using multiplyImpl_error [OF nz len] assms(3) by (simp add: abs_mult)
qed

lemma abs_le_mult: "m \<le> \<bar>a\<bar> \<Longrightarrow> b \<noteq> 0 \<Longrightarrow> m \<le> \<bar>a * b\<bar>" for a b m :: int
proof -
  assume a: "m \<le> \<bar>a\<bar>" and "b \<noteq> 0"
  then have "\<bar>a\<bar> * 1 \<le> \<bar>a\<bar> * \<bar>b\<bar>" by (intro mult_left_mono) simp_all
  with a show ?thesis by (simp add: abs_mult)
qed

lemma exponentiate_loop_Inl:
  assumes "exponentiate_loop n s res = Inl err" "canonical s" "\<forall>r. res = Some r \<longrightarrow> canonical r"
    "bigint_val s \<noteq> 0" "opt_val res \<noteq> 0"
  shows "err = OutOfMemoryError \<and> dbase ^ (maxLength - 1) \<le> \<bar>opt_val res * bigint_val s ^ (2 * n)\<bar>"
  using assms
proof (induction n s res rule: exponentiate_loop.induct)
  case (1 n s res)
  have n0: "n \<noteq> 0"
  proof
    assume "n = 0"
    with 1(4) show False by (simp add: exponentiate_loop.simps [of 0])
  qed
  have split: "bigint_val s ^ (2 * n) = bigint_val s * bigint_val s * (bigint_val s * bigint_val s) ^ (n - 1)"
    using n0 by (cases n) (simp_all add: power_mult power2_eq_square)
  show ?case
  proof (cases "multiplyImpl s s")
    case (Inl e)
    then have "err = e" using 1(4) n0 by (simp add: exponentiate_loop.simps [of n])
    with multiplyImpl_Inl [OF 1(5,5) Inl] show ?thesis
      using 1(7,8) abs_le_mult [of _ "bigint_val s * bigint_val s" "opt_val res * (bigint_val s * bigint_val s) ^ (n - 1)"]
      unfolding split by (simp add: mult.left_commute mult.assoc)
  next
    case (Inr s2)
    note c = multiplyImpl_Inr [OF 1(5,5) Inr]
    have s2: "bigint_val s2 \<noteq> 0" using 1(7) c(2) by simp
    have pow: "bigint_val s ^ (2 * n) = (if odd n then bigint_val s2 else 1) * bigint_val s2 ^ (2 * (n div 2))"
      unfolding c(2) by (cases "odd n") (auto elim!: oddE evenE simp: power_mult power_mult_distrib power2_eq_square power_add)
    note call = 1(4) [unfolded exponentiate_loop.simps [of n s res] Inr andThen_simps]
    show ?thesis
    proof (cases "odd n")
      case odd: True
      show ?thesis
      proof (cases res)
        case None
        have "exponentiate_loop (n div 2) s2 (Some s2) = Inl err"
          using call n0 odd by (simp add: None)
        from 1(1) [OF n0 odd None this c(1)] c(1) s2 show ?thesis
          using odd by (simp add: pow None)
      next
        case (Some r)
        have r: "canonical r" "bigint_val r \<noteq> 0" using 1(6,8) Some by simp_all
        show ?thesis
        proof (cases "multiplyImpl r s2")
          case (Inl e)
          with call n0 odd Some have "err = e" by simp
          with multiplyImpl_Inl [OF r(1) c(1) Inl] show ?thesis
            using s2 abs_le_mult [of _ "bigint_val r * bigint_val s2" "bigint_val s2 ^ (2 * (n div 2))"] odd
            by (simp add: pow Some mult.assoc)
        next
          case (Inr r2)
          note c2 = multiplyImpl_Inr [OF r(1) c(1) Inr]
          have call2: "exponentiate_loop (n div 2) s2 (Some r2) = Inl err" using call n0 odd Some Inr by simp
          have "opt_val (Some r2) \<noteq> 0" using c2(2) s2 r(2) by simp
          from 1(2) [OF n0 odd Some call2 c(1) _ s2 this] c2 show ?thesis
            using odd by (simp add: pow Some mult.assoc)
        qed
      qed
    next
      case even: False
      have "exponentiate_loop (n div 2) s2 res = Inl err" using call n0 even by simp
      from 1(3) [OF n0 even this c(1) 1(6) s2 1(8)] show ?thesis using even by (simp add: pow)
    qed
  qed
qed

lemma exponentiateImpl_Inl:
  assumes "canonical x" "canonical e" "exponentiateImpl x e = Inl err" "0 \<le> bigint_val e"
  shows "err = OutOfMemoryError \<and> dbase ^ (maxLength - 1) \<le> \<bar>bigint_val x\<bar> ^ nat (bigint_val e)"
proof -
  let ?n = "unat (m_data e ! 0)"
  have s: "\<not> m_sign e" using assms(4) canonicalD(6) [OF assms(2)] by simp
  have e: "\<not> isZero e"
    using assms(3) s by (auto simp: exponentiateImpl_def createFrom_int32_def createWithLength_def maxLength_def
      maxLengthBits_def digitBits_def split: if_splits)
  have x: "\<not> isZero x" using assms(3) s e by (auto simp: exponentiateImpl_def)
  have one: "\<not> (bi_length x = 1 \<and> m_data x ! 0 = 1)"
    using assms(3) s e x unaryMinusImpl_correct [OF assms(1)] by (auto simp: exponentiateImpl_def split: if_splits)
  have e0: "0 < bigint_val e" using e assms(4) canonicalD(5) [OF assms(2)] by simp
  have x0: "bigint_val x \<noteq> 0" using x canonicalD(5) [OF assms(1)] by simp
  have x2: "2 \<le> \<bar>bigint_val x\<bar>"
  proof (rule ccontr)
    assume "\<not> ?thesis"
    then have v: "\<bar>bigint_val x\<bar> = 1" using x0 by linarith
    then have "bi_length x \<le> 1" by (intro canonical_length_le [OF assms(1)]) (simp add: dbase_def)
    then have l: "bi_length x = 1" using x by (simp add: isZero_def)
    have "uint (m_data x ! 0) = uint (1 :: digit)"
      using one_digit_value [OF l] canonicalD(4) [OF assms(1)] v by simp
    then have "m_data x ! 0 = 1" by (simp only: word_uint_eq_iff)
    with l one show False by simp
  qed
  have big: ?thesis if "maxLengthBits \<le> nat (bigint_val e)" "err = OutOfMemoryError"
  proof -
    have "dbase ^ (maxLength - 1) \<le> dbase ^ maxLength" by (intro power_increasing) simp_all
    also have "\<dots> = 2 ^ maxLengthBits"
      unfolding dbase_def power_mult [symmetric] maxLength_def digitBits_def
      by (rule arg_cong [of _ _ "power 2"]) (simp add: maxLengthBits_def)
    also have "\<dots> \<le> 2 ^ nat (bigint_val e)" using that(1) by (intro power_increasing) simp_all
    also have "\<dots> \<le> \<bar>bigint_val x\<bar> ^ nat (bigint_val e)" using x2 by (intro power_mono) simp_all
    finally show ?thesis using that(2) by simp
  qed
  note call = assms(3) [unfolded exponentiateImpl_def if_not_P [OF s] if_not_P [OF e] if_not_P [OF x]
      if_not_P [OF one] Let_def]
  show ?thesis
  proof (cases "1 < bi_length e")
    case True
    then have "dbase ^ 1 \<le> \<bar>bigint_val e\<bar>"
      using canonical_length_le [OF assms(2), of 1] by linarith
    then have "maxLengthBits \<le> nat (bigint_val e)" using e0 by (simp add: dbase_def maxLengthBits_def)
    then show ?thesis using big call True by simp
  next
    case le: False
    then have "bi_length e \<le> 1" by simp
    note n = exponent_digit [OF assms(2) e0 this]
    show ?thesis
    proof (cases "maxLengthBits \<le> ?n")
      case True
      moreover have "m_data e ! 0 \<noteq> 1" using call le by auto
      ultimately show ?thesis using big call le unfolding n(2) by simp
    next
      case False
      have ne: "m_data e ! 0 \<noteq> 1" using call le by auto
      have two: "\<not> (bi_length x = 1 \<and> m_data x ! 0 = 2)"
      proof
        assume "bi_length x = 1 \<and> m_data x ! 0 = 2"
        moreover have "1 + ?n div digitBits \<le> maxLength"
          using False by (simp add: maxLength_def maxLengthBits_def digitBits_def)
        ultimately show False using call le ne False by (simp add: createWithLength_def)
      qed
      have "exponentiate_loop (?n div 2) x (if odd ?n then Some x else None) = Inl err"
        using call le ne False two by (auto simp: andThen_eq_Inl_iff)
      from exponentiate_loop_Inl [OF this assms(1) _ x0] x0 assms(1)
      have r: "err = OutOfMemoryError"
        "dbase ^ (maxLength - 1) \<le> \<bar>opt_val (if odd ?n then Some x else None) * bigint_val x ^ (2 * (?n div 2))\<bar>"
        by (auto split: if_splits)
      have "opt_val (if odd ?n then Some x else None) * bigint_val x ^ (2 * (?n div 2)) = bigint_val x ^ ?n"
        by (cases "odd ?n") (auto elim!: oddE evenE)
      with r show ?thesis unfolding n(2) by (simp add: power_abs)
    qed
  qed
qed

section \<open>Addition and subtraction with their errors\<close>

lemma addImpl_exact:
  assumes "canonical x" "canonical y"
  shows "if bigint_val x \<noteq> 0 \<and> bigint_val y \<noteq> 0 \<and> m_sign x = m_sign y \<and> max (bi_length x) (bi_length y) = maxLength
    then addImpl x y = Inl OutOfMemoryError
    else \<exists>r. addImpl x y = Inr r \<and> canonical r \<and> bigint_val r = bigint_val x + bigint_val y"
proof -
  have "max (bi_length x) (bi_length y) \<le> maxLength"
    using canonicalD(2) [OF assms(1)] canonicalD(2) [OF assms(2)] by simp
  then show ?thesis
    using addImpl_correct [OF assms] absoluteAdd_error [of x y] canonicalD(5) [OF assms(1)] canonicalD(5) [OF assms(2)]
    by (auto simp: addImpl_def Let_def order_less_le)
qed

lemma subImpl_exact:
  assumes "canonical x" "canonical y"
  shows "if bigint_val x \<noteq> 0 \<and> bigint_val y \<noteq> 0 \<and> m_sign x \<noteq> m_sign y \<and> max (bi_length x) (bi_length y) = maxLength
    then subImpl x y = Inl OutOfMemoryError
    else \<exists>r. subImpl x y = Inr r \<and> canonical r \<and> bigint_val r = bigint_val x - bigint_val y"
proof -
  have "max (bi_length x) (bi_length y) \<le> maxLength"
    using canonicalD(2) [OF assms(1)] canonicalD(2) [OF assms(2)] by simp
  then show ?thesis
    using subImpl_correct [OF assms] absoluteAdd_error [of x y] canonicalD(5) [OF assms(1)] canonicalD(5) [OF assms(2)]
    by (auto simp: subImpl_def Let_def order_less_le)
qed

end
