(* ===== verification/BigIntBitwise.thy ===== *)
theory BigIntBitwise
  imports BigIntArith
begin

text \<open>
  The bitwise operators of JSBigInt.cpp. On absolute values they work digit by digit through
  \<open>absoluteBitwiseOp\<close>, whose \<open>op\<close> parameter is the interface \<open>digitwise_op\<close>, interpreted with
  and, or and exclusive or; negative operands are mapped to absolute values by the identities in
  the code's comments. The operators are the two's-complement operations \<open>AND\<close>, \<open>OR\<close>, \<open>XOR\<close> on integers.
\<close>


section \<open>Operations on pairs of digits\<close>

datatype ExtraDigitsHandling = Copy | Skip

text \<open>The loop over the digits both numbers have.\<close>

fun bitwise_pairs :: "(digit \<Rightarrow> digit \<Rightarrow> digit) \<Rightarrow> digit list \<Rightarrow> digit list \<Rightarrow> digit list" where
  "bitwise_pairs dop (x # xs) (y # ys) = dop x y # bitwise_pairs dop xs ys"
| "bitwise_pairs dop _ _ = []"

definition absoluteBitwiseOp ::
    "js_bigint \<Rightarrow> js_bigint \<Rightarrow> ExtraDigitsHandling \<Rightarrow> (digit \<Rightarrow> digit \<Rightarrow> digit) \<Rightarrow> js_bigint throws" where
  "absoluteBitwiseOp x y extraDigits dop =
     (let xLength = bi_length x;
          yLength = bi_length y;
          (numPairs, maxLen) = (if xLength < yLength then (xLength, yLength) else (yLength, xLength));
          resultLength = (if extraDigits = Copy then maxLen else numPairs)
      in andThen (createWithLength resultLength) (\<lambda>result.
           let written = bitwise_pairs dop (m_data x) (m_data y)
                 @ (if extraDigits = Copy
                    then (if yLength < xLength then drop numPairs (m_data x) else drop numPairs (m_data y))
                    else [])
           in rightTrim (result\<lparr>m_data := written @ replicate (resultLength - length written) 0\<rparr>)))"

definition absoluteAnd :: "js_bigint \<Rightarrow> js_bigint \<Rightarrow> js_bigint throws" where
  "absoluteAnd x y = absoluteBitwiseOp x y Skip (\<lambda>a b. a AND b)"

definition absoluteOr :: "js_bigint \<Rightarrow> js_bigint \<Rightarrow> js_bigint throws" where
  "absoluteOr x y = absoluteBitwiseOp x y Copy (\<lambda>a b. a OR b)"

definition absoluteXor :: "js_bigint \<Rightarrow> js_bigint \<Rightarrow> js_bigint throws" where
  "absoluteXor x y = absoluteBitwiseOp x y Copy (\<lambda>a b. a XOR b)"

definition absoluteAndNot :: "js_bigint \<Rightarrow> js_bigint \<Rightarrow> js_bigint throws" where
  "absoluteAndNot x y =
     (let xLength = bi_length x;
          yLength = bi_length y;
          resultLength = xLength
      in andThen (createWithLength resultLength) (\<lambda>result.
           rightTrim (result\<lparr>m_data := bitwise_pairs (\<lambda>a b. a AND NOT b) (m_data x) (m_data y)
             @ drop (min xLength yLength) (m_data x)\<rparr>)))"

text \<open>Digits are the 64-bit groups of the value.\<close>

lemma dval_concat: "dval (d # ds) = concat_bit 64 (uint d) (dval ds)"
proof -
  have "take_bit 64 (uint d) = uint d"
    by (rule take_bit_int_eq_self) (use uint_less_dbase [of d] in \<open>simp_all add: dbase_def\<close>)
  then show ?thesis
    by (simp add: concat_bit_eq push_bit_eq_mult dbase_def mult.commute)
qed

lemma concat_bit_distrib:
  fixes a b :: digit and x y :: int
  shows "concat_bit 64 (uint a) x AND concat_bit 64 (uint b) y = concat_bit 64 (uint (a AND b)) (x AND y)"
    "concat_bit 64 (uint a) x OR concat_bit 64 (uint b) y = concat_bit 64 (uint (a OR b)) (x OR y)"
    "concat_bit 64 (uint a) x XOR concat_bit 64 (uint b) y = concat_bit 64 (uint (a XOR b)) (x XOR y)"
    "concat_bit 64 (uint a) x AND NOT (concat_bit 64 (uint b) y) = concat_bit 64 (uint (a AND NOT b)) (x AND NOT y)"
  by (rule bit_eqI; auto simp: bit_concat_bit_iff bit_simps)+

lemma unsigned_rightTrim:
  assumes "length ds \<le> maxLength"
  obtains r where "rightTrim \<lparr>m_sign = False, m_data = ds\<rparr> = Inr r" "canonical r" "bigint_val r = dval ds" "\<not> m_sign r"
proof -
  obtain r where r: "rightTrim \<lparr>m_sign = False, m_data = ds\<rparr> = Inr r" "canonical r" "bigint_val r = dval ds"
    using rightTrim_correct [OF assms, of False] by auto
  then have "\<not> m_sign r" using canonicalD(6) [OF r(2)] dval_nonneg [of ds] by (simp add: not_less)
  with r show ?thesis by (rule that)
qed

text \<open>
  The contract of \<open>absoluteBitwiseOp\<close>'s \<open>op\<close> parameter: an operation on digits that is the
  restriction of one on non-negative integers, together with the handling of the extra digits that suits it.
\<close>

locale digitwise_op =
  fixes dop :: "digit \<Rightarrow> digit \<Rightarrow> digit"
    and iop :: "int \<Rightarrow> int \<Rightarrow> int"
    and extra :: ExtraDigitsHandling
  assumes dop_iop: "iop (concat_bit 64 (uint a) x) (concat_bit 64 (uint b) y) = concat_bit 64 (uint (dop a b)) (iop x y)"
    and iop_right: "iop x 0 = (if extra = Copy then x else 0)"
    and iop_left: "iop 0 y = (if extra = Copy then y else 0)"
begin

definition extra_digits :: "digit list \<Rightarrow> digit list \<Rightarrow> digit list" where
  "extra_digits xs ys =
     (if extra = Copy then (if length ys < length xs then drop (length ys) xs else drop (length xs) ys) else [])"

lemma extra_digits_simps:
  "extra_digits (x # xs) (y # ys) = extra_digits xs ys"
  "dval (extra_digits xs []) = iop (dval xs) 0" "dval (extra_digits [] ys) = iop 0 (dval ys)"
  by (simp_all add: extra_digits_def iop_left iop_right)

lemma pairs_value:
  "dval (bitwise_pairs dop xs ys @ extra_digits xs ys) = iop (dval xs) (dval ys)
   \<and> length (bitwise_pairs dop xs ys) = min (length xs) (length ys)"
proof (induction xs arbitrary: ys)
  case (Cons x xs)
  show ?case
  proof (cases ys)
    case (Cons y ys')
    with Cons.IH [of ys'] show ?thesis
      by (simp add: dval_concat dop_iop extra_digits_simps del: dval.simps(2))
  qed (simp add: extra_digits_simps del: dval.simps(2))
qed (simp add: extra_digits_simps)

lemma absoluteBitwiseOp_correct:
  assumes "bi_length x \<le> maxLength" "bi_length y \<le> maxLength"
  obtains r where "absoluteBitwiseOp x y extra dop = Inr r" "canonical r"
    "bigint_val r = iop (dval (m_data x)) (dval (m_data y))" "\<not> m_sign r"
proof -
  let ?n = "if bi_length x < bi_length y then bi_length x else bi_length y"
  let ?ds = "bitwise_pairs dop (m_data x) (m_data y) @ extra_digits (m_data x) (m_data y)"
  note p = pairs_value [of "m_data x" "m_data y"]
  have v: "dval ?ds = iop (dval (m_data x)) (dval (m_data y))" using p by simp
  let ?len = "if extra = Copy then max (bi_length x) (bi_length y) else ?n"
  have len: "length ?ds = ?len"
    using conjunct2 [OF p] by (auto simp: bi_length_def extra_digits_def)
  have e: "extra_digits (m_data x) (m_data y) =
      (if extra = Copy then (if bi_length y < bi_length x then drop ?n (m_data x) else drop ?n (m_data y)) else [])"
    by (auto simp: extra_digits_def bi_length_def)
  have le: "?len \<le> maxLength" using assms by simp
  have "length ?ds \<le> maxLength" using len le by (simp only:)
  then obtain r where
    "rightTrim \<lparr>m_sign = False, m_data = ?ds\<rparr> = Inr r" "canonical r" "bigint_val r = dval ?ds" "\<not> m_sign r"
    by (rule unsigned_rightTrim)
  moreover have "absoluteBitwiseOp x y extra dop = andThen (createWithLength ?len) (\<lambda>result.
      rightTrim (result\<lparr>m_data := ?ds @ replicate (?len - length ?ds) 0\<rparr>))"
    unfolding absoluteBitwiseOp_def Let_def e
    by (cases "bi_length x < bi_length y") (simp_all add: max_def cong: if_cong)
  then have "absoluteBitwiseOp x y extra dop = rightTrim \<lparr>m_sign = False, m_data = ?ds\<rparr>"
    unfolding len createWithLength_Inr [OF le] by simp
  ultimately show ?thesis using v by (intro that) simp_all
qed

end

interpretation digit_and: digitwise_op "\<lambda>a b. a AND b" "\<lambda>x y. x AND y" Skip
  by unfold_locales (simp_all add: concat_bit_distrib)

interpretation digit_or: digitwise_op "\<lambda>a b. a OR b" "\<lambda>x y. x OR y" Copy
  by unfold_locales (simp_all add: concat_bit_distrib)

interpretation digit_xor: digitwise_op "\<lambda>a b. a XOR b" "\<lambda>x y. x XOR y" Copy
  by unfold_locales (simp_all add: concat_bit_distrib)

lemma absoluteAndNot_correct:
  assumes "bi_length x \<le> maxLength"
  obtains r where "absoluteAndNot x y = Inr r" "canonical r"
    "bigint_val r = dval (m_data x) AND NOT (dval (m_data y))" "\<not> m_sign r"
proof -
  let ?f = "\<lambda>xs ys. bitwise_pairs (\<lambda>a b. a AND NOT b) xs ys @ drop (min (length xs) (length ys)) xs"
  have p: "dval (?f xs ys) = dval xs AND NOT (dval ys) \<and> length (?f xs ys) = length xs" for xs ys
  proof (induction xs arbitrary: ys)
    case (Cons x xs)
    show ?case
    proof (cases ys)
      case (Cons y ys')
      with Cons.IH [of ys'] show ?thesis
        by (simp add: dval_concat concat_bit_distrib del: dval.simps(2))
    qed simp
  qed simp
  have "length (?f (m_data x) (m_data y)) \<le> maxLength"
    using p [of "m_data x" "m_data y"] assms by (simp add: bi_length_def)
  then obtain r where r: "rightTrim \<lparr>m_sign = False, m_data = ?f (m_data x) (m_data y)\<rparr> = Inr r" "canonical r"
    "bigint_val r = dval (?f (m_data x) (m_data y))" "\<not> m_sign r"
    by (rule unsigned_rightTrim)
  note r' = r(3) [unfolded conjunct1 [OF p]]
  from r(1,2,4) r' assms show ?thesis
    by (intro that [of r]) (simp_all add: absoluteAndNot_def createWithLength_def bi_length_def)
qed

section \<open>The operators\<close>

definition bitwiseAndImpl :: "js_bigint \<Rightarrow> js_bigint \<Rightarrow> js_bigint throws" where
  "bitwiseAndImpl x y =
     (if \<not> m_sign x \<and> \<not> m_sign y then absoluteAnd x y
      else if m_sign x \<and> m_sign y
      then
        let resultLength = max (bi_length x) (bi_length y) + 1
        in andThen (absoluteSubOne x resultLength) (\<lambda>result.
           andThen (absoluteSubOne y (bi_length y)) (\<lambda>y1.
           andThen (absoluteOr result y1) (\<lambda>result.
           absoluteAddOne result Signed)))
      else
        let computeResult = (\<lambda>x y.
              andThen (absoluteSubOne y (bi_length y)) (\<lambda>y1. absoluteAndNot x y1))
        in if m_sign x then computeResult y x else computeResult x y)"

definition bitwiseOrImpl :: "js_bigint \<Rightarrow> js_bigint \<Rightarrow> js_bigint throws" where
  "bitwiseOrImpl x y =
     (let resultLength = max (bi_length x) (bi_length y)
      in if \<not> m_sign x \<and> \<not> m_sign y then absoluteOr x y
         else if m_sign x \<and> m_sign y
         then
           andThen (absoluteSubOne x resultLength) (\<lambda>result.
           andThen (absoluteSubOne y (bi_length y)) (\<lambda>y1.
           andThen (absoluteAnd result y1) (\<lambda>result.
           absoluteAddOne result Signed)))
         else
           let computeResult = (\<lambda>x y.
                 andThen (absoluteSubOne y resultLength) (\<lambda>result.
                 andThen (absoluteAndNot result x) (\<lambda>result.
                 absoluteAddOne result Signed)))
           in if m_sign x then computeResult y x else computeResult x y)"

definition bitwiseXorImpl :: "js_bigint \<Rightarrow> js_bigint \<Rightarrow> js_bigint throws" where
  "bitwiseXorImpl x y =
     (if \<not> m_sign x \<and> \<not> m_sign y then absoluteXor x y
      else if m_sign x \<and> m_sign y
      then
        let resultLength = max (bi_length x) (bi_length y)
        in andThen (absoluteSubOne x resultLength) (\<lambda>result.
           andThen (absoluteSubOne y (bi_length y)) (\<lambda>y1.
           absoluteXor result y1))
      else
        let resultLength = max (bi_length x) (bi_length y) + 1;
            computeResult = (\<lambda>x y.
              andThen (absoluteSubOne y resultLength) (\<lambda>result.
              andThen (absoluteXor result x) (\<lambda>result.
              absoluteAddOne result Signed)))
        in if m_sign x then computeResult y x else computeResult x y)"

lemma absoluteAnd_correct:
  assumes "canonical x" "canonical y" "0 \<le> bigint_val x" "0 \<le> bigint_val y"
  obtains r where "absoluteAnd x y = Inr r" "canonical r" "bigint_val r = bigint_val x AND bigint_val y" "\<not> m_sign r"
  using digit_and.absoluteBitwiseOp_correct [OF canonicalD(2) [OF assms(1)] canonicalD(2) [OF assms(2)]] assms(3,4)
  unfolding absoluteAnd_def canonicalD(4) [OF assms(1)] canonicalD(4) [OF assms(2)] by (metis abs_of_nonneg)

lemma absoluteOr_correct:
  assumes "canonical x" "canonical y" "0 \<le> bigint_val x" "0 \<le> bigint_val y"
  obtains r where "absoluteOr x y = Inr r" "canonical r" "bigint_val r = bigint_val x OR bigint_val y" "\<not> m_sign r"
  using digit_or.absoluteBitwiseOp_correct [OF canonicalD(2) [OF assms(1)] canonicalD(2) [OF assms(2)]] assms(3,4)
  unfolding absoluteOr_def canonicalD(4) [OF assms(1)] canonicalD(4) [OF assms(2)] by (metis abs_of_nonneg)

lemma absoluteXor_correct:
  assumes "canonical x" "canonical y" "0 \<le> bigint_val x" "0 \<le> bigint_val y"
  obtains r where "absoluteXor x y = Inr r" "canonical r" "bigint_val r = bigint_val x XOR bigint_val y" "\<not> m_sign r"
  using digit_xor.absoluteBitwiseOp_correct [OF canonicalD(2) [OF assms(1)] canonicalD(2) [OF assms(2)]] assms(3,4)
  unfolding absoluteXor_def canonicalD(4) [OF assms(1)] canonicalD(4) [OF assms(2)] by (metis abs_of_nonneg)

lemma absoluteAndNot_canonical:
  assumes "canonical x" "canonical y" "0 \<le> bigint_val x" "0 \<le> bigint_val y"
  obtains r where "absoluteAndNot x y = Inr r" "canonical r" "bigint_val r = bigint_val x AND NOT (bigint_val y)" "\<not> m_sign r"
  using absoluteAndNot_correct [OF canonicalD(2) [OF assms(1)], of y] assms(3,4)
  unfolding canonicalD(4) [OF assms(1)] canonicalD(4) [OF assms(2)] by (metis abs_of_nonneg)

text \<open>A negative number minus one in absolute value is its complement.\<close>

lemma complement_of_negative:
  assumes "canonical x" "m_sign x" "bi_length x \<le> n" "n \<le> maxLength"
  obtains r where "absoluteSubOne x n = Inr r" "canonical r" "bigint_val r = NOT (bigint_val x)" "0 \<le> bigint_val r"
proof -
  have neg: "bigint_val x < 0" using canonicalD(6) [OF assms(1)] assms(2) by simp
  then have d: "dval (m_data x) = - bigint_val x" using canonicalD(4) [OF assms(1)] by simp
  have "0 < dval (m_data x)" using neg d by simp
  then obtain r where r: "absoluteSubOne x n = Inr r" "canonical r" "bigint_val r = dval (m_data x) - 1"
    by (rule absoluteSubOne_correct [OF _ assms(3,4)])
  show ?thesis
  proof (rule that [OF r(1,2)])
    show "bigint_val r = NOT (bigint_val x)" using r(3) d by (simp add: not_eq_complement)
    show "0 \<le> bigint_val r" using r(3) d neg by linarith
  qed
qed

lemma negated_complement:
  assumes "canonical x" "0 \<le> bigint_val x" "bigint_val x + 1 < dbase ^ maxLength"
  obtains r where "absoluteAddOne x Signed = Inr r" "canonical r" "bigint_val r = NOT (bigint_val x)"
proof -
  have d: "dval (m_data x) = bigint_val x" using canonicalD(4) [OF assms(1)] assms(2) by simp
  with assms(3) have "dval (m_data x) + 1 < dbase ^ maxLength" by simp
  then obtain r where "absoluteAddOne x Signed = Inr r" "canonical r"
    "bigint_val r = with_sign (Signed = Signed) (dval (m_data x) + 1)"
    by (rule absoluteAddOne_correct [OF canonicalD(2) [OF assms(1)]])
  with d show ?thesis by (intro that) (simp_all add: not_eq_complement with_sign_def)
qed

lemma canonical_bound: "canonical x \<Longrightarrow> bi_length x \<le> n \<Longrightarrow> \<bar>bigint_val x\<bar> < dbase ^ n"
  by (rule less_le_trans [OF canonical_abs_less power_increasing]) simp_all

lemma dbase_power: "dbase ^ n = 2 ^ (64 * n)"
  by (simp add: dbase_def power_mult)

lemma or_less_dbase: "0 \<le> a \<Longrightarrow> 0 \<le> b \<Longrightarrow> a < dbase ^ n \<Longrightarrow> b < dbase ^ n \<Longrightarrow> a OR b < dbase ^ n" for a b :: int
  by (simp add: dbase_power OR_upper)

lemma xor_less_dbase: "0 \<le> a \<Longrightarrow> 0 \<le> b \<Longrightarrow> a < dbase ^ n \<Longrightarrow> b < dbase ^ n \<Longrightarrow> a XOR b < dbase ^ n" for a b :: int
  by (simp add: dbase_power XOR_upper)

lemma negative_bounds:
  assumes "canonical x" "m_sign x" "bi_length x \<le> n"
  shows "0 \<le> NOT (bigint_val x)" "NOT (bigint_val x) + 1 < dbase ^ n" "NOT (bigint_val x) < dbase ^ n"
  using canonicalD(6) [OF assms(1)] assms(2) canonical_bound [OF assms(1,3)]
  by (simp_all add: not_eq_complement)

lemma power_room: "a < dbase ^ n \<Longrightarrow> n < N \<Longrightarrow> a + 1 < dbase ^ N" for a :: int
proof -
  assume "a < dbase ^ n" "n < N"
  moreover have "dbase ^ n < dbase ^ N" using \<open>n < N\<close> by (intro power_strict_increasing) simp_all
  ultimately show ?thesis by linarith
qed

lemma bitwiseAnd_negative:
  assumes "canonical x" "canonical y" "m_sign x" "m_sign y" "max (bi_length x) (bi_length y) < maxLength"
  shows "\<exists>r. bitwiseAndImpl x y = Inr r \<and> canonical r \<and> bigint_val r = bigint_val x AND bigint_val y"
proof -
  let ?m = "max (bi_length x) (bi_length y)"
  have m1: "?m + 1 \<le> maxLength" using assms(5) by linarith
  have m: "bi_length x \<le> ?m + 1" "bi_length y \<le> bi_length y" "bi_length y \<le> maxLength"
    using assms(5) by simp_all
  obtain x1 where x1: "absoluteSubOne x (?m + 1) = Inr x1" "canonical x1" "bigint_val x1 = NOT (bigint_val x)" "0 \<le> bigint_val x1"
    by (rule complement_of_negative [OF assms(1,3) m(1) m1])
  obtain y1 where y1: "absoluteSubOne y (bi_length y) = Inr y1" "canonical y1" "bigint_val y1 = NOT (bigint_val y)" "0 \<le> bigint_val y1"
    by (rule complement_of_negative [OF assms(2,4) m(2,3)])
  obtain r where r: "absoluteOr x1 y1 = Inr r" "canonical r" "bigint_val r = bigint_val x1 OR bigint_val y1"
    by (rule absoluteOr_correct [OF x1(2) y1(2) x1(4) y1(4)])
  have "bigint_val r < dbase ^ ?m"
    unfolding r(3) using x1(3,4) y1(3,4) negative_bounds(3) [OF assms(1,3), of ?m] negative_bounds(3) [OF assms(2,4), of ?m]
    by (intro or_less_dbase) simp_all
  then have "bigint_val r + 1 < dbase ^ maxLength" by (rule power_room [OF _ assms(5)])
  moreover have "0 \<le> bigint_val r" unfolding r(3) using x1(4) y1(4) by simp
  ultimately obtain s where s: "absoluteAddOne r Signed = Inr s" "canonical s" "bigint_val s = NOT (bigint_val r)"
    using negated_complement [OF r(2)] by blast
  have "bigint_val s = bigint_val x AND bigint_val y"
    unfolding s(3) r(3) x1(3) y1(3) by simp
  with s(1,2) r(1) x1(1) y1(1) assms(3,4) show ?thesis
    by (intro exI [of _ s]) (simp add: bitwiseAndImpl_def)
qed

lemma bitwiseAnd_mixed:
  assumes "canonical x" "canonical y" "\<not> m_sign x" "m_sign y"
  obtains r where "andThen (absoluteSubOne y (bi_length y)) (\<lambda>y1. absoluteAndNot x y1) = Inr r" "canonical r"
    "bigint_val r = bigint_val x AND bigint_val y"
proof -
  have x0: "0 \<le> bigint_val x" using canonicalD(6) [OF assms(1)] assms(3) by simp
  obtain y1 where y1: "absoluteSubOne y (bi_length y) = Inr y1" "canonical y1" "bigint_val y1 = NOT (bigint_val y)" "0 \<le> bigint_val y1"
    by (rule complement_of_negative [OF assms(2,4) order_refl canonicalD(2) [OF assms(2)]])
  obtain r where "absoluteAndNot x y1 = Inr r" "canonical r" "bigint_val r = bigint_val x AND NOT (bigint_val y1)"
    by (rule absoluteAndNot_canonical [OF assms(1) y1(2) x0 y1(4)])
  with y1 show ?thesis by (intro that) simp_all
qed

lemma bitwiseAndImpl_correct:
  assumes "canonical x" "canonical y" "m_sign x \<and> m_sign y \<longrightarrow> max (bi_length x) (bi_length y) < maxLength"
  shows "\<exists>r. bitwiseAndImpl x y = Inr r \<and> canonical r \<and> bigint_val r = bigint_val x AND bigint_val y"
proof -
  have nn: "\<not> m_sign z \<Longrightarrow> 0 \<le> bigint_val z" if "canonical z" for z using canonicalD(6) [OF that] by simp
  consider "\<not> m_sign x" "\<not> m_sign y" | "m_sign x" "m_sign y" | "\<not> m_sign x" "m_sign y" | "m_sign x" "\<not> m_sign y"
    by blast
  then show ?thesis
  proof cases
    case 1
    then show ?thesis
      using absoluteAnd_correct [OF assms(1,2) nn nn] assms(1,2) unfolding bitwiseAndImpl_def by (metis (full_types))
  next
    case 2
    with assms bitwiseAnd_negative show ?thesis by blast
  next
    case 3
    obtain r where "andThen (absoluteSubOne y (bi_length y)) (\<lambda>y1. absoluteAndNot x y1) = Inr r" "canonical r"
      "bigint_val r = bigint_val x AND bigint_val y"
      by (rule bitwiseAnd_mixed [OF assms(1,2) 3])
    with 3 show ?thesis by (simp add: bitwiseAndImpl_def)
  next
    case 4
    obtain r where "andThen (absoluteSubOne x (bi_length x)) (\<lambda>y1. absoluteAndNot y y1) = Inr r" "canonical r"
      "bigint_val r = bigint_val y AND bigint_val x"
      by (rule bitwiseAnd_mixed [OF assms(2,1) 4(2,1)])
    with 4 show ?thesis by (simp add: bitwiseAndImpl_def and.commute)
  qed
qed

lemma bitwiseOr_negative:
  assumes "canonical x" "canonical y" "m_sign x" "m_sign y"
  shows "\<exists>r. bitwiseOrImpl x y = Inr r \<and> canonical r \<and> bigint_val r = bigint_val x OR bigint_val y"
proof -
  let ?m = "max (bi_length x) (bi_length y)"
  have m: "bi_length x \<le> ?m" "?m \<le> maxLength" "bi_length y \<le> bi_length y" "bi_length y \<le> maxLength"
    using canonicalD(2) [OF assms(1)] canonicalD(2) [OF assms(2)] by simp_all
  obtain x1 where x1: "absoluteSubOne x ?m = Inr x1" "canonical x1" "bigint_val x1 = NOT (bigint_val x)" "0 \<le> bigint_val x1"
    by (rule complement_of_negative [OF assms(1,3) m(1,2)])
  obtain y1 where y1: "absoluteSubOne y (bi_length y) = Inr y1" "canonical y1" "bigint_val y1 = NOT (bigint_val y)" "0 \<le> bigint_val y1"
    by (rule complement_of_negative [OF assms(2,4) m(3,4)])
  obtain r where r: "absoluteAnd x1 y1 = Inr r" "canonical r" "bigint_val r = bigint_val x1 AND bigint_val y1"
    by (rule absoluteAnd_correct [OF x1(2) y1(2) x1(4) y1(4)])
  have "bigint_val r \<le> bigint_val x1" unfolding r(3) using x1(4) by (rule AND_upper1)
  then have "bigint_val r + 1 < dbase ^ maxLength"
    using negative_bounds(2) [OF assms(1,3) canonicalD(2) [OF assms(1)]] x1(3) by linarith
  moreover have "0 \<le> bigint_val r" unfolding r(3) using x1(4) by simp
  ultimately obtain s where s: "absoluteAddOne r Signed = Inr s" "canonical s" "bigint_val s = NOT (bigint_val r)"
    using negated_complement [OF r(2)] by blast
  have "bigint_val s = bigint_val x OR bigint_val y"
    unfolding s(3) r(3) x1(3) y1(3) by simp
  with s(1,2) r(1) x1(1) y1(1) assms(3,4) show ?thesis
    by (intro exI [of _ s]) (simp add: bitwiseOrImpl_def)
qed

lemma bitwiseOr_mixed:
  assumes "canonical x" "canonical y" "\<not> m_sign x" "m_sign y" "bi_length y \<le> n" "n \<le> maxLength"
  obtains r where "andThen (absoluteSubOne y n) (\<lambda>result. andThen (absoluteAndNot result x) (\<lambda>result.
      absoluteAddOne result Signed)) = Inr r" "canonical r" "bigint_val r = bigint_val x OR bigint_val y"
proof -
  have x0: "0 \<le> bigint_val x" using canonicalD(6) [OF assms(1)] assms(3) by simp
  obtain y1 where y1: "absoluteSubOne y n = Inr y1" "canonical y1" "bigint_val y1 = NOT (bigint_val y)" "0 \<le> bigint_val y1"
    by (rule complement_of_negative [OF assms(2,4,5,6)])
  obtain r where r: "absoluteAndNot y1 x = Inr r" "canonical r" "bigint_val r = bigint_val y1 AND NOT (bigint_val x)"
    by (rule absoluteAndNot_canonical [OF y1(2) assms(1) y1(4) x0])
  have "bigint_val r \<le> bigint_val y1" unfolding r(3) using y1(4) by (rule AND_upper1)
  then have "bigint_val r + 1 < dbase ^ maxLength"
    using negative_bounds(2) [OF assms(2,4) canonicalD(2) [OF assms(2)]] y1(3) by linarith
  moreover have "0 \<le> bigint_val r" unfolding r(3) using y1(4) by simp
  ultimately obtain s where s: "absoluteAddOne r Signed = Inr s" "canonical s" "bigint_val s = NOT (bigint_val r)"
    using negated_complement [OF r(2)] by blast
  have "bigint_val s = bigint_val x OR bigint_val y"
    unfolding s(3) r(3) y1(3) by (simp add: or.commute)
  with s(1,2) r(1) y1(1) show ?thesis by (intro that [of s]) simp_all
qed

lemma bitwiseOrImpl_correct:
  assumes "canonical x" "canonical y"
  shows "\<exists>r. bitwiseOrImpl x y = Inr r \<and> canonical r \<and> bigint_val r = bigint_val x OR bigint_val y"
proof -
  let ?m = "max (bi_length x) (bi_length y)"
  have nn: "\<not> m_sign z \<Longrightarrow> 0 \<le> bigint_val z" if "canonical z" for z using canonicalD(6) [OF that] by simp
  have m: "bi_length x \<le> ?m" "bi_length y \<le> ?m" "?m \<le> maxLength"
    using canonicalD(2) [OF assms(1)] canonicalD(2) [OF assms(2)] by simp_all
  consider "\<not> m_sign x" "\<not> m_sign y" | "m_sign x" "m_sign y" | "\<not> m_sign x" "m_sign y" | "m_sign x" "\<not> m_sign y"
    by blast
  then show ?thesis
  proof cases
    case 1
    obtain r where "absoluteOr x y = Inr r" "canonical r" "bigint_val r = bigint_val x OR bigint_val y"
      by (rule absoluteOr_correct [OF assms nn [OF assms(1) 1(1)] nn [OF assms(2) 1(2)]])
    with 1 show ?thesis by (simp add: bitwiseOrImpl_def)
  next
    case 2
    with assms bitwiseOr_negative show ?thesis by blast
  next
    case 3
    obtain r where "andThen (absoluteSubOne y ?m) (\<lambda>result. andThen (absoluteAndNot result x) (\<lambda>result.
      absoluteAddOne result Signed)) = Inr r" "canonical r" "bigint_val r = bigint_val x OR bigint_val y"
      by (rule bitwiseOr_mixed [OF assms(1,2) 3 m(2,3)])
    with 3 show ?thesis by (simp add: bitwiseOrImpl_def)
  next
    case 4
    obtain r where "andThen (absoluteSubOne x ?m) (\<lambda>result. andThen (absoluteAndNot result y) (\<lambda>result.
      absoluteAddOne result Signed)) = Inr r" "canonical r" "bigint_val r = bigint_val y OR bigint_val x"
      by (rule bitwiseOr_mixed [OF assms(2,1) 4(2,1) m(1,3)])
    with 4 show ?thesis by (simp add: bitwiseOrImpl_def or.commute)
  qed
qed

lemma bitwiseXor_mixed:
  assumes "canonical x" "canonical y" "\<not> m_sign x" "m_sign y" "bi_length x \<le> m" "bi_length y \<le> m" "m < maxLength"
  obtains r where "andThen (absoluteSubOne y (m + 1)) (\<lambda>result. andThen (absoluteXor result x) (\<lambda>result.
      absoluteAddOne result Signed)) = Inr r" "canonical r" "bigint_val r = bigint_val x XOR bigint_val y"
proof -
  have x0: "0 \<le> bigint_val x" using canonicalD(6) [OF assms(1)] assms(3) by simp
  have m: "bi_length y \<le> m + 1" "m + 1 \<le> maxLength" using assms(6,7) by simp_all
  obtain y1 where y1: "absoluteSubOne y (m + 1) = Inr y1" "canonical y1" "bigint_val y1 = NOT (bigint_val y)" "0 \<le> bigint_val y1"
    by (rule complement_of_negative [OF assms(2,4) m])
  obtain r where r: "absoluteXor y1 x = Inr r" "canonical r" "bigint_val r = bigint_val y1 XOR bigint_val x"
    by (rule absoluteXor_correct [OF y1(2) assms(1) y1(4) x0])
  have "bigint_val r < dbase ^ m"
    unfolding r(3) using y1(3,4) x0 negative_bounds(3) [OF assms(2,4,6)] canonical_bound [OF assms(1,5)]
    by (intro xor_less_dbase) simp_all
  then have "bigint_val r + 1 < dbase ^ maxLength" by (rule power_room [OF _ assms(7)])
  moreover have "0 \<le> bigint_val r" unfolding r(3) using y1(4) x0 by simp
  ultimately obtain s where s: "absoluteAddOne r Signed = Inr s" "canonical s" "bigint_val s = NOT (bigint_val r)"
    using negated_complement [OF r(2)] by blast
  have "bigint_val s = bigint_val x XOR bigint_val y"
    unfolding s(3) r(3) y1(3) by (rule bit_eqI) (auto simp: bit_simps)
  with s(1,2) r(1) y1(1) show ?thesis by (intro that [of s]) simp_all
qed

lemma bitwiseXor_negative:
  assumes "canonical x" "canonical y" "m_sign x" "m_sign y"
  shows "\<exists>r. bitwiseXorImpl x y = Inr r \<and> canonical r \<and> bigint_val r = bigint_val x XOR bigint_val y"
proof -
  let ?m = "max (bi_length x) (bi_length y)"
  have m: "bi_length x \<le> ?m" "?m \<le> maxLength" "bi_length y \<le> bi_length y" "bi_length y \<le> maxLength"
    using canonicalD(2) [OF assms(1)] canonicalD(2) [OF assms(2)] by simp_all
  obtain x1 where x1: "absoluteSubOne x ?m = Inr x1" "canonical x1" "bigint_val x1 = NOT (bigint_val x)" "0 \<le> bigint_val x1"
    by (rule complement_of_negative [OF assms(1,3) m(1,2)])
  obtain y1 where y1: "absoluteSubOne y (bi_length y) = Inr y1" "canonical y1" "bigint_val y1 = NOT (bigint_val y)" "0 \<le> bigint_val y1"
    by (rule complement_of_negative [OF assms(2,4) m(3,4)])
  obtain r where r: "absoluteXor x1 y1 = Inr r" "canonical r" "bigint_val r = bigint_val x1 XOR bigint_val y1"
    by (rule absoluteXor_correct [OF x1(2) y1(2) x1(4) y1(4)])
  have "bigint_val r = bigint_val x XOR bigint_val y"
    unfolding r(3) x1(3) y1(3) by (rule bit_eqI) (auto simp: bit_simps)
  with r(1,2) x1(1) y1(1) assms(3,4) show ?thesis
    by (intro exI [of _ r]) (simp add: bitwiseXorImpl_def)
qed

lemma bitwiseXorImpl_correct:
  assumes "canonical x" "canonical y" "m_sign x \<noteq> m_sign y \<longrightarrow> max (bi_length x) (bi_length y) < maxLength"
  shows "\<exists>r. bitwiseXorImpl x y = Inr r \<and> canonical r \<and> bigint_val r = bigint_val x XOR bigint_val y"
proof -
  let ?m = "max (bi_length x) (bi_length y)"
  have nn: "\<not> m_sign z \<Longrightarrow> 0 \<le> bigint_val z" if "canonical z" for z using canonicalD(6) [OF that] by simp
  have m: "bi_length x \<le> ?m" "bi_length y \<le> ?m" by simp_all
  consider "\<not> m_sign x" "\<not> m_sign y" | "m_sign x" "m_sign y" | "\<not> m_sign x" "m_sign y" | "m_sign x" "\<not> m_sign y"
    by blast
  then show ?thesis
  proof cases
    case 1
    obtain r where "absoluteXor x y = Inr r" "canonical r" "bigint_val r = bigint_val x XOR bigint_val y"
      by (rule absoluteXor_correct [OF assms(1,2) nn [OF assms(1) 1(1)] nn [OF assms(2) 1(2)]])
    with 1 show ?thesis by (simp add: bitwiseXorImpl_def)
  next
    case 2
    with assms bitwiseXor_negative show ?thesis by blast
  next
    case 3
    then have lt: "?m < maxLength" using assms(3) by simp
    obtain r where "andThen (absoluteSubOne y (?m + 1)) (\<lambda>result. andThen (absoluteXor result x) (\<lambda>result.
      absoluteAddOne result Signed)) = Inr r" "canonical r" "bigint_val r = bigint_val x XOR bigint_val y"
      by (rule bitwiseXor_mixed [OF assms(1,2) 3 m lt])
    with 3 show ?thesis by (simp add: bitwiseXorImpl_def)
  next
    case 4
    then have lt: "?m < maxLength" using assms(3) by simp
    obtain r where "andThen (absoluteSubOne x (?m + 1)) (\<lambda>result. andThen (absoluteXor result y) (\<lambda>result.
      absoluteAddOne result Signed)) = Inr r" "canonical r" "bigint_val r = bigint_val y XOR bigint_val x"
      by (rule bitwiseXor_mixed [OF assms(2,1) 4(2,1) m(2,1) lt])
    with 4 show ?thesis by (simp add: bitwiseXorImpl_def xor.commute)
  qed
qed

text \<open>The two operations that allocate one digit more than the longer operand.\<close>

lemma bitwise_max_length:
  assumes "max (bi_length x) (bi_length y) = maxLength"
  shows "m_sign x \<Longrightarrow> m_sign y \<Longrightarrow> bitwiseAndImpl x y = Inl OutOfMemoryError"
    "m_sign x \<noteq> m_sign y \<Longrightarrow> bitwiseXorImpl x y = Inl OutOfMemoryError"
proof -
  have e: "absoluteSubOne z (maxLength + 1) = Inl OutOfMemoryError" for z
    by (simp add: absoluteSubOne_def createWithLength_def)
  show "m_sign x \<Longrightarrow> m_sign y \<Longrightarrow> bitwiseAndImpl x y = Inl OutOfMemoryError"
    unfolding bitwiseAndImpl_def assms Let_def e by simp
  show "m_sign x \<noteq> m_sign y \<Longrightarrow> bitwiseXorImpl x y = Inl OutOfMemoryError"
    unfolding bitwiseXorImpl_def assms Let_def e by auto
qed

end
