(* ===== verification/BigIntShift.thy ===== *)
theory BigIntShift
  imports BigIntBitwise
begin

text \<open>
  The shifts of JSBigInt.cpp: \<open>toShiftAmount\<close>, \<open>leftShiftByAbsolute\<close>, \<open>rightShiftByAbsolute\<close> (which rounds
  negative numbers towards minus infinity by adding one to the shifted absolute value) and the two operators. A
  left shift throws exactly when the result does not fit \<open>maxLengthBits\<close>; a right shift never throws.
\<close>


section \<open>The shifts\<close>

definition toShiftAmount :: "js_bigint \<Rightarrow> nat option" where
  "toShiftAmount x =
     (if 1 < bi_length x then None
      else
        let val = unat (m_data x ! 0)
        in if maxLengthBits < val then None else Some val)"

definition leftShiftByAbsolute :: "js_bigint \<Rightarrow> js_bigint \<Rightarrow> js_bigint throws" where
  "leftShiftByAbsolute x y =
     (case toShiftAmount y of
        None \<Rightarrow> Inl OutOfMemoryError
      | Some shift \<Rightarrow>
          let digitShift = shift div digitBits;
              bitsShift = shift mod digitBits;
              len = bi_length x;
              grow = (bitsShift \<noteq> 0 \<and> drop_bit (digitBits - bitsShift) (m_data x ! (len - 1)) \<noteq> 0);
              resultLength = len + digitShift + of_bool grow
          in if maxLength < resultLength then Inl OutOfMemoryError
             else andThen (createWithLength resultLength) (\<lambda>result.
               let ds =
                 (if bitsShift = 0 then replicate digitShift 0 @ m_data x
                  else
                    let (shifted, carry) = leftShift_loop bitsShift 0 (m_data x)
                    in replicate digitShift 0 @ shifted @ (if grow then [carry] else []))
               in rightTrim (result\<lparr>m_data := ds, m_sign := m_sign x\<rparr>)))"

definition rightShiftByMaximum :: "bool \<Rightarrow> js_bigint throws" where
  "rightShiftByMaximum sign = (if sign then createFrom_int32 (- 1) else createZero)"

text \<open>The loop that looks for a non-zero digit among those that are shifted out.\<close>

fun any_nonzero :: "digit list \<Rightarrow> bool" where
  "any_nonzero [] = False"
| "any_nonzero (d # ds) = (if d \<noteq> 0 then True else any_nonzero ds)"

definition rightShiftByAbsolute :: "js_bigint \<Rightarrow> js_bigint \<Rightarrow> js_bigint throws" where
  "rightShiftByAbsolute x y =
     (let len = bi_length x;
          sign = m_sign x
      in case toShiftAmount y of
           None \<Rightarrow> rightShiftByMaximum sign
         | Some shift \<Rightarrow>
             let digitalShift = shift div digitBits;
                 bitsShift = shift mod digitBits
             in if int len - int digitalShift \<le> 0 then rightShiftByMaximum sign
                else
                  let resultLength = len - digitalShift;
                      mask = push_bit bitsShift 1 - 1;
                      mustRoundDown = (sign \<and>
                        (if m_data x ! digitalShift AND mask \<noteq> 0 then True
                         else any_nonzero (take digitalShift (m_data x))));
                      msd = m_data x ! (len - 1);
                      roundingCanOverflow = (mustRoundDown \<and> bitsShift = 0 \<and> NOT msd = 0);
                      resultLength = (if roundingCanOverflow then resultLength + 1 else resultLength)
                  in andThen (createWithLength resultLength) (\<lambda>result.
                     let ds =
                       (if bitsShift = 0
                        then drop digitalShift (m_data x) @ (if roundingCanOverflow then [0] else [])
                        else rightShift_loop bitsShift (drop_bit bitsShift (m_data x ! digitalShift))
                               (drop (digitalShift + 1) (m_data x)));
                         result = result\<lparr>m_data := ds\<rparr>
                     in if sign
                        then
                          let result = result\<lparr>m_sign := True\<rparr>
                          in if mustRoundDown
                             then andThen (rightTrim result) (\<lambda>result. absoluteAddOne result Signed)
                             else rightTrim result
                        else rightTrim result))"

definition leftShiftImpl :: "js_bigint \<Rightarrow> js_bigint \<Rightarrow> js_bigint throws" where
  "leftShiftImpl x y =
     (if isZero x \<or> isZero y then Inr x
      else if m_sign y then rightShiftByAbsolute x y
      else leftShiftByAbsolute x y)"

definition signedRightShiftImpl :: "js_bigint \<Rightarrow> js_bigint \<Rightarrow> js_bigint throws" where
  "signedRightShiftImpl x y =
     (if isZero x \<or> isZero y then Inr x
      else if m_sign y then leftShiftByAbsolute x y
      else rightShiftByAbsolute x y)"

section \<open>Left shift\<close>

lemma dbase_maxLength: "dbase ^ maxLength = 2 ^ maxLengthBits"
  unfolding dbase_power maxLength_def digitBits_def
  by (rule arg_cong [of _ _ "power 2"]) (simp add: maxLengthBits_def)

lemma toShiftAmount_correct:
  assumes "canonical y" "bigint_val y \<noteq> 0"
  shows "toShiftAmount y = (if nat \<bar>bigint_val y\<bar> \<le> maxLengthBits then Some (nat \<bar>bigint_val y\<bar>) else None)"
proof (cases "bi_length y \<le> 1")
  case True
  then have l: "bi_length y = 1" using assms canonicalD(5) [OF assms(1)] by (auto simp: isZero_def)
  have "\<bar>bigint_val y\<bar> = uint (m_data y ! 0)"
    using one_digit_value [OF l] canonicalD(4) [OF assms(1)] by simp
  then have "nat \<bar>bigint_val y\<bar> = unat (m_data y ! 0)" by simp
  then show ?thesis by (simp add: toShiftAmount_def l Let_def)
next
  case False
  then have "dbase ^ 1 \<le> \<bar>bigint_val y\<bar>"
    using canonical_length_le [OF assms(1), of 1] by linarith
  then have "\<not> nat \<bar>bigint_val y\<bar> \<le> maxLengthBits"
    by (simp add: dbase_def maxLengthBits_def nat_le_iff)
  with False show ?thesis by (simp add: toShiftAmount_def)
qed

lemma leftShift_loop_carry: "ds \<noteq> [] \<Longrightarrow> snd (leftShift_loop s c ds) = drop_bit (digitBits - s) (last ds)"
  by (induction s c ds rule: leftShift_loop.induct) (auto split: prod.split, (metis leftShift_loop.simps(1) snd_conv)?)

text \<open>The digits the left shift writes, and the exact number of them.\<close>

lemma shifted_digits:
  assumes "leftShift_loop s 0 ds = (r, c)" "0 < s" "s < 64" "ds \<noteq> []"
  defines "grow \<equiv> drop_bit (64 - s) (last ds) \<noteq> 0"
  shows "dval (r @ (if grow then [c] else [])) = 2 ^ s * dval ds"
    "length (r @ (if grow then [c] else [])) = length ds + of_bool grow"
proof -
  have c: "c = drop_bit (64 - s) (last ds)"
    using leftShift_loop_carry [OF assms(4), of s 0] assms(1) by (simp add: digitBits_def)
  have v: "dval r + dbase ^ length ds * uint c = 2 ^ s * dval ds" "length r = length ds"
    using leftShift_loop_value [OF assms(2,3) _ assms(1)] by simp_all
  show "dval (r @ (if grow then [c] else [])) = 2 ^ s * dval ds"
    using v c by (auto simp: grow_def dval_simps)
  show "length (r @ (if grow then [c] else [])) = length ds + of_bool grow"
    using v by simp
qed

lemma shifted_lower_bound:
  assumes "ds \<noteq> []" "last ds \<noteq> 0" "s < 64"
  shows "dbase ^ (length ds - 1 + of_bool (s \<noteq> 0 \<and> drop_bit (64 - s) (last ds) \<noteq> 0)) \<le> 2 ^ s * dval ds"
proof -
  let ?d = "ds ! (length ds - 1)"
  have l: "last ds = ?d" using assms(1) by (simp add: last_conv_nth)
  have "dbase ^ (length ds - 1) * uint ?d \<le> dval ds"
    using dval_top(1) [OF assms(1)] dval_nonneg [of "take (length ds - 1) ds"] by linarith
  then have ge: "2 ^ s * (dbase ^ (length ds - 1) * uint ?d) \<le> 2 ^ s * dval ds" by simp
  have d: "1 \<le> uint ?d" using assms(2) uint_pos [of ?d] l by simp
  show ?thesis
  proof (cases "s \<noteq> 0 \<and> drop_bit (64 - s) (last ds) \<noteq> 0")
    case True
    then have "2 ^ (64 - s) \<le> uint ?d" by (simp add: drop_bit_eq_0_iff_uint l)
    then have "2 ^ (64 - s) * 2 ^ s \<le> uint ?d * 2 ^ s" by (rule mult_right_mono) simp
    moreover have "dbase = 2 ^ (64 - s) * 2 ^ s" using dbase_split [of s] assms(3) by simp
    ultimately have "dbase \<le> 2 ^ s * uint ?d" by (simp only: mult.commute)
    then have "dbase ^ (length ds - 1) * dbase \<le> dbase ^ (length ds - 1) * (2 ^ s * uint ?d)"
      by (intro mult_left_mono) simp_all
    also have "dbase ^ (length ds - 1) * (2 ^ s * uint ?d) = 2 ^ s * (dbase ^ (length ds - 1) * uint ?d)"
      by (rule mult.left_commute)
    also note ge
    finally show ?thesis using True by (simp add: mult.commute)
  next
    case False
    have "1 * 1 \<le> 2 ^ s * uint ?d" using d by (intro mult_mono) simp_all
    then have "dbase ^ (length ds - 1) * 1 \<le> dbase ^ (length ds - 1) * (2 ^ s * uint ?d)"
      by (intro mult_left_mono) simp_all
    also have "dbase ^ (length ds - 1) * (2 ^ s * uint ?d) = 2 ^ s * (dbase ^ (length ds - 1) * uint ?d)"
      by (rule mult.left_commute)
    also note ge
    finally show ?thesis using False by auto
  qed
qed

lemma leftShiftByAbsolute_correct:
  assumes "canonical x" "canonical y" "bigint_val x \<noteq> 0" "bigint_val y \<noteq> 0"
  defines "n \<equiv> nat \<bar>bigint_val y\<bar>"
  shows "if \<bar>bigint_val x\<bar> * 2 ^ n < dbase ^ maxLength
    then \<exists>r. leftShiftByAbsolute x y = Inr r \<and> canonical r \<and> bigint_val r = bigint_val x * 2 ^ n
    else leftShiftByAbsolute x y = Inl OutOfMemoryError"
proof (cases "n \<le> maxLengthBits")
  case False
  have "1 * 2 ^ maxLengthBits \<le> \<bar>bigint_val x\<bar> * 2 ^ n"
    using False assms(3) by (intro mult_mono power_increasing) simp_all
  then have "\<not> \<bar>bigint_val x\<bar> * 2 ^ n < dbase ^ maxLength" by (simp add: dbase_maxLength)
  with False show ?thesis
    by (simp add: leftShiftByAbsolute_def toShiftAmount_correct [OF assms(2,4)] n_def)
next
  case True
  let ?ds = "m_data x" and ?q = "n div 64" and ?s = "n mod 64"
  let ?grow = "?s \<noteq> 0 \<and> drop_bit (64 - ?s) (last ?ds) \<noteq> 0"
  let ?len = "length ?ds + ?q + of_bool ?grow"
  have ne: "?ds \<noteq> []" using assms(3) canonicalD(5) [OF assms(1)] by (auto simp: isZero_def bi_length_def)
  then have last: "last ?ds \<noteq> 0" "?ds ! (length ?ds - 1) = last ?ds"
    using canonicalD(1) [OF assms(1)] by (simp_all add: trimmed_def last_conv_nth)
  have toN: "toShiftAmount y = Some n" using True by (simp add: toShiftAmount_correct [OF assms(2,4)] n_def)
  have pow: "(2 :: int) ^ n = dbase ^ ?q * 2 ^ ?s"
    unfolding dbase_power by (simp flip: power_add)
  have v: "\<bar>bigint_val x\<bar> = dval ?ds" using canonicalD(4) [OF assms(1)] by simp
  define out where "out = (if ?s = 0 then replicate ?q 0 @ ?ds else
    let (shifted, carry) = leftShift_loop ?s 0 ?ds in replicate ?q 0 @ shifted @ (if ?grow then [carry] else []))"
  have out: "dval out = dval ?ds * 2 ^ n \<and> length out = ?len"
  proof (cases "?s = 0")
    case True
    then show ?thesis by (simp add: out_def dval_simps pow)
  next
    case False
    obtain r c where l: "leftShift_loop ?s 0 ?ds = (r, c)" by fastforce
    have "0 < ?s" "?s < 64" using False by simp_all
    note sd = shifted_digits [OF l this ne]
    show ?thesis
      using sd False by (simp add: out_def l dval_simps pow)
  qed
  have run: "leftShiftByAbsolute x y = (if maxLength < ?len then Inl OutOfMemoryError
      else andThen (createWithLength ?len) (\<lambda>result. rightTrim (result\<lparr>m_data := out, m_sign := m_sign x\<rparr>)))"
    unfolding leftShiftByAbsolute_def toN option.case Let_def digitBits_def bi_length_def last(2) out_def
    by (rule refl)
  have le: "?len \<le> maxLength \<longleftrightarrow> \<bar>bigint_val x\<bar> * 2 ^ n < dbase ^ maxLength"
  proof
    assume "?len \<le> maxLength"
    then have "dbase ^ length out \<le> dbase ^ maxLength" using out by (intro power_increasing) simp_all
    then have "dval out < dbase ^ maxLength" by (rule less_le_trans [OF dval_less])
    then show "\<bar>bigint_val x\<bar> * 2 ^ n < dbase ^ maxLength" using out v by simp
  next
    assume lt: "\<bar>bigint_val x\<bar> * 2 ^ n < dbase ^ maxLength"
    have "dbase ^ ?q * dbase ^ (length ?ds - 1 + of_bool ?grow) \<le> dbase ^ ?q * (2 ^ ?s * dval ?ds)"
      using shifted_lower_bound [OF ne last(1), of ?s] by (intro mult_left_mono) simp_all
    also have "\<dots> = \<bar>bigint_val x\<bar> * 2 ^ n" by (simp add: v pow)
    finally have "dbase ^ (?q + (length ?ds - 1 + of_bool ?grow)) < dbase ^ maxLength"
      using lt by (simp add: power_add)
    then have "?q + (length ?ds - 1 + of_bool ?grow) < maxLength" by (rule power_less_imp_less_exp [rotated]) simp
    moreover have "length ?ds = Suc (length ?ds - 1)" using ne by simp
    ultimately show "?len \<le> maxLength" by linarith
  qed
  show ?thesis
  proof (cases "?len \<le> maxLength")
    case True
    have e: "leftShiftByAbsolute x y = rightTrim \<lparr>m_sign = m_sign x, m_data = out\<rparr>"
      unfolding run createWithLength_Inr [OF True] using True by simp
    have "out \<noteq> []" using out ne by auto
    moreover have "length out \<le> maxLength" using out True by simp
    ultimately obtain r where "rightTrim \<lparr>m_sign = m_sign x, m_data = out\<rparr> = Inr r" "canonical r"
      "bigint_val r = with_sign (m_sign x) (dval out)"
      using rightTrim_with_sign by blast
    with e out le True show ?thesis
      by (auto simp: bigint_val_with_sign with_sign_def)
  next
    case False
    with le show ?thesis unfolding run by simp
  qed
qed

section \<open>Right shift\<close>

lemma any_nonzero_iff: "any_nonzero ds \<longleftrightarrow> dval ds \<noteq> 0"
  unfolding dval_eq_0_iff by (induction ds) auto

text \<open>Splitting a number at bit \<open>64 * q + s\<close>.\<close>

lemma dval_split: "q \<le> length ds \<Longrightarrow> dval ds = dval (take q ds) + dbase ^ q * dval (drop q ds)"
  using dval_append [of "take q ds" "drop q ds"] by simp

lemma dval_shift_right:
  assumes "q < length ds" "s < 64"
  shows "dval ds div 2 ^ (64 * q + s) = dval (drop q ds) div 2 ^ s"
    "dval ds mod 2 ^ (64 * q + s) = 0 \<longleftrightarrow> dval (take q ds) = 0 \<and> uint (ds ! q) mod 2 ^ s = 0"
proof -
  let ?a = "dval (take q ds)" and ?b = "dval (drop q ds)" and ?w = "dbase ^ q"
  have p: "(2 :: int) ^ (64 * q + s) = ?w * 2 ^ s" by (simp add: dbase_power power_add)
  have ds: "dval ds = ?w * ?b + ?a" using dval_split [of q ds] assms(1) by simp
  have a: "0 \<le> ?a" "?a < ?w" using dval_less [of "take q ds"] assms(1) by simp_all
  have dd: "dval ds div ?w = ?b" "dval ds mod ?w = ?a"
    using int_div_pos_eq [OF ds a] int_mod_pos_eq [OF ds a] by simp_all
  show "dval ds div 2 ^ (64 * q + s) = ?b div 2 ^ s"
    unfolding p using dd(1) by (simp add: zdiv_zmult2_eq)
  have "dval ds mod (?w * 2 ^ s) = ?w * (dval ds div ?w mod 2 ^ s) + dval ds mod ?w"
    by (rule zmod_zmult2_eq) simp
  then have "dval ds mod (?w * 2 ^ s) = 0 \<longleftrightarrow> ?b mod 2 ^ s = 0 \<and> ?a = 0"
    unfolding dd using a by (simp add: add_nonneg_eq_0_iff)
  moreover have "?b mod 2 ^ s = uint (ds ! q) mod 2 ^ s"
  proof -
    have "drop q ds = ds ! q # drop (Suc q) ds" using assms(1) by (simp add: Cons_nth_drop_Suc)
    then have "?b = uint (ds ! q) + dbase * dval (drop (Suc q) ds)" by simp
    also have "dbase * dval (drop (Suc q) ds) = 2 ^ s * (2 ^ (64 - s) * dval (drop (Suc q) ds))"
      using dbase_split [of s] assms(2) by (simp only: mult.commute mult.left_commute less_imp_le)
    finally have "?b = uint (ds ! q) + 2 ^ s * (2 ^ (64 - s) * dval (drop (Suc q) ds))" .
    then show ?thesis by (simp only: mod_mult_self2)
  qed
  ultimately show "dval ds mod 2 ^ (64 * q + s) = 0 \<longleftrightarrow> ?a = 0 \<and> uint (ds ! q) mod 2 ^ s = 0"
    unfolding p by auto
qed

lemma digit_mask_test: "s < 64 \<Longrightarrow> d AND (push_bit s 1 - 1) \<noteq> 0 \<longleftrightarrow> uint d mod 2 ^ s \<noteq> 0" for d :: digit
proof -
  have "uint (d AND mask s) = uint d mod 2 ^ s" by (rule uint_and_mask)
  then have "d AND mask s \<noteq> 0 \<longleftrightarrow> uint d mod 2 ^ s \<noteq> 0"
    by (metis uint_0_iff)
  then show ?thesis by (simp add: mask_eq_exp_minus_1)
qed

text \<open>Floor division of a negative number through its absolute value.\<close>

lemma negative_floor: "- a div b = - (a div b + of_bool (a mod b \<noteq> 0))" if "0 < b" for a b :: int
  using that by (simp add: zdiv_zminus1_eq_if)

lemma floor_of_small:
  fixes v :: int
  assumes "\<bar>v\<bar> < 2 ^ n"
  shows "v div 2 ^ n = (if v < 0 then - 1 else 0)"
proof (cases "v < 0")
  case True
  have "v = 2 ^ n * (- 1) + (v + 2 ^ n)" by simp
  then have "v div 2 ^ n = - 1"
    by (rule int_div_pos_eq) (use assms True in linarith)+
  with True show ?thesis by simp
next
  case False
  with assms show ?thesis by (simp add: div_pos_pos_trivial)
qed

lemma rightShiftByMaximum_correct:
  assumes "canonical x" "\<bar>bigint_val x\<bar> < 2 ^ n"
  shows "\<exists>r. rightShiftByMaximum (m_sign x) = Inr r \<and> canonical r \<and> bigint_val r = bigint_val x div 2 ^ n"
  using createFrom_int32_minus_one canonicalD(6) [OF assms(1)]
  unfolding floor_of_small [OF assms(2)] rightShiftByMaximum_def createZero_eq by simp

text \<open>The rounding that \<open>rightShiftByAbsolute\<close> does on the shifted absolute value.\<close>

lemma finish_right_shift:
  fixes s :: bool and v :: int
  assumes "length ds \<le> maxLength" "ds \<noteq> []" "dval ds + 1 < dbase ^ maxLength"
    and "v = with_sign s a" "0 < m" "dval ds = a div m" "round = (s \<and> a mod m \<noteq> 0)"
  shows "\<exists>r. (if s then if round then andThen (rightTrim \<lparr>m_sign = True, m_data = ds\<rparr>) (\<lambda>result. absoluteAddOne result Signed)
        else rightTrim \<lparr>m_sign = True, m_data = ds\<rparr> else rightTrim \<lparr>m_sign = False, m_data = ds\<rparr>) = Inr r
    \<and> canonical r \<and> bigint_val r = v div m"
proof -
  obtain t where t: "rightTrim \<lparr>m_sign = s, m_data = ds\<rparr> = Inr t" "canonical t" "bigint_val t = with_sign s (dval ds)"
    using rightTrim_with_sign [OF assms(1,2)] by blast
  show ?thesis
  proof (cases s)
    case False
    with t assms(4,6) show ?thesis by (auto simp: with_sign_def)
  next
    case True
    then have v: "v div m = - (a div m + of_bool (a mod m \<noteq> 0))"
      using assms(4) negative_floor [OF assms(5)] by (simp add: with_sign_def)
    show ?thesis
    proof (cases round)
      case False
      with True t assms(6,7) v show ?thesis by (auto simp: with_sign_def)
    next
      case round: True
      have d: "dval (m_data t) = dval ds"
        using t(3) canonicalD(4) [OF t(2)] True by (simp add: with_sign_def)
      with assms(3) have "dval (m_data t) + 1 < dbase ^ maxLength" by simp
      from absoluteAddOne_correct [OF canonicalD(2) [OF t(2)] this, of Signed] obtain r where
        "absoluteAddOne t Signed = Inr r" "canonical r" "bigint_val r = with_sign True (dval ds + 1)"
        unfolding d by auto
      with True round t assms(6,7) v show ?thesis by (auto simp: with_sign_def)
    qed
  qed
qed

lemma rightShiftByAbsolute_correct:
  assumes "canonical x" "canonical y" "bigint_val x \<noteq> 0" "bigint_val y \<noteq> 0"
  defines "n \<equiv> nat \<bar>bigint_val y\<bar>"
  shows "\<exists>r. rightShiftByAbsolute x y = Inr r \<and> canonical r \<and> bigint_val r = bigint_val x div 2 ^ n"
proof (cases "n \<le> maxLengthBits")
  case False
  have "\<bar>bigint_val x\<bar> < 2 ^ maxLengthBits"
    using canonical_bound [OF assms(1) canonicalD(2) [OF assms(1)]] by (simp add: dbase_maxLength)
  also have "\<dots> \<le> (2 :: int) ^ n" using False by (intro power_increasing) simp_all
  finally show ?thesis
    using rightShiftByMaximum_correct [OF assms(1)] False
    by (simp add: rightShiftByAbsolute_def toShiftAmount_correct [OF assms(2,4)] n_def Let_def)
next
  case True
  let ?ds = "m_data x" and ?q = "n div 64" and ?s = "n mod 64"
  have toN: "toShiftAmount y = Some n" using True by (simp add: toShiftAmount_correct [OF assms(2,4)] n_def)
  have n: "n = 64 * ?q + ?s" by simp
  have v: "dval ?ds = \<bar>bigint_val x\<bar>" using canonicalD(4) [OF assms(1)] by simp
  note unf = rightShiftByAbsolute_def toN option.case Let_def digitBits_def bi_length_def
  show ?thesis
  proof (cases "length ?ds \<le> ?q")
    case True
    have "\<bar>bigint_val x\<bar> < dbase ^ ?q" using True by (intro canonical_bound assms(1)) (simp add: bi_length_def)
    also have "\<dots> \<le> 2 ^ n" unfolding dbase_power by (intro power_increasing) simp_all
    finally show ?thesis
      using rightShiftByMaximum_correct [OF assms(1)] True unfolding unf by simp
  next
    case False
    then have q: "?q < length ?ds" by simp
    define round where "round = (m_sign x \<and> (if ?ds ! ?q AND (push_bit ?s 1 - 1) \<noteq> 0 then True else any_nonzero (take ?q ?ds)))"
    have round: "round = (m_sign x \<and> dval ?ds mod 2 ^ n \<noteq> 0)"
      using dval_shift_right(2) [OF q, of ?s] digit_mask_test [of ?s "?ds ! ?q"]
      unfolding round_def any_nonzero_iff n [symmetric] by auto
    define grow where "grow = (round \<and> ?s = 0 \<and> NOT (?ds ! (length ?ds - 1)) = 0)"
    define len where "len = (if grow then length ?ds - ?q + 1 else length ?ds - ?q)"
    define out where "out = (if ?s = 0 then drop ?q ?ds @ (if grow then [0] else [])
      else rightShift_loop ?s (drop_bit ?s (?ds ! ?q)) (drop (?q + 1) ?ds))"
    have dr: "drop ?q ?ds = ?ds ! ?q # drop (?q + 1) ?ds" using q by (simp add: Cons_nth_drop_Suc)
    have out: "dval out = dval ?ds div 2 ^ n" "length out = len"
    proof -
      have "dval out = dval (drop ?q ?ds) div 2 ^ ?s \<and> length out = len"
      proof (cases "?s = 0")
        case True
        then show ?thesis by (simp add: out_def len_def dval_simps)
      next
        case False
        then have s: "0 < ?s" "?s < 64" by simp_all
        have "uint (drop_bit ?s (?ds ! ?q)) < 2 ^ (64 - ?s)"
          using right_shift_digit(2) [OF s, of 0 "?ds ! ?q"] by simp
        note l = rightShift_loop_value [OF s this, of "drop (?q + 1) ?ds"]
        show ?thesis
          using False l rightShift_loop_div [OF s, of "?ds ! ?q" "drop (?q + 1) ?ds"] q
          unfolding dr [symmetric] by (simp add: out_def len_def grow_def Suc_diff_Suc)
      qed
      then show "dval out = dval ?ds div 2 ^ n" "length out = len"
        using dval_shift_right(1) [OF q, of ?s] n by simp_all
    qed
    have n0: "0 < n" using assms(4) by (simp add: n_def)
    have len: "len \<le> maxLength" "0 < len"
    proof -
      have "length ?ds \<le> maxLength" using canonicalD(2) [OF assms(1)] by (simp add: bi_length_def)
      moreover have "grow \<Longrightarrow> 0 < ?q" using n0 n by (auto simp: grow_def)
      ultimately show "len \<le> maxLength" "0 < len" using q by (auto simp: len_def)
    qed
    have run: "rightShiftByAbsolute x y = (if m_sign x
        then if round then andThen (rightTrim \<lparr>m_sign = True, m_data = out\<rparr>) (\<lambda>result. absoluteAddOne result Signed)
          else rightTrim \<lparr>m_sign = True, m_data = out\<rparr>
        else rightTrim \<lparr>m_sign = False, m_data = out\<rparr>)"
    proof -
      have i: "\<not> int (length ?ds) - int ?q \<le> 0" using q by simp
      show ?thesis
        unfolding unf if_not_P [OF i] round_def [symmetric] grow_def [symmetric] len_def [symmetric] out_def [symmetric]
          createWithLength_Inr [OF len(1)] by simp
    qed
    show ?thesis
      unfolding run
    proof (rule finish_right_shift [where a = "dval ?ds"])
      show "length out \<le> maxLength" "out \<noteq> []" using out(2) len by auto
      show "dval out + 1 < dbase ^ maxLength"
      proof -
        have "2 ^ 1 \<le> (2 :: int) ^ n" using n0 by (intro power_increasing) simp_all
        then have "dval out * 2 \<le> dval out * 2 ^ n" by (intro mult_left_mono) simp_all
        also have "\<dots> \<le> dval ?ds"
        proof -
          have "0 \<le> dval ?ds mod 2 ^ n" by simp
          then show ?thesis unfolding out(1) using div_mult_mod_eq [of "dval ?ds" "2 ^ n"] by linarith
        qed
        finally have "dval out * 2 < dbase ^ maxLength"
          using canonical_bound [OF assms(1) canonicalD(2) [OF assms(1)]] v by linarith
        moreover have "(2 :: int) ^ 1 \<le> 2 ^ maxLengthBits"
          by (intro power_increasing) (simp_all add: maxLengthBits_def)
        then have "2 \<le> dbase ^ maxLength" by (simp only: dbase_maxLength power_one_right)
        ultimately show ?thesis by linarith
      qed
      show "bigint_val x = with_sign (m_sign x) (dval ?ds)" by (rule bigint_val_with_sign)
      show "dval out = dval ?ds div 2 ^ n" by (rule out(1))
      show "round = (m_sign x \<and> dval ?ds mod 2 ^ n \<noteq> 0)" by (rule round)
    qed simp
  qed
qed

text \<open>The specification of both operators: a shift by a signed amount.\<close>

definition shift_spec :: "int \<Rightarrow> int \<Rightarrow> int" where
  "shift_spec a n = (if 0 \<le> n then a * 2 ^ nat n else a div 2 ^ nat (- n))"

lemma shift_trivial:
  assumes "canonical x" "canonical y" "isZero x \<or> isZero y"
  shows "shift_spec (bigint_val x) (bigint_val y) = bigint_val x" "shift_spec (bigint_val x) (- bigint_val y) = bigint_val x"
    "\<bar>bigint_val x\<bar> < dbase ^ maxLength"
  using assms(3) canonicalD(5) [OF assms(1)] canonicalD(5) [OF assms(2)]
    canonical_bound [OF assms(1) canonicalD(2) [OF assms(1)]]
  by (auto simp: shift_spec_def)

lemma leftShiftImpl_correct:
  assumes "canonical x" "canonical y"
  shows "if \<bar>shift_spec (bigint_val x) (bigint_val y)\<bar> < dbase ^ maxLength
    then \<exists>r. leftShiftImpl x y = Inr r \<and> canonical r \<and> bigint_val r = shift_spec (bigint_val x) (bigint_val y)
    else leftShiftImpl x y = Inl OutOfMemoryError"
proof (cases "isZero x \<or> isZero y")
  case True
  with shift_trivial [OF assms True] assms(1) show ?thesis by (auto simp: leftShiftImpl_def)
next
  case False
  then have nz: "bigint_val x \<noteq> 0" "bigint_val y \<noteq> 0" using canonicalD(5) assms by simp_all
  show ?thesis
  proof (cases "m_sign y")
    case True
    then have y: "bigint_val y < 0" using canonicalD(6) [OF assms(2)] by simp
    from rightShiftByAbsolute_correct [OF assms nz] obtain r where
      r: "rightShiftByAbsolute x y = Inr r" "canonical r" "bigint_val r = shift_spec (bigint_val x) (bigint_val y)"
      using y by (auto simp: shift_spec_def)
    have "\<bar>shift_spec (bigint_val x) (bigint_val y)\<bar> < dbase ^ maxLength"
      using canonical_bound [OF r(2) canonicalD(2) [OF r(2)]] r(3) by simp
    with r True False show ?thesis by (simp add: leftShiftImpl_def)
  next
    case sign: False
    then have "0 \<le> bigint_val y" using canonicalD(6) [OF assms(2)] by simp
    with leftShiftByAbsolute_correct [OF assms nz] sign False show ?thesis
      by (simp add: leftShiftImpl_def shift_spec_def abs_mult cong: if_cong)
  qed
qed

lemma signedRightShiftImpl_correct:
  assumes "canonical x" "canonical y"
  shows "if \<bar>shift_spec (bigint_val x) (- bigint_val y)\<bar> < dbase ^ maxLength
    then \<exists>r. signedRightShiftImpl x y = Inr r \<and> canonical r \<and> bigint_val r = shift_spec (bigint_val x) (- bigint_val y)
    else signedRightShiftImpl x y = Inl OutOfMemoryError"
proof (cases "isZero x \<or> isZero y")
  case True
  with shift_trivial [OF assms True] assms(1) show ?thesis by (auto simp: signedRightShiftImpl_def)
next
  case False
  then have nz: "bigint_val x \<noteq> 0" "bigint_val y \<noteq> 0" using canonicalD(5) assms by simp_all
  show ?thesis
  proof (cases "m_sign y")
    case False
    then have y: "0 < bigint_val y" using canonicalD(6) [OF assms(2)] nz by simp
    from rightShiftByAbsolute_correct [OF assms nz] obtain r where
      r: "rightShiftByAbsolute x y = Inr r" "canonical r" "bigint_val r = shift_spec (bigint_val x) (- bigint_val y)"
      using y by (auto simp: shift_spec_def)
    have "\<bar>shift_spec (bigint_val x) (- bigint_val y)\<bar> < dbase ^ maxLength"
      using canonical_bound [OF r(2) canonicalD(2) [OF r(2)]] r(3) by simp
    with r False \<open>\<not> (isZero x \<or> isZero y)\<close> show ?thesis by (simp add: signedRightShiftImpl_def)
  next
    case sign: True
    then have "bigint_val y < 0" using canonicalD(6) [OF assms(2)] by simp
    with leftShiftByAbsolute_correct [OF assms nz] sign False show ?thesis
      by (simp add: signedRightShiftImpl_def shift_spec_def abs_mult cong: if_cong)
  qed
qed

end
