(* ===== verification/BigIntTruncate.thy ===== *)
theory BigIntTruncate
  imports BigIntShift
begin

text \<open>
  The truncations of JSBigInt.cpp to a number of bits: \<open>truncateToNBits\<close>, \<open>truncateAndSubFromPowerOfTwo\<close>,
  \<open>asIntN\<close>, \<open>asUintN\<close> (the static methods of \<open>BigInt\<close>) and the conversions to 64-bit integers. They
  are two's complement truncations of the exact value.
\<close>


section \<open>Truncation to a number of bits\<close>

definition truncateToNBits :: "nat \<Rightarrow> js_bigint \<Rightarrow> js_bigint throws" where
  "truncateToNBits n bigInt =
     (let neededDigits = (n + (digitBits - 1)) div digitBits
      in andThen (createWithLength neededDigits) (\<lambda>result.
        let last = neededDigits - 1;
            msd = m_data bigInt ! last;
            msd = (if n mod digitBits \<noteq> 0
                   then let drop = digitBits - n mod digitBits in drop_bit drop (push_bit drop msd)
                   else msd)
        in rightTrim (result\<lparr>m_data := take last (m_data bigInt) @ [msd], m_sign := m_sign bigInt\<rparr>)))"

text \<open>The two loops over all digits but the most significant one: over the digits of the number, then over the
  zeros above it. Both return the digits they write and the borrow they leave.\<close>

fun subFromPower_loop :: "digit list \<Rightarrow> digit \<Rightarrow> digit list \<times> digit" where
  "subFromPower_loop [] borrow = ([], borrow)"
| "subFromPower_loop (d # ds) borrow =
     (let (difference, newBorrow) = digitSub 0 d 0;
          (difference, newBorrow) = digitSub difference borrow newBorrow;
          (ds', borrow') = subFromPower_loop ds newBorrow
      in (difference # ds', borrow'))"

fun subFromPower_rest :: "nat \<Rightarrow> digit \<Rightarrow> digit list \<times> digit" where
  "subFromPower_rest 0 borrow = ([], borrow)"
| "subFromPower_rest (Suc k) borrow =
     (let (difference, newBorrow) = digitSub 0 borrow 0;
          (ds', borrow') = subFromPower_rest k newBorrow
      in (difference # ds', borrow'))"

definition truncateAndSubFromPowerOfTwo :: "nat \<Rightarrow> js_bigint \<Rightarrow> bool \<Rightarrow> js_bigint throws" where
  "truncateAndSubFromPowerOfTwo n bigInt resultSign =
     (let neededDigits = (n + (digitBits - 1)) div digitBits
      in andThen (createWithLength neededDigits) (\<lambda>result.
        let last = neededDigits - 1;
            len = bi_length bigInt;
            limit = min last len;
            (low, borrow) = subFromPower_loop (take limit (m_data bigInt)) 0;
            (zeros, borrow) = subFromPower_rest (last - limit) borrow;
            msd = (if last < len then m_data bigInt ! last else 0);
            msdBitsConsumed = n mod digitBits;
            resultMSD =
              (if msdBitsConsumed = 0
               then
                 let (resultMSD, newBorrow) = digitSub 0 msd 0;
                     (resultMSD, newBorrow) = digitSub resultMSD borrow newBorrow
                 in resultMSD
               else
                 let drop = digitBits - msdBitsConsumed;
                     msd = drop_bit drop (push_bit drop msd);
                     minuendMSD = push_bit (digitBits - drop) 1;
                     (resultMSD, newBorrow) = digitSub minuendMSD msd 0;
                     (resultMSD, newBorrow) = digitSub resultMSD borrow newBorrow
                 in resultMSD AND (minuendMSD - 1))
        in rightTrim (result\<lparr>m_data := low @ zeros @ [resultMSD], m_sign := resultSign\<rparr>)))"

lemma digitSub_fst: "fst (digitSub a b c) = a - b"
  by (simp add: digitSub_def Let_def)

lemma subFromPower_loop_value:
  assumes "subFromPower_loop ds b = (r, b')" "uint b < 3"
  shows "dval r - dbase ^ length ds * uint b' = - dval ds - uint b \<and> length r = length ds \<and> uint b' < 3"
  using assms
proof (induction ds arbitrary: b r)
  case (Cons d ds)
  obtain s n s' n' r' c where
    st: "digitSub 0 d 0 = (s, n)" "digitSub s b n = (s', n')" "subFromPower_loop ds n' = (r', c)"
    by (metis surj_pair)
  then have r: "r = s' # r'" and c: "c = b'" using Cons.prems(1) by (simp_all add: Let_def)
  note two = digitSub_two [OF st(1,2)]
  have "uint n' < 3" using two(2) by simp
  note ih = Cons.IH [OF st(3) [unfolded c] this]
  have "dbase * (dval r' - dbase ^ length ds * uint b') = dbase * (- dval ds - uint n')" using ih by simp
  then have "uint s' + dbase * dval r' - dbase * dbase ^ length ds * uint b' = - (uint d + dbase * dval ds) - uint b"
    using two(1) unfolding right_diff_distrib mult.assoc by simp
  then have "dval r - dbase ^ length (d # ds) * uint b' = - dval (d # ds) - uint b"
    unfolding r dval.simps length_Cons power_Suc .
  with ih show ?case by (simp only: r length_Cons simp_thms)
qed simp

lemma subFromPower_rest_value:
  assumes "subFromPower_rest k b = (r, b')" "uint b < 3"
  shows "dval r - dbase ^ k * uint b' = - uint b \<and> length r = k \<and> uint b' < 3"
  using assms
proof (induction k arbitrary: b r)
  case (Suc k)
  obtain s n r' c where st: "digitSub 0 b 0 = (s, n)" "subFromPower_rest k n = (r', c)"
    by (metis surj_pair)
  then have r: "r = s # r'" and c: "c = b'" using Suc.prems(1) by (simp_all add: Let_def)
  note one = digitSub_step [OF st(1)]
  have "uint n < 3" using one(2) by simp
  note ih = Suc.IH [OF st(2) [unfolded c] this]
  have "dbase * (dval r' - dbase ^ k * uint b') = dbase * (- uint n)" using ih by simp
  then have "uint s + dbase * dval r' - dbase * dbase ^ k * uint b' = - uint b"
    using one(1) unfolding right_diff_distrib mult.assoc by simp
  then have "dval r - dbase ^ Suc k * uint b' = - uint b"
    unfolding r dval.simps power_Suc .
  with ih show ?case by (simp only: r length_Cons simp_thms)
qed simp

text \<open>The number of digits for \<open>n\<close> bits, and the bits of the most significant one.\<close>

lemma needed_digits:
  assumes "0 < n"
  defines "k \<equiv> (n - 1) div 64" and "j \<equiv> (n - 1) mod 64"
  shows "(n + (digitBits - 1)) div digitBits = k + 1" "n = 64 * k + (j + 1)" "j < 64"
    "n mod digitBits = (if j = 63 then 0 else j + 1)" "(2 :: int) ^ n = dbase ^ k * 2 ^ (j + 1)"
proof -
  obtain m where m: "n = Suc m" using assms(1) by (cases n) simp_all
  show "(n + (digitBits - 1)) div digitBits = k + 1" by (simp add: m k_def digitBits_def)
  show n: "n = 64 * k + (j + 1)" by (simp add: m k_def j_def)
  show j: "j < 64" by (simp add: j_def)
  show "n mod digitBits = (if j = 63 then 0 else j + 1)"
    using j by (simp add: n digitBits_def mod_mult_self4)
  show "(2 :: int) ^ n = dbase ^ k * 2 ^ (j + 1)"
    unfolding n dbase_power power_add ..
qed

lemma drop_push_bit:
  fixes d :: digit
  assumes "0 < b" "b < 64"
  shows "drop_bit (digitBits - b) (push_bit (digitBits - b) d) = take_bit b d"
  using assms by (intro bit_word_eqI) (auto simp: bit_simps digitBits_def)

lemma truncated_msd:
  fixes d :: digit
  assumes "j < 64" "b = (if j = 63 then 0 else j + 1)"
  shows "uint (if b \<noteq> 0 then drop_bit (digitBits - b) (push_bit (digitBits - b) d) else d) = uint d mod 2 ^ (j + 1)"
proof (cases "j = 63")
  case True
  then show ?thesis using assms uint_bounded [of d] by simp
next
  case False
  then have "drop_bit (digitBits - b) (push_bit (digitBits - b) d) = take_bit (j + 1) d"
    using assms drop_push_bit [of "j + 1" d] by simp
  moreover have "uint (take_bit (j + 1) d) = uint d mod 2 ^ (j + 1)"
    unfolding unsigned_take_bit_eq by (rule take_bit_eq_mod)
  ultimately show ?thesis using False assms(2) by simp
qed

text \<open>A number at digit \<open>k\<close>: the digits below it, the digit, and the part above.\<close>

lemma dval_at:
  obtains H where "dval ds = dval (take k ds) + dbase ^ k * (uint (if k < length ds then ds ! k else 0) + dbase * H)" "0 \<le> H"
proof (cases "k < length ds")
  case True
  have "dval ds = dval (take k ds) + dbase ^ k * dval (drop k ds)" using True by (intro dval_split) simp
  also have "drop k ds = ds ! k # drop (Suc k) ds" using True by (rule Cons_nth_drop_Suc [symmetric])
  finally show ?thesis using True by (intro that [of "dval (drop (Suc k) ds)"]) simp_all
next
  case False
  then show ?thesis by (intro that [of 0]) simp_all
qed

lemma regroup_digits:
  fixes d :: int
  assumes "d = r + m * t" "B = m * e"
  shows "L + P * (d + B * H) = L + P * r + P * m * (t + e * H)"
  unfolding assms by (simp add: algebra_simps)

lemma mod_at_digit:
  fixes d H L P B :: int
  assumes "B = 2 ^ s * e" "0 \<le> L" "L < P"
  shows "(L + P * (d + B * H)) mod (P * 2 ^ s) = L + P * (d mod 2 ^ s)"
proof -
  obtain t where t: "d = d mod 2 ^ s + 2 ^ s * t" by (metis mod_mult_div_eq)
  have "d mod 2 ^ s < 2 ^ s" by (rule pos_mod_bound) simp
  then have "d mod 2 ^ s + 1 \<le> 2 ^ s" by linarith
  then have "P * (d mod 2 ^ s + 1) \<le> P * 2 ^ s" using assms(2,3) by (intro mult_left_mono) simp_all
  then have b: "L + P * (d mod 2 ^ s) < P * 2 ^ s" using assms(3) by (simp add: distrib_left)
  have "0 \<le> d mod 2 ^ s" by simp
  then have "0 \<le> P * (d mod 2 ^ s)" using assms(2,3) by (intro mult_nonneg_nonneg) simp_all
  with b show ?thesis
    unfolding regroup_digits [OF t assms(1)] using assms(2) by (simp add: mod_pos_pos_trivial)
qed

lemma truncateToNBits_correct:
  assumes "canonical x" "0 < n" "n \<le> maxLengthBits" "(n - 1) div 64 < bi_length x"
  shows "\<exists>r. truncateToNBits n x = Inr r \<and> canonical r \<and> bigint_val r = with_sign (m_sign x) (\<bar>bigint_val x\<bar> mod 2 ^ n)"
proof -
  define k j where "k = (n - 1) div 64" and "j = (n - 1) mod 64"
  note nd = needed_digits [OF assms(2), folded k_def j_def]
  let ?ds = "m_data x"
  define msd where "msd = (if n mod digitBits \<noteq> 0 then drop_bit (digitBits - n mod digitBits) (push_bit (digitBits - n mod digitBits) (?ds ! k)) else ?ds ! k)"
  have k: "k < length ?ds" using assms(4) by (simp add: k_def bi_length_def)
  have len: "k + 1 \<le> maxLength"
    using assms(3,2) unfolding k_def by (simp add: maxLength_def maxLengthBits_def digitBits_def)
  have msd: "uint msd = uint (?ds ! k) mod 2 ^ (j + 1)" unfolding msd_def using nd(3,4) by (rule truncated_msd)
  obtain H where H: "dval ?ds = dval (take k ?ds) + dbase ^ k * (uint (?ds ! k) + dbase * H)"
    using dval_at [of ?ds k] k by auto
  have d: "dbase = 2 ^ (j + 1) * 2 ^ (63 - j)" using nd(3) by (simp add: dbase_def flip: power_add)
  have low: "dval (take k ?ds) < dbase ^ k" using dval_less [of "take k ?ds"] k by simp
  let ?R = "dval (take k ?ds @ [msd])"
  have R: "?R = dval (take k ?ds) + dbase ^ k * (uint (?ds ! k) mod 2 ^ (j + 1))"
    using k by (simp only: dval_append dval.simps msd length_take min_absorb2 less_imp_le) simp
  have v: "?R = \<bar>bigint_val x\<bar> mod 2 ^ n"
    unfolding canonicalD(4) [OF assms(1), symmetric] R nd(5) H
    by (rule mod_at_digit [symmetric, OF d]) (simp_all add: low)
  have ne: "take k ?ds @ [msd] \<noteq> []" "length (take k ?ds @ [msd]) \<le> maxLength" using len k by simp_all
  obtain r where r: "rightTrim \<lparr>m_sign = m_sign x, m_data = take k ?ds @ [msd]\<rparr> = Inr r" "canonical r"
    "bigint_val r = with_sign (m_sign x) ?R"
    by (rule rightTrim_with_sign [OF ne(2,1)])
  have "truncateToNBits n x = Inr r"
    unfolding truncateToNBits_def nd(1) Let_def createWithLength_Inr [OF len] andThen_simps r(1) [symmetric] msd_def
    by simp
  with r(2,3) show ?thesis unfolding v by blast
qed


lemma regroup_digits_sub:
  fixes d :: int
  assumes "d = r + m * u" "B = m * e" "tp = - r - b + m * t" "A = L + P * (d + B * H)" "low - P * b' = - L" "b = b'"
  shows "low + P * tp = - A + P * m * (t + u + e * H)"
proof -
  have "low = P * b' - L" using assms(5) by simp
  then show ?thesis unfolding assms(1,2,3,4,6) by (simp add: algebra_simps)
qed

lemma digitSub_twice:
  assumes "digitSub a b 0 = (s, n)" "digitSub s c n = (s', n')"
  shows "\<exists>t. uint s' = uint a - uint b - uint c + dbase * t"
  using digitSub_two(1) [OF assms] by (intro exI [of _ "uint n'"]) linarith

text \<open>The most significant digit of the difference, in both cases of the code.\<close>

lemma result_msd:
  fixes msd borrow :: digit
  assumes "j < 64" "b = (if j = 63 then 0 else j + 1)"
  defines "m \<equiv> drop_bit (digitBits - b) (push_bit (digitBits - b) msd)"
  defines "p \<equiv> push_bit (digitBits - (digitBits - b)) (1 :: digit)"
  defines "tp \<equiv> (if b = 0 then fst (digitSub (fst (digitSub 0 msd 0)) borrow (snd (digitSub 0 msd 0)))
    else fst (digitSub (fst (digitSub p m 0)) borrow (snd (digitSub p m 0))) AND (p - 1))"
  shows "\<exists>t. uint tp = - (uint msd mod 2 ^ (j + 1)) - uint borrow + 2 ^ (j + 1) * t \<and> uint tp < 2 ^ (j + 1)"
proof (cases "j = 63")
  case True
  obtain t where "uint tp = uint (0 :: digit) - uint msd - uint borrow + dbase * t"
    using digitSub_twice [OF surjective_pairing surjective_pairing, of 0 msd borrow] True assms(2)
    by (auto simp: tp_def)
  then have "uint tp = - (uint msd mod 2 ^ (j + 1)) - uint borrow + 2 ^ (j + 1) * t"
    using True uint_bounded [of msd] by (simp add: dbase_def)
  moreover have "uint tp < 2 ^ (j + 1)" using True uint_bounded [of tp] by simp
  ultimately show ?thesis by blast
next
  case False
  then have b: "b = j + 1" "0 < b" "b < 64" using assms(1,2) by simp_all
  have m: "uint m = uint msd mod 2 ^ (j + 1)"
    using truncated_msd [OF assms(1,2), of msd] b by (simp add: m_def)
  have p: "p = push_bit (j + 1) 1" "uint p = 2 ^ (j + 1)" "p - 1 = mask (j + 1)"
  proof -
    show p1: "p = push_bit (j + 1) 1" using b by (simp add: p_def digitBits_def)
    show "p - 1 = mask (j + 1)" unfolding p1 mask_eq_exp_minus_1 push_bit_of_1 ..
    have "(2 :: int) ^ (j + 1) < 2 ^ 64" using b by (intro power_strict_increasing) simp_all
    then show "uint p = 2 ^ (j + 1)"
      unfolding p1 uint_push_bit by (simp only: uint_1_eq mult_1 len_of_numeral_defs) simp
  qed
  obtain t where t: "uint (fst (digitSub (fst (digitSub p m 0)) borrow (snd (digitSub p m 0)))) = uint p - uint m - uint borrow + dbase * t"
    using digitSub_twice [OF surjective_pairing surjective_pairing, of p m borrow] by auto
  have d: "dbase = 2 ^ (j + 1) * 2 ^ (63 - j)" using assms(1) by (simp add: dbase_def flip: power_add)
  have "tp = fst (digitSub (fst (digitSub p m 0)) borrow (snd (digitSub p m 0))) AND mask (j + 1)"
    unfolding tp_def p(3) using b by simp
  then have tp: "uint tp = (uint p - uint m - uint borrow + dbase * t) mod 2 ^ (j + 1)"
    by (simp only: uint_and_mask t)
  obtain q where q: "(uint p - uint m - uint borrow + dbase * t)
      = (uint p - uint m - uint borrow + dbase * t) mod 2 ^ (j + 1) + 2 ^ (j + 1) * q"
    by (metis mod_mult_div_eq)
  have "uint tp = uint p - uint m - uint borrow + dbase * t - 2 ^ (j + 1) * q" using tp q by linarith
  then have "uint tp = - (uint msd mod 2 ^ (j + 1)) - uint borrow + 2 ^ (j + 1) * (1 + 2 ^ (63 - j) * t - q)"
    unfolding p(2) m d by (simp add: algebra_simps)
  moreover have "uint tp < 2 ^ (j + 1)"
    unfolding tp by (rule pos_mod_bound) simp
  ultimately show ?thesis by blast
qed

lemma truncateAndSubFromPowerOfTwo_correct:
  assumes "canonical x" "0 < n" "n \<le> maxLengthBits"
  shows "\<exists>r. truncateAndSubFromPowerOfTwo n x s = Inr r \<and> canonical r \<and> bigint_val r = with_sign s ((- \<bar>bigint_val x\<bar>) mod 2 ^ n)"
proof -
  define k j where "k = (n - 1) div 64" and "j = (n - 1) mod 64"
  note nd = needed_digits [OF assms(2), folded k_def j_def]
  let ?ds = "m_data x"
  define limit where "limit = min k (length ?ds)"
  define msd where "msd = (if k < length ?ds then ?ds ! k else 0)"
  have len: "k + 1 \<le> maxLength"
    using assms(3,2) unfolding k_def by (simp add: maxLength_def maxLengthBits_def digitBits_def)
  obtain low b1 zeros b2 where l: "subFromPower_loop (take limit ?ds) 0 = (low, b1)"
    "subFromPower_rest (k - limit) b1 = (zeros, b2)" by (metis surj_pair)
  note v1 = subFromPower_loop_value [OF l(1), simplified]
  note v2 = subFromPower_rest_value [OF l(2) conjunct2 [OF conjunct2 [OF v1]]]
  have limit: "limit \<le> k" "length (take limit ?ds) = limit" "take limit ?ds = take k ?ds"
    by (auto simp: limit_def min_def)
  have pk: "dbase ^ limit * dbase ^ (k - limit) = dbase ^ k" using limit(1) by (simp flip: power_add)
  have "dval (low @ zeros) - dbase ^ k * uint b2 = dval low + dbase ^ limit * (dval zeros - dbase ^ (k - limit) * uint b2)"
    using v1 limit(2) by (simp add: dval_append right_diff_distrib pk flip: mult.assoc)
  also have "\<dots> = - dval (take k ?ds)" using v1 v2 limit(2,3) by simp
  finally have low: "dval (low @ zeros) - dbase ^ k * uint b2 = - dval (take k ?ds)" .
  have ll: "length (low @ zeros) = k" using v1 v2 limit by simp
  define b where "b = n mod digitBits"
  define m where "m = drop_bit (digitBits - b) (push_bit (digitBits - b) msd)"
  define p where "p = push_bit (digitBits - (digitBits - b)) (1 :: digit)"
  define tp where "tp = (if b = 0 then fst (digitSub (fst (digitSub 0 msd 0)) b2 (snd (digitSub 0 msd 0)))
    else fst (digitSub (fst (digitSub p m 0)) b2 (snd (digitSub p m 0))) AND (p - 1))"
  obtain t where t: "uint tp = - (uint msd mod 2 ^ (j + 1)) - uint b2 + 2 ^ (j + 1) * t" "uint tp < 2 ^ (j + 1)"
    using result_msd [OF nd(3,4), of msd b2] unfolding tp_def p_def m_def b_def by blast
  obtain H where H: "dval ?ds = dval (take k ?ds) + dbase ^ k * (uint msd + dbase * H)"
    unfolding msd_def by (rule dval_at [of ?ds k])
  obtain u where u: "uint msd = uint msd mod 2 ^ (j + 1) + 2 ^ (j + 1) * u"
    by (metis mod_mult_div_eq)
  have d: "dbase = 2 ^ (j + 1) * 2 ^ (63 - j)" using nd(3) by (simp add: dbase_def flip: power_add)
  let ?R = "dval (low @ zeros @ [tp])"
  have R: "?R = dval (low @ zeros) + dbase ^ k * uint tp"
    using ll by (simp only: append_assoc [symmetric] dval_append [of "low @ zeros"] dval.simps) simp
  have "?R = - dval ?ds + 2 ^ n * (t + u + 2 ^ (63 - j) * H)"
    unfolding R nd(5) by (rule regroup_digits_sub [OF u d t(1) H low refl])
  moreover have "?R < 2 ^ n"
  proof -
    have "dbase ^ k * (uint tp + 1) \<le> dbase ^ k * 2 ^ (j + 1)" using t(2) by (intro mult_left_mono) simp_all
    then show ?thesis unfolding R nd(5) using dval_less [of "low @ zeros", unfolded ll] by (simp add: distrib_left)
  qed
  moreover have "0 \<le> ?R" by (rule dval_nonneg)
  ultimately have v: "?R = (- \<bar>bigint_val x\<bar>) mod 2 ^ n"
    using canonicalD(4) [OF assms(1)] by (metis mod_mult_self2 mod_pos_pos_trivial)
  have ne: "low @ zeros @ [tp] \<noteq> []" "length (low @ zeros @ [tp]) \<le> maxLength" using len ll by simp_all
  obtain r where r: "rightTrim \<lparr>m_sign = s, m_data = low @ zeros @ [tp]\<rparr> = Inr r" "canonical r"
    "bigint_val r = with_sign s ?R"
    by (rule rightTrim_with_sign [OF ne(2,1)])
  have "truncateAndSubFromPowerOfTwo n x s = Inr r"
    unfolding truncateAndSubFromPowerOfTwo_def nd(1) Let_def createWithLength_Inr [OF len] andThen_simps
      r(1) [symmetric] tp_def p_def m_def b_def msd_def
    using l [unfolded limit_def] by (simp add: bi_length_def case_prod_unfold)
  with r(2,3) show ?thesis unfolding v by blast
qed


section \<open>The n-bit integers: \<open>asIntN\<close>, \<open>asUintN\<close>, \<open>toBigUInt64\<close>, \<open>toBigInt64\<close>\<close>

text \<open>\<open>static_cast<int32_t>\<close> of an unsigned 64-bit value.\<close>

definition to_int32 :: "u64 \<Rightarrow> int" where
  "to_int32 n = sint (ucast n :: 32 word)"

definition asIntNImpl :: "u64 \<Rightarrow> js_bigint \<Rightarrow> js_bigint throws" where
  "asIntNImpl n bigInt =
     (if isZero bigInt then Inr bigInt
      else if n = 0 then createZero
      else
        let neededLength = (n + of_nat digitBits - 1) div of_nat digitBits;
            len = of_nat (bi_length bigInt)
        in if len < neededLength then Inr bigInt
           else
             let topDigit = m_data bigInt ! (nat (to_int32 neededLength) - 1);
                 compareDigit = push_bit (unat ((n - 1) mod of_nat digitBits)) 1
             in if len = neededLength \<and> topDigit < compareDigit then Inr bigInt
                else
                  let hasBit = (topDigit AND compareDigit = compareDigit);
                      N = nat (to_int32 n)
                  in if \<not> hasBit then truncateToNBits N bigInt
                     else if \<not> m_sign bigInt then truncateAndSubFromPowerOfTwo N bigInt True
                     else if topDigit AND (compareDigit - 1) = 0
                     then
                       if any_nonzero (rev (take (nat (to_int32 neededLength) - 1) (m_data bigInt)))
                       then truncateAndSubFromPowerOfTwo N bigInt False
                       else if len = neededLength \<and> topDigit = compareDigit then Inr bigInt
                       else truncateToNBits N bigInt
                     else truncateAndSubFromPowerOfTwo N bigInt False)"

definition asUintNImpl :: "u64 \<Rightarrow> js_bigint \<Rightarrow> js_bigint throws" where
  "asUintNImpl n bigInt =
     (if isZero bigInt then Inr bigInt
      else if n = 0 then createZero
      else if m_sign bigInt
      then (if of_nat maxLengthBits < n then Inl OutOfMemoryError
            else truncateAndSubFromPowerOfTwo (nat (to_int32 n)) bigInt False)
      else if of_nat maxLengthBits \<le> n then Inr bigInt
      else
        let neededLength = nat (to_int32 ((n + of_nat digitBits - 1) div of_nat digitBits))
        in if bi_length bigInt < neededLength then Inr bigInt
           else
             let bitsInTopDigit = unat (n mod of_nat digitBits)
             in if bi_length bigInt = neededLength \<and>
                   (bitsInTopDigit = 0 \<or> drop_bit bitsInTopDigit (m_data bigInt ! (neededLength - 1)) = 0)
                then Inr bigInt
                else truncateToNBits (nat (to_int32 n)) bigInt)"

definition toBigUInt64Heap :: "js_bigint \<Rightarrow> u64" where
  "toBigUInt64Heap bigInt =
     (if bi_length bigInt = 0 then 0
      else
        let value = m_data bigInt ! 0
        in if \<not> m_sign bigInt then value else NOT (value - 1))"

definition toBigInt64 :: "js_bigint \<Rightarrow> 64 word" where
  "toBigInt64 bigInt = toBigUInt64Heap bigInt"

lemma to_int32_small: "unat n < 2 ^ 31 \<Longrightarrow> nat (to_int32 n) = unat n"
proof -
  assume n: "unat n < 2 ^ 31"
  have "to_int32 n = signed_take_bit 31 (uint n)"
    by (simp add: to_int32_def sint_uint unsigned_ucast_eq signed_take_bit_take_bit)
  also have "\<dots> = uint n"
  proof (rule signed_take_bit_int_eq_self)
    have "int (unat n) < int (2 ^ 31)" using n by (simp only: of_nat_less_iff)
    then show "uint n < 2 ^ 31" by simp
    show "- (2 ^ 31) \<le> uint n" by (rule order_trans [of _ 0]) simp_all
  qed
  finally show ?thesis by simp
qed

text \<open>The two specifications are determined by congruence and range.\<close>

lemma signed_take_bit_unique:
  fixes r x :: int
  assumes "r mod 2 ^ Suc m = x mod 2 ^ Suc m" "- (2 ^ m) \<le> r" "r < 2 ^ m"
  shows "signed_take_bit m x = r"
proof -
  have "signed_take_bit m x = signed_take_bit m r"
    using assms(1) by (simp add: signed_take_bit_eq_iff_take_bit_eq take_bit_eq_mod)
  then show ?thesis using assms(2,3) by (simp add: signed_take_bit_int_eq_self)
qed

text \<open>The word arithmetic of the lengths.\<close>

lemma needed_length_word:
  fixes n :: u64
  assumes "n \<noteq> 0" "unat n < 2 ^ 63"
  defines "k \<equiv> (unat n - 1) div 64"
  shows "unat ((n + of_nat digitBits - 1) div of_nat digitBits) = k + 1"
    "unat ((n - 1) mod of_nat digitBits) = (unat n - 1) mod 64" "0 < unat n"
proof -
  show n0: "0 < unat n" using assms(1) by (simp add: unat_gt_0)
  have "n + of_nat digitBits - 1 = n + 63" by (simp add: digitBits_def)
  moreover have "unat (n + 63) = unat n + 63"
    using assms(2) by (subst unat_add_lem [THEN iffD1]) simp_all
  then have "unat (63 + n) = unat n + 63" by (simp add: add.commute)
  ultimately have "unat ((n + of_nat digitBits - 1) div of_nat digitBits) = (unat n + 63) div 64"
    by (simp add: unat_div digitBits_def)
  also have "\<dots> = k + 1" using n0 unfolding k_def by (cases "unat n") simp_all
  finally show "unat ((n + of_nat digitBits - 1) div of_nat digitBits) = k + 1" .
  have "unat (n - 1) = unat n - 1" using assms(1) by (simp add: unat_minus_one)
  then show "unat ((n - 1) mod of_nat digitBits) = (unat n - 1) mod 64"
    by (simp add: unat_mod digitBits_def)
qed


lemma n_bit_values:
  fixes A :: int and m :: nat
  assumes "0 \<le> A"
  defines "R \<equiv> A mod 2 ^ Suc m"
  shows "R < 2 ^ m \<Longrightarrow> signed_take_bit m (with_sign s A) = with_sign s R"
    "2 ^ m \<le> R \<Longrightarrow> signed_take_bit m A = - ((- A) mod 2 ^ Suc m)"
    "R = 2 ^ m \<Longrightarrow> signed_take_bit m (- A) = - R"
    "2 ^ m < R \<Longrightarrow> signed_take_bit m (- A) = (- A) mod 2 ^ Suc m"
proof -
  have R0: "0 \<le> R" "R < 2 ^ Suc m" by (simp_all add: R_def)
  have neg: "(- A) mod 2 ^ Suc m = 2 ^ Suc m - R" if "0 < R"
    using that by (simp add: R_def zmod_zminus1_eq_if)
  have cong: "R mod 2 ^ Suc m = A mod 2 ^ Suc m" "(- R) mod 2 ^ Suc m = (- A) mod 2 ^ Suc m"
    by (simp_all add: R_def mod_minus_eq)
  have p: "(0 :: int) < 2 ^ m" by simp
  show "signed_take_bit m (with_sign s A) = with_sign s R" if "R < 2 ^ m"
  proof -
    have r: "- (2 ^ m) \<le> R" "- (2 ^ m) \<le> - R" "- R < 2 ^ m" using that R0 p by linarith+
    show ?thesis
      by (cases s) (simp_all only: with_sign_def if_True if_False signed_take_bit_unique [OF cong(1) r(1) that]
        signed_take_bit_unique [OF cong(2) r(2,3)])
  qed
  show "signed_take_bit m A = - ((- A) mod 2 ^ Suc m)" if "2 ^ m \<le> R"
  proof (rule signed_take_bit_unique)
    have N: "(- A) mod 2 ^ Suc m = 2 ^ Suc m - R" using neg that p by linarith
    show "(- ((- A) mod 2 ^ Suc m)) mod 2 ^ Suc m = A mod 2 ^ Suc m" by (simp add: mod_minus_eq)
    show "- (2 ^ m) \<le> - ((- A) mod 2 ^ Suc m)" "- ((- A) mod 2 ^ Suc m) < 2 ^ m"
      unfolding N using R0 that p power_Suc [of "2 :: int" m] by linarith+
  qed
  show "R = 2 ^ m \<Longrightarrow> signed_take_bit m (- A) = - R"
    using R0 cong p by (intro signed_take_bit_unique) simp_all
  show "signed_take_bit m (- A) = (- A) mod 2 ^ Suc m" if "2 ^ m < R"
  proof (rule signed_take_bit_unique)
    have N: "(- A) mod 2 ^ Suc m = 2 ^ Suc m - R" using neg that p by linarith
    show "(- A) mod 2 ^ Suc m mod 2 ^ Suc m = (- A) mod 2 ^ Suc m" by (rule mod_mod_trivial)
    show "- (2 ^ m) \<le> (- A) mod 2 ^ Suc m" "(- A) mod 2 ^ Suc m < 2 ^ m"
      unfolding N using R0 that p power_Suc [of "2 :: int" m] by linarith+
  qed
qed

lemma uint_push_one:
  assumes "j < 64"
  shows "uint (push_bit j 1 :: digit) = 2 ^ j"
proof -
  have "(2 :: int) ^ j < 2 ^ 64" using assms by (intro power_strict_increasing) simp_all
  then show ?thesis
    unfolding uint_push_bit by (simp only: uint_1_eq mult_1 len_of_numeral_defs) simp
qed

text \<open>The tests of the code on digit \<open>k\<close>, bit \<open>j\<close>.\<close>

lemma top_digit_tests:
  fixes d :: digit
  assumes "j < 64"
  shows "d AND push_bit j 1 = push_bit j 1 \<longleftrightarrow> 2 ^ j \<le> uint d mod 2 ^ (j + 1)"
    "d AND (push_bit j 1 - 1) = 0 \<longleftrightarrow> uint d mod 2 ^ j = 0"
    "2 ^ j \<le> uint d mod 2 ^ (j + 1) \<Longrightarrow> uint d mod 2 ^ (j + 1) = 2 ^ j + uint d mod 2 ^ j"
proof -
  have split: "uint d mod 2 ^ (j + 1) = 2 ^ j * of_bool (bit (uint d) j) + uint d mod 2 ^ j"
    using zmod_zmult2_eq [of 2 "uint d" "2 ^ j"] by (simp add: mod2_eq_if bit_iff_odd mult.commute)
  have l: "uint d mod 2 ^ j < 2 ^ j" "0 \<le> uint d mod 2 ^ j" by (simp_all add: pos_mod_bound)
  have b: "bit d j \<longleftrightarrow> bit (uint d) j" using assms by (simp add: bit_unsigned_iff)
  have "d AND push_bit j 1 = push_bit j 1 \<longleftrightarrow> bit d j"
  proof
    assume "d AND push_bit j 1 = push_bit j 1"
    then have "bit (d AND push_bit j 1) j = bit (push_bit j 1 :: digit) j" by simp
    then show "bit d j" using assms by (simp add: bit_simps)
  next
    assume "bit d j"
    then show "d AND push_bit j 1 = push_bit j 1" by (intro bit_word_eqI) (auto simp: bit_simps)
  qed
  then show "d AND push_bit j 1 = push_bit j 1 \<longleftrightarrow> 2 ^ j \<le> uint d mod 2 ^ (j + 1)"
    unfolding b split by (cases "bit (uint d) j") (simp_all add: not_le)
  show "uint d mod 2 ^ (j + 1) = 2 ^ j + uint d mod 2 ^ j" if "2 ^ j \<le> uint d mod 2 ^ (j + 1)"
  proof (cases "bit (uint d) j")
    case True
    then show ?thesis using split by simp
  next
    case False
    then have "uint d mod 2 ^ (j + 1) = uint d mod 2 ^ j" using split by simp
    with that l(1) show ?thesis by linarith
  qed
  show "d AND (push_bit j 1 - 1) = 0 \<longleftrightarrow> uint d mod 2 ^ j = 0"
    using digit_mask_test [OF assms, of d] by simp
qed

lemma any_nonzero_set: "any_nonzero ds \<longleftrightarrow> (\<exists>d \<in> set ds. d \<noteq> 0)"
  by (induction ds) auto


text \<open>A canonical number from the point of view of the test digit of an \<open>n\<close>-bit truncation.\<close>

lemma magnitude_at_bit:
  assumes "canonical x" "(n - 1) div 64 < bi_length x" "0 < n"
  defines "k \<equiv> (n - 1) div 64" and "j \<equiv> (n - 1) mod 64"
  defines "L \<equiv> dval (take k (m_data x))" and "d \<equiv> uint (m_data x ! k)"
  shows "\<bar>bigint_val x\<bar> mod 2 ^ n = L + dbase ^ k * (d mod 2 ^ (j + 1))"
    "bi_length x = k + 1 \<Longrightarrow> \<bar>bigint_val x\<bar> = L + dbase ^ k * d"
    "0 \<le> L" "L < dbase ^ k" "(2 :: int) ^ (n - 1) = dbase ^ k * 2 ^ j"
proof -
  note nd = needed_digits [OF assms(3), folded k_def j_def]
  have k: "k < length (m_data x)" using assms(2) by (simp add: k_def bi_length_def)
  show L: "0 \<le> L" "L < dbase ^ k" using dval_less [of "take k (m_data x)"] k by (simp_all add: L_def)
  obtain H where H: "\<bar>bigint_val x\<bar> = L + dbase ^ k * (d + dbase * H)"
    using dval_at [of "m_data x" k] k canonicalD(4) [OF assms(1)] unfolding L_def d_def by auto
  have e: "dbase = 2 ^ (j + 1) * 2 ^ (63 - j)" using nd(3) by (simp add: dbase_def flip: power_add)
  show "\<bar>bigint_val x\<bar> mod 2 ^ n = L + dbase ^ k * (d mod 2 ^ (j + 1))"
    unfolding H nd(5) by (rule mod_at_digit [OF e L])
  show "\<bar>bigint_val x\<bar> = L + dbase ^ k * d" if "bi_length x = k + 1"
  proof -
    have "m_data x = take k (m_data x) @ [m_data x ! k]"
      using that k take_Suc_conv_app_nth [OF k] by (simp add: bi_length_def)
    then have "dval (m_data x) = L + dbase ^ k * d"
      using dval_append [of "take k (m_data x)" "[m_data x ! k]"] k by (simp add: L_def d_def)
    then show ?thesis using canonicalD(4) [OF assms(1)] by simp
  qed
  have "n - 1 = 64 * k + j" by (simp add: k_def j_def)
  then show "(2 :: int) ^ (n - 1) = dbase ^ k * 2 ^ j" by (simp only: dbase_power power_add)
qed

text \<open>Comparing \<open>L + P * d\<close> with \<open>P * b\<close>.\<close>

lemma digit_order:
  fixes L P d b :: int
  assumes "0 \<le> L" "L < P"
  shows "L + P * d < P * b \<longleftrightarrow> d < b" "L + P * d = P * b \<longleftrightarrow> d = b \<and> L = 0"
proof -
  show lt: "L + P * d < P * b \<longleftrightarrow> d < b"
  proof
    assume "L + P * d < P * b"
    then have "P * d < P * b" using assms(1) by linarith
    then show "d < b" using assms by (simp add: mult_less_cancel_left_pos)
  next
    assume "d < b"
    then have "P * (d + 1) \<le> P * b" using assms by (intro mult_left_mono) simp_all
    then show "L + P * d < P * b" using assms(2) by (simp add: distrib_left)
  qed
  show "L + P * d = P * b \<longleftrightarrow> d = b \<and> L = 0"
  proof
    assume e: "L + P * d = P * b"
    then have "\<not> d < b" using lt by simp
    moreover have "\<not> b < d"
    proof
      assume "b < d"
      then have "P * b < P * d" using assms by (simp add: mult_less_cancel_left_pos)
      with e assms(1) show False by linarith
    qed
    ultimately show "d = b \<and> L = 0" using e by auto
  qed simp
qed

lemma asIntNImpl_correct:
  assumes "canonical x" "unat n < 2 ^ 63"
  shows "\<exists>r. asIntNImpl n x = Inr r \<and> canonical r
    \<and> bigint_val r = (if n = 0 then 0 else signed_take_bit (unat n - 1) (bigint_val x))"
proof (cases "isZero x \<or> n = 0")
  case True
  then show ?thesis using canonicalD(5) [OF assms(1)] assms(1) createZero_eq canonical_zero
    by (auto simp: asIntNImpl_def bigint_val_def)
next
  case False
  then have nz: "\<not> isZero x" "n \<noteq> 0" by simp_all
  define N where "N = unat n"
  define k j where "k = (N - 1) div 64" and "j = (N - 1) mod 64"
  note w = needed_length_word [OF nz(2) assms(2), folded N_def, folded k_def j_def]
  let ?need = "(n + of_nat digitBits - 1) div of_nat digitBits"
  have L: "unat (of_nat (bi_length x) :: u64) = bi_length x"
    using canonicalD(2) [OF assms(1)] by (simp add: unat_of_nat maxLength_def maxLengthBits_def digitBits_def)
  have lt: "of_nat (bi_length x) < ?need \<longleftrightarrow> bi_length x < k + 1"
    unfolding word_less_nat_alt L w(1) ..
  have eq: "of_nat (bi_length x) = ?need \<longleftrightarrow> bi_length x = k + 1"
    unfolding word_unat_eq_iff L w(1) ..
  have m: "Suc (N - 1) = N" using w(3) by simp
  have exact: ?thesis if "asIntNImpl n x = Inr x" "- (2 ^ (N - 1)) \<le> bigint_val x" "bigint_val x < 2 ^ (N - 1)"
    using that nz(2) assms(1) by (simp add: signed_take_bit_int_eq_self N_def)
  show ?thesis
  proof (cases "bi_length x < k + 1")
    case True
    have "\<bar>bigint_val x\<bar> < dbase ^ bi_length x" by (rule canonical_abs_less [OF assms(1)])
    also have "\<dots> \<le> dbase ^ k" using True by (intro power_increasing) simp_all
    also have "\<dots> \<le> 2 ^ (N - 1)" unfolding dbase_power by (intro power_increasing) (simp_all add: k_def)
    finally have "\<bar>bigint_val x\<bar> < 2 ^ (N - 1)" .
    moreover have "asIntNImpl n x = Inr x" using nz lt True by (simp add: asIntNImpl_def Let_def)
    ultimately show ?thesis by (intro exact) simp_all
  next
    case False
    then have kl: "k < bi_length x" by simp
    then have "k + 1 \<le> maxLength" using canonicalD(2) [OF assms(1)] by simp
    moreover have "N = 64 * k + (j + 1)" "j < 64" using needed_digits(2,3) [OF w(3)] unfolding k_def j_def by simp_all
    ultimately have Nb: "N \<le> maxLengthBits" "N < 2 ^ 31" "k + 1 < 2 ^ 31" and j: "j < 64"
      by (simp_all add: maxLength_def maxLengthBits_def digitBits_def)
    have i32: "nat (to_int32 n) = N" "nat (to_int32 ?need) - 1 = k"
      using to_int32_small [of n] to_int32_small [of ?need] Nb w(1) by (simp_all add: N_def)
    note mag = magnitude_at_bit [OF assms(1) kl [unfolded k_def] w(3), folded k_def j_def]
    let ?L = "dval (take k (m_data x))" and ?d = "m_data x ! k" and ?P = "dbase ^ k"
    let ?R = "\<bar>bigint_val x\<bar> mod 2 ^ N"
    note t = top_digit_tests [OF j, of ?d]
    note val = n_bit_values [OF abs_ge_zero [of "bigint_val x"], of "N - 1", unfolded m]
    note ord = digit_order [OF mag(3,4)]
    note trunc = truncateToNBits_correct [OF assms(1) w(3) Nb(1) kl [unfolded k_def]]
    note subp = truncateAndSubFromPowerOfTwo_correct [OF assms(1) w(3) Nb(1)]
    have hb: "?d AND push_bit j 1 = push_bit j 1 \<longleftrightarrow> 2 ^ (N - 1) \<le> ?R"
      unfolding t(1) mag(1,5) using ord(1) [of "uint ?d mod 2 ^ (j + 1)" "2 ^ j"] by linarith
    have code: "asIntNImpl n x =
       (if bi_length x = k + 1 \<and> ?d < push_bit j 1 then Inr x
        else if \<not> 2 ^ (N - 1) \<le> ?R then truncateToNBits N x
        else if \<not> m_sign x then truncateAndSubFromPowerOfTwo N x True
        else if ?d AND (push_bit j 1 - 1) = 0
        then
          if any_nonzero (rev (take k (m_data x))) then truncateAndSubFromPowerOfTwo N x False
          else if bi_length x = k + 1 \<and> ?d = push_bit j 1 then Inr x
          else truncateToNBits N x
        else truncateAndSubFromPowerOfTwo N x False)"
      unfolding asIntNImpl_def if_not_P [OF nz(1)] if_not_P [OF nz(2)] Let_def lt eq if_not_P [OF False] w(2) i32 hb ..
    have abs: "bigint_val x = with_sign (m_sign x) \<bar>bigint_val x\<bar>"
      using canonicalD(6) [OF assms(1)] by (simp add: with_sign_def)
    have min: "?R = 2 ^ (N - 1) \<longleftrightarrow> ?d AND (push_bit j 1 - 1) = 0 \<and> \<not> any_nonzero (rev (take k (m_data x)))"
      if "2 ^ (N - 1) \<le> ?R"
    proof -
      have "uint ?d mod 2 ^ (j + 1) = 2 ^ j + uint ?d mod 2 ^ j" using that t(1,3) hb by blast
      then have "?R = 2 ^ (N - 1) \<longleftrightarrow> uint ?d mod 2 ^ j = 0 \<and> ?L = 0" unfolding mag(1,5) ord(2) by auto
      then show ?thesis unfolding t(2) dval_eq_0_iff any_nonzero_set by auto
    qed
    consider "bi_length x = k + 1" "?d < push_bit j 1"
      | "\<not> (bi_length x = k + 1 \<and> ?d < push_bit j 1)" "?R < 2 ^ (N - 1)"
      | "\<not> (bi_length x = k + 1 \<and> ?d < push_bit j 1)" "2 ^ (N - 1) \<le> ?R" "\<not> m_sign x"
      | "\<not> (bi_length x = k + 1 \<and> ?d < push_bit j 1)" "?R = 2 ^ (N - 1)" "m_sign x"
      | "\<not> (bi_length x = k + 1 \<and> ?d < push_bit j 1)" "2 ^ (N - 1) < ?R" "m_sign x"
      by linarith
    then show ?thesis
    proof cases
      case 1
      then have "\<bar>bigint_val x\<bar> < 2 ^ (N - 1)"
        unfolding mag(2) [OF 1(1)] mag(5) ord(1) word_less_alt uint_push_one [OF j] by simp
      then show ?thesis using code 1 by (intro exact) simp_all
    next
      case 2
      have "asIntNImpl n x = truncateToNBits N x" unfolding code if_not_P [OF 2(1)] using 2(2) by simp
      then show ?thesis using trunc val(1) [OF 2(2)] abs nz(2) unfolding N_def by metis
    next
      case 3
      have "asIntNImpl n x = truncateAndSubFromPowerOfTwo N x True"
        unfolding code if_not_P [OF 3(1)] using 3(2,3) by simp
      moreover have "bigint_val x = \<bar>bigint_val x\<bar>" using abs 3(3) by (simp add: with_sign_def)
      ultimately show ?thesis using subp [of True] val(2) [OF 3(2)] nz(2) unfolding N_def by (simp add: with_sign_def)
    next
      case 4
      have neg: "bigint_val x = - \<bar>bigint_val x\<bar>" using abs 4(3) by (simp add: with_sign_def)
      have low: "?d AND (push_bit j 1 - 1) = 0" "\<not> any_nonzero (rev (take k (m_data x)))" using min 4(2) by simp_all
      show ?thesis
      proof (cases "bi_length x = k + 1 \<and> ?d = push_bit j 1")
        case True
        then have "?L = 0" using low(2) by (simp add: any_nonzero_set dval_eq_0_iff)
        then have "\<bar>bigint_val x\<bar> = 2 ^ (N - 1)"
          using True mag(2) mag(5) uint_push_one [OF j] by simp
        then have "bigint_val x = - (2 ^ (N - 1))" using neg by simp
        moreover have "asIntNImpl n x = Inr x"
          unfolding code if_not_P [OF 4(1)] using low True 4(2,3) by simp
        ultimately show ?thesis by (intro exact) simp_all
      next
        case False
        have "asIntNImpl n x = truncateToNBits N x"
          unfolding code if_not_P [OF 4(1)] if_not_P [OF False] using low 4(2,3) by simp
        moreover have "signed_take_bit (N - 1) (bigint_val x) = - ?R" using val(3) [OF 4(2)] neg by simp
        ultimately show ?thesis using trunc 4(3) nz(2) unfolding N_def by (simp add: with_sign_def)
      qed
    next
      case 5
      have "\<not> (?d AND (push_bit j 1 - 1) = 0 \<and> \<not> any_nonzero (rev (take k (m_data x))))"
        using min 5(2) by linarith
      then have "asIntNImpl n x = truncateAndSubFromPowerOfTwo N x False"
        unfolding code if_not_P [OF 5(1)] using 5(2,3) by auto
      moreover have "signed_take_bit (N - 1) (bigint_val x) = (- \<bar>bigint_val x\<bar>) mod 2 ^ N"
        using val(4) [OF 5(2)] abs 5(3) by (simp add: with_sign_def)
      ultimately show ?thesis using subp [of False] nz(2) unfolding N_def by (simp add: with_sign_def)
    qed
  qed
qed


lemma asUintNImpl_correct:
  assumes "canonical x" "unat n < 2 ^ 63"
  shows "if bigint_val x < 0 \<and> maxLengthBits < unat n then asUintNImpl n x = Inl OutOfMemoryError
    else \<exists>r. asUintNImpl n x = Inr r \<and> canonical r \<and> bigint_val r = take_bit (unat n) (bigint_val x)"
proof (cases "isZero x \<or> n = 0")
  case True
  then have "asUintNImpl n x = (if isZero x then Inr x else Inr \<lparr>m_sign = False, m_data = []\<rparr>)"
    by (auto simp: asUintNImpl_def createZero_eq)
  with True show ?thesis using canonicalD(5) [OF assms(1)] assms(1) by (cases "isZero x") simp_all
next
  case False
  then have nz: "\<not> isZero x" "n \<noteq> 0" by simp_all
  define N where "N = unat n"
  define k j where "k = (N - 1) div 64" and "j = (N - 1) mod 64"
  note w = needed_length_word [OF nz(2) assms(2), folded N_def, folded k_def j_def]
  note nd = needed_digits [OF w(3), folded k_def j_def]
  have big: "of_nat maxLengthBits < n \<longleftrightarrow> maxLengthBits < N" "of_nat maxLengthBits \<le> n \<longleftrightarrow> maxLengthBits \<le> N"
    by (simp_all add: word_less_nat_alt word_le_nat_alt N_def maxLengthBits_def)
  have sign: "m_sign x \<longleftrightarrow> bigint_val x < 0" by (rule canonicalD(6) [OF assms(1)])
  have exact: ?thesis if "asUintNImpl n x = Inr x" "0 \<le> bigint_val x" "bigint_val x < 2 ^ N"
    using that assms(1) by (simp add: take_bit_int_eq_self N_def)
  consider "m_sign x" "maxLengthBits < N" | "m_sign x" "N \<le> maxLengthBits" | "\<not> m_sign x" "maxLengthBits \<le> N"
    | "\<not> m_sign x" "N < maxLengthBits" by linarith
  then show ?thesis
  proof cases
    case 1
    then show ?thesis using nz big sign by (simp add: asUintNImpl_def flip: N_def)
  next
    case 2
    then have i32: "nat (to_int32 n) = N"
      using to_int32_small [of n] by (simp add: N_def maxLengthBits_def)
    from 2 have "asUintNImpl n x = truncateAndSubFromPowerOfTwo N x False"
      using nz big by (simp add: asUintNImpl_def i32)
    moreover have "\<bar>bigint_val x\<bar> = - bigint_val x" using 2(1) sign by simp
    ultimately show ?thesis
      using truncateAndSubFromPowerOfTwo_correct [OF assms(1) w(3) 2(2), of False] 2(2)
      by (simp add: with_sign_def take_bit_eq_mod flip: N_def)
  next
    case 3
    then have "asUintNImpl n x = Inr x" using nz big by (simp add: asUintNImpl_def)
    moreover have "bigint_val x < 2 ^ N"
    proof -
      have "\<bar>bigint_val x\<bar> < dbase ^ bi_length x" by (rule canonical_abs_less [OF assms(1)])
      also have "\<dots> \<le> dbase ^ maxLength" using canonicalD(2) [OF assms(1)] by (intro power_increasing) simp_all
      also have "\<dots> \<le> 2 ^ N" unfolding dbase_maxLength using 3(2) by (intro power_increasing) simp_all
      finally show ?thesis by linarith
    qed
    ultimately show ?thesis using 3 sign by (intro exact) simp_all
  next
    case 4
    let ?need = "(n + of_nat digitBits - 1) div of_nat digitBits"
    have "k + 1 < 2 ^ 31" using 4(2) nd(2) by (simp add: maxLengthBits_def)
    then have i32: "nat (to_int32 n) = N" "nat (to_int32 ?need) = k + 1"
      using to_int32_small [of n] to_int32_small [of ?need] 4(2) w(1) by (simp_all add: N_def maxLengthBits_def)
    have bits: "unat (n mod of_nat digitBits) = N mod 64" by (simp add: unat_mod digitBits_def N_def)
    have small: "\<not> maxLengthBits \<le> N" using 4(2) by simp
    have code: "asUintNImpl n x =
       (if bi_length x < k + 1 then Inr x
        else if bi_length x = k + 1 \<and> (N mod 64 = 0 \<or> drop_bit (N mod 64) (m_data x ! k) = 0) then Inr x
        else truncateToNBits N x)"
      unfolding asUintNImpl_def if_not_P [OF nz(1)] if_not_P [OF nz(2)] if_not_P [OF 4(1)] big if_not_P [OF small]
        Let_def i32 bits by simp
    have pos: "bigint_val x = \<bar>bigint_val x\<bar>" using 4(1) sign by simp
    have "N \<le> maxLengthBits" using 4(2) by simp
    show ?thesis
    proof (cases "bi_length x < k + 1")
      case True
      have "\<bar>bigint_val x\<bar> < dbase ^ bi_length x" by (rule canonical_abs_less [OF assms(1)])
      also have "\<dots> \<le> dbase ^ k" using True by (intro power_increasing) simp_all
      also have "\<dots> \<le> 2 ^ N" unfolding dbase_power by (intro power_increasing) (simp_all add: k_def)
      finally show ?thesis using code True pos by (intro exact) simp_all
    next
      case len: False
      then have kl: "(N - 1) div 64 < bi_length x" by (simp add: k_def)
      note mag = magnitude_at_bit [OF assms(1) kl w(3), folded k_def j_def]
      show ?thesis
      proof (cases "bi_length x = k + 1 \<and> (N mod 64 = 0 \<or> drop_bit (N mod 64) (m_data x ! k) = 0)")
        case True
        have "uint (m_data x ! k) < 2 ^ (j + 1)"
        proof (cases "j = 63")
          case True
          then show ?thesis using uint_bounded [of "m_data x ! k"] by simp
        next
          case False
          then have "N mod 64 = j + 1" using nd(4) by (simp add: digitBits_def)
          with True show ?thesis by (simp add: drop_bit_eq_0_iff_uint)
        qed
        then have "\<bar>bigint_val x\<bar> < 2 ^ N"
          unfolding mag(2) [OF conjunct1 [OF True]] nd(5) using digit_order(1) [OF mag(3,4)] by simp
        then show ?thesis using code len True pos by (intro exact) simp_all
      next
        case False
        then have "asUintNImpl n x = truncateToNBits N x"
          unfolding code if_not_P [OF len] by (simp only: if_False)
        then show ?thesis
          using truncateToNBits_correct [OF assms(1) w(3) \<open>N \<le> maxLengthBits\<close> kl] 4(1) pos \<open>N \<le> maxLengthBits\<close>
          by (simp add: with_sign_def take_bit_eq_mod flip: N_def)
      qed
    qed
  qed
qed

lemma toBigUInt64Heap_correct:
  assumes "canonical x"
  shows "uint (toBigUInt64Heap x) = take_bit 64 (bigint_val x)" "sint (toBigInt64 x) = signed_take_bit 63 (bigint_val x)"
proof -
  show u: "uint (toBigUInt64Heap x) = take_bit 64 (bigint_val x)"
  proof (cases "m_data x")
    case Nil
    then show ?thesis by (simp add: toBigUInt64Heap_def bi_length_def bigint_val_def)
  next
    case (Cons d ds)
    have v: "bigint_val x = with_sign (m_sign x) (uint d + dbase * dval ds)" by (simp add: bigint_val_with_sign Cons)
    have "NOT (d - 1) = - d" by (simp add: not_eq_complement)
    moreover have "uint (- d) = (- uint d) mod 2 ^ 64" by (simp add: uint_word_ariths)
    moreover have "(- (uint d + dbase * dval ds)) mod 2 ^ 64 = (- uint d) mod 2 ^ 64"
    proof -
      have "- (uint d + dbase * dval ds) = - uint d + 2 ^ 64 * (- dval ds)" by (simp add: dbase_def)
      then show ?thesis by (simp only: mod_mult_self2)
    qed
    moreover have "(uint d + dbase * dval ds) mod 2 ^ 64 = uint d"
      unfolding dbase_def mod_mult_self2 using uint_bounded [of d] by (simp add: mod_pos_pos_trivial)
    ultimately show ?thesis
      by (simp only: toBigUInt64Heap_def bi_length_def Cons v with_sign_def take_bit_eq_mod Let_def nth_Cons_0) simp
  qed
  show "sint (toBigInt64 x) = signed_take_bit 63 (bigint_val x)"
    by (simp add: toBigInt64_def sint_uint u signed_take_bit_take_bit)
qed

end
