(* ===== verification/BigIntToString.thy ===== *)
theory BigIntToString
  imports BigIntTruncate
begin

text \<open>
  The conversion of big integers to strings (\<open>JSBigInt::toString\<close> of JSBigInt.cpp): \<open>toStringBasePowerOfTwo\<close>, which
  takes the bits of the number in groups, across the digit boundaries, and \<open>toStringGeneric\<close>, which divides the number in
  place by the largest power of the radix that fits in a digit. Both are the reference \<open>string_in_radix\<close>.
\<close>


section \<open>Numbers in a radix\<close>

text \<open>The reference: the digits of a number, the least significant first, without leading zeros; and the first \<open>k\<close>
  digits, with them.\<close>

function base_digits :: "nat \<Rightarrow> nat \<Rightarrow> nat list" where
  "base_digits r n = (if n = 0 \<or> r < 2 then [] else n mod r # base_digits r (n div r))"
  by pat_completeness auto
termination
  by (relation "measure snd") auto

declare base_digits.simps [simp del]

fun padded_digits :: "nat \<Rightarrow> nat \<Rightarrow> nat \<Rightarrow> nat list" where
  "padded_digits r 0 n = []"
| "padded_digits r (Suc k) n = n mod r # padded_digits r k (n div r)"

fun radix_value :: "nat \<Rightarrow> nat list \<Rightarrow> nat" where
  "radix_value r [] = 0"
| "radix_value r (c # cs) = c + r * radix_value r cs"

lemma base_digits_0 [simp]: "base_digits r 0 = []"
  by (simp add: base_digits.simps)

lemma base_digits_step: "0 < n \<Longrightarrow> 2 \<le> r \<Longrightarrow> base_digits r n = n mod r # base_digits r (n div r)"
  by (subst base_digits.simps) simp

lemma padded_digits_length [simp]: "length (padded_digits r k n) = k"
  by (induction k arbitrary: n) simp_all

lemma padded_digits_add: "padded_digits r (k + l) n = padded_digits r k n @ padded_digits r l (n div r ^ k)"
  by (induction k arbitrary: n) (simp_all add: div_mult2_eq)

lemma padded_digits_mod: "padded_digits r k (n mod r ^ k) = padded_digits r k n"
proof (induction k arbitrary: n)
  case (Suc k)
  have "n mod r ^ Suc k div r = n div r mod r ^ k"
    by (cases "r = 0") (simp_all add: mod_mult2_eq)
  moreover have "n mod r ^ Suc k mod r = n mod r" by (simp add: mod_mult2_eq)
  ultimately show ?case by (simp add: Suc.IH del: power_Suc)
qed simp

lemma padded_digits_congr: "m mod r ^ k = n mod r ^ k \<Longrightarrow> padded_digits r k m = padded_digits r k n"
  by (metis padded_digits_mod)

lemma base_digits_append:
  "2 \<le> r \<Longrightarrow> 0 < n div r ^ k \<Longrightarrow> base_digits r n = padded_digits r k n @ base_digits r (n div r ^ k)"
proof (induction k arbitrary: n)
  case (Suc k)
  have n: "n div r ^ Suc k = n div r div r ^ k" by (simp add: div_mult2_eq)
  then have "0 < n" using Suc.prems(2) by (metis div_0 gr0I less_numeral_extra(3))
  then show ?case
    using Suc.IH [OF Suc.prems(1)] Suc.prems(2) unfolding n by (simp add: base_digits_step [OF _ Suc.prems(1)])
qed simp

lemma base_digits_lt: "2 \<le> r \<Longrightarrow> c \<in> set (base_digits r n) \<Longrightarrow> c < r"
proof (induction r n rule: base_digits.induct)
  case (1 r n)
  then show ?case by (cases "n = 0") (auto simp: base_digits_step)
qed

lemma padded_digits_lt: "0 < r \<Longrightarrow> c \<in> set (padded_digits r k n) \<Longrightarrow> c < r"
  by (induction k arbitrary: n) auto

lemma base_digits_value: "2 \<le> r \<Longrightarrow> radix_value r (base_digits r n) = n"
proof (induction r n rule: base_digits.induct)
  case (1 r n)
  then show ?case by (cases "n = 0") (simp_all add: base_digits_step)
qed

lemma base_digits_length:
  assumes "2 \<le> r" "n < r ^ k" "k = 0 \<or> r ^ (k - 1) \<le> n"
  shows "length (base_digits r n) = k"
  using assms(2,3)
proof (induction k arbitrary: n)
  case (Suc k)
  have n: "0 < n" using Suc.prems assms(1) by (metis diff_Suc_1 gr0I le_zero_eq nat.simps(3) not_numeral_le_zero power_not_zero)
  have "n div r < r ^ k" using Suc.prems(1) assms(1) by (intro less_mult_imp_div_less) (simp add: mult.commute)
  moreover have "k = 0 \<or> r ^ (k - 1) \<le> n div r"
  proof (cases k)
    case (Suc l)
    then have "r ^ l * r \<le> n" using Suc.prems by (simp add: mult.commute)
    then show ?thesis using Suc assms(1) by (simp add: less_eq_div_iff_mult_less_eq)
  qed simp
  ultimately have "length (base_digits r (n div r)) = k" by (rule Suc.IH)
  then show ?case by (simp add: base_digits_step [OF n assms(1)])
qed simp

text \<open>The value of a list of digits as a natural number.\<close>

fun nval :: "digit list \<Rightarrow> nat" where
  "nval [] = 0"
| "nval (d # ds) = unat d + 2 ^ 64 * nval ds"

lemma nval_dval: "int (nval ds) = dval ds"
  by (induction ds) (simp_all add: dbase_def)

lemma nval_eq: "nval ds = nat (dval ds)"
  by (simp flip: nval_dval)

lemma nval_append: "nval (xs @ ys) = nval xs + 2 ^ (64 * length xs) * nval ys"
  by (induction xs) (simp_all add: power_add algebra_simps)

section \<open>Digits as characters\<close>

definition radixDigits :: "u8 list" where
  "radixDigits = map of_nat ([48..<58] @ [97..<123])"

definition maxBitsPerCharTable :: "nat list" where
  "maxBitsPerCharTable =
    [0, 0, 32, 51, 64, 75, 83, 90, 96,
     102, 107, 111, 115, 119, 122, 126, 128,
     131, 134, 136, 139, 141, 143, 145, 147,
     149, 151, 153, 154, 156, 158, 159, 160,
     162, 163, 165, 166]"

definition bitsPerCharTableShift :: nat where "bitsPerCharTableShift = 5"

definition bitsPerCharTableMultiplier :: nat where "bitsPerCharTableMultiplier = push_bit bitsPerCharTableShift 1"

definition maxStringLength :: nat where "maxStringLength = 2 ^ 31 - 1"

text \<open>\<open>hasOneBitSet\<close> and \<open>ctz\<close> of WTF/wtf/MathExtras.h, on \<open>unsigned\<close>.\<close>

definition hasOneBitSet :: "u32 \<Rightarrow> bool" where
  "hasOneBitSet value = ((value - 1) AND value = 0 \<and> value \<noteq> 0)"

fun ctz_loop :: "nat \<Rightarrow> u32 \<Rightarrow> nat \<Rightarrow> nat" where
  "ctz_loop 0 uValue zeroCount = zeroCount"
| "ctz_loop (Suc i) uValue zeroCount =
     (if uValue AND 1 \<noteq> 0 then zeroCount else ctz_loop i (drop_bit 1 uValue) (zeroCount + 1))"

definition ctz :: "u32 \<Rightarrow> nat" where
  "ctz value = ctz_loop 32 value 0"

text \<open>The table is an upper bound: \<open>radix\<close> to the power 32 is at most two to the power of its entry; the chunk divisor
  of the radices that are no powers of two fits in a digit; the others are powers of two, and \<open>ctz\<close> is their
  logarithm. Each is checked for the 35 radices.\<close>

lemma for_each_radix: "list_all P [2..<37] \<Longrightarrow> 2 \<le> r \<Longrightarrow> r \<le> 36 \<Longrightarrow> P r" for r :: nat
  by (simp only: list_all_iff set_upt) simp

lemma table_bounds: "list_all (\<lambda>r. (r :: nat) ^ 32 \<le> 2 ^ (maxBitsPerCharTable ! r) \<and> 2 \<le> maxBitsPerCharTable ! r
    \<and> maxBitsPerCharTable ! r \<le> 166) [2..<37]"
  by (simp add: upt_conv_Cons maxBitsPerCharTable_def)

lemma one_bit_radices: "list_all (\<lambda>r. hasOneBitSet (of_nat r) \<longleftrightarrow> r \<in> set [2, 4, 8, 16, 32]) [2..<37]"
  by code_simp

lemma chunk_bounds: "list_all (\<lambda>r. r \<in> set [2, 4, 8, 16, 32] \<or>
    (r :: nat) ^ (2048 div maxBitsPerCharTable ! r) < 2 ^ 64 \<and> 0 < 2048 div maxBitsPerCharTable ! r) [2..<37]"
  by (simp add: upt_conv_Cons maxBitsPerCharTable_def)

lemma power_radices: "list_all (\<lambda>r. hasOneBitSet (of_nat r) \<longrightarrow>
    r = 2 ^ ctz (of_nat r) \<and> 0 < ctz (of_nat r) \<and> ctz (of_nat r) \<le> 5) [2..<37]"
  by code_simp


lemma and_mask_nat: "unat (d AND mask b) = unat d mod 2 ^ b" for d :: digit
  unfolding take_bit_eq_mask [symmetric] unsigned_take_bit_eq by (rule take_bit_eq_mod)

lemma drop_bit_nat: "unat (drop_bit b d) = unat d div 2 ^ b" for d :: digit
  unfolding unat_drop_bit_eq by (rule drop_bit_eq_div)

section \<open>The radices that are powers of two\<close>

text \<open>The result string is filled from its end: \<open>resultString[pos--] = c\<close>.\<close>

definition put_char :: "u8 \<Rightarrow> u8 list \<times> int \<Rightarrow> u8 list \<times> int" where
  "put_char c st = (case st of (resultString, pos) \<Rightarrow> (resultString[nat pos := c], pos - 1))"

text \<open>The inner loop \<open>while (availableBits >= bitsPerChar)\<close> (\<open>bitsPerChar\<close> is positive for a radix of at least two).\<close>

function emit_available :: "nat \<Rightarrow> digit \<Rightarrow> digit \<Rightarrow> nat \<Rightarrow> u8 list \<times> int \<Rightarrow> digit \<times> nat \<times> u8 list \<times> int" where
  "emit_available bitsPerChar charMask digit availableBits st =
     (if bitsPerChar \<le> availableBits \<and> 0 < bitsPerChar
      then emit_available bitsPerChar charMask (drop_bit bitsPerChar digit) (availableBits - bitsPerChar)
             (put_char (radixDigits ! unat (digit AND charMask)) st)
      else (digit, availableBits, st))"
  by pat_completeness auto
termination
  by (relation "measure (\<lambda>(b, m, d, a, st). a)") auto

declare emit_available.simps [simp del]

text \<open>The loop over the digits but the most significant one.\<close>

fun emit_digits :: "nat \<Rightarrow> digit \<Rightarrow> digit list \<Rightarrow> digit \<Rightarrow> nat \<Rightarrow> u8 list \<times> int \<Rightarrow> digit \<times> nat \<times> u8 list \<times> int" where
  "emit_digits bitsPerChar charMask [] digit availableBits st = (digit, availableBits, st)"
| "emit_digits bitsPerChar charMask (newDigit # ds) digit availableBits st =
     (let current = (digit OR push_bit availableBits newDigit) AND charMask;
          st = put_char (radixDigits ! unat current) st;
          consumedBits = bitsPerChar - availableBits;
          digit = drop_bit consumedBits newDigit;
          availableBits = digitBits - consumedBits;
          (digit, availableBits, st) = emit_available bitsPerChar charMask digit availableBits st
      in emit_digits bitsPerChar charMask ds digit availableBits st)"

text \<open>The last loop, \<open>while (digit)\<close>.\<close>

function emit_rest :: "nat \<Rightarrow> digit \<Rightarrow> digit \<Rightarrow> u8 list \<times> int \<Rightarrow> u8 list \<times> int" where
  "emit_rest bitsPerChar charMask digit st =
     (if digit \<noteq> 0 \<and> 0 < bitsPerChar
      then emit_rest bitsPerChar charMask (drop_bit bitsPerChar digit)
             (put_char (radixDigits ! unat (digit AND charMask)) st)
      else st)"
  by pat_completeness auto
termination
proof (relation "measure (\<lambda>(b, m, d, st). unat d)", goal_cases)
  case (2 b m d st)
  then have "unat d div 2 ^ b < unat d"
    by (intro div_less_dividend) (auto simp: unat_gt_0 one_less_power simp del: One_nat_def)
  then show ?case by (simp add: drop_bit_nat)
qed simp

declare emit_rest.simps [simp del]

definition toStringBasePowerOfTwo :: "js_bigint \<Rightarrow> nat \<Rightarrow> u8 list throws" where
  "toStringBasePowerOfTwo x radix =
     (let len = bi_length x;
          sign = m_sign x;
          bitsPerChar = ctz (of_nat radix);
          charMask = of_nat (radix - 1);
          msd = m_data x ! (len - 1);
          msdLeadingZeros = clz msd;
          bitLength = len * digitBits - msdLeadingZeros;
          charsRequired = (bitLength + bitsPerChar - 1) div bitsPerChar + of_bool sign
      in if maxStringLength < charsRequired then Inl OutOfMemoryError
         else
           let st = (replicate charsRequired 0, int charsRequired - 1);
               (digit, availableBits, st) = emit_digits bitsPerChar charMask (take (len - 1) (m_data x)) 0 0 st;
               current = (digit OR push_bit availableBits msd) AND charMask;
               st = put_char (radixDigits ! unat current) st;
               digit = drop_bit (bitsPerChar - availableBits) msd;
               st = emit_rest bitsPerChar charMask digit st;
               st = (if sign then put_char 45 st else st)
           in Inr (fst st))"

text \<open>Characters put one after the other.\<close>

definition puts :: "u8 list \<Rightarrow> u8 list \<times> int \<Rightarrow> u8 list \<times> int" where
  "puts cs st = fold put_char cs st"

lemma puts_simps [simp]: "puts [] st = st" "puts (c # cs) st = puts cs (put_char c st)"
  "puts (cs @ ds) st = puts ds (puts cs st)"
  by (simp_all add: puts_def)

lemma puts_fill: "length cs = n \<Longrightarrow> puts cs (replicate n c @ rs, int n - 1) = (rev cs @ rs, - 1)"
proof (induction cs arbitrary: n rs)
  case (Cons d cs)
  then obtain m where n: "n = Suc m" "length cs = m" by (cases n) auto
  have "(replicate n c @ rs)[m := d] = replicate m c @ d # rs"
    by (simp only: n(1) replicate_Suc replicate_append_same [symmetric] append_assoc append_Cons append_Nil)
      (simp add: list_update_append)
  then have "put_char d (replicate n c @ rs, int n - 1) = (replicate m c @ d # rs, int m - 1)"
    by (simp add: put_char_def n(1))
  then show ?case using Cons.IH [OF n(2), of "d # rs"] by simp
qed simp

abbreviation radix_chars :: "nat list \<Rightarrow> u8 list" where
  "radix_chars cs \<equiv> map (\<lambda>c. radixDigits ! c) cs"

lemma emit_available_eq:
  "0 < b \<Longrightarrow> emit_available b (mask b) d a st =
     (drop_bit (b * (a div b)) d, a mod b, puts (radix_chars (padded_digits (2 ^ b) (a div b) (unat d))) st)"
proof (induction b "mask b :: digit" d a st rule: emit_available.induct)
  case (1 b d a st)
  show ?case
  proof (cases "b \<le> a")
    case True
    then have "a div b = Suc ((a - b) div b)" "a mod b = (a - b) mod b"
      using 1(2) by (simp_all add: le_div_geq le_mod_geq)
    with True 1 show ?thesis
      by (simp add: emit_available.simps [of b _ d a] and_mask_nat drop_bit_nat drop_bit_drop_bit add.commute)
  next
    case False
    with 1(2) show ?thesis by (simp add: emit_available.simps [of b _ d a])
  qed
qed

lemma emit_rest_eq:
  "0 < b \<Longrightarrow> emit_rest b (mask b) d st = puts (radix_chars (base_digits (2 ^ b) (unat d))) st"
proof (induction b "mask b :: digit" d st rule: emit_rest.induct)
  case (1 b d st)
  have r: "(2 :: nat) \<le> 2 ^ b" using 1(2) power_increasing [of 1 b "2 :: nat"] by simp
  show ?case
  proof (cases "d = 0")
    case True
    then show ?thesis by (simp add: emit_rest.simps [of b _ 0])
  next
    case False
    with 1 show ?thesis
      using base_digits_step [OF _ r, of "unat d"]
      by (simp add: emit_rest.simps [of b _ d] and_mask_nat drop_bit_nat unat_gt_0)
  qed
qed

text \<open>The low bits of two joined digits.\<close>

lemma joined_low_bits:
  fixes d e :: digit
  assumes "unat d < 2 ^ a" "a < b" "b \<le> 64"
  shows "unat ((d OR push_bit a e) AND mask b) = (unat d + 2 ^ a * unat e) mod 2 ^ b"
proof -
  have "unat ((d OR push_bit a e) AND mask b) = take_bit b (unat (d OR push_bit a e))"
    unfolding take_bit_eq_mask [symmetric] by (rule unsigned_take_bit_eq)
  also have "\<dots> = take_bit b (unat d OR push_bit a (unat e))"
  proof (rule bit_eqI)
    fix n
    show "bit (take_bit b (unat (d OR push_bit a e))) n = bit (take_bit b (unat d OR push_bit a (unat e))) n"
      using assms(3) by (auto simp: bit_simps)
  qed
  also have "unat d OR push_bit a (unat e) = unat d + push_bit a (unat e)"
  proof (rule disjunctive_add [symmetric])
    fix n
    have "take_bit a (unat d) = unat d" using assms(1) by (simp add: take_bit_nat_eq_self)
    then have "bit (unat d) n \<Longrightarrow> n < a" by (metis bit_take_bit_iff)
    then show "\<not> bit (unat d) n \<or> \<not> bit (push_bit a (unat e)) n" by (auto simp: bit_simps)
  qed
  finally show ?thesis by (simp add: take_bit_eq_mod push_bit_eq_mult mult.commute)
qed


lemma joined_carry:
  fixes d e :: nat
  assumes "d < 2 ^ a" "a < b"
  shows "(d + 2 ^ a * e) div 2 ^ b = e div 2 ^ (b - a)"
proof -
  have "(2 :: nat) ^ b = 2 ^ a * 2 ^ (b - a)" using assms(2) by (simp flip: power_add)
  then have "(d + 2 ^ a * e) div 2 ^ b = (d + 2 ^ a * e) div 2 ^ a div 2 ^ (b - a)" by (simp only: div_mult2_eq)
  also have "(d + 2 ^ a * e) div 2 ^ a = e" using assms(1) by simp
  finally show ?thesis .
qed

lemma div_shift: "0 < b \<Longrightarrow> (b + b * m + q) div b = Suc (m + q div b)" for b m q :: nat
  using div_mult_self2 [of b q "Suc m"] by (simp add: ac_simps)

lemma mod_shift: "(b + b * m + q) mod b = q mod b" for b m q :: nat
  by (simp add: add.assoc)

lemma emit_digits_eq:
  fixes ds :: "digit list"
  assumes "unat d < 2 ^ a" "a < b" "b \<le> 64"
  defines "t \<equiv> 64 * length ds + a" and "N \<equiv> unat d + 2 ^ a * nval ds"
  shows "\<exists>d'. emit_digits b (mask b) ds d a st =
      (d', t mod b, puts (radix_chars (padded_digits (2 ^ b) (t div b) N)) st)
    \<and> unat d' = N div 2 ^ (b * (t div b)) \<and> unat d' < 2 ^ (t mod b)"
  using assms(1,2) unfolding t_def N_def
proof (induction ds arbitrary: d a st)
  case Nil
  then show ?case by simp
next
  case (Cons e ds)
  have b: "0 < b" using Cons.prems(2) by simp
  let ?a = "64 - (b - a)" and ?d = "drop_bit (b - a) e"
  let ?N = "unat d + 2 ^ a * nval (e # ds)"
  let ?m = "?a div b" and ?e = "drop_bit (b * (?a div b)) ?d"
  have a64: "b * ?m + ?a mod b = ?a" by simp
  have d1: "unat ?d = unat e div 2 ^ (b - a)" by (rule drop_bit_nat)
  have e64: "unat e < 2 ^ 64" by (rule order_less_le_trans [OF unsigned_less]) simp
  have "unat ?d < 2 ^ ?a"
    unfolding d1 using e64 Cons.prems(2) assms(3) by (intro less_mult_imp_div_less) (simp flip: power_add)
  moreover have "(2 :: nat) ^ (?a mod b) * 2 ^ (b * ?m) = 2 ^ ?a" by (simp flip: power_add)
  ultimately have "unat ?e < 2 ^ (?a mod b)"
    unfolding drop_bit_nat [of "b * ?m"] by (intro less_mult_imp_div_less) simp
  moreover have "?a mod b < b" using b by simp
  moreover define S where "S = puts (radix_chars (padded_digits (2 ^ b) ?m (unat ?d)))
      (put_char (radixDigits ! (unat ((d OR push_bit a e) AND mask b))) st)"
  ultimately obtain d' where d': "emit_digits b (mask b) ds ?e (?a mod b) S =
      (d', (64 * length ds + ?a mod b) mod b,
       puts (radix_chars (padded_digits (2 ^ b) ((64 * length ds + ?a mod b) div b) (unat ?e + 2 ^ (?a mod b) * nval ds))) S)"
    "unat d' = (unat ?e + 2 ^ (?a mod b) * nval ds) div 2 ^ (b * ((64 * length ds + ?a mod b) div b))"
    "unat d' < 2 ^ ((64 * length ds + ?a mod b) mod b)"
    using Cons.IH [of ?e "?a mod b" S] by blast
  have N1: "?N = (unat d + 2 ^ a * unat e) + 2 ^ b * (2 ^ ?a * nval ds)"
  proof -
    have "a + 64 = b + ?a" using Cons.prems(2) assms(3) by simp
    then have "(2 :: nat) ^ a * 2 ^ 64 = 2 ^ b * 2 ^ ?a" by (metis power_add)
    then show ?thesis by (simp only: nval.simps distrib_left mult.assoc [symmetric] add.assoc)
  qed
  have Nmod: "unat ((d OR push_bit a e) AND mask b) = ?N mod 2 ^ b"
    unfolding N1 mod_mult_self2 by (rule joined_low_bits [OF Cons.prems assms(3)])
  have Ndiv: "?N div 2 ^ b = unat ?d + 2 ^ ?a * nval ds"
    unfolding N1 d1 joined_carry [OF Cons.prems, symmetric] by simp
  have pow: "2 ^ ?a * nval ds = 2 ^ (b * ?m) * (2 ^ (?a mod b) * nval ds)"
    by (simp only: mult.assoc [symmetric] power_add [symmetric] a64)
  have Ndiv2: "?N div 2 ^ b div 2 ^ (b * ?m) = unat ?e + 2 ^ (?a mod b) * nval ds"
    unfolding Ndiv pow drop_bit_nat by simp
  have pad: "padded_digits (2 ^ b) ?m (?N div 2 ^ b) = padded_digits (2 ^ b) ?m (unat ?d)"
    unfolding Ndiv pow by (rule padded_digits_congr) (simp add: power_mult)
  have t: "64 * length (e # ds) + a = b + b * ?m + (64 * length ds + ?a mod b)"
    using Cons.prems(2) assms(3) a64 by simp
  let ?k = "(64 * length ds + ?a mod b) div b"
  have tk: "(64 * length (e # ds) + a) div b = Suc (?m + ?k)" "(64 * length (e # ds) + a) mod b = (64 * length ds + ?a mod b) mod b"
    unfolding t by (rule div_shift [OF b] mod_shift)+
  have "padded_digits (2 ^ b) (Suc (?m + ?k)) ?N = unat ((d OR push_bit a e) AND mask b) #
      padded_digits (2 ^ b) ?m (unat ?d) @ padded_digits (2 ^ b) ?k (unat ?e + 2 ^ (?a mod b) * nval ds)"
    by (simp only: padded_digits.simps padded_digits_add Nmod pad power_mult [symmetric] Ndiv2)
  moreover have "unat d' = ?N div 2 ^ (b * Suc (?m + ?k))"
    unfolding d'(2) Ndiv2 [symmetric] div_mult2_eq [symmetric] power_add [symmetric] by (simp add: algebra_simps)
  moreover have "emit_digits b (mask b) (e # ds) d a st = emit_digits b (mask b) ds ?e (?a mod b) S"
    unfolding emit_digits.simps Let_def digitBits_def emit_available_eq [OF b] prod.case S_def ..
  ultimately show ?case
    using d'(1,3) unfolding tk by (intro exI [of _ d']) (simp only: list.map map_append puts_simps S_def simp_thms)
qed


text \<open>The length of the result, from the number of bits of the value.\<close>

lemma bit_length:
  assumes "ds \<noteq> []" "last ds \<noteq> 0"
  defines "n \<equiv> length ds * 64 - clz (last ds)"
  shows "2 ^ (n - 1) \<le> nval ds" "nval ds < 2 ^ n" "0 < n"
proof -
  let ?c = "clz (last ds)"
  obtain xs where ds: "ds = xs @ [last ds]" using assms(1) by (metis append_butlast_last_id)
  let ?e = "unat (last ds)"
  note c = clz_bounds [OF assms(2)]
  have u: "2 ^ 63 \<le> ?e * 2 ^ ?c" "?e * 2 ^ ?c < 2 ^ 64"
  proof -
    have "int (2 ^ 63) \<le> int (?e * 2 ^ ?c)" "int (?e * 2 ^ ?c) < int (2 ^ 64)" using c(2,3) by simp_all
    then show "2 ^ 63 \<le> ?e * 2 ^ ?c" "?e * 2 ^ ?c < 2 ^ 64" by (simp_all only: of_nat_le_iff of_nat_less_iff)
  qed
  have split: "(2 :: nat) ^ 63 = 2 ^ (63 - ?c) * 2 ^ ?c" "(2 :: nat) ^ 64 = 2 ^ (64 - ?c) * 2 ^ ?c"
    using c(1) by (simp_all flip: power_add)
  have e: "2 ^ (63 - ?c) \<le> ?e" "?e < 2 ^ (64 - ?c)"
    using u unfolding split by simp_all
  have n: "n = 64 * length xs + (64 - ?c)" "n - 1 = 64 * length xs + (63 - ?c)"
    using arg_cong [OF ds, of length] c(1) unfolding n_def by simp_all
  then show "0 < n" using c(1) by simp
  have v: "nval ds = nval xs + 2 ^ (64 * length xs) * ?e"
    by (subst ds) (simp add: nval_append)
  have xs: "nval xs < 2 ^ (64 * length xs)"
  proof -
    have "int (nval xs) < dbase ^ length xs" unfolding nval_dval by (rule dval_less)
    then have "int (nval xs) < int (2 ^ (64 * length xs))" by (simp add: dbase_power)
    then show ?thesis by (simp only: of_nat_less_iff)
  qed
  have "2 ^ (64 * length xs) * 2 ^ (63 - ?c) \<le> 2 ^ (64 * length xs) * ?e" using e(1) by (intro mult_left_mono) simp_all
  then show "2 ^ (n - 1) \<le> nval ds" unfolding v n(2) power_add by linarith
  have "2 ^ (64 * length xs) * (?e + 1) \<le> 2 ^ (64 * length xs) * 2 ^ (64 - ?c)" using e(2) by (intro mult_left_mono) simp_all
  then show "nval ds < 2 ^ n" unfolding v n(1) power_add using xs by (simp add: distrib_left)
qed

lemma digits_needed:
  assumes "0 < b" "0 < n" "2 ^ (n - 1) \<le> v" "v < 2 ^ n"
  shows "length (base_digits (2 ^ b) v) = (n + b - 1) div b"
proof (rule base_digits_length)
  let ?k = "(n + b - 1) div b"
  show "(2 :: nat) \<le> 2 ^ b" using power_increasing [of 1 b "2 :: nat"] assms(1) by simp
  have "n \<le> b * ?k"
    using mult_div_mod_eq [of b "n + b - 1"] mod_less_divisor [OF assms(1), of "n + b - 1"] by linarith
  then have "(2 :: nat) ^ n \<le> 2 ^ (b * ?k)" by (intro power_increasing) simp_all
  with assms(4) show "v < (2 ^ b) ^ ?k" unfolding power_mult [symmetric] by linarith
  have "b * (?k - 1) \<le> n - 1"
  proof -
    have "b * ?k \<le> n + b - 1" by (rule times_div_less_eq_dividend)
    then show ?thesis unfolding diff_mult_distrib2 using assms(2) by linarith
  qed
  then have "(2 :: nat) ^ (b * (?k - 1)) \<le> 2 ^ (n - 1)" by (intro power_increasing) simp_all
  with assms(3) show "?k = 0 \<or> (2 ^ b) ^ (?k - 1) \<le> v" unfolding power_mult [symmetric] by linarith
qed


text \<open>The reference for \<open>toString\<close>: a minus sign, then the digits, the most significant first.\<close>

definition string_in_radix :: "nat \<Rightarrow> int \<Rightarrow> u8 list" where
  "string_in_radix r v =
     (if v = 0 then [48] else (if v < 0 then [45] else []) @ radix_chars (rev (base_digits r (nat \<bar>v\<bar>))))"

lemma length_radix_chars: "length (radix_chars (base_digits r n)) = length (base_digits r n)"
  by simp

lemma toStringBasePowerOfTwo_correct:
  assumes "canonical x" "bigint_val x \<noteq> 0" "2 \<le> r" "r \<le> 36" "hasOneBitSet (of_nat r)"
  shows "toStringBasePowerOfTwo x r = Inr (string_in_radix r (bigint_val x))"
proof -
  define b where "b = ctz (of_nat r)"
  have "r = 2 ^ b \<and> 0 < b \<and> b \<le> 5"
    using for_each_radix [OF power_radices assms(3,4)] assms(5) unfolding b_def by blast
  then have b: "r = 2 ^ b" "0 < b" "b \<le> 5" by simp_all
  have mask: "(of_nat (r - 1) :: digit) = mask b"
    by (simp add: b(1) mask_eq_exp_minus_1)
  let ?ds = "m_data x"
  have ne: "?ds \<noteq> []" using assms(2) by (cases ?ds) (simp_all add: bigint_val_def split: if_splits)
  have last: "last ?ds \<noteq> 0" using canonicalD(1) [OF assms(1)] ne by (simp add: trimmed_def)
  have msd: "?ds ! (bi_length x - 1) = last ?ds" using ne by (simp add: bi_length_def last_conv_nth)
  have ds: "take (bi_length x - 1) ?ds = butlast ?ds" by (simp add: bi_length_def butlast_conv_take)
  note bits = bit_length [OF ne last]
  define n where "n = length ?ds * 64 - clz (last ?ds)"
  define v where "v = nval ?ds"
  have v: "nat \<bar>bigint_val x\<bar> = v" using canonicalD(4) [OF assms(1)] by (simp add: v_def nval_eq)
  define k where "k = (n + b - 1) div b"
  have len: "length (base_digits r v) = k"
    unfolding b(1) k_def using digits_needed [OF b(2) bits(3,1,2)] by (simp add: v_def n_def)
  define st where "st = (replicate (k + of_bool (m_sign x)) (0 :: u8), int (k + of_bool (m_sign x)) - 1)"
  obtain d' where d': "emit_digits b (mask b) (butlast ?ds) 0 0 st =
      (d', 64 * length (butlast ?ds) mod b, puts (radix_chars (padded_digits (2 ^ b) (64 * length (butlast ?ds) div b) (nval (butlast ?ds)))) st)"
    "unat d' = nval (butlast ?ds) div 2 ^ (b * (64 * length (butlast ?ds) div b))"
    "unat d' < 2 ^ (64 * length (butlast ?ds) mod b)"
    using emit_digits_eq [of 0 0 b "butlast ?ds" st] b by auto
  let ?t = "64 * length (butlast ?ds)"
  let ?a = "?t mod b"
  have ab: "?a < b" "b \<le> 64" using b by simp_all
  define w where "w = unat d' + 2 ^ ?a * unat (last ?ds)"
  have w0: "0 < w" using last by (simp add: w_def unat_gt_0)
  have r2: "2 \<le> (2 :: nat) ^ b" using assms(3) b(1) by simp
  have vw: "v div (2 ^ b) ^ (?t div b) = w"
  proof -
    have "v = nval (butlast ?ds) + 2 ^ ?t * unat (last ?ds)"
      unfolding v_def by (subst append_butlast_last_id [OF ne, symmetric]) (simp only: nval_append nval.simps mult_0_right add_0_right)
    also have "(2 :: nat) ^ ?t = 2 ^ (b * (?t div b)) * 2 ^ ?a"
      by (simp only: power_add [symmetric] mult_div_mod_eq)
    finally have "v = nval (butlast ?ds) + 2 ^ (b * (?t div b)) * (2 ^ ?a * unat (last ?ds))" by (simp only: mult.assoc)
    then show ?thesis unfolding w_def d'(2) power_mult [symmetric] by simp
  qed
  have vmod: "padded_digits (2 ^ b) (?t div b) v = padded_digits (2 ^ b) (?t div b) (nval (butlast ?ds))"
  proof (rule padded_digits_congr)
    have "v = nval (butlast ?ds) + 2 ^ (b * (?t div b)) * (2 ^ ?a * unat (last ?ds))"
      unfolding v_def mult.assoc [symmetric] power_add [symmetric] mult_div_mod_eq
      by (subst append_butlast_last_id [OF ne, symmetric]) (simp only: nval_append nval.simps mult_0_right add_0_right)
    then show "v mod (2 ^ b) ^ (?t div b) = nval (butlast ?ds) mod (2 ^ b) ^ (?t div b)"
      unfolding power_mult [symmetric] by simp
  qed
  have emitted: "base_digits r v = padded_digits (2 ^ b) (?t div b) (nval (butlast ?ds))
      @ w mod 2 ^ b # base_digits (2 ^ b) (unat (drop_bit (b - ?a) (last ?ds)))"
  proof -
    have "base_digits r v = padded_digits (2 ^ b) (?t div b) v @ base_digits (2 ^ b) w"
      unfolding b(1) using base_digits_append [OF r2, of v "?t div b"] w0 unfolding vw by simp
    also have "base_digits (2 ^ b) w = w mod 2 ^ b # base_digits (2 ^ b) (w div 2 ^ b)"
      by (rule base_digits_step [OF w0 r2])
    also have "w div 2 ^ b = unat (drop_bit (b - ?a) (last ?ds))"
      unfolding w_def drop_bit_nat by (rule joined_carry [OF d'(3) ab(1)])
    finally show ?thesis unfolding vmod .
  qed
  have cur: "unat ((d' OR push_bit ?a (last ?ds)) AND mask b) = w mod 2 ^ b"
    unfolding w_def by (rule joined_low_bits [OF d'(3) ab])
  have small: "\<not> maxStringLength < k + of_bool (m_sign x)"
  proof -
    have "n \<le> 64 * maxLength" using canonicalD(2) [OF assms(1)] by (simp add: n_def bi_length_def)
    then have "n \<le> 1048576" by (simp add: maxLength_def maxLengthBits_def digitBits_def)
    moreover have "k \<le> n + b - 1" unfolding k_def by simp
    ultimately have "k + of_bool (m_sign x) \<le> 1048581 + 1" using b(3) by (intro add_mono) auto
    then show ?thesis by (simp add: maxStringLength_def)
  qed
  let ?out = "radix_chars (base_digits r v)"
  have puts: "puts (?out @ (if m_sign x then [45] else [])) st = (rev (?out @ (if m_sign x then [45] else [])), - 1)"
    unfolding st_def using puts_fill [of "?out @ (if m_sign x then [45] else [])" "k + of_bool (m_sign x)" 0 "[]"] len by simp
  have "toStringBasePowerOfTwo x r = Inr (fst (puts (?out @ (if m_sign x then [45] else [])) st))"
    unfolding toStringBasePowerOfTwo_def Let_def b_def [symmetric] mask msd ds
    unfolding digitBits_def bi_length_def n_def [symmetric] k_def [symmetric] if_not_P [OF small] st_def [symmetric]
      d'(1) prod.case cur emit_rest_eq [OF b(2)] emitted
    by simp
  also have "fst (puts (?out @ (if m_sign x then [45] else [])) st) = string_in_radix r (bigint_val x)"
    unfolding puts string_in_radix_def v using assms(2) canonicalD(6) [OF assms(1)] by (simp add: rev_map)
  finally show ?thesis .
qed


section \<open>The other radices\<close>

definition calculateMaximumCharactersRequired :: "nat \<Rightarrow> nat \<Rightarrow> digit \<Rightarrow> bool \<Rightarrow> nat" where
  "calculateMaximumCharactersRequired len radix lastDigit sign =
     (let leadingZeros = clz lastDigit;
          bitLength = len * digitBits - leadingZeros;
          maxBitsPerChar = maxBitsPerCharTable ! radix;
          minBitsPerChar = maxBitsPerChar - 1;
          maximumCharactersRequired = bitLength * bitsPerCharTableMultiplier;
          maximumCharactersRequired = maximumCharactersRequired + (minBitsPerChar - 1);
          maximumCharactersRequired = maximumCharactersRequired div minBitsPerChar
      in maximumCharactersRequired + of_bool sign)"

text \<open>The loop that writes the characters of one chunk, and the final loop on the last digit
  (\<open>do ... while (lastDigit > 0)\<close>; the code asserts \<open>radix >= 2\<close>).\<close>

fun append_chunk :: "nat \<Rightarrow> digit \<Rightarrow> digit \<Rightarrow> u8 list \<Rightarrow> u8 list" where
  "append_chunk 0 radix chunk resultString = resultString"
| "append_chunk (Suc i) radix chunk resultString =
     append_chunk i radix (chunk div radix) (resultString @ [radixDigits ! unat (chunk mod radix)])"

function append_last :: "digit \<Rightarrow> digit \<Rightarrow> u8 list \<Rightarrow> u8 list" where
  "append_last radix lastDigit resultString =
     (let resultString = resultString @ [radixDigits ! unat (lastDigit mod radix)];
          lastDigit' = lastDigit div radix
      in if 0 < lastDigit' \<and> 2 \<le> radix then append_last radix lastDigit' resultString else resultString)"
  by pat_completeness auto
termination
proof (relation "measure (\<lambda>(r, d, s). unat d)", goal_cases)
  case (2 r d s x y)
  then have "2 \<le> unat r" by (simp add: word_le_nat_alt)
  moreover have "0 < unat d" using 2 by (auto simp: word_less_nat_alt unat_div intro: gr0I)
  ultimately show ?case using 2 by (simp add: unat_div)
qed simp

declare append_last.simps [simp del]

fun strip_leading_zeros :: "u8 list \<Rightarrow> nat \<Rightarrow> nat" where
  "strip_leading_zeros resultString n =
     (if 1 < n \<and> resultString ! (n - 1) = 48 then strip_leading_zeros resultString (n - 1) else n)"

declare strip_leading_zeros.simps [simp del]

text \<open>The loop \<open>do ... while (nonZeroDigit > 0)\<close>; the first division allocates \<open>rest\<close>, the others are in place.\<close>

partial_function (option) chunk_loop ::
    "digit_div \<Rightarrow> digit \<Rightarrow> nat \<Rightarrow> digit \<Rightarrow> js_bigint \<Rightarrow> js_bigint option \<Rightarrow> nat \<Rightarrow> u8 list \<Rightarrow> (js_bigint \<times> u8 list) throws option" where
  "chunk_loop dv radix chunkChars chunkDivisor dividend rest nonZeroDigit resultString =
     (case absoluteDivWithDigitDivisor dv dividend chunkDivisor (Some rest) of
        Inl e \<Rightarrow> Some (Inl e)
      | Inr r \<Rightarrow>
          (let rest = the (the (fst r));
               resultString = append_chunk chunkChars radix (snd r) resultString;
               nonZeroDigit = (if m_data rest ! nonZeroDigit = 0 then nonZeroDigit - 1 else nonZeroDigit)
           in if 0 < nonZeroDigit
              then chunk_loop dv radix chunkChars chunkDivisor rest (Some rest) nonZeroDigit resultString
              else Some (Inr (rest, resultString))))"

text \<open>What follows the loop: the characters of the last digit, without leading zeros, the sign, and the reversal.\<close>

definition finish_string :: "digit \<Rightarrow> bool \<Rightarrow> digit \<Rightarrow> u8 list \<Rightarrow> u8 list" where
  "finish_string radix sign lastDigit resultString =
     (let resultString = append_last radix lastDigit resultString;
          newSizeNoLeadingZeroes = strip_leading_zeros resultString (length resultString);
          resultString = take newSizeNoLeadingZeroes resultString;
          resultString = (if sign then resultString @ [45] else resultString)
      in rev resultString)"

definition toStringGeneric :: "digit_div \<Rightarrow> js_bigint \<Rightarrow> nat \<Rightarrow> u8 list throws option" where
  "toStringGeneric dv x radix =
     (let len = bi_length x;
          sign = m_sign x;
          maxBitsPerChar = maxBitsPerCharTable ! radix;
          maximumCharactersRequired = calculateMaximumCharactersRequired len radix (m_data x ! (len - 1)) sign
      in if maxStringLength < maximumCharactersRequired then Some (Inl OutOfMemoryError)
         else if len = 1 then Some (Inr (finish_string (of_nat radix) sign (m_data x ! 0) []))
         else
           let chunkChars = digitBits * bitsPerCharTableMultiplier div maxBitsPerChar;
               chunkDivisor = digitPow (of_nat radix) (of_nat chunkChars)
           in case chunk_loop dv (of_nat radix) chunkChars chunkDivisor x None (len - 1) [] of
                None \<Rightarrow> None
              | Some (Inl e) \<Rightarrow> Some (Inl e)
              | Some (Inr (rest, resultString)) \<Rightarrow>
                  Some (Inr (finish_string (of_nat radix) sign (m_data rest ! 0) resultString)))"

definition toString :: "digit_div \<Rightarrow> js_bigint \<Rightarrow> nat \<Rightarrow> u8 list throws option" where
  "toString dv x radix =
     (if isZero x then Some (Inr [48])
      else if hasOneBitSet (of_nat radix) then Some (toStringBasePowerOfTwo x radix)
      else toStringGeneric dv x radix)"

lemma append_chunk_eq:
  assumes "unat radix = r"
  shows "append_chunk k radix c s = s @ radix_chars (padded_digits r k (unat c))"
  by (induction k arbitrary: c s) (simp_all add: assms unat_mod unat_div)

lemma append_last_eq:
  assumes "unat radix = r" "2 \<le> r" "c \<noteq> 0"
  shows "append_last radix c s = s @ radix_chars (base_digits r (unat c))"
  using assms
proof (induction radix c s rule: append_last.induct)
  case (1 radix c s)
  have r: "2 \<le> radix" using 1(2,3) by (simp add: word_le_nat_alt)
  have step: "base_digits r (unat c) = unat (c mod radix) # base_digits r (unat (c div radix))"
    using base_digits_step [OF _ 1(3), of "unat c"] 1(2,4) by (simp add: unat_mod unat_div unat_gt_0)
  show ?case
  proof (cases "c div radix = 0")
    case True
    then show ?thesis unfolding step by (simp add: append_last.simps [of radix c])
  next
    case False
    then have "0 < c div radix" by (simp add: word_gt_0)
    with 1(1) [OF refl refl _ 1(2,3) False] r show ?thesis
      unfolding step by (simp add: append_last.simps [of radix c] Let_def)
  qed
qed

lemma base_digits_last: "2 \<le> r \<Longrightarrow> 0 < n \<Longrightarrow> base_digits r n \<noteq> [] \<and> last (base_digits r n) \<noteq> 0"
proof (induction r n rule: base_digits.induct)
  case (1 r n)
  show ?case
  proof (cases "n div r = 0")
    case True
    then have "n mod r = n" by (metis add_0 mult_0_right mult_div_mod_eq)
    with True 1(2,3) show ?thesis by (simp add: base_digits_step)
  next
    case False
    with 1 show ?thesis by (simp add: base_digits_step)
  qed
qed

lemma radixDigits_zero: "c < 36 \<Longrightarrow> radixDigits ! c = 48 \<longleftrightarrow> c = 0"
proof -
  have "list_all (\<lambda>c. radixDigits ! c = 48 \<longleftrightarrow> c = 0) [0..<36]" by code_simp
  then show "c < 36 \<Longrightarrow> radixDigits ! c = 48 \<longleftrightarrow> c = 0" by (simp only: list_all_iff set_upt) simp
qed

lemma strip_nothing:
  assumes "2 \<le> r" "r \<le> 36" "0 < n"
  shows "strip_leading_zeros (radix_chars (base_digits r n)) (length (base_digits r n)) = length (base_digits r n)"
proof -
  let ?c = "last (base_digits r n)"
  note l = base_digits_last [OF assms(1,3)]
  have "?c < 36" using base_digits_lt [OF assms(1) last_in_set [OF conjunct1 [OF l]]] assms(2) by linarith
  then have "radix_chars (base_digits r n) ! (length (base_digits r n) - 1) \<noteq> 48"
    using conjunct1 [OF l] conjunct2 [OF l] radixDigits_zero by (simp add: last_conv_nth)
  then show ?thesis by (subst strip_leading_zeros.simps) simp
qed


context digit_divider
begin

text \<open>One round: the division, in a fresh cell or in place.\<close>

lemma divide_chunk:
  assumes "v \<noteq> 0" "v \<noteq> 1" "bi_length x \<le> maxLength" "q0 = None \<or> q0 = Some x"
  obtains q r where "absoluteDivWithDigitDivisor dv x v (Some q0) = Inr (Some (Some q), r)"
    "nval (m_data q) = nval (m_data x) div unat v" "unat r = nval (m_data x) mod unat v" "bi_length q = bi_length x"
proof -
  obtain qs r where l: "absoluteDivWithDigitDivisor_loop dv (rev (m_data x)) v 0 = (qs, r)" by fastforce
  have "uint (0 :: digit) < uint v" using assms(1) by (simp add: uint_pos)
  from divide_by_digit [OF l this]
  have d: "dval (m_data x) = dval (rev qs) * uint v + uint r" "uint r < uint v" and len: "length qs = bi_length x"
    by (simp_all add: bi_length_def)
  have "int (nval (m_data x)) = int (nval (rev qs) * unat v + unat r)"
    using d(1) by (simp add: nval_dval)
  then have n: "nval (m_data x) = nval (rev qs) * unat v + unat r" by (simp only: of_nat_eq_iff)
  have lt: "unat r < unat v" using d(2) by (simp add: word_less_nat_alt [symmetric] word_less_alt)
  have qr: "nval (rev qs) = nval (m_data x) div unat v" "unat r = nval (m_data x) mod unat v"
    unfolding n using lt by simp_all
  obtain cell where cell: "(case q0 of None \<Rightarrow> createWithLength (bi_length x) | Some cell \<Rightarrow> Inr cell) = Inr cell"
    "bi_length cell = bi_length x"
    using assms(3,4) createWithLength_Inr [of "bi_length x"] by (cases q0) (auto simp: bi_length_def)
  let ?q = "cell\<lparr>m_data := rev qs\<rparr>"
  show ?thesis
  proof (rule that)
    show "absoluteDivWithDigitDivisor dv x v (Some q0) = Inr (Some (Some ?q), r)"
      using assms(2) cell l by (simp add: absoluteDivWithDigitDivisor_def Let_def) (simp add: bi_length_def)
  qed (use qr len in \<open>simp_all add: bi_length_def\<close>)
qed

lemma nval_digits:
  assumes "k < length ds"
  shows "nval ds < 2 ^ (64 * Suc k) \<Longrightarrow> ds ! k = 0 \<Longrightarrow> nval ds < 2 ^ (64 * k)"
    "2 ^ (64 * k) \<le> nval ds \<Longrightarrow> nval ds < 2 ^ (64 * Suc k) \<Longrightarrow> ds ! k \<noteq> 0"
proof -
  have "nval ds = nval (take k ds) + 2 ^ (64 * k) * nval (drop k ds)"
    using nval_append [of "take k ds" "drop k ds"] assms by simp
  also have "drop k ds = ds ! k # drop (Suc k) ds" using assms by (rule Cons_nth_drop_Suc [symmetric])
  finally have v: "nval ds = nval (take k ds) + 2 ^ (64 * k) * (unat (ds ! k) + 2 ^ 64 * nval (drop (Suc k) ds))" by simp
  have "int (nval (take k ds)) < dbase ^ length (take k ds)" unfolding nval_dval by (rule dval_less)
  then have "int (nval (take k ds)) < int (2 ^ (64 * k))" using assms by (simp add: dbase_power)
  then have low: "nval (take k ds) < 2 ^ (64 * k)" by (simp only: of_nat_less_iff)
  have high: "nval ds < 2 ^ (64 * k)" if "nval ds < 2 ^ (64 * Suc k)" "ds ! k = 0"
  proof (cases "nval (drop (Suc k) ds)")
    case 0
    with v low that(2) show ?thesis by simp
  next
    case (Suc m)
    have p: "(2 :: nat) ^ (64 * Suc k) = 2 ^ (64 * k) * 2 ^ 64"
      by (simp add: power_add)
    have "(2 :: nat) ^ (64 * k) * 2 ^ 64 * 1 \<le> 2 ^ (64 * k) * 2 ^ 64 * nval (drop (Suc k) ds)"
      unfolding Suc by (intro mult_left_mono) simp_all
    also have "\<dots> \<le> nval ds" unfolding v that(2) by simp
    finally show ?thesis using that(1) unfolding p by simp
  qed
  then show "nval ds < 2 ^ (64 * Suc k) \<Longrightarrow> ds ! k = 0 \<Longrightarrow> nval ds < 2 ^ (64 * k)" .
  show "ds ! k \<noteq> 0" if "2 ^ (64 * k) \<le> nval ds" "nval ds < 2 ^ (64 * Suc k)"
    using high that by auto
qed

lemma chunk_loop_correct:
  assumes "unat radix = r" "2 \<le> r" "unat cd = r ^ cc" "0 < cc"
    and "0 < nz" "nz < bi_length x" "bi_length x \<le> maxLength" "q0 = None \<or> q0 = Some x"
    and "2 ^ (64 * nz) \<le> nval (m_data x)" "nval (m_data x) < 2 ^ (64 * Suc nz)"
  shows "\<exists>rest E. chunk_loop dv radix cc cd x q0 nz s = Some (Inr (rest, s @ radix_chars E))
    \<and> m_data rest ! 0 \<noteq> 0 \<and> base_digits r (nval (m_data x)) = E @ base_digits r (unat (m_data rest ! 0))"
  using assms(5-10)
proof (induction "nval (m_data x)" arbitrary: x q0 nz s rule: less_induct)
  case less
  let ?N = "nval (m_data x)"
  have cd: "2 \<le> unat cd" "cd \<noteq> 0" "cd \<noteq> 1"
  proof -
    have "r ^ 1 \<le> r ^ cc" using assms(2,4) by (intro power_increasing) simp_all
    then show "2 \<le> unat cd" using assms(2,3) by simp
    then show "cd \<noteq> 0" "cd \<noteq> 1" by auto
  qed
  obtain rest c where q: "absoluteDivWithDigitDivisor dv x cd (Some q0) = Inr (Some (Some rest), c)"
    "nval (m_data rest) = ?N div unat cd" "unat c = ?N mod unat cd" "bi_length rest = bi_length x"
    by (rule divide_chunk [OF cd(2,3) less.prems(3,4)])
  let ?s = "append_chunk cc radix c s"
  let ?nz = "if m_data rest ! nz = 0 then nz - 1 else nz"
  have s: "?s = s @ radix_chars (padded_digits r cc ?N)"
    using append_chunk_eq [OF assms(1)] padded_digits_mod [of r cc ?N] by (simp add: q(3) assms(3))
  have pos: "0 < ?N div r ^ cc" and big: "2 ^ (64 * (nz - 1)) \<le> nval (m_data rest)"
  proof -
    have "unat cd < 2 ^ 64" by (rule order_less_le_trans [OF unsigned_less]) simp
    then have le: "unat cd \<le> 2 ^ 64" by simp
    have "(2 :: nat) ^ (64 * (nz - 1)) * unat cd \<le> 2 ^ (64 * (nz - 1)) * 2 ^ 64" using le by (intro mult_left_mono) simp_all
    also have "\<dots> = 2 ^ (64 * nz)"
    proof -
      have "64 * (nz - 1) + 64 = 64 * nz" using less.prems(1) by simp
      then show ?thesis by (simp only: power_add [symmetric])
    qed
    also have "\<dots> \<le> ?N" by (rule less.prems(5))
    finally show "2 ^ (64 * (nz - 1)) \<le> nval (m_data rest)"
      unfolding q(2) using cd(1) by (simp add: less_eq_div_iff_mult_less_eq)
    then show "0 < ?N div r ^ cc" unfolding q(2) assms(3) [symmetric]
      by (rule order_less_le_trans [rotated]) simp
  qed
  have split: "base_digits r ?N = padded_digits r cc ?N @ base_digits r (nval (m_data rest))"
    unfolding q(2) assms(3) by (rule base_digits_append [OF assms(2) pos])
  have smaller: "nval (m_data rest) < ?N"
    unfolding q(2) using cd(1) pos by (intro div_less_dividend) (auto intro: gr0I)
  have nzl: "nz < length (m_data rest)" using less.prems(2) q(4) by (simp add: bi_length_def)
  have nz: "?nz < bi_length rest" "2 ^ (64 * ?nz) \<le> nval (m_data rest)" "nval (m_data rest) < 2 ^ (64 * Suc ?nz)"
  proof -
    show "?nz < bi_length rest" using less.prems(2) q(4) by (cases "m_data rest ! nz = 0") simp_all
    have lt: "nval (m_data rest) < 2 ^ (64 * Suc nz)" using smaller less.prems(6) by linarith
    show "nval (m_data rest) < 2 ^ (64 * Suc ?nz)"
      using nval_digits(1) [OF nzl lt] lt less.prems(1) by (cases "m_data rest ! nz = 0") simp_all
    show "2 ^ (64 * ?nz) \<le> nval (m_data rest)"
    proof (cases "m_data rest ! nz = 0")
      case True
      with big show ?thesis by simp
    next
      case False
      have v: "nval (m_data rest) = nval (take nz (m_data rest)) + 2 ^ (64 * nz) * nval (drop nz (m_data rest))"
        using nval_append [of "take nz (m_data rest)" "drop nz (m_data rest)"] nzl by simp
      have "drop nz (m_data rest) = m_data rest ! nz # drop (Suc nz) (m_data rest)"
        using nzl by (rule Cons_nth_drop_Suc [symmetric])
      then have "unat (m_data rest ! nz) \<le> nval (drop nz (m_data rest))" by simp
      moreover have "1 \<le> unat (m_data rest ! nz)" using False by (simp add: unat_gt_0 Suc_le_eq)
      ultimately have "1 \<le> nval (drop nz (m_data rest))" by linarith
      then have "2 ^ (64 * nz) * 1 \<le> 2 ^ (64 * nz) * nval (drop nz (m_data rest))" by (intro mult_left_mono) simp_all
      then have "2 ^ (64 * nz) \<le> nval (m_data rest)" unfolding v by linarith
      with False show ?thesis by simp
    qed
  qed
  have step: "chunk_loop dv radix cc cd x q0 nz s =
      (if 0 < ?nz then chunk_loop dv radix cc cd rest (Some rest) ?nz ?s else Some (Inr (rest, ?s)))"
    by (subst chunk_loop.simps) (simp add: q(1) Let_def)
  show ?case
  proof (cases "0 < ?nz")
    case True
    have "bi_length rest \<le> maxLength" using less.prems(3) q(4) by simp
    from less.hyps [OF smaller True nz(1) this _ nz(2,3), of "Some rest" ?s]
    obtain rest' E where "chunk_loop dv radix cc cd rest (Some rest) ?nz ?s = Some (Inr (rest', ?s @ radix_chars E))"
      "m_data rest' ! 0 \<noteq> 0" "base_digits r (nval (m_data rest)) = E @ base_digits r (unat (m_data rest' ! 0))"
      by blast
    then show ?thesis
      unfolding step if_P [OF True] split s
      by (intro exI [of _ rest'] exI [of _ "padded_digits r cc ?N @ E"]) simp
  next
    case False
    then have nz0: "?nz = 0" by simp
    have l: "0 < length (m_data rest)" using nzl by linarith
    have "m_data rest ! 0 \<noteq> 0"
      using nval_digits(2) [OF l] nz(2,3) unfolding nz0 by simp
    moreover have "nval (m_data rest) = unat (m_data rest ! 0)"
    proof -
      obtain d ds where ds: "m_data rest = d # ds" using l by (cases "m_data rest") simp_all
      have "nval (m_data rest) < 2 ^ 64" using nz(3) unfolding nz0 by simp
      then have "nval ds = 0" by (cases "nval ds") (simp_all add: ds)
      then show ?thesis by (simp add: ds)
    qed
    ultimately show ?thesis
      unfolding step if_not_P [OF False] split s
      by (intro exI [of _ rest] exI [of _ "padded_digits r cc ?N"]) simp
  qed
qed

lemma toStringGeneric_correct:
  assumes "canonical x" "bigint_val x \<noteq> 0" "2 \<le> r" "r \<le> 36" "\<not> hasOneBitSet (of_nat r)"
  shows "toStringGeneric dv x r = Some (Inr (string_in_radix r (bigint_val x)))"
proof -
  let ?ds = "m_data x" and ?m = "maxBitsPerCharTable ! r"
  have ne: "?ds \<noteq> []" using assms(2) by (cases ?ds) (simp_all add: bigint_val_def split: if_splits)
  then have len: "bi_length x \<noteq> 0" by (simp add: bi_length_def)
  have last: "last ?ds \<noteq> 0" using canonicalD(1) [OF assms(1)] ne by (simp add: trimmed_def)
  have r64: "unat (of_nat r :: digit) = r" using assms(4) by (simp add: unat_of_nat)
  have v: "nat \<bar>bigint_val x\<bar> = nval ?ds" using canonicalD(4) [OF assms(1)] by (simp add: nval_eq)
  have m: "2 \<le> ?m" "?m \<le> 166" using for_each_radix [OF table_bounds assms(3,4)] by simp_all
  have small: "\<not> maxStringLength < calculateMaximumCharactersRequired (bi_length x) r (?ds ! (bi_length x - 1)) (m_sign x)"
  proof -
    let ?b = "(bi_length x * 64 - clz (?ds ! (bi_length x - 1))) * 32 + (?m - 1 - 1)"
    have "bi_length x \<le> 16384" using canonicalD(2) [OF assms(1)] by (simp add: maxLength_def maxLengthBits_def digitBits_def)
    then have b: "?b \<le> 16384 * 64 * 32 + 166" using m by (intro add_mono mult_mono) auto
    have "?b div (?m - 1) \<le> ?b" by (rule div_le_dividend)
    then have "?b div (?m - 1) \<le> 16384 * 64 * 32 + 166" using b by (rule order_trans)
    moreover have "(of_bool (m_sign x) :: nat) \<le> 1" by simp
    ultimately have "?b div (?m - 1) + of_bool (m_sign x) \<le> (16384 * 64 * 32 + 166) + 1" by (rule add_mono)
    then have "calculateMaximumCharactersRequired (bi_length x) r (?ds ! (bi_length x - 1)) (m_sign x) \<le> 16384 * 64 * 32 + 167"
      unfolding calculateMaximumCharactersRequired_def Let_def digitBits_def bitsPerCharTableMultiplier_def bitsPerCharTableShift_def
      by (simp add: mult.commute)
    then show ?thesis by (simp add: maxStringLength_def)
  qed
  have finish: "finish_string (of_nat r) (m_sign x) d (radix_chars E) = string_in_radix r (bigint_val x)"
    if "d \<noteq> 0" "base_digits r (nval ?ds) = E @ base_digits r (unat d)" for d E
  proof -
    have a: "append_last (of_nat r) d (radix_chars E) = radix_chars (base_digits r (nval ?ds))"
      using append_last_eq [OF r64 assms(3) that(1)] that(2) by simp
    have pos: "0 < nval ?ds" using v assms(2) by linarith
    show ?thesis
      unfolding finish_string_def a Let_def length_radix_chars strip_nothing [OF assms(3,4) pos]
      using assms(2) canonicalD(6) [OF assms(1)] by (simp add: string_in_radix_def v rev_map)
  qed
  show ?thesis
  proof (cases "bi_length x = 1")
    case True
    then obtain d where d: "?ds = [d]" by (auto simp: bi_length_def length_Suc_conv)
    have "d \<noteq> 0" using last d by simp
    from finish [OF this, of "[]"] d show ?thesis
      unfolding toStringGeneric_def Let_def if_not_P [OF small] if_P [OF True] by simp
  next
    case False
    let ?cc = "2048 div ?m"
    have "r \<in> set [2, 4, 8, 16, 32] \<or> r ^ ?cc < 2 ^ 64 \<and> 0 < ?cc"
      using for_each_radix [OF chunk_bounds assms(3,4)] .
    then have cc: "r ^ ?cc < 2 ^ 64" "0 < ?cc"
      using for_each_radix [OF one_bit_radices assms(3,4)] assms(5) by blast+
    have cc64: "unat (of_nat ?cc :: digit) = ?cc"
    proof -
      have "?cc < 2 ^ 64" by (rule le_less_trans [OF div_le_dividend]) simp
      then show ?thesis by (simp add: unat_of_nat)
    qed
    have cd: "unat (digitPow (of_nat r) (of_nat ?cc)) = r ^ ?cc"
      unfolding digitPow_eq cc64 of_nat_power [symmetric] using cc(1) by (simp only: unat_of_nat len_of_numeral_defs) simp
    have nz: "0 < bi_length x - 1" "bi_length x - 1 < bi_length x" using len False by simp_all
    have n: "length ?ds = Suc (bi_length x - 1)" using nz by (simp add: bi_length_def)
    have bounds: "2 ^ (64 * (bi_length x - 1)) \<le> nval ?ds" "nval ?ds < 2 ^ (64 * Suc (bi_length x - 1))"
    proof -
      have "dbase ^ (bi_length x - 1) \<le> \<bar>bigint_val x\<bar>" by (rule canonical_abs_ge [OF assms(1,2)])
      then have "int (2 ^ (64 * (bi_length x - 1))) \<le> int (nval ?ds)"
        by (simp add: dbase_power nval_dval canonicalD(4) [OF assms(1)])
      then show "2 ^ (64 * (bi_length x - 1)) \<le> nval ?ds" by (simp only: of_nat_le_iff)
      have "dval ?ds < dbase ^ Suc (bi_length x - 1)" using dval_less [of ?ds] n by simp
      then have "int (nval ?ds) < int (2 ^ (64 * Suc (bi_length x - 1)))" by (simp only: dbase_power nval_dval of_nat_power of_nat_numeral)
      then show "nval ?ds < 2 ^ (64 * Suc (bi_length x - 1))" by (simp only: of_nat_less_iff)
    qed
    obtain rest E where loop: "chunk_loop dv (of_nat r) ?cc (digitPow (of_nat r) (of_nat ?cc)) x None (bi_length x - 1) []
        = Some (Inr (rest, [] @ radix_chars E))"
      "m_data rest ! 0 \<noteq> 0" "base_digits r (nval ?ds) = E @ base_digits r (unat (m_data rest ! 0))"
      using chunk_loop_correct [OF r64 assms(3) cd cc(2) nz canonicalD(2) [OF assms(1)] _ bounds] by blast
    have c2048: "digitBits * bitsPerCharTableMultiplier = 2048"
      by (simp add: digitBits_def bitsPerCharTableMultiplier_def bitsPerCharTableShift_def)
    show ?thesis
      unfolding toStringGeneric_def Let_def if_not_P [OF small] if_not_P [OF False] c2048 loop(1)
      using finish [OF loop(2,3)] by simp
  qed
qed

lemma toString_correct:
  assumes "canonical x" "2 \<le> r" "r \<le> 36"
  shows "toString dv x r = Some (Inr (string_in_radix r (bigint_val x)))"
proof (cases "bigint_val x = 0")
  case True
  then show ?thesis using canonicalD(5) [OF assms(1)] by (simp add: toString_def string_in_radix_def)
next
  case False
  then have nz: "\<not> isZero x" using canonicalD(5) [OF assms(1)] by simp
  show ?thesis
  proof (cases "hasOneBitSet (of_nat r)")
    case True
    with toStringBasePowerOfTwo_correct [OF assms(1) False assms(2,3) True] nz show ?thesis by (simp add: toString_def)
  next
    case one: False
    with toStringGeneric_correct [OF assms(1) False assms(2,3) one] nz show ?thesis by (simp add: toString_def)
  qed
qed

end

end
