(* ===== verification/BigIntParse.thy ===== *)
theory BigIntParse
  imports BigIntToString
begin

text \<open>
  Parsing of big integers (the two \<open>JSBigInt::parseInt\<close>, \<open>stringToBigInt\<close> and \<open>allocateFor\<close> of JSBigInt.cpp, with the
  white space of ParseInt.h and Lexer.h). A string is the list of its code units from the current index on. The loop
  takes chunks of characters whose value fits an \<open>int32_t\<close>, and multiplies and adds them into a cell whose size is
  estimated from the number of characters. \<open>parseInt_correct\<close> compares it with \<open>string_integer\<close>, the reference.
\<close>


section \<open>White space\<close>

text \<open>\<open>isStrWhiteSpace\<close> of ParseInt.h with \<open>isWhiteSpace\<close> and \<open>isLineTerminator\<close> of Lexer.h; whether a character beyond
  Latin-1 is a space separator is decided by ICU, the parameter \<open>space_separator\<close>.\<close>

definition isWhiteSpace :: "(u16 \<Rightarrow> bool) \<Rightarrow> u16 \<Rightarrow> bool" where
  "isWhiteSpace space_separator ch =
     (if ch \<le> 0xFF then ch = 0x20 \<or> ch = 0x09 \<or> ch = 0xB \<or> ch = 0xC \<or> ch = 0xA0
      else space_separator ch \<or> ch = 0xFEFF)"

definition isLineTerminator :: "u16 \<Rightarrow> bool" where
  "isLineTerminator ch = (ch = 0x0D \<or> ch = 0x0A \<or> ch AND NOT 1 = 0x2028)"

definition isStrWhiteSpace :: "(u16 \<Rightarrow> bool) \<Rightarrow> u16 \<Rightarrow> bool" where
  "isStrWhiteSpace space_separator c = (isWhiteSpace space_separator c \<or> isLineTerminator c)"

definition isASCIIAlphaCaselessEqual :: "u16 \<Rightarrow> u16 \<Rightarrow> bool" where
  "isASCIIAlphaCaselessEqual inputCharacter expectedASCIILowercaseLetter =
     (inputCharacter OR 0x20 = expectedASCIILowercaseLetter)"

section \<open>Parsing\<close>

datatype ErrorParseMode = ThrowExceptions | IgnoreExceptions
datatype ParseIntMode = DisallowEmptyString | AllowEmptyString
datatype ParseIntSign = ParseUnsigned | ParseSigned

text \<open>\<open>Inr None\<close> is the empty \<open>JSValue()\<close> that is returned without an exception.\<close>

definition parse_failure :: "ErrorParseMode \<Rightarrow> js_bigint option throws" where
  "parse_failure errorParseMode = (if errorParseMode = ThrowExceptions then Inl SyntaxError else Inr None)"

definition allocateFor :: "nat \<Rightarrow> nat \<Rightarrow> js_bigint throws" where
  "allocateFor radix charcount =
     (let bitsPerChar = maxBitsPerCharTable ! radix;
          chars = charcount;
          roundup = bitsPerCharTableMultiplier - 1
      in if chars \<le> (2 ^ 64 - 1 - roundup) div bitsPerChar
         then
           let bitsMin = bitsPerChar * chars;
               bitsMin = drop_bit bitsPerCharTableShift (bitsMin + roundup)
           in if bitsMin \<le> 0x7FFFFFFF
              then
                let len = (bitsMin + digitBits - 1) div digitBits
                in if len \<le> maxLength then createWithLength len else Inl OutOfMemoryError
              else Inl OutOfMemoryError
         else Inl OutOfMemoryError)"

text \<open>The largest number of characters of a chunk, with \<open>radix ** limit\<close> below the \<open>int32_t\<close> maximum.\<close>

definition lengthLimitForBigInt32 :: "nat \<Rightarrow> nat" where
  "lengthLimitForBigInt32 radix =
     (if radix = 2 then 30 else if radix = 8 then 10 else if radix = 10 then 9 else if radix = 16 then 7 else 1)"

text \<open>\<open>Checked<uint64_t, CrashOnOverflow>\<close>: \<open>None\<close> is the crash.\<close>

definition checked_mul :: "u64 \<Rightarrow> u64 \<Rightarrow> u64 option" where
  "checked_mul a b = (if uint a * uint b < 2 ^ 64 then Some (a * b) else None)"

definition checked_add :: "u64 \<Rightarrow> u64 \<Rightarrow> u64 option" where
  "checked_add a b = (if uint a + uint b < 2 ^ 64 then Some (a + b) else None)"

datatype chunk_result = Chunk "u16 list" u64 u64 | InvalidCharacter | CheckedOverflow

definition char_value :: "nat \<Rightarrow> u16 \<Rightarrow> u64 option" where
  "char_value radix c =
     (let limit0 = 48 + (if radix < 10 then radix else 10);
          limita = 97 + radix - 10;
          limitA = 65 + radix - 10
      in if 48 \<le> unat c \<and> unat c < limit0 then Some (ucast (c - 48))
         else if 97 \<le> unat c \<and> unat c < limita then Some (ucast (c - 97 + 10))
         else if 65 \<le> unat c \<and> unat c < limitA then Some (ucast (c - 65 + 10))
         else None)"

fun parse_chunk :: "nat \<Rightarrow> nat \<Rightarrow> u16 list \<Rightarrow> u64 \<Rightarrow> u64 \<Rightarrow> chunk_result" where
  "parse_chunk 0 radix data digit multiplier = Chunk data digit multiplier"
| "parse_chunk (Suc i) radix [] digit multiplier = Chunk [] digit multiplier"
| "parse_chunk (Suc i) radix (c # data) digit multiplier =
     (case checked_mul digit (of_nat radix) of
        None \<Rightarrow> CheckedOverflow
      | Some digit \<Rightarrow>
          case checked_mul multiplier (of_nat radix) of
            None \<Rightarrow> CheckedOverflow
          | Some multiplier \<Rightarrow>
              case char_value radix c of
                None \<Rightarrow> InvalidCharacter
              | Some v \<Rightarrow>
                  case checked_add digit v of
                    None \<Rightarrow> CheckedOverflow
                  | Some digit \<Rightarrow> parse_chunk i radix data digit multiplier)"

lemma parse_chunk_length: "parse_chunk n radix cs d m = Chunk cs' d' m' \<Longrightarrow> length cs' \<le> length cs"
  by (induction n radix cs d m rule: parse_chunk.induct) (auto split: option.splits intro: le_SucI)

lemma parse_chunk_shorter:
  "parse_chunk n radix cs d m = Chunk cs' d' m' \<Longrightarrow> 0 < n \<Longrightarrow> cs \<noteq> [] \<Longrightarrow> length cs' < length cs"
  by (cases n; cases cs) (auto split: option.splits dest: parse_chunk_length)

lemma lengthLimit_pos: "0 < lengthLimitForBigInt32 radix"
  by (simp add: lengthLimitForBigInt32_def)

text \<open>The loop \<open>while (p < length)\<close>, entered with at least one character left. The outer option is the crash of a
  checked operation.\<close>

function parse_loop ::
    "ErrorParseMode \<Rightarrow> ParseIntSign \<Rightarrow> nat \<Rightarrow> nat \<Rightarrow> u16 list \<Rightarrow> js_bigint option \<Rightarrow> js_bigint option throws option" where
  "parse_loop mode sign radix initialLength data heapResult =
     (case parse_chunk (lengthLimitForBigInt32 radix) radix data 0 1 of
        CheckedOverflow \<Rightarrow> None
      | InvalidCharacter \<Rightarrow> Some (parse_failure mode)
      | Chunk data' digit multiplier \<Rightarrow>
          let maybeResult = (if sign = ParseSigned then digit * - 1 else digit)
          in if heapResult = None \<and> data' = [] \<and> scast (ucast maybeResult :: 32 word) = maybeResult
             then Some (andThen (createFrom_int32 (ucast maybeResult)) (\<lambda>r. Inr (Some r)))
             else
               case (case heapResult of None \<Rightarrow> allocateFor radix initialLength | Some h \<Rightarrow> Inr h) of
                 Inl e \<Rightarrow> Some (Inl e)
               | Inr h \<Rightarrow>
                   let h = inplaceMultiplyAdd h multiplier digit
                   in if data' = []
                      then Some (andThen (rightTrim (h\<lparr>m_sign := (sign = ParseSigned)\<rparr>)) (\<lambda>r. Inr (Some r)))
                      else parse_loop mode sign radix initialLength data' (Some h))"
  by pat_completeness auto
termination
proof (relation "measure (\<lambda>(m, s, r, n, d, h). length d)", goal_cases)
  case (2 mode sign radix n cs h cs' d m)
  have "cs \<noteq> []" using 2 parse_chunk_length [of _ radix cs 0 1 cs' d m] by auto
  with 2 show ?case by (auto dest: parse_chunk_shorter intro: lengthLimit_pos)
qed simp

declare parse_loop.simps [simp del]

definition parseInt_from ::
    "(u16 \<Rightarrow> bool) \<Rightarrow> u16 list \<Rightarrow> nat \<Rightarrow> ErrorParseMode \<Rightarrow> ParseIntSign \<Rightarrow> ParseIntMode \<Rightarrow> js_bigint option throws option" where
  "parseInt_from space_separator data radix errorParseMode sign parseMode =
     (if parseMode \<noteq> AllowEmptyString \<and> data = [] then Some (parse_failure errorParseMode)
      else
        let data = dropWhile (\<lambda>c. c = 48) data;
            data = rev (dropWhile (isStrWhiteSpace space_separator) (rev data))
        in if data = [] then Some (andThen createZero (\<lambda>r. Inr (Some r)))
           else parse_loop errorParseMode sign radix (length data) data None)"

definition parseInt :: "(u16 \<Rightarrow> bool) \<Rightarrow> u16 list \<Rightarrow> ErrorParseMode \<Rightarrow> js_bigint option throws option" where
  "parseInt space_separator data errorParseMode =
     (let data = dropWhile (isStrWhiteSpace space_separator) data;
          prefixed = (1 < length data \<and> data ! 0 = 48)
      in if prefixed \<and> isASCIIAlphaCaselessEqual (data ! 1) 98
         then parseInt_from space_separator (drop 2 data) 2 errorParseMode ParseUnsigned DisallowEmptyString
         else if prefixed \<and> isASCIIAlphaCaselessEqual (data ! 1) 120
         then parseInt_from space_separator (drop 2 data) 16 errorParseMode ParseUnsigned DisallowEmptyString
         else if prefixed \<and> isASCIIAlphaCaselessEqual (data ! 1) 111
         then parseInt_from space_separator (drop 2 data) 8 errorParseMode ParseUnsigned DisallowEmptyString
         else
           let (sign, data) =
             (if data \<noteq> [] \<and> data ! 0 = 45 then (ParseSigned, drop 1 data)
              else if data \<noteq> [] \<and> data ! 0 = 43 then (ParseUnsigned, drop 1 data)
              else (ParseUnsigned, data))
           in parseInt_from space_separator data 10 errorParseMode sign AllowEmptyString)"

definition stringToBigInt :: "(u16 \<Rightarrow> bool) \<Rightarrow> u16 list \<Rightarrow> js_bigint option throws option" where
  "stringToBigInt space_separator s = parseInt space_separator s IgnoreExceptions"

definition parseInt_radix :: "(u16 \<Rightarrow> bool) \<Rightarrow> u16 list \<Rightarrow> nat \<Rightarrow> ErrorParseMode \<Rightarrow> ParseIntSign \<Rightarrow> js_bigint option throws option" where
  "parseInt_radix space_separator s radix parserMode sign =
     parseInt_from space_separator s radix parserMode sign DisallowEmptyString"


section \<open>Chunks\<close>

fun horner :: "nat \<Rightarrow> nat \<Rightarrow> nat list \<Rightarrow> nat" where
  "horner r a [] = a"
| "horner r a (d # ds) = horner r (a * r + d) ds"

text \<open>The digits of a string, if every character is one.\<close>

fun digits_of :: "nat \<Rightarrow> u16 list \<Rightarrow> nat list option" where
  "digits_of r [] = Some []"
| "digits_of r (c # cs) =
     (case char_value r c of
        None \<Rightarrow> None
      | Some v \<Rightarrow> map_option (Cons (unat v)) (digits_of r cs))"

lemma horner_append: "horner r a (ds @ es) = horner r (horner r a ds) es"
  by (induction ds arbitrary: a) simp_all

lemma horner_shift: "horner r a ds = a * r ^ length ds + horner r 0 ds"
proof (induction ds arbitrary: a)
  case (Cons d ds)
  show ?case using Cons.IH [of "a * r + d"] Cons.IH [of d] by (simp add: algebra_simps)
qed simp

lemma horner_rev: "horner r 0 (rev ds) = radix_value r ds"
  by (induction ds) (simp_all add: horner_append)

lemma digits_of_append:
  "digits_of r (cs @ es) = (case digits_of r cs of None \<Rightarrow> None | Some ds \<Rightarrow> map_option ((@) ds) (digits_of r es))"
proof (induction cs)
  case Nil
  show ?case by (cases "digits_of r es") simp_all
next
  case (Cons c cs)
  then show ?case by (cases "char_value r c"; cases "digits_of r cs"; cases "digits_of r es") simp_all
qed

lemma digits_of_length: "digits_of r cs = Some ds \<Longrightarrow> length ds = length cs"
  by (induction cs arbitrary: ds) (auto split: option.splits)

lemma char_value_lt:
  assumes "char_value r c = Some v" "2 \<le> r" "r \<le> 36"
  shows "unat v < r"
proof -
  have c: "unat c < 65536" using unsigned_less [of c] by simp
  have sub: "unat (c - k) = unat c - unat k" if "unat k \<le> unat c" for k
    using that by (simp add: unat_sub word_le_nat_alt)
  have add: "unat (c - k + 10) = unat c - unat k + 10" if "unat k \<le> unat c" "unat c - unat k + 10 < 65536" for k
    using that sub [OF that(1)] by (subst unat_add_lem [THEN iffD1]) simp_all
  consider "48 \<le> unat c" "unat c < 48 + (if r < 10 then r else 10)" "v = ucast (c - 48)"
    | "97 \<le> unat c" "unat c < 97 + r - 10" "v = ucast (c - 97 + 10)"
    | "65 \<le> unat c" "unat c < 65 + r - 10" "v = ucast (c - 65 + 10)"
    using assms(1) by (auto simp: char_value_def Let_def split: if_splits)
  then show ?thesis
  proof cases
    case 1
    have "unat v = unat (c - 48)" unfolding 1(3) by (simp add: unsigned_ucast_eq take_bit_nat_eq_self unsigned_less [THEN order_less_le_trans])
    then show ?thesis using 1 sub [of 48] assms by (auto split: if_splits)
  next
    case 2
    have "unat v = unat (c - 97 + 10)" unfolding 2(3) by (simp add: unsigned_ucast_eq take_bit_nat_eq_self unsigned_less [THEN order_less_le_trans])
    then show ?thesis using 2 add [of 97] assms by simp
  next
    case 3
    have "unat v = unat (c - 65 + 10)" unfolding 3(3) by (simp add: unsigned_ucast_eq take_bit_nat_eq_self unsigned_less [THEN order_less_le_trans])
    then show ?thesis using 3 add [of 65] assms by simp
  qed
qed

lemma digits_of_lt: "digits_of r cs = Some ds \<Longrightarrow> 2 \<le> r \<Longrightarrow> r \<le> 36 \<Longrightarrow> d \<in> set ds \<Longrightarrow> d < r"
  by (induction cs arbitrary: ds) (auto split: option.splits dest: char_value_lt)

lemma horner_bound: "(\<And>d. d \<in> set ds \<Longrightarrow> d < r) \<Longrightarrow> horner r a ds < (a + 1) * r ^ length ds"
proof (induction ds arbitrary: a)
  case (Cons d ds)
  have "horner r (a * r + d) ds < (a * r + d + 1) * r ^ length ds" using Cons by simp
  also have "\<dots> \<le> (a * r + r) * r ^ length ds" using Cons.prems [of d] by (intro mult_right_mono) simp_all
  finally show ?case by (simp add: algebra_simps)
qed simp

lemma checked_mul_nat: "checked_mul a b = (if unat a * unat b < 2 ^ 64 then Some (a * b) else None)"
proof -
  have "uint a * uint b < 2 ^ 64 \<longleftrightarrow> int (unat a * unat b) < int (2 ^ 64)" by simp
  then show ?thesis unfolding checked_mul_def by (simp only: of_nat_less_iff)
qed

lemma checked_add_nat: "checked_add a b = (if unat a + unat b < 2 ^ 64 then Some (a + b) else None)"
proof -
  have "uint a + uint b < 2 ^ 64 \<longleftrightarrow> int (unat a + unat b) < int (2 ^ 64)" by simp
  then show ?thesis unfolding checked_add_def by (simp only: of_nat_less_iff)
qed

text \<open>A chunk of at most \<open>n\<close> characters, as long as the multiplier does not overflow.\<close>

lemma parse_chunk_eq:
  assumes "2 \<le> r" "r \<le> 36" "unat d < unat m" "unat m * r ^ n < 2 ^ 64"
  shows "parse_chunk n r cs d m =
    (case digits_of r (take n cs) of
       None \<Rightarrow> InvalidCharacter
     | Some ds \<Rightarrow> Chunk (drop n cs) (of_nat (horner r (unat d) ds)) (of_nat (unat m * r ^ length ds)))"
  using assms(3,4)
proof (induction n arbitrary: cs d m)
  case (Suc n)
  show ?case
  proof (cases cs)
    case (Cons c cs')
    have r: "unat (of_nat r :: u64) = r" using assms(2) by (simp add: unat_of_nat)
    have rn: "1 \<le> r ^ n" using assms(1) by simp
    have "unat m * r * 1 \<le> unat m * r * r ^ n" using rn by (intro mult_left_mono) simp_all
    also have "\<dots> < 2 ^ 64" using Suc.prems(2) by (simp only: power_Suc mult.assoc)
    finally have mr: "unat m * r < 2 ^ 64" by (simp only: mult_1_right)
    then have mw: "unat (m * of_nat r) = unat m * r" by (subst unat_mult_lem [THEN iffD1]) (simp_all add: r)
    have "(unat d + 1) * r \<le> unat m * r" using Suc.prems(1) by (intro mult_right_mono) simp_all
    then have dr: "unat d * r + r \<le> unat m * r" by simp
    then have d64: "unat d * r < 2 ^ 64" using mr by linarith
    then have dw: "unat (d * of_nat r) = unat d * r" by (subst unat_mult_lem [THEN iffD1]) (simp_all add: r)
    show ?thesis
    proof (cases "char_value r c")
      case None
      then show ?thesis using mr d64 by (simp add: Cons checked_mul_nat r)
    next
      case (Some v)
      have v: "unat v < r" by (rule char_value_lt [OF Some assms(1,2)])
      have sum: "unat d * r + unat v < unat m * r" using dr v by linarith
      then have s64: "unat d * r + unat v < 2 ^ 64" using mr by linarith
      then have aw: "unat (d * of_nat r + v) = unat d * r + unat v"
        by (subst unat_add_lem [THEN iffD1]) (simp_all add: dw)
      have "unat (d * of_nat r + v) < unat (m * of_nat r)" using sum by (simp add: aw mw)
      moreover have "unat (m * of_nat r) * r ^ n < 2 ^ 64" using Suc.prems(2) by (simp add: mw ac_simps)
      ultimately have "parse_chunk n r cs' (d * of_nat r + v) (m * of_nat r) =
        (case digits_of r (take n cs') of
           None \<Rightarrow> InvalidCharacter
         | Some ds \<Rightarrow> Chunk (drop n cs') (of_nat (horner r (unat d * r + unat v) ds)) (of_nat (unat m * r * r ^ length ds)))"
        using Suc.IH [of "d * of_nat r + v" "m * of_nat r" cs'] by (simp only: aw mw)
      then show ?thesis using mr d64 s64
        by (simp add: Cons checked_mul_nat checked_add_nat r dw Some ac_simps split: option.split)
    qed
  qed simp
qed simp

lemma chunk_limit: "2 \<le> r \<Longrightarrow> r \<le> 36 \<Longrightarrow> r ^ lengthLimitForBigInt32 r < 2 ^ 31"
  by (auto simp: lengthLimitForBigInt32_def)


section \<open>The capacity\<close>

definition digits_needed_for :: "nat \<Rightarrow> nat \<Rightarrow> nat" where
  "digits_needed_for r n = ((maxBitsPerCharTable ! r * n + 31) div 32 + 63) div 64"

lemma allocateFor_eq:
  assumes "2 \<le> r" "r \<le> 36"
  shows "allocateFor r n = (if digits_needed_for r n \<le> maxLength
    then Inr \<lparr>m_sign = False, m_data = replicate (digits_needed_for r n) 0\<rparr> else Inl OutOfMemoryError)"
proof -
  let ?b = "maxBitsPerCharTable ! r" and ?k = "(maxBitsPerCharTable ! r * n + 31) div 32"
  have b: "2 \<le> ?b" "?b \<le> 166" using for_each_radix [OF table_bounds assms] by simp_all
  have len: "(?k + digitBits - 1) div digitBits = digits_needed_for r n"
    unfolding digits_needed_for_def digitBits_def by simp
  have roundup: "bitsPerCharTableMultiplier - 1 = 31"
    unfolding bitsPerCharTableMultiplier_def bitsPerCharTableShift_def by simp
  have shift: "drop_bit bitsPerCharTableShift k = k div 32" for k :: nat
    unfolding bitsPerCharTableShift_def drop_bit_eq_div by simp
  have eq: "allocateFor r n = (if n \<le> (2 ^ 64 - 1 - 31) div ?b \<and> ?k \<le> 0x7FFFFFFF \<and> digits_needed_for r n \<le> maxLength
      then createWithLength (digits_needed_for r n) else Inl OutOfMemoryError)"
    unfolding allocateFor_def Let_def roundup shift len by (simp only: if_bool_eq_conj de_Morgan_conj split: if_split) blast
  show ?thesis
  proof (cases "digits_needed_for r n \<le> maxLength")
    case True
    have "?k \<le> 64 * maxLength" using True unfolding digits_needed_for_def by linarith
    then have bits: "?k \<le> 1048576" by (simp only: maxLength_def maxLengthBits_def digitBits_def)
    have "n * ?b \<le> ?b * n + 31" by (simp only: mult.commute)
    also have "\<dots> \<le> 32 * 1048576 + 63" using bits by linarith
    finally have "n * ?b \<le> 2 ^ 64 - 1 - 31" by simp
    then have "n \<le> (2 ^ 64 - 1 - 31) div ?b" using b by (simp only: less_eq_div_iff_mult_less_eq)
    then show ?thesis using bits True createWithLength_Inr [OF True] unfolding eq by simp
  next
    case False
    then show ?thesis unfolding eq by simp
  qed
qed

lemma capacity:
  assumes "2 \<le> r" "r \<le> 36"
  shows "r ^ n \<le> 2 ^ (64 * digits_needed_for r n)"
proof -
  let ?b = "maxBitsPerCharTable ! r" and ?k = "(maxBitsPerCharTable ! r * n + 31) div 32"
  have "(r ^ n) ^ 32 = (r ^ 32) ^ n" by (simp only: power_mult [symmetric] mult.commute)
  also have "\<dots> \<le> (2 ^ ?b) ^ n" using for_each_radix [OF table_bounds assms] by (intro power_mono) simp_all
  also have "\<dots> \<le> (2 ^ ?k) ^ 32" unfolding power_mult [symmetric] by (intro power_increasing) simp_all
  finally have "r ^ n \<le> 2 ^ ?k" by (subst (asm) power_mono_iff) simp_all
  also have "\<dots> \<le> 2 ^ (64 * digits_needed_for r n)"
    unfolding digits_needed_for_def by (intro power_increasing) simp_all
  finally show ?thesis .
qed

section \<open>The loop\<close>

lemma parse_loop_step:
  assumes "2 \<le> r" "r \<le> 36" "digits_of r (take (lengthLimitForBigInt32 r) cs) = Some ds"
  defines "digit \<equiv> of_nat (horner r 0 ds) :: u64"
  shows "parse_chunk (lengthLimitForBigInt32 r) r cs 0 1 =
      Chunk (drop (lengthLimitForBigInt32 r) cs) digit (of_nat (r ^ length ds))"
    "unat digit = horner r 0 ds" "unat (of_nat (r ^ length ds) :: u64) = r ^ length ds" "horner r 0 ds < 2 ^ 31"
proof -
  note lim = chunk_limit [OF assms(1,2)]
  show "parse_chunk (lengthLimitForBigInt32 r) r cs 0 1 =
      Chunk (drop (lengthLimitForBigInt32 r) cs) digit (of_nat (r ^ length ds))"
    using parse_chunk_eq [OF assms(1,2), of 0 1 "lengthLimitForBigInt32 r" cs] lim assms(3) by (simp add: digit_def)
  have "length ds \<le> lengthLimitForBigInt32 r" using digits_of_length [OF assms(3)] by simp
  then have "r ^ length ds \<le> r ^ lengthLimitForBigInt32 r" using assms(1) by (intro power_increasing) simp_all
  with lim have p: "r ^ length ds < 2 ^ 31" by linarith
  then show "unat (of_nat (r ^ length ds) :: u64) = r ^ length ds" by (simp add: unat_of_nat del: of_nat_power)
  have "horner r 0 ds < (0 + 1) * r ^ length ds"
    using digits_of_lt [OF assms(3,1,2)] by (intro horner_bound) simp
  then have "horner r 0 ds < r ^ length ds" by simp
  then show h: "horner r 0 ds < 2 ^ 31" using p by (rule order_less_trans)
  then show "unat digit = horner r 0 ds" by (simp add: digit_def unat_of_nat)
qed

lemma parse_loop_bad_chunk:
  assumes "2 \<le> r" "r \<le> 36" "digits_of r (take (lengthLimitForBigInt32 r) cs) = None"
  shows "parse_loop mode sign r N cs h = Some (parse_failure mode)"
  using parse_chunk_eq [OF assms(1,2), of 0 1 "lengthLimitForBigInt32 r" cs] chunk_limit [OF assms(1,2)] assms(3)
  by (subst parse_loop.simps) simp

text \<open>One multiply-and-add of the loop: \<open>k\<close> characters are done, the cell holds their value.\<close>

lemma accumulate:
  assumes "2 \<le> r" "r \<le> 36" "nval (m_data h) < r ^ k" "k + length ds \<le> N" "r ^ N \<le> 2 ^ (64 * bi_length h)"
    "\<And>d. d \<in> set ds \<Longrightarrow> d < r" "unat digit = horner r 0 ds" "unat m = r ^ length ds"
  shows "nval (m_data (inplaceMultiplyAdd h m digit)) = horner r (nval (m_data h)) ds"
    "bi_length (inplaceMultiplyAdd h m digit) = bi_length h" "nval (m_data (inplaceMultiplyAdd h m digit)) < r ^ (k + length ds)"
proof -
  let ?a = "nval (m_data h)"
  have v: "?a * r ^ length ds + horner r 0 ds = horner r ?a ds" by (rule horner_shift [symmetric])
  have "horner r ?a ds < (?a + 1) * r ^ length ds" using assms(6) by (rule horner_bound)
  also have "\<dots> \<le> r ^ k * r ^ length ds" using assms(3) by (intro mult_right_mono) simp_all
  finally have lt: "horner r ?a ds < r ^ (k + length ds)" by (simp only: power_add)
  also have "\<dots> \<le> r ^ N" using assms(1,4) by (intro power_increasing) simp_all
  finally have "horner r ?a ds < 2 ^ (64 * bi_length h)" using assms(5) by linarith
  then have "int (horner r ?a ds) < int (2 ^ (64 * bi_length h))" by (simp only: of_nat_less_iff)
  moreover have dval: "dval (m_data h) * uint m + uint digit = int (horner r ?a ds)"
    unfolding v [symmetric] nval_dval [symmetric] by (simp only: uint_nat assms(7,8) of_nat_add of_nat_mult)
  ultimately have fits: "dval (m_data h) * uint m + uint digit < dbase ^ bi_length h"
    by (simp only: dbase_power of_nat_power of_nat_numeral)
  note mul = inplaceMultiplyAdd_value [OF fits]
  have "int (nval (m_data (inplaceMultiplyAdd h m digit))) = int (horner r ?a ds)"
    unfolding nval_dval mul(1) dval ..
  then show e: "nval (m_data (inplaceMultiplyAdd h m digit)) = horner r ?a ds" by (simp only: of_nat_eq_iff)
  show "bi_length (inplaceMultiplyAdd h m digit) = bi_length h" by (rule mul(2))
  show "nval (m_data (inplaceMultiplyAdd h m digit)) < r ^ (k + length ds)" unfolding e by (rule lt)
qed


text \<open>What the loop promises of the value: the digits continue \<open>a\<close>, and any other character is a failure.\<close>

definition returns_value :: "js_bigint option throws option \<Rightarrow> int \<Rightarrow> bool" where
  "returns_value res v \<longleftrightarrow> (\<exists>x. res = Some (Inr (Some x)) \<and> canonical x \<and> bigint_val x = v)"

definition parses_to :: "ErrorParseMode \<Rightarrow> ParseIntSign \<Rightarrow> nat \<Rightarrow> nat \<Rightarrow> u16 list \<Rightarrow> js_bigint option throws option \<Rightarrow> bool" where
  "parses_to mode sign r a cs res =
     (case digits_of r cs of
        None \<Rightarrow> res = Some (parse_failure mode)
      | Some ds \<Rightarrow> returns_value res (with_sign (sign = ParseSigned) (int (horner r a ds))))"

lemma digits_of_bad: "digits_of r (take n cs) = None \<Longrightarrow> digits_of r cs = None"
  using digits_of_append [of r "take n cs" "drop n cs"] by simp

lemma digits_of_good:
  "digits_of r (take n cs) = Some ds \<Longrightarrow> digits_of r cs = map_option ((@) ds) (digits_of r (drop n cs))"
  using digits_of_append [of r "take n cs" "drop n cs"] by simp

lemma parse_loop_rest:
  assumes "2 \<le> r" "r \<le> 36" "k + length cs = N" "nval (m_data h) < r ^ k" "r ^ N \<le> 2 ^ (64 * bi_length h)"
    "bi_length h \<le> maxLength" "bi_length h \<noteq> 0" "cs \<noteq> []"
  shows "parses_to mode sign r (nval (m_data h)) cs (parse_loop mode sign r M cs (Some h))"
  using assms(3-)
proof (induction "length cs" arbitrary: cs h k rule: less_induct)
  case less
  let ?n = "lengthLimitForBigInt32 r"
  note r = assms(1,2)
  show ?case
  proof (cases "digits_of r (take ?n cs)")
    case None
    have "digits_of r cs = None" by (rule digits_of_bad [OF None])
    then show ?thesis using parse_loop_bad_chunk [OF r None] by (simp add: parses_to_def)
  next
    case (Some ds)
    define h' where "h' = inplaceMultiplyAdd h (of_nat (r ^ length ds)) (of_nat (horner r 0 ds))"
    note st = parse_loop_step [OF r Some]
    have lds: "length ds = min (length cs) ?n" using digits_of_length [OF Some] by simp
    have fits: "k + length ds \<le> N" using less.prems(1) lds by simp
    note acc = accumulate [OF r less.prems(2) fits less.prems(3) digits_of_lt [OF Some r] st(2,3), folded h'_def]
    have code: "parse_loop mode sign r M cs (Some h) =
      (if drop ?n cs = [] then Some (andThen (rightTrim (h'\<lparr>m_sign := (sign = ParseSigned)\<rparr>)) (\<lambda>r. Inr (Some r)))
       else parse_loop mode sign r M (drop ?n cs) (Some h'))"
      by (subst parse_loop.simps) (simp add: st(1) Let_def h'_def)
    show ?thesis
    proof (cases "drop ?n cs = []")
      case True
      then have all: "digits_of r cs = Some ds" using digits_of_good [OF Some] by simp
      have "bi_length h' \<le> maxLength" "m_data h' \<noteq> []" using acc(2) less.prems(4,5) by (auto simp: bi_length_def)
      then obtain x where "rightTrim (h'\<lparr>m_sign := (sign = ParseSigned)\<rparr>) = Inr x" "canonical x"
        "bigint_val x = with_sign (sign = ParseSigned) (dval (m_data h'))"
        by (rule rightTrim_signed)
      then show ?thesis unfolding code
        by (simp add: True parses_to_def all returns_value_def nval_dval [symmetric] acc(1))
    next
      case False
      have "parses_to mode sign r (nval (m_data h')) (drop ?n cs) (parse_loop mode sign r M (drop ?n cs) (Some h'))"
      proof (rule less.hyps)
        show "length (drop ?n cs) < length cs" using less.prems(6) lengthLimit_pos [of r] by simp
        show "k + length ds + length (drop ?n cs) = N" using less.prems(1) lds by simp
      qed (use acc less.prems False in simp_all)
      then show ?thesis
        unfolding code using False
        by (simp add: parses_to_def acc(1) horner_append digits_of_good [OF Some] split: option.splits)
    qed
  qed
qed

lemma small_int32:
  fixes s :: bool
  assumes "n < 2 ^ 31"
  defines "w \<equiv> (if s then of_nat n * - 1 else of_nat n) :: u64"
  shows "scast (ucast w :: 32 word) = w" "sint (ucast w :: 32 word) = with_sign s (int n)"
proof -
  have w: "w = of_int (with_sign s (int n))" by (simp add: w_def with_sign_def)
  have u: "(ucast w :: 32 word) = of_int (with_sign s (int n))"
    unfolding w by (simp add: word_uint_eq_iff unsigned_ucast_eq unsigned_of_int take_bit_take_bit del: uint_word_of_int of_int_0)
  show "sint (ucast w :: 32 word) = with_sign s (int n)" unfolding u
    using assms(1) by (simp add: signed_of_int signed_take_bit_int_eq_self with_sign_def del: of_int_minus)
  then show "scast (ucast w :: 32 word) = w" unfolding scast_eq w by simp
qed


lemma short_fits: "2 \<le> r \<Longrightarrow> r \<le> 36 \<Longrightarrow> n \<le> lengthLimitForBigInt32 r \<Longrightarrow> digits_needed_for r n \<le> maxLength"
proof -
  assume r: "2 \<le> r" "r \<le> 36" and n: "n \<le> lengthLimitForBigInt32 r"
  have "maxBitsPerCharTable ! r \<le> 166" using for_each_radix [OF table_bounds r] by simp
  moreover have "n \<le> 30" using n by (auto simp: lengthLimitForBigInt32_def split: if_splits)
  ultimately have "maxBitsPerCharTable ! r * n \<le> 166 * 30" by (intro mult_mono) simp_all
  then have "digits_needed_for r n \<le> 16384" unfolding digits_needed_for_def by linarith
  then show ?thesis by (simp only: maxLength_def maxLengthBits_def digitBits_def)
qed

text \<open>The loop from its start: the strings of digits are parsed when the result is not too long, and the others fail, with
  the syntax error or, when the first chunk is good and the string is too long, with the error of the allocation.\<close>

lemma parse_loop_start:
  assumes "2 \<le> r" "r \<le> 36" "cs \<noteq> []"
  shows "parses_to mode sign r 0 cs (parse_loop mode sign r (length cs) cs None) \<and>
      (digits_of r cs = None \<or> digits_needed_for r (length cs) \<le> maxLength)
    \<or> maxLength < digits_needed_for r (length cs) \<and>
      (digits_of r cs = None \<longrightarrow> digits_of r (take (lengthLimitForBigInt32 r) cs) \<noteq> None) \<and>
      parse_loop mode sign r (length cs) cs None = Some (Inl OutOfMemoryError)"
proof -
  let ?n = "lengthLimitForBigInt32 r" and ?m = "digits_needed_for r (length cs)"
  note r = assms(1,2)
  show ?thesis
  proof (cases "digits_of r (take ?n cs)")
    case None
    have "digits_of r cs = None" by (rule digits_of_bad [OF None])
    then show ?thesis using parse_loop_bad_chunk [OF r None] by (simp add: parses_to_def)
  next
    case (Some ds)
    note st = parse_loop_step [OF r Some]
    let ?w = "if sign = ParseSigned then of_nat (horner r 0 ds) * - 1 else of_nat (horner r 0 ds) :: u64"
    note w = small_int32 [OF st(4), of "sign = ParseSigned"]
    show ?thesis
    proof (cases "drop ?n cs = []")
      case True
      then have all: "digits_of r cs = Some ds" using digits_of_good [OF Some] by simp
      have "parse_loop mode sign r (length cs) cs None = Some (Inr (Some (int32Impl (ucast ?w))))"
        by (subst parse_loop.simps) (simp only: st(1) chunk_result.case Let_def True w(1) createFrom_int32_correct
            simp_thms if_True andThen_simps)
      moreover have "bigint_val (int32Impl (ucast ?w)) = with_sign (sign = ParseSigned) (int (horner r 0 ds))"
        by (simp only: int32Impl_correct w(2))
      moreover have "?m \<le> maxLength" using True by (intro short_fits r) simp
      ultimately show ?thesis by (simp add: parses_to_def all returns_value_def int32Impl_correct)
    next
      case False
      show ?thesis
      proof (cases "?m \<le> maxLength")
        case True
        let ?h = "\<lparr>m_sign = False, m_data = replicate ?m 0\<rparr>"
        define h' where "h' = inplaceMultiplyAdd ?h (of_nat (r ^ length ds)) (of_nat (horner r 0 ds))"
        have h0: "nval (m_data ?h) = 0" "bi_length ?h = ?m" by (simp_all add: bi_length_def nval_eq dval_simps)
        have lds: "length ds = min (length cs) ?n" using digits_of_length [OF Some] by simp
        have cap: "r ^ length cs \<le> 2 ^ (64 * bi_length ?h)" unfolding h0(2) by (rule capacity [OF r])
        have "0 < ?m"
        proof (rule ccontr)
          assume "\<not> 0 < ?m"
          then have "r ^ length cs \<le> 1" using capacity [OF r, of "length cs"] by simp
          moreover have "1 < r ^ length cs" using r assms(3) by (intro one_less_power) simp_all
          ultimately show False by simp
        qed
        have fits: "0 + length ds \<le> length cs" using lds by simp
        have z: "nval (m_data ?h) < r ^ 0" using h0 by simp
        note acc = accumulate [OF r z fits cap digits_of_lt [OF Some r] st(2,3), folded h'_def]
        have hv: "nval (m_data h') = horner r 0 ds" using acc(1) h0(1) by simp
        have code: "parse_loop mode sign r (length cs) cs None = parse_loop mode sign r (length cs) (drop ?n cs) (Some h')"
          using False by (subst parse_loop.simps) (simp add: st(1) Let_def h'_def allocateFor_eq [OF r] True)
        have "parses_to mode sign r (nval (m_data h')) (drop ?n cs)
            (parse_loop mode sign r (length cs) (drop ?n cs) (Some h'))"
        proof (rule parse_loop_rest [OF r])
          show "0 + length ds + length (drop ?n cs) = length cs" using lds by simp
        qed (use acc cap h0 \<open>0 < ?m\<close> True False in simp_all)
        then have "parses_to mode sign r 0 cs (parse_loop mode sign r (length cs) cs None)"
          unfolding code using hv
          by (simp add: parses_to_def horner_append digits_of_good [OF Some] split: option.splits)
        with True show ?thesis by simp
      next
        case long: False
        have "parse_loop mode sign r (length cs) cs None = Some (Inl OutOfMemoryError)"
          using False by (subst parse_loop.simps) (simp add: st(1) Let_def allocateFor_eq [OF r] long)
        then show ?thesis using long Some by simp
      qed
    qed
  qed
qed


section \<open>The whole string\<close>

text \<open>The reference: what is left when leading zeros and trailing white space are dropped has to be a string of digits.\<close>

definition trim_right :: "(u16 \<Rightarrow> bool) \<Rightarrow> u16 list \<Rightarrow> u16 list" where
  "trim_right sp cs = rev (dropWhile (isStrWhiteSpace sp) (rev cs))"

lemma parseInt_from_eq:
  "parseInt_from sp cs r mode sign pm =
    (if pm \<noteq> AllowEmptyString \<and> cs = [] then Some (parse_failure mode)
     else let data = trim_right sp (dropWhile (\<lambda>c. c = 48) cs)
       in if data = [] then Some (Inr (Some \<lparr>m_sign = False, m_data = []\<rparr>))
          else parse_loop mode sign r (length data) data None)"
  by (simp add: parseInt_from_def Let_def trim_right_def createZero_eq)

lemma digits_of_zeros: "2 \<le> r \<Longrightarrow> digits_of r (replicate n 48) = Some (replicate n 0)"
  by (induction n) (simp_all add: char_value_def)

lemma horner_zeros: "horner r 0 (replicate n 0 @ ds) = horner r 0 ds"
  by (induction n) simp_all

lemma dropWhile_zeros: obtains n where "cs = replicate n (48 :: u16) @ dropWhile (\<lambda>c. c = 48) cs"
proof -
  have "takeWhile (\<lambda>c. c = 48) cs = replicate (length (takeWhile (\<lambda>c. c = 48) cs)) 48"
    by (intro replicate_length_same [symmetric] ballI) (auto dest: set_takeWhileD)
  then have "cs = replicate (length (takeWhile (\<lambda>c. c = 48) cs)) 48 @ dropWhile (\<lambda>c. c = 48) cs"
    by (metis takeWhile_dropWhile_id)
  then show thesis by (rule that)
qed

lemma digits_of_dropWhile:
  assumes "2 \<le> r"
  shows "map_option (horner r 0) (digits_of r (dropWhile (\<lambda>c. c = 48) cs)) = map_option (horner r 0) (digits_of r cs)"
proof -
  obtain n where n: "cs = replicate n (48 :: u16) @ dropWhile (\<lambda>c. c = 48) cs" by (rule dropWhile_zeros)
  have "digits_of r cs = map_option ((@) (replicate n 0)) (digits_of r (dropWhile (\<lambda>c. c = 48) cs))"
    by (subst n) (simp add: digits_of_append digits_of_zeros [OF assms])
  then show ?thesis by (simp add: option.map_comp comp_def horner_zeros)
qed

lemma not_digit_white:
  assumes "isStrWhiteSpace sp c" "2 \<le> r" "r \<le> 36"
  shows "char_value r c = None"
proof (cases "unat c < 128")
  case True
  have "c AND NOT 1 \<noteq> 0x2028"
  proof
    assume "c AND NOT 1 = 0x2028"
    then have "unat (0x2028 :: u16) \<le> unat c" using word_and_le2 [of c "NOT 1"] by (simp only: word_le_nat_alt)
    with True show False by simp
  qed
  then have "c = 0x20 \<or> c = 0x09 \<or> c = 0xB \<or> c = 0xC \<or> c = 0x0D \<or> c = 0x0A"
    using assms(1) True by (auto simp: isStrWhiteSpace_def isWhiteSpace_def isLineTerminator_def word_le_nat_alt split: if_splits)
  then show ?thesis by (auto simp: char_value_def)
next
  case False
  then show ?thesis using assms(2,3) by (simp add: char_value_def Let_def)
qed


lemma zero_not_white: "\<not> isStrWhiteSpace sp 48"
  by (simp add: isStrWhiteSpace_def isWhiteSpace_def isLineTerminator_def)

lemma trim_right_append: "\<not> isStrWhiteSpace sp c \<Longrightarrow> trim_right sp (cs @ c # ds) = cs @ c # trim_right sp ds"
  by (simp add: trim_right_def dropWhile_append)

lemma trim_right_Cons: "\<not> isStrWhiteSpace sp c \<Longrightarrow> trim_right sp (c # ds) = c # trim_right sp ds"
  using trim_right_append [of sp c "[]"] by simp

lemma trim_right_zeros: "trim_right sp (replicate n 48 @ cs) = replicate n 48 @ trim_right sp cs"
  by (induction n) (simp_all add: trim_right_Cons zero_not_white)

lemma trim_right_length: "length (trim_right sp cs) \<le> length cs"
  using length_dropWhile_le [of "isStrWhiteSpace sp" "rev cs"] by (simp add: trim_right_def)

lemma digits_of_trimmed:
  assumes "2 \<le> r"
  shows "map_option (horner r 0) (digits_of r (trim_right sp (dropWhile (\<lambda>c. c = 48) cs))) =
    map_option (horner r 0) (digits_of r (trim_right sp cs))"
proof -
  obtain n where n: "cs = replicate n (48 :: u16) @ dropWhile (\<lambda>c. c = 48) cs" by (rule dropWhile_zeros)
  have "digits_of r (trim_right sp cs) =
      map_option ((@) (replicate n 0)) (digits_of r (trim_right sp (dropWhile (\<lambda>c. c = 48) cs)))"
    by (subst n) (simp add: trim_right_zeros digits_of_append digits_of_zeros [OF assms])
  then show ?thesis by (simp add: option.map_comp comp_def horner_zeros)
qed

lemma parses_to_cong:
  "map_option (horner r a) (digits_of r cs) = map_option (horner r b) (digits_of r ds) \<Longrightarrow>
    parses_to mode sign r a cs res = parses_to mode sign r b ds res"
  by (auto simp: parses_to_def split: option.splits)

lemma parseInt_from_correct:
  assumes "2 \<le> r" "r \<le> 36"
    "digits_needed_for r (length (trim_right sp (dropWhile (\<lambda>c. c = 48) cs))) \<le> maxLength" "pm = AllowEmptyString \<or> cs \<noteq> []"
  shows "parses_to mode sign r 0 (trim_right sp cs) (parseInt_from sp cs r mode sign pm)"
proof -
  let ?d = "trim_right sp (dropWhile (\<lambda>c. c = 48) cs)"
  have "parses_to mode sign r 0 ?d (parseInt_from sp cs r mode sign pm)"
  proof (cases "?d = []")
    case True
    then show ?thesis using assms(4)
      by (auto simp: parseInt_from_eq parses_to_def returns_value_def with_sign_def)
  next
    case False
    then show ?thesis using assms(4) parse_loop_start [OF assms(1,2) False, of mode sign] assms(3)
      by (auto simp: parseInt_from_eq Let_def)
  qed
  then show ?thesis using parses_to_cong [OF digits_of_trimmed [OF assms(1)]] by blast
qed

lemma short_enough: "r \<in> {2, 8, 10, 16} \<Longrightarrow> n \<le> 2 ^ 18 \<Longrightarrow> digits_needed_for r n \<le> maxLength"
proof -
  assume r: "r \<in> {2, 8, 10, 16}" and n: "n \<le> 2 ^ 18"
  have "maxBitsPerCharTable ! r \<le> 128" using r by (auto simp: maxBitsPerCharTable_def)
  then have "maxBitsPerCharTable ! r * n \<le> 128 * 2 ^ 18" using n by (intro mult_mono) simp_all
  then have "digits_needed_for r n \<le> 16384" unfolding digits_needed_for_def by simp
  then show ?thesis by (simp only: maxLength_def maxLengthBits_def digitBits_def)
qed

text \<open>\<open>StringToBigInt\<close> of the language: white space at both ends, then nothing, or a number with a radix prefix, or decimal
  digits that may have a sign.\<close>

definition some_digits :: "nat \<Rightarrow> u16 list \<Rightarrow> int option" where
  "some_digits r cs = (if cs = [] then None else map_option (\<lambda>ds. int (horner r 0 ds)) (digits_of r cs))"

fun integer_literal :: "u16 list \<Rightarrow> int option" where
  "integer_literal [] = Some 0"
| "integer_literal (c # cs) =
     (if c = 48 \<and> cs \<noteq> [] \<and> hd cs \<in> {98, 66} then some_digits 2 (tl cs)
      else if c = 48 \<and> cs \<noteq> [] \<and> hd cs \<in> {120, 88} then some_digits 16 (tl cs)
      else if c = 48 \<and> cs \<noteq> [] \<and> hd cs \<in> {111, 79} then some_digits 8 (tl cs)
      else if c = 45 then map_option uminus (some_digits 10 cs)
      else if c = 43 then some_digits 10 cs
      else some_digits 10 (c # cs))"

definition string_integer :: "(u16 \<Rightarrow> bool) \<Rightarrow> u16 list \<Rightarrow> int option" where
  "string_integer sp s = integer_literal (trim_right sp (dropWhile (isStrWhiteSpace sp) s))"

text \<open>The strings the code reads as zero and the language does not: a sign alone, and a prefix followed by white space
  alone.\<close>

definition empty_literal :: "(u16 \<Rightarrow> bool) \<Rightarrow> u16 list \<Rightarrow> bool" where
  "empty_literal sp s =
     (let t = dropWhile (isStrWhiteSpace sp) s; u = trim_right sp t
      in u = [43] \<or> u = [45] \<or> t \<noteq> u \<and> length u = 2 \<and> u ! 0 = 48 \<and> u ! 1 \<in> {98, 66, 120, 88, 111, 79})"


lemma caseless:
  "isASCIIAlphaCaselessEqual c 98 \<longleftrightarrow> c \<in> {98, 66}" "isASCIIAlphaCaselessEqual c 120 \<longleftrightarrow> c \<in> {120, 88}"
  "isASCIIAlphaCaselessEqual c 111 \<longleftrightarrow> c \<in> {111, 79}"
proof -
  have split: "c = ((c OR 0x20) AND NOT 0x20) OR (c AND 0x20)" by (rule bit_eqI) (auto simp: bit_simps)
  have "c AND 0x20 = of_bool (bit c 5) * 0x20"
  proof (rule bit_eqI)
    fix n
    have "bit (0x20 :: u16) n \<longleftrightarrow> n = 5" using bit_exp_iff [where 'a = "16 word", of 5 n] by auto
    then show "bit (c AND 0x20) n = bit (of_bool (bit c 5) * 0x20 :: u16) n" by (auto simp: bit_simps)
  qed
  then have "c AND 0x20 = 0 \<or> c AND 0x20 = 0x20" by (cases "bit c 5") simp_all
  then have or32: "c OR 0x20 = k \<longleftrightarrow> c = k \<or> c = l" if "k AND NOT 0x20 = l" "l OR 0x20 = k" "k OR 0x20 = k" "l OR 0 = l" for k l
    using split that by metis
  show "isASCIIAlphaCaselessEqual c 98 \<longleftrightarrow> c \<in> {98, 66}" using or32 [of 98 66] by (simp add: isASCIIAlphaCaselessEqual_def)
  show "isASCIIAlphaCaselessEqual c 120 \<longleftrightarrow> c \<in> {120, 88}" using or32 [of 120 88] by (simp add: isASCIIAlphaCaselessEqual_def)
  show "isASCIIAlphaCaselessEqual c 111 \<longleftrightarrow> c \<in> {111, 79}" using or32 [of 111 79] by (simp add: isASCIIAlphaCaselessEqual_def)
qed


definition answers :: "ErrorParseMode \<Rightarrow> int option \<Rightarrow> js_bigint option throws option \<Rightarrow> bool" where
  "answers mode v res = (case v of None \<Rightarrow> res = Some (parse_failure mode) | Some i \<Rightarrow> returns_value res i)"

lemma parses_to_answers:
  "cs \<noteq> [] \<Longrightarrow> parses_to mode sign r 0 cs res =
    answers mode (map_option (with_sign (sign = ParseSigned)) (some_digits r cs)) res"
  by (simp add: parses_to_def answers_def some_digits_def split: option.splits)

lemma parseInt_from_digits:
  assumes "r \<in> {2, 8, 10, 16}" "length cs \<le> 2 ^ 18" "cs = [] \<and> pm \<noteq> AllowEmptyString \<or> trim_right sp cs \<noteq> []"
  shows "answers mode (map_option (with_sign (sign = ParseSigned)) (some_digits r (trim_right sp cs)))
    (parseInt_from sp cs r mode sign pm)"
proof (cases "cs = []")
  case True
  then show ?thesis using assms(3) by (auto simp: parseInt_from_def answers_def some_digits_def trim_right_def)
next
  case False
  have "length (trim_right sp (dropWhile (\<lambda>c. c = 48) cs)) \<le> 2 ^ 18"
    using trim_right_length [of sp "dropWhile (\<lambda>c. c = 48) cs"] length_dropWhile_le [of "\<lambda>c. c = 48" cs] assms(2) by simp
  then have short: "digits_needed_for r (length (trim_right sp (dropWhile (\<lambda>c. c = 48) cs))) \<le> maxLength"
    by (rule short_enough [OF assms(1)])
  have "parses_to mode sign r 0 (trim_right sp cs) (parseInt_from sp cs r mode sign pm)"
    by (rule parseInt_from_correct [OF _ _ short]) (use assms(1) False in auto)
  then show ?thesis using parses_to_answers [of "trim_right sp cs"] assms(3) False by simp
qed

lemma with_sign_unsigned: "map_option (with_sign (ParseUnsigned = ParseSigned)) v = v"
  "map_option (with_sign (ParseSigned = ParseSigned)) v = map_option uminus v"
  by (cases v; simp add: with_sign_def)+

lemma trim_right_hd: "trim_right sp cs \<noteq> [] \<Longrightarrow> hd (trim_right sp cs) = hd cs"
proof -
  assume ne: "trim_right sp cs \<noteq> []"
  have "cs = trim_right sp cs @ rev (takeWhile (isStrWhiteSpace sp) (rev cs))"
    unfolding trim_right_def rev_append [symmetric] takeWhile_dropWhile_id rev_rev_ident ..
  then have "hd cs = hd (trim_right sp cs @ rev (takeWhile (isStrWhiteSpace sp) (rev cs)))" by (rule arg_cong)
  then show ?thesis using ne by simp
qed

lemma letters_not_white: "c \<in> {98, 66, 120, 88, 111, 79} \<Longrightarrow> \<not> isStrWhiteSpace sp c"
  by (auto simp: isStrWhiteSpace_def isWhiteSpace_def isLineTerminator_def)

lemma parseInt_prefixed:
  assumes "cs = 48 # b # ds" "length cs \<le> 2 ^ 18" "r = 2 \<and> b \<in> {98, 66} \<or> r = 16 \<and> b \<in> {120, 88} \<or> r = 8 \<and> b \<in> {111, 79}"
    "\<not> empty_literal sp cs"
  shows "answers mode (integer_literal (trim_right sp cs)) (parseInt_from sp ds r mode ParseUnsigned DisallowEmptyString)"
proof -
  have b: "\<not> isStrWhiteSpace sp b" using assms(3) by (intro letters_not_white) auto
  then have u: "trim_right sp cs = 48 # b # trim_right sp ds"
    by (simp add: assms(1) trim_right_Cons zero_not_white)
  have d: "dropWhile (isStrWhiteSpace sp) cs = cs" using assms(1) zero_not_white by simp
  have "ds = [] \<or> trim_right sp ds \<noteq> []"
  proof (rule ccontr)
    assume "\<not> (ds = [] \<or> trim_right sp ds \<noteq> [])"
    then have "ds \<noteq> []" "trim_right sp ds = []" by simp_all
    then have "empty_literal sp cs" unfolding empty_literal_def d Let_def u using assms(3) by (auto simp: assms(1))
    then show False using assms(4) by simp
  qed
  then have "answers mode (map_option (with_sign (ParseUnsigned = ParseSigned)) (some_digits r (trim_right sp ds)))
    (parseInt_from sp ds r mode ParseUnsigned DisallowEmptyString)"
    using assms(1,2,3) by (intro parseInt_from_digits) auto
  moreover have "integer_literal (trim_right sp cs) = some_digits r (trim_right sp ds)"
    using assms(3) unfolding u by auto
  ultimately show ?thesis by (simp only: with_sign_unsigned)
qed

lemma parseInt_decimal:
  assumes "cs \<noteq> []" "\<not> isStrWhiteSpace sp (hd cs)" "length cs \<le> 2 ^ 18" "\<not> empty_literal sp cs"
    "\<And>b ds. cs = 48 # b # ds \<Longrightarrow> b \<notin> {98, 66, 120, 88, 111, 79}"
  shows "answers mode (integer_literal (trim_right sp cs))
    (let (sign, data) =
       (if cs \<noteq> [] \<and> cs ! 0 = 45 then (ParseSigned, drop 1 cs)
        else if cs \<noteq> [] \<and> cs ! 0 = 43 then (ParseUnsigned, drop 1 cs)
        else (ParseUnsigned, cs))
     in parseInt_from sp data 10 mode sign AllowEmptyString)"
proof -
  obtain c ds where cs: "cs = c # ds" using assms(1) by (cases cs) auto
  have c: "\<not> isStrWhiteSpace sp c" using assms(2) cs by simp
  have u: "trim_right sp cs = c # trim_right sp ds" by (simp only: cs trim_right_Cons [OF c])
  have d: "dropWhile (isStrWhiteSpace sp) cs = cs" using cs c by simp
  have ten: "(10 :: nat) \<in> {2, 8, 10, 16}" by simp
  have len: "length ds \<le> 2 ^ 18" using assms(3) cs by simp
  have sign: "trim_right sp ds \<noteq> []" if "c = 45 \<or> c = 43"
    using that assms(4) u by (auto simp: empty_literal_def d Let_def)
  consider "c = 45" | "c = 43" | "c \<noteq> 45" "c \<noteq> 43" by blast
  then show ?thesis
  proof cases
    case 1
    then have "answers mode (map_option (with_sign (ParseSigned = ParseSigned)) (some_digits 10 (trim_right sp ds)))
      (parseInt_from sp ds 10 mode ParseSigned AllowEmptyString)" using sign by (intro parseInt_from_digits ten len) simp
    then show ?thesis unfolding u with_sign_unsigned using 1 by (simp add: cs)
  next
    case 2
    then have "answers mode (map_option (with_sign (ParseUnsigned = ParseSigned)) (some_digits 10 (trim_right sp ds)))
      (parseInt_from sp ds 10 mode ParseUnsigned AllowEmptyString)" using sign by (intro parseInt_from_digits ten len) simp
    then show ?thesis unfolding u with_sign_unsigned using 2 by (simp add: cs)
  next
    case 3
    have "c \<noteq> 48 \<or> trim_right sp ds = [] \<or> hd (trim_right sp ds) \<notin> {98, 66, 120, 88, 111, 79}"
    proof (cases "trim_right sp ds = []")
      case False
      then have "ds \<noteq> []" by (auto simp: trim_right_def)
      then have "ds = hd ds # tl ds" by simp
      then show ?thesis using assms(5) [of "hd ds" "tl ds"] trim_right_hd [OF False] cs by auto
    qed simp
    then have lit: "integer_literal (c # trim_right sp ds) = some_digits 10 (trim_right sp cs)"
      unfolding u using 3 by auto
    have "answers mode (map_option (with_sign (ParseUnsigned = ParseSigned)) (some_digits 10 (trim_right sp cs)))
      (parseInt_from sp cs 10 mode ParseUnsigned AllowEmptyString)"
      using u by (intro parseInt_from_digits ten assms(3)) simp
    then show ?thesis using 3 unfolding with_sign_unsigned lit [folded u, symmetric] by (simp add: cs)
  qed
qed

lemma parseInt_correct:
  assumes "length s \<le> 2 ^ 18" "\<not> empty_literal sp s"
  shows "answers mode (string_integer sp s) (parseInt sp s mode)"
proof -
  define t where "t = dropWhile (isStrWhiteSpace sp) s"
  have len: "length t \<le> 2 ^ 18" using assms(1) length_dropWhile_le [of "isStrWhiteSpace sp" s] by (simp add: t_def)
  have hd: "t \<noteq> [] \<Longrightarrow> \<not> isStrWhiteSpace sp (hd t)" unfolding t_def by (rule hd_dropWhile)
  have tt: "dropWhile (isStrWhiteSpace sp) t = t" by (simp add: t_def)
  have ne: "\<not> empty_literal sp t" using assms(2) by (simp add: empty_literal_def tt t_def [symmetric])
  show ?thesis
  proof (cases "\<exists>b ds. t = 48 # b # ds \<and> b \<in> {98, 66, 120, 88, 111, 79}")
    case True
    then obtain b ds where t: "t = 48 # b # ds" and b: "b \<in> {98, 66, 120, 88, 111, 79}" by blast
    have "\<exists>r. (r = 2 \<and> b \<in> {98, 66} \<or> r = 16 \<and> b \<in> {120, 88} \<or> r = 8 \<and> b \<in> {111, 79}) \<and>
      parseInt sp s mode = parseInt_from sp ds r mode ParseUnsigned DisallowEmptyString"
      using b t unfolding parseInt_def t_def [symmetric] Let_def caseless by auto
    then show ?thesis using parseInt_prefixed [OF t len _ ne] unfolding string_integer_def t_def [symmetric] by metis
  next
    case False
    show ?thesis
    proof (cases "t = []")
      case True
      then show ?thesis
        by (simp add: parseInt_def string_integer_def t_def [symmetric] trim_right_def parseInt_from_eq answers_def returns_value_def)
    next
      case ne': False
      have "\<not> (1 < length t \<and> t ! 0 = 48 \<and> t ! 1 \<in> {98, 66, 120, 88, 111, 79})"
      proof
        assume "1 < length t \<and> t ! 0 = 48 \<and> t ! 1 \<in> {98, 66, 120, 88, 111, 79}"
        then have "t = 48 # t ! 1 # drop 2 t \<and> t ! 1 \<in> {98, 66, 120, 88, 111, 79}"
          by (cases t; cases "tl t") auto
        then show False using False by blast
      qed
      then have no: "\<not> ((1 < length t \<and> t ! 0 = 48) \<and> t ! 1 \<in> {98, 66})"
        "\<not> ((1 < length t \<and> t ! 0 = 48) \<and> t ! 1 \<in> {120, 88})"
        "\<not> ((1 < length t \<and> t ! 0 = 48) \<and> t ! 1 \<in> {111, 79})"
        by blast+
      have "parseInt sp s mode = (let (sign, data) =
         (if t \<noteq> [] \<and> t ! 0 = 45 then (ParseSigned, drop 1 t)
          else if t \<noteq> [] \<and> t ! 0 = 43 then (ParseUnsigned, drop 1 t)
          else (ParseUnsigned, t))
         in parseInt_from sp data 10 mode sign AllowEmptyString)"
        unfolding parseInt_def t_def [symmetric] caseless Let_def if_not_P [OF no(1)] if_not_P [OF no(2)] if_not_P [OF no(3)] ..
      then show ?thesis unfolding string_integer_def t_def [symmetric]
        using parseInt_decimal [OF ne' hd [OF ne'] len ne, of mode] False by metis
    qed
  qed
qed


section \<open>Parsing what was printed\<close>

lemma char_value_radix_char: "c < r \<Longrightarrow> r \<le> 36 \<Longrightarrow> char_value r (ucast (radixDigits ! c)) = Some (of_nat c)"
proof -
  assume c: "c < r" and r: "r \<le> 36"
  have "list_all (\<lambda>c. radixDigits ! c = of_nat (if c < 10 then 48 + c else 87 + c)) [0..<36]" by code_simp
  then have "radixDigits ! c = of_nat (if c < 10 then 48 + c else 87 + c)" using c r by (auto simp: list_all_iff)
  then have e: "(ucast (radixDigits ! c) :: u16) = of_nat (if c < 10 then 48 + c else 87 + c)"
    using c r by (simp add: word_unat_eq_iff unsigned_ucast_eq unat_of_nat take_bit_nat_eq_self)
  show ?thesis
  proof (cases "c < 10")
    case True
    then have w: "(ucast (radixDigits ! c) :: u16) = 48 + of_nat c" using e by simp
    have n: "unat (48 + of_nat c :: u16) = 48 + c" using c r by (simp add: unat_word_ariths unat_of_nat)
    have "(ucast (48 + of_nat c - 48 :: u16) :: u64) = of_nat c"
      using c r by (simp add: word_unat_eq_iff unsigned_ucast_eq unat_of_nat take_bit_nat_eq_self)
    then show ?thesis unfolding w char_value_def Let_def n using True c by simp
  next
    case False
    then have w: "(ucast (radixDigits ! c) :: u16) = 87 + of_nat c" using e by simp
    have n: "unat (87 + of_nat c :: u16) = 87 + c" using c r by (simp add: unat_word_ariths unat_of_nat)
    have "(ucast (87 + of_nat c - 97 + 10 :: u16) :: u64) = of_nat c"
      using c r by (simp add: word_unat_eq_iff unsigned_ucast_eq unat_of_nat take_bit_nat_eq_self)
    then show ?thesis unfolding w char_value_def Let_def n using False c by simp
  qed
qed

lemma digits_of_radix_chars:
  "r \<le> 36 \<Longrightarrow> (\<And>c. c \<in> set ds \<Longrightarrow> c < r) \<Longrightarrow> digits_of r (map ucast (radix_chars ds)) = Some ds"
proof (induction ds)
  case (Cons d ds)
  have "d < r" using Cons.prems(2) by simp
  then have "unat (of_nat d :: u64) = d" using Cons.prems(1) by (simp add: unat_of_nat)
  then show ?case using Cons \<open>d < r\<close> by (simp add: char_value_radix_char)
qed simp

section \<open>Strings without digits\<close>

lemma trim_right_empty: "trim_right sp cs = [] \<longleftrightarrow> (\<forall>c\<in>set cs. isStrWhiteSpace sp c)"
  by (simp add: trim_right_def)

lemma parseInt_from_white:
  assumes "trim_right sp cs = []" "pm = AllowEmptyString \<or> cs \<noteq> []"
  shows "parseInt_from sp cs r mode sign pm = Some (Inr (Some \<lparr>m_sign = False, m_data = []\<rparr>))"
proof -
  have "trim_right sp (dropWhile (\<lambda>c. c = 48) cs) = []"
    using assms(1) unfolding trim_right_empty by (blast dest: set_dropWhileD)
  then show ?thesis using assms(2) by (auto simp: parseInt_from_eq)
qed

lemma trim_right_eq_Cons: "trim_right sp cs = c # ds \<Longrightarrow> \<exists>es. cs = c # es \<and> (\<not> isStrWhiteSpace sp c \<longrightarrow> trim_right sp es = ds)"
  using trim_right_hd [of sp cs] trim_right_Cons [of sp c] by (cases cs) (auto simp: trim_right_def)

lemma parse_empty_literal:
  assumes "empty_literal sp s"
  shows "parseInt sp s mode = Some (Inr (Some \<lparr>m_sign = False, m_data = []\<rparr>))" "string_integer sp s = None"
proof -
  define t where "t = dropWhile (isStrWhiteSpace sp) s"
  have nw: "\<not> isStrWhiteSpace sp c" if "c \<in> {43, 45, 48}" for c
    using that by (auto simp: isStrWhiteSpace_def isWhiteSpace_def isLineTerminator_def)
  have sgn: "parseInt sp s mode = Some (Inr (Some \<lparr>m_sign = False, m_data = []\<rparr>)) \<and> string_integer sp s = None"
    if u: "trim_right sp t = [c]" and c: "c = 43 \<or> c = 45" for c
  proof -
    obtain ds where t: "t = c # ds" "trim_right sp ds = []" using trim_right_eq_Cons [OF u] nw [of c] c by auto
    then have "parseInt sp s mode = parseInt_from sp ds 10 mode (if c = 45 then ParseSigned else ParseUnsigned) AllowEmptyString"
      using c unfolding parseInt_def t_def [symmetric] by auto
    then show ?thesis using parseInt_from_white [OF t(2)] u c
      by (auto simp: string_integer_def t_def [symmetric] some_digits_def)
  qed
  have pre: "parseInt sp s mode = Some (Inr (Some \<lparr>m_sign = False, m_data = []\<rparr>)) \<and> string_integer sp s = None"
    if u: "trim_right sp t = [48, b]" and b: "b \<in> {98, 66, 120, 88, 111, 79}" and ne: "t \<noteq> [48, b]" for b
  proof -
    obtain es where es: "t = 48 # es" "trim_right sp es = [b]" using trim_right_eq_Cons [OF u] nw by auto
    then obtain ds where ds: "es = b # ds" "trim_right sp ds = []"
      using trim_right_eq_Cons [OF es(2)] letters_not_white [OF b] by auto
    have "ds \<noteq> []" using ne es ds by auto
    then have "\<And>r sign. parseInt_from sp ds r mode sign DisallowEmptyString = Some (Inr (Some \<lparr>m_sign = False, m_data = []\<rparr>))"
      using parseInt_from_white [OF ds(2)] by blast
    then have "parseInt sp s mode = Some (Inr (Some \<lparr>m_sign = False, m_data = []\<rparr>))"
      using b unfolding parseInt_def t_def [symmetric] caseless es(1) ds(1) by auto
    moreover have "string_integer sp s = None"
      unfolding string_integer_def t_def [symmetric] u using b by (auto simp: some_digits_def)
    ultimately show ?thesis ..
  qed
  have "trim_right sp t = [43] \<or> trim_right sp t = [45] \<or>
    (\<exists>b. trim_right sp t = [48, b] \<and> b \<in> {98, 66, 120, 88, 111, 79} \<and> t \<noteq> [48, b])"
    using assms unfolding empty_literal_def t_def [symmetric] Let_def
    by (cases "trim_right sp t"; cases "tl (trim_right sp t)") (auto simp: length_Suc_conv numeral_2_eq_2)
  then have "parseInt sp s mode = Some (Inr (Some \<lparr>m_sign = False, m_data = []\<rparr>)) \<and> string_integer sp s = None"
    using sgn pre by blast
  then show "parseInt sp s mode = Some (Inr (Some \<lparr>m_sign = False, m_data = []\<rparr>))" "string_integer sp s = None" by simp_all
qed

lemma decimal_chars: "d < 10 \<Longrightarrow> (ucast (radixDigits ! d) :: u16) \<in> {48, 49, 50, 51, 52, 53, 54, 55, 56, 57}"
proof -
  assume d: "d < 10"
  have "list_all (\<lambda>d. ucast (radixDigits ! d) \<in> {48 :: u16, 49, 50, 51, 52, 53, 54, 55, 56, 57}) [0..<10]" by code_simp
  then show ?thesis using d by (auto simp: list_all_iff)
qed

lemma no_white:
  assumes "\<And>c. c \<in> set cs \<Longrightarrow> \<not> isStrWhiteSpace sp c"
  shows "dropWhile (isStrWhiteSpace sp) cs = cs" "trim_right sp cs = cs"
proof -
  show "dropWhile (isStrWhiteSpace sp) cs = cs" using assms by (cases cs) simp_all
  have "cs \<noteq> [] \<Longrightarrow> \<not> isStrWhiteSpace sp (hd (rev cs))" using assms [of "last cs"] by (simp add: hd_rev)
  then have "dropWhile (isStrWhiteSpace sp) (rev cs) = rev cs" by (auto simp: dropWhile_eq_self_iff)
  then show "trim_right sp cs = cs" by (simp add: trim_right_def)
qed

lemma digits_of_chars: "digits_of r cs = Some ds \<Longrightarrow> c \<in> set cs \<Longrightarrow> char_value r c \<noteq> None"
  by (induction cs arbitrary: ds) (auto split: option.splits)

lemma string_integer_string_in_radix:
  "string_integer sp (map ucast (string_in_radix 10 v)) = Some v" "\<not> empty_literal sp (map ucast (string_in_radix 10 v))"
proof -
  let ?s = "map ucast (string_in_radix 10 v) :: u16 list"
  define ds where "ds = rev (base_digits 10 (nat \<bar>v\<bar>))"
  define cs :: "u16 list" where "cs = map ucast (radix_chars ds)"
  have lt: "d < 10" if "d \<in> set ds" for d using that base_digits_lt [of 10 d] by (simp add: ds_def)
  have cs: "c \<in> {48, 49, 50, 51, 52, 53, 54, 55, 56, 57}" if "c \<in> set cs" for c
    using that decimal_chars lt by (auto simp: cs_def simp del: insert_iff)
  have val: "digits_of 10 cs = Some ds" unfolding cs_def using lt by (intro digits_of_radix_chars) simp_all
  have h: "int (horner 10 0 ds) = \<bar>v\<bar>" by (simp add: ds_def horner_rev base_digits_value)
  have ne: "cs \<noteq> []" if "v \<noteq> 0"
    using that base_digits_value [of 10 "nat \<bar>v\<bar>"] by (auto simp: cs_def ds_def)
  have s: "?s = (if v = 0 then [48] else if v < 0 then 45 # cs else cs)"
    by (simp add: string_in_radix_def cs_def ds_def)
  have "\<not> isStrWhiteSpace sp c" if "c \<in> set cs" for c
    using not_digit_white [of sp c 10] digits_of_chars [OF val that] by auto
  moreover have "\<not> isStrWhiteSpace sp 45" by (simp add: isStrWhiteSpace_def isWhiteSpace_def isLineTerminator_def)
  ultimately have all: "\<not> isStrWhiteSpace sp c" if "c \<in> set ?s" for c
    using that zero_not_white unfolding s by (auto split: if_splits)
  have t: "dropWhile (isStrWhiteSpace sp) ?s = ?s" "trim_right sp ?s = ?s"
    by (rule no_white, erule all)+
  have lit: "integer_literal cs = some_digits 10 cs" if "v \<noteq> 0"
  proof -
    have "cs \<noteq> []" by (rule ne [OF that])
    then obtain c es where "cs = c # es" by (cases cs) auto
    moreover have "c \<noteq> 45" "c \<noteq> 43" using cs [of c] \<open>cs = c # es\<close> by auto
    moreover have "es = [] \<or> hd es \<notin> {98, 66, 120, 88, 111, 79}"
      using cs [of "hd es"] \<open>cs = c # es\<close> by (cases es) auto
    ultimately show ?thesis by auto
  qed
  show "string_integer sp ?s = Some v"
    unfolding string_integer_def t unfolding s using lit ne val h
    by (auto simp: some_digits_def char_value_def)
  have "?s \<noteq> [43]" "?s \<noteq> [45]" unfolding s using ne cs [of 43] cs [of 45] by auto
  then show "\<not> empty_literal sp ?s" unfolding empty_literal_def t Let_def by simp
qed

lemma parse_string_in_radix:
  assumes "canonical x" "length (string_in_radix 10 (bigint_val x)) \<le> 2 ^ 18"
  shows "parseInt sp (map ucast (string_in_radix 10 (bigint_val x))) mode = Some (Inr (Some x))"
proof -
  have "answers mode (Some (bigint_val x)) (parseInt sp (map ucast (string_in_radix 10 (bigint_val x))) mode)"
    using parseInt_correct [of "map ucast (string_in_radix 10 (bigint_val x))" sp mode] assms(2)
    by (simp add: string_integer_string_in_radix)
  then show ?thesis using canonical_inj [OF _ assms(1)] by (auto simp: answers_def returns_value_def)
qed

lemma parseInt_radix_too_long:
  assumes "2 \<le> r" "r \<le> 36" "cs \<noteq> []" "hd cs \<noteq> 48" "digits_of r cs \<noteq> None"
  shows "parseInt_radix sp cs r mode sign = Some (Inl OutOfMemoryError) \<longleftrightarrow> maxLength < digits_needed_for r (length cs)"
proof -
  obtain ds where ds: "digits_of r cs = Some ds" using assms(5) by auto
  have d: "dropWhile (\<lambda>c. c = 48) cs = cs" using assms(3,4) by (cases cs) simp_all
  have nw: "\<not> isStrWhiteSpace sp c" if "c \<in> set cs" for c
    using not_digit_white [of sp c r] digits_of_chars [OF ds that] assms(1,2) by auto
  have t: "trim_right sp cs = cs" by (rule no_white(2), erule nw)
  have code: "parseInt_radix sp cs r mode sign = parse_loop mode sign r (length cs) cs None"
    using assms(3) unfolding parseInt_radix_def parseInt_from_eq d t by simp
  show ?thesis unfolding code using parse_loop_start [OF assms(1,2,3), of mode sign] ds
    by (auto simp: parses_to_def returns_value_def)
qed

end
