(* ===== verification/BigIntDouble.thy ===== *)
theory BigIntDouble
  imports BigIntParse
begin

text \<open>
  Big integers and doubles (\<open>createFrom\<close> for \<open>double\<close> and the other primitive types, \<open>compareToDouble\<close>, \<open>equalsToNumber\<close>,
  \<open>equalsToInt32\<close>, \<open>decideRounding\<close> and \<open>toNumberHeap\<close> of JSBigInt.cpp). A double is its 64 bits; its value is an
  integer number of the smallest positive double, \<open>double_num\<close>, so that a comparison with a big integer is one of
  integers and rounding is rounding of a natural number.
\<close>


section \<open>Doubles\<close>

text \<open>A \<open>double\<close> is its bit pattern, as the code reads it with \<open>bitwise_cast<uint64_t>\<close>. The C++ operations the code uses
  on it (comparison with zero, \<open>std::isnan\<close>) are written on the pattern, as IEEE 754 defines them.\<close>

type_synonym double_bits = "64 word"

definition raw_exponent :: "double_bits \<Rightarrow> nat" where
  "raw_exponent d = unat (drop_bit 52 d AND 0x7FF)"

definition double_zero :: "double_bits \<Rightarrow> bool" where
  "double_zero d = (take_bit 63 d = 0)"

definition double_isnan :: "double_bits \<Rightarrow> bool" where
  "double_isnan d = (raw_exponent d = 0x7FF \<and> take_bit 52 d \<noteq> 0)"

definition double_negative :: "double_bits \<Rightarrow> bool" where
  "double_negative d = (bit d 63 \<and> \<not> double_zero d \<and> \<not> double_isnan d)"

definition double_infinity :: "bool \<Rightarrow> double_bits" where
  "double_infinity sign = (if sign then 0xFFF0000000000000 else 0x7FF0000000000000)"

text \<open>The value of a finite double, in units of \<open>2 ** -1074\<close>, the smallest positive double.\<close>

definition finite_double :: "double_bits \<Rightarrow> bool" where
  "finite_double d \<longleftrightarrow> raw_exponent d < 0x7FF"

definition double_mag :: "double_bits \<Rightarrow> nat" where
  "double_mag d = (if raw_exponent d = 0 then unat d mod 2 ^ 52 else (2 ^ 52 + unat d mod 2 ^ 52) * 2 ^ (raw_exponent d - 1))"

definition double_num :: "double_bits \<Rightarrow> int" where
  "double_num d = with_sign (bit d 63) (int (double_mag d))"

definition unit_scale :: nat where "unit_scale = 2 ^ 1074"

section \<open>Creation from the other primitive types\<close>

definition createFrom_uint32 :: "u32 \<Rightarrow> js_bigint throws" where
  "createFrom_uint32 v =
     (if v = 0 then createZero
      else andThen (createWithLength 1) (\<lambda>bigInt. Inr (bigInt\<lparr>m_data := [ucast v]\<rparr>)))"

definition createFrom_uint64 :: "u64 \<Rightarrow> js_bigint throws" where
  "createFrom_uint64 v = createFromImpl v False"

definition createFrom_bool :: "bool \<Rightarrow> js_bigint throws" where
  "createFrom_bool v =
     (if \<not> v then createZero
      else andThen (createWithLength 1) (\<lambda>bigInt. Inr (bigInt\<lparr>m_data := [of_bool v]\<rparr>)))"

section \<open>The mantissa and the digits\<close>

text \<open>The most significant digit built from the mantissa, the rest of the mantissa, shifted to the left, and the number of
  its bits. Creation and comparison share this code.\<close>

definition align_mantissa :: "u64 \<Rightarrow> nat \<Rightarrow> digit \<times> u64 \<times> int" where
  "align_mantissa mantissa msdTopBit =
     (let mantissaTopBit = 52 in
      if msdTopBit < mantissaTopBit
      then let remainingMantissaBits = mantissaTopBit - msdTopBit
           in (drop_bit remainingMantissaBits mantissa, push_bit (64 - remainingMantissaBits) mantissa, int remainingMantissaBits)
      else (push_bit (msdTopBit - mantissaTopBit) mantissa, 0, 0))"

fun fill_digits :: "nat \<Rightarrow> u64 \<Rightarrow> int \<Rightarrow> digit list \<Rightarrow> digit list" where
  "fill_digits 0 mantissa remainingMantissaBits ds = ds"
| "fill_digits (Suc digitIndex) mantissa remainingMantissaBits ds =
     (let (digit, mantissa, remainingMantissaBits) =
        (if remainingMantissaBits > 0 then (mantissa, 0, remainingMantissaBits - int digitBits)
         else (0, mantissa, remainingMantissaBits))
      in fill_digits digitIndex mantissa remainingMantissaBits (ds[digitIndex := digit]))"

definition createFrom_double :: "double_bits \<Rightarrow> js_bigint throws" where
  "createFrom_double v =
     (if double_zero v then createZero
      else
        let sign = double_negative v;
            doubleBits = v;
            rawExponent = raw_exponent doubleBits;
            exponent = rawExponent - 0x3FF;
            digits = exponent div digitBits + 1
        in andThen (createWithLength digits) (\<lambda>result.
             let mantissa = (doubleBits AND mask 52) OR push_bit 52 1;
                 msdTopBit = exponent mod digitBits;
                 (digit, mantissa, remainingMantissaBits) = align_mantissa mantissa msdTopBit;
                 ds = (m_data result)[digits - 1 := digit];
                 ds = fill_digits (digits - 1) mantissa remainingMantissaBits ds
             in rightTrim (result\<lparr>m_sign := sign, m_data := ds\<rparr>)))"

section \<open>Comparison\<close>

definition equalsToInt32 :: "js_bigint \<Rightarrow> u32 \<Rightarrow> bool" where
  "equalsToInt32 this v =
     (if v = 0 then isZero this
      else bi_length this = 1 \<and> m_sign this = (v <s 0)
        \<and> m_data this ! 0 = (if v <s 0 then - scast v else scast v))"

text \<open>The loop over the digits below the most significant one.\<close>

fun compare_rest :: "bool \<Rightarrow> u64 \<Rightarrow> int \<Rightarrow> digit list \<Rightarrow> ComparisonResult" where
  "compare_rest xSign mantissa remainingMantissaBits [] =
     (if mantissa \<noteq> 0 then if xSign then GreaterThan else LessThan else Equal)"
| "compare_rest xSign mantissa remainingMantissaBits (digit # ds) =
     (let (compareMantissa, mantissa, remainingMantissaBits) =
        (if remainingMantissaBits > 0 then (mantissa, 0, remainingMantissaBits - int digitBits)
         else (0, mantissa, remainingMantissaBits))
      in if digit > compareMantissa then if xSign then LessThan else GreaterThan
         else if digit < compareMantissa then if xSign then GreaterThan else LessThan
         else compare_rest xSign mantissa remainingMantissaBits ds)"

definition compareToDouble :: "js_bigint \<Rightarrow> double_bits \<Rightarrow> ComparisonResult" where
  "compareToDouble x y =
     (let doubleBits = y; rawExponent = raw_exponent doubleBits
      in if rawExponent = 0x7FF
         then if double_isnan y then Undefined
              else if y = double_infinity False then LessThan else GreaterThan
         else
           let xSign = m_sign x; ySign = double_negative y
           in if xSign \<noteq> ySign then if xSign then LessThan else GreaterThan
              else if double_zero y then if isZero x then Equal else GreaterThan
              else if isZero x then LessThan
              else
                let mantissa = doubleBits AND mask 52;
                    exponent = int rawExponent - 0x3FF
                in if exponent < 0 then if xSign then LessThan else GreaterThan
                   else
                     let xLength = bi_length x;
                         xMSD = m_data x ! (xLength - 1);
                         msdLeadingZeros = clz xMSD;
                         xBitLength = int (xLength * digitBits - msdLeadingZeros);
                         yBitLength = exponent + 1
                     in if xBitLength < yBitLength then if xSign then GreaterThan else LessThan
                        else if xBitLength > yBitLength then if xSign then LessThan else GreaterThan
                        else
                          let mantissa = mantissa OR push_bit 52 1;
                              msdTopBit = digitBits - 1 - msdLeadingZeros;
                              (compareMantissa, mantissa, remainingMantissaBits) = align_mantissa mantissa msdTopBit
                          in if xMSD > compareMantissa then if xSign then LessThan else GreaterThan
                             else if xMSD < compareMantissa then if xSign then GreaterThan else LessThan
                             else compare_rest xSign mantissa remainingMantissaBits (rev (take (xLength - 1) (m_data x))))"

text \<open>A number value is an \<open>int32_t\<close> or a \<open>double\<close>.\<close>

datatype js_number = Int32Value u32 | DoubleValue double_bits

definition equalsToNumber :: "js_bigint \<Rightarrow> js_number \<Rightarrow> bool" where
  "equalsToNumber this numValue =
     (case numValue of
        Int32Value v \<Rightarrow> equalsToInt32 this v
      | DoubleValue v \<Rightarrow> compareToDouble this v = Equal)"

section \<open>Conversion\<close>

datatype RoundingResult = RoundDown | Tie | RoundUp

fun all_zero_below :: "digit list \<Rightarrow> bool" where
  "all_zero_below [] = True"
| "all_zero_below (d # ds) = (if d \<noteq> 0 then False else all_zero_below ds)"

definition decideRounding :: "js_bigint \<Rightarrow> int \<Rightarrow> nat \<Rightarrow> u64 \<Rightarrow> RoundingResult" where
  "decideRounding bigInt mantissaBitsUnset digitIndex currentDigit =
     (if mantissaBitsUnset > 0 then RoundDown
      else if mantissaBitsUnset = 0 \<and> digitIndex = 0 then RoundDown
      else
        let (topUnconsumedBit, digitIndex, currentDigit) =
          (if mantissaBitsUnset < 0 then (nat (- mantissaBitsUnset - 1), digitIndex, currentDigit)
           else (digitBits - 1, digitIndex - 1, m_data bigInt ! (digitIndex - 1)));
            bitmask = push_bit topUnconsumedBit 1
        in if currentDigit AND bitmask = 0 then RoundDown
           else if currentDigit AND (bitmask - 1) \<noteq> 0 then RoundUp
           else if \<not> all_zero_below (rev (take digitIndex (m_data bigInt))) then RoundUp
           else Tie)"

text \<open>The 52 bits of the mantissa below the leading bit, from the most significant digit and the next one; with them the
  index and the digit the bits were last taken from, and the number of mantissa bits not set, or, negative, of bits of that
  digit not used.\<close>

definition collect_mantissa :: "js_bigint \<Rightarrow> digit \<Rightarrow> nat \<Rightarrow> nat \<times> u64 \<times> u64 \<times> int" where
  "collect_mantissa bigInt msd msdLeadingZeros =
     (let currentDigit = msd;
          digitIndex = bi_length bigInt - 1;
          shiftAmount = msdLeadingZeros + 1 + (64 - digitBits);
          mantissa = (if shiftAmount = 64 then 0 else push_bit shiftAmount currentDigit);
          mantissa = drop_bit 12 mantissa;
          mantissaBitsUnset = int shiftAmount - 12
      in if mantissaBitsUnset > 0 \<and> digitIndex > 0
         then let digitIndex = digitIndex - 1;
                  currentDigit = m_data bigInt ! digitIndex
              in (digitIndex, currentDigit,
                  mantissa OR drop_bit (nat (int digitBits - mantissaBitsUnset)) currentDigit,
                  mantissaBitsUnset - int digitBits)
         else (digitIndex, currentDigit, mantissa, mantissaBitsUnset))"

definition pack_double :: "bool \<Rightarrow> nat \<Rightarrow> u64 \<Rightarrow> double_bits" where
  "pack_double sign exponent mantissa =
     (let signBit = (if sign then push_bit 63 1 else 0);
          exponent = push_bit 52 (of_nat (exponent + 0x3FF))
      in (signBit OR exponent) OR mantissa)"

definition toNumberHeap :: "js_bigint \<Rightarrow> double_bits" where
  "toNumberHeap bigInt =
     (if isZero bigInt then 0
      else
        let len = bi_length bigInt;
            sign = m_sign bigInt;
            msd = m_data bigInt ! (len - 1);
            msdLeadingZeros = clz msd;
            bitLength = len * digitBits - msdLeadingZeros
        in if bitLength > 1024 then double_infinity sign
           else
             let exponent = bitLength - 1;
                 (digitIndex, currentDigit, mantissa, mantissaBitsUnset) = collect_mantissa bigInt msd msdLeadingZeros;
                 rounding = decideRounding bigInt mantissaBitsUnset digitIndex currentDigit
             in if rounding = RoundUp \<or> rounding = Tie \<and> mantissa AND 1 = 1
                then
                  let mantissa = mantissa + 1
                  in if drop_bit 52 mantissa \<noteq> 0
                     then if exponent + 1 > 1023 then double_infinity sign
                          else pack_double sign (exponent + 1) 0
                     else pack_double sign exponent mantissa
                else pack_double sign exponent mantissa)"

section \<open>The parts of a double\<close>

lemma raw_exponent_eq: "raw_exponent d = unat d div 2 ^ 52 mod 2 ^ 11"
proof -
  have m: "(0x7FF :: u64) = mask 11" by (simp add: mask_eq_exp_minus_1)
  show ?thesis unfolding raw_exponent_def m unat_and_mask_mod unat_drop_bit_div ..
qed

lemma raw_exponent_lt: "raw_exponent d < 2 ^ 11"
  unfolding raw_exponent_eq by (rule mod_less_divisor) simp

lemma mantissa_value: "unat (((d AND mask 52) OR push_bit 52 1) :: u64) = 2 ^ 52 + unat d mod 2 ^ 52"
proof -
  have d: "(d AND mask 52) AND push_bit 52 1 = (0 :: u64)"
  proof (rule bit_eqI)
    fix n
    show "bit ((d AND mask 52) AND push_bit 52 1 :: u64) n = bit 0 n"
      unfolding bit_and_iff bit_mask_iff bit_push_bit_iff by auto
  qed
  have "((d AND mask 52) OR push_bit 52 1 :: u64) = (d AND mask 52) + push_bit 52 1"
    by (rule disjunctive_add_eq_or [OF d, symmetric])
  moreover have "unat (push_bit 52 1 :: u64) = 2 ^ 52" unfolding unat_push_bit_mod by simp
  moreover have "unat d mod 2 ^ 52 < 2 ^ 52" by (rule mod_less_divisor) simp
  ultimately show ?thesis by (simp only: unat_word_ariths unat_and_mask_mod) simp
qed

lemma double_zero_iff: "double_zero d \<longleftrightarrow> double_mag d = 0"
proof -
  have "double_zero d \<longleftrightarrow> unat d mod 2 ^ 63 = 0"
    unfolding double_zero_def word_unat_eq_iff unat_take_bit_mod by simp
  also have "\<dots> \<longleftrightarrow> raw_exponent d = 0 \<and> unat d mod 2 ^ 52 = 0"
  proof -
    have "unat d mod (2 ^ 52 * 2 ^ 11) = 2 ^ 52 * (unat d div 2 ^ 52 mod 2 ^ 11) + unat d mod 2 ^ 52"
      by (rule mod_mult2_eq)
    then show ?thesis by (simp add: raw_exponent_eq)
  qed
  finally show ?thesis by (auto simp: double_mag_def)
qed

lemma align_mantissa_correct:
  assumes "align_mantissa m t = (c, m', rem)" "unat m < 2 ^ 53" "t < 64"
  shows "unat c * 2 ^ 64 + unat m' = unat m * 2 ^ (t + 12)" "rem \<le> 0 \<Longrightarrow> m' = 0" "rem \<le> 64" "rem \<le> 0 \<or> t < 52"
proof -
  show "unat c * 2 ^ 64 + unat m' = unat m * 2 ^ (t + 12)"
  proof (cases "t < 52")
    case True
    then have c: "c = drop_bit (52 - t) m" and m': "m' = push_bit (64 - (52 - t)) m"
      using assms(1) by (simp_all add: align_mantissa_def Let_def)
    have p: "(2 :: nat) ^ 64 = 2 ^ (52 - t) * 2 ^ (t + 12)" using True by (simp flip: power_add)
    have e: "64 - (52 - t) = t + 12" using True by simp
    have "unat m' = unat m * 2 ^ (t + 12) mod 2 ^ 64"
      unfolding m' e unat_push_bit_mod by simp
    also have "\<dots> = (unat m mod 2 ^ (52 - t)) * 2 ^ (t + 12)" unfolding p by (rule mult_mod_left [symmetric])
    finally have "unat m' = (unat m mod 2 ^ (52 - t)) * 2 ^ (t + 12)" .
    moreover have "unat c = unat m div 2 ^ (52 - t)" unfolding c by (rule unat_drop_bit_div)
    ultimately have "unat c * 2 ^ 64 + unat m' =
        (unat m div 2 ^ (52 - t) * 2 ^ (52 - t) + unat m mod 2 ^ (52 - t)) * 2 ^ (t + 12)"
      unfolding p by (simp only: algebra_simps)
    then show ?thesis by (simp only: div_mult_mod_eq)
  next
    case False
    then have c: "c = push_bit (t - 52) m" and m': "m' = 0"
      using assms(1) by (simp_all add: align_mantissa_def Let_def)
    have "unat m * 2 ^ (t - 52) < 2 ^ 53 * 2 ^ (t - 52)" using assms(2) by (intro mult_strict_right_mono) simp_all
    also have "\<dots> \<le> 2 ^ 64" using assms(3) unfolding power_add [symmetric] by (intro power_increasing) simp_all
    finally have "unat c = unat m * 2 ^ (t - 52)"
      unfolding c unat_push_bit_mod by simp
    moreover have "t + 12 = (t - 52) + 64" using False by simp
    then have "(2 :: nat) ^ (t + 12) = 2 ^ (t - 52) * 2 ^ 64" by (simp only: power_add)
    ultimately show ?thesis unfolding m' by simp
  qed
qed (use assms in \<open>auto simp: align_mantissa_def Let_def split: if_splits\<close>)

section \<open>The comparison is exact\<close>

definition signed_compare :: "bool \<Rightarrow> nat \<Rightarrow> nat \<Rightarrow> ComparisonResult" where
  "signed_compare s a b = int_compare (with_sign s (int a)) (with_sign s (int b))"

lemma signed_compare_simps:
  "a < b \<Longrightarrow> signed_compare s a b = (if s then GreaterThan else LessThan)"
  "b < a \<Longrightarrow> signed_compare s a b = (if s then LessThan else GreaterThan)"
  "signed_compare s a a = Equal"
  by (simp_all add: signed_compare_def int_compare_def with_sign_def)

lemma signed_compare_scale: "0 < k \<Longrightarrow> signed_compare s (a * k) (b * k) = signed_compare s a b"
  by (cases a b rule: linorder_cases) (simp_all add: signed_compare_simps)

lemma signed_compare_add: "signed_compare s (c + a) (c + b) = signed_compare s a b"
  by (cases a b rule: linorder_cases) (simp_all add: signed_compare_simps)

lemma nval_lt: "nval ds < 2 ^ (64 * length ds)"
proof -
  have "int (nval ds) < int (2 ^ (64 * length ds))" using dval_less [of ds] by (simp add: nval_dval dbase_power)
  then show ?thesis by (simp only: of_nat_less_iff)
qed

text \<open>A comparison of two numbers by their upper parts.\<close>

lemma signed_compare_upper:
  assumes "l < B" "l' < B"
  shows "h < h' \<Longrightarrow> signed_compare s (h * B + l) (h' * B + l') = (if s then GreaterThan else LessThan)"
    "h' < h \<Longrightarrow> signed_compare s (h * B + l) (h' * B + l') = (if s then LessThan else GreaterThan)"
    "h = h' \<Longrightarrow> signed_compare s (h * B + l) (h' * B + l') = signed_compare s l l'"
proof -
  have lt: "h * B + l < h' * B + l'" if "h < h'" "l < B" for h h' l l'
  proof -
    have "(h + 1) * B \<le> h' * B" using that(1) by (intro mult_right_mono) simp_all
    then show ?thesis using that(2) by simp
  qed
  show "h < h' \<Longrightarrow> signed_compare s (h * B + l) (h' * B + l') = (if s then GreaterThan else LessThan)"
    using lt assms signed_compare_simps(1) by blast
  show "h' < h \<Longrightarrow> signed_compare s (h * B + l) (h' * B + l') = (if s then LessThan else GreaterThan)"
    using lt assms signed_compare_simps(2) by blast
  show "h = h' \<Longrightarrow> signed_compare s (h * B + l) (h' * B + l') = signed_compare s l l'"
    by (simp add: signed_compare_add)
qed

lemma compare_rest_correct:
  assumes "rem \<le> 0 \<Longrightarrow> m = 0" "rem \<le> 64"
  shows "compare_rest s m rem (rev ds) = signed_compare s (nval ds * 2 ^ 64) (unat m * 2 ^ (64 * length ds))"
  using assms
proof (induction ds arbitrary: m rem rule: rev_induct)
  case Nil
  show ?case by (cases "m = 0") (simp_all add: signed_compare_simps unat_gt_0)
next
  case (snoc d ds)
  define rem' where "rem' = (if rem > 0 then rem - 64 else rem)"
  have step: "compare_rest s m rem (rev (ds @ [d])) =
      (if d > m then if s then LessThan else GreaterThan
       else if d < m then if s then GreaterThan else LessThan
       else compare_rest s 0 rem' (rev ds))"
    using snoc.prems(1) by (cases "rem > 0") (simp_all add: digitBits_def rem'_def)
  have IH: "compare_rest s 0 rem' (rev ds) = signed_compare s (nval ds * 2 ^ 64) 0"
    using snoc.IH [of rem' 0] snoc.prems(2) by (simp add: rem'_def)
  let ?B = "2 ^ (64 * length ds)"
  have "nval (ds @ [d]) * 2 ^ 64 = (unat d * ?B + nval ds) * 2 ^ 64"
    by (simp add: nval_append)
  moreover have "unat m * 2 ^ (64 * length (ds @ [d])) = (unat m * ?B + 0) * 2 ^ 64"
    by (simp add: power_add)
  ultimately have eq: "signed_compare s (nval (ds @ [d]) * 2 ^ 64) (unat m * 2 ^ (64 * length (ds @ [d])))
      = signed_compare s (unat d * ?B + nval ds) (unat m * ?B + 0)"
    by (simp only: signed_compare_scale zero_less_power zero_less_numeral)
  have pos: "(0 :: nat) < ?B" by simp
  have zero: "signed_compare s (nval ds * 2 ^ 64) 0 = signed_compare s (nval ds) 0"
    using signed_compare_scale [of "2 ^ 64" s "nval ds" 0] by simp
  note up = signed_compare_upper [OF nval_lt [of ds] pos]
  show ?case unfolding step eq IH zero
    using up(1) [of "unat d" "unat m" s] up(2) [of "unat m" "unat d" s] up(3) [of "unat d" "unat m" s]
    by (cases d m rule: linorder_cases) (simp_all add: word_less_nat_alt)
qed


section \<open>Comparing a big integer and a double\<close>

lemma double_mag_normal:
  assumes "raw_exponent d = e + 1023"
  shows "double_mag d = unat ((d AND mask 52) OR push_bit 52 1 :: u64) * 2 ^ (e + 1022)"
  unfolding mantissa_value double_mag_def using assms by simp

lemma double_mag_small:
  assumes "raw_exponent d < 1023"
  shows "double_mag d < unit_scale"
proof -
  have m: "unat d mod 2 ^ 52 < 2 ^ 52" by (rule mod_less_divisor) simp
  show ?thesis
  proof (cases "raw_exponent d = 0")
    case True
    have "(2 :: nat) ^ 52 \<le> 2 ^ 1074" by (intro power_increasing) simp_all
    moreover have "double_mag d = unat d mod 2 ^ 52" using True by (simp add: double_mag_def)
    ultimately show ?thesis unfolding unit_scale_def using m by linarith
  next
    case False
    have "double_mag d = (2 ^ 52 + unat d mod 2 ^ 52) * 2 ^ (raw_exponent d - 1)"
      unfolding double_mag_def using False by simp
    also have "\<dots> < 2 ^ 53 * 2 ^ (raw_exponent d - 1)" using m by (intro mult_strict_right_mono) simp_all
    also have "\<dots> \<le> 2 ^ 1074" using assms unfolding power_add [symmetric] by (intro power_increasing) simp_all
    finally show ?thesis unfolding unit_scale_def .
  qed
qed

lemma double_mag_bounds:
  assumes "raw_exponent d = e + 1023"
  shows "2 ^ e * unit_scale \<le> double_mag d" "double_mag d < 2 ^ (e + 1) * unit_scale"
proof -
  have m: "unat d mod 2 ^ 52 < 2 ^ 52" by (rule mod_less_divisor) simp
  have s: "2 ^ e * unit_scale = 2 ^ 52 * 2 ^ (e + 1022)" "2 ^ (e + 1) * unit_scale = 2 ^ 53 * 2 ^ (e + 1022)"
    unfolding unit_scale_def power_add [symmetric] by (intro arg_cong [where f = "(^) 2"]; simp)+
  have M: "2 ^ 52 \<le> unat ((d AND mask 52) OR push_bit 52 1 :: u64)" "unat ((d AND mask 52) OR push_bit 52 1 :: u64) < 2 ^ 53"
    unfolding mantissa_value using m by simp_all
  show "2 ^ e * unit_scale \<le> double_mag d" unfolding double_mag_normal [OF assms] s using M(1) by (rule mult_right_mono) simp
  show "double_mag d < 2 ^ (e + 1) * unit_scale"
    unfolding double_mag_normal [OF assms] s using M(2) by (rule mult_strict_right_mono) simp
qed

lemma double_negative_iff: "finite_double d \<Longrightarrow> double_negative d \<longleftrightarrow> double_num d < 0"
  by (auto simp: double_negative_def double_num_def with_sign_def double_zero_iff double_isnan_def finite_double_def)

lemma signed_compare_num: "finite_double d \<Longrightarrow> double_negative d = s \<Longrightarrow> double_num d = with_sign s (int (double_mag d))"
  by (auto simp: double_negative_def double_num_def with_sign_def double_zero_iff double_isnan_def finite_double_def)

text \<open>The digits against the aligned mantissa, when both numbers have the same number of bits.\<close>

lemma compare_aligned:
  assumes "ds \<noteq> []" "last ds \<noteq> 0" "raw_exponent y = e + 1023" "length ds * 64 - clz (last ds) = e + 1"
    "align_mantissa ((y AND mask 52) OR push_bit 52 1) (63 - clz (last ds)) = (c, m', rem)"
  shows "signed_compare s (nval ds * unit_scale) (double_mag y) =
    (if last ds > c then if s then LessThan else GreaterThan
     else if last ds < c then if s then GreaterThan else LessThan
     else compare_rest s m' rem (rev (take (length ds - 1) ds)))"
proof -
  define k where "k = length ds - 1"
  define t where "t = 63 - clz (last ds)"
  define M where "M = unat ((y AND mask 52) OR push_bit 52 1 :: u64)"
  define xs where "xs = take k ds"
  have ds: "ds = xs @ [last ds]" using assms(1) unfolding xs_def k_def butlast_conv_take [symmetric] by simp
  have len: "length xs = k" "length ds = Suc k" using assms(1) by (simp_all add: xs_def k_def)
  have "clz (last ds) < 64" using clz_bounds [OF assms(2)] by simp
  then have e: "e = 64 * k + t" using assms(4) by (simp add: t_def len)
  have "unat y mod 2 ^ 52 < 2 ^ 52" by (rule mod_less_divisor) simp
  then have M: "M < 2 ^ 53" unfolding M_def mantissa_value by simp
  note al = align_mantissa_correct [OF assms(5)[folded t_def] M [unfolded M_def], folded M_def]
  have t: "t < 64" by (simp add: t_def)
  let ?B = "2 ^ (64 * k) :: nat"
  have U: "unit_scale = 2 ^ 64 * 2 ^ 1010" unfolding unit_scale_def by (simp flip: power_add)
  have y: "double_mag y = (unat c * (?B * 2 ^ 64) + unat m' * ?B) * 2 ^ 1010"
  proof -
    have "e + 1022 = (t + 12) + 64 * k + 1010" using e by simp
    then have "double_mag y = M * 2 ^ (t + 12) * ?B * 2 ^ 1010"
      unfolding double_mag_normal [OF assms(3)] M_def by (simp only: power_add mult.assoc)
    then show ?thesis unfolding al(1) [OF t, symmetric] by (simp only: distrib_right mult.assoc mult.commute [of "2 ^ 64" ?B])
  qed
  have "nval ds = unat (last ds) * ?B + nval xs" by (subst ds) (simp add: nval_append len)
  then have "nval ds * unit_scale = (unat (last ds) * (?B * 2 ^ 64) + nval xs * 2 ^ 64) * 2 ^ 1010"
    unfolding U by (simp only: distrib_right mult.assoc)
  then have eq: "signed_compare s (nval ds * unit_scale) (double_mag y) =
      signed_compare s (unat (last ds) * (?B * 2 ^ 64) + nval xs * 2 ^ 64) (unat c * (?B * 2 ^ 64) + unat m' * ?B)"
    unfolding y by (simp only: signed_compare_scale zero_less_power zero_less_numeral)
  have low: "nval xs * 2 ^ 64 < ?B * 2 ^ 64" "unat m' * ?B < ?B * 2 ^ 64"
  proof -
    show "nval xs * 2 ^ 64 < ?B * 2 ^ 64" using nval_lt [of xs] unfolding len by (rule mult_strict_right_mono) simp
    have "unat m' < 2 ^ 64" using unsigned_less [of m'] by simp
    then have "unat m' * ?B < 2 ^ 64 * ?B" by (rule mult_strict_right_mono) simp
    then show "unat m' * ?B < ?B * 2 ^ 64" by (simp only: mult.commute)
  qed
  have rest: "compare_rest s m' rem (rev xs) = signed_compare s (nval xs * 2 ^ 64) (unat m' * ?B)"
    using compare_rest_correct [of rem m' s xs] al(2,3) t by (simp only: len)
  note up = signed_compare_upper [OF low]
  show ?thesis unfolding eq xs_def [symmetric, unfolded k_def] rest
    using up(1) [of "unat (last ds)" "unat c" s] up(2) [of "unat c" "unat (last ds)" s] up(3) [of "unat (last ds)" "unat c" s]
    by (cases "last ds" c rule: linorder_cases) (simp_all add: word_less_nat_alt)
qed

lemma compareToDouble_finite:
  assumes "canonical x" "finite_double y"
  shows "compareToDouble x y = int_compare (bigint_val x * int unit_scale) (double_num y)"
proof -
  have U: "0 < unit_scale" by (simp add: unit_scale_def)
  have r: "raw_exponent y \<noteq> 0x7FF" using assms(2) by (simp add: finite_double_def)
  note xs = canonicalD(6) [OF assms(1)] and xz = canonicalD(5) [OF assms(1)]
  have xv: "bigint_val x = with_sign (m_sign x) (int (nval (m_data x)))" by (simp add: bigint_val_with_sign nval_dval)
  show ?thesis
  proof (cases "m_sign x = double_negative y")
    case False
    have "int_compare (bigint_val x * int unit_scale) (double_num y) = (if m_sign x then LessThan else GreaterThan)"
    proof (cases "m_sign x")
      case True
      then have "bigint_val x * int unit_scale < 0" using xs U by (simp add: mult_neg_pos)
      moreover have "0 \<le> double_num y" using True False double_negative_iff [OF assms(2)] by simp
      ultimately show ?thesis using True by (simp add: int_compare_def)
    next
      case pos: False
      then have "0 \<le> bigint_val x * int unit_scale" using xs by simp
      moreover have "double_num y < 0" using pos False double_negative_iff [OF assms(2)] by simp
      ultimately show ?thesis using pos by (simp add: int_compare_def)
    qed
    then show ?thesis using r False unfolding compareToDouble_def Let_def by simp
  next
    case same: True
    define s where "s = m_sign x"
    define n where "n = nval (m_data x)"
    have goal: "int_compare (bigint_val x * int unit_scale) (double_num y) = signed_compare s (n * unit_scale) (double_mag y)"
      unfolding xv signed_compare_num [OF assms(2) same [symmetric]] signed_compare_def s_def [symmetric] n_def [symmetric]
      by (simp add: with_sign_def)
    have z: "isZero x \<longleftrightarrow> n = 0" unfolding xz xv n_def by (simp add: with_sign_def)
    have zn: "double_negative y \<Longrightarrow> double_mag y \<noteq> 0" by (auto simp: double_negative_def double_zero_iff)
    have sn: "s \<Longrightarrow> n \<noteq> 0" using xs unfolding xv s_def n_def by (auto simp: with_sign_def)
    show ?thesis
    proof (cases "double_zero y \<or> isZero x")
      case True
      then have "compareToDouble x y = signed_compare s (n * unit_scale) (double_mag y)"
        using r same z U sn zn unfolding compareToDouble_def Let_def double_zero_iff
        by (auto simp: signed_compare_simps s_def [symmetric] simp del: of_nat_mult)
      then show ?thesis unfolding goal .
    next
      case nz: False
      then have n0: "0 < n" "0 < double_mag y" using z double_zero_iff by auto
      show ?thesis
      proof (cases "raw_exponent y < 1023")
        case True
        have "double_mag y < n * unit_scale" using double_mag_small [OF True] n0(1) by (simp add: Suc_le_eq order_less_le_trans)
        then have "signed_compare s (n * unit_scale) (double_mag y) = (if s then LessThan else GreaterThan)"
          by (rule signed_compare_simps(2))
        then show ?thesis unfolding goal using r same nz True
          unfolding compareToDouble_def Let_def by (simp add: s_def)
      next
        case False
        then obtain e where e: "raw_exponent y = e + 1023" by (metis add.commute le_Suc_ex linorder_not_less)
        define ds where "ds = m_data x"
        have ne: "ds \<noteq> []" using n0(1) by (auto simp: n_def ds_def)
        have last: "last ds \<noteq> 0" using canonicalD(1) [OF assms(1)] ne by (simp add: trimmed_def ds_def)
        define L where "L = length ds * 64 - clz (last ds)"
        note bl = bit_length [OF ne last, folded L_def, folded n_def [folded ds_def]]
        have msd: "m_data x ! (bi_length x - 1) = last ds" using ne by (simp add: bi_length_def last_conv_nth ds_def)
        obtain c m' rem where al: "align_mantissa ((y AND mask 52) OR push_bit 52 1) (63 - clz (last ds)) = (c, m', rem)"
          by (metis prod_cases3)
        have code: "compareToDouble x y =
          (if int L < int e + 1 then if s then GreaterThan else LessThan
           else if int L > int e + 1 then if s then LessThan else GreaterThan
           else if last ds > c then if s then LessThan else GreaterThan
           else if last ds < c then if s then GreaterThan else LessThan
           else compare_rest s m' rem (rev (take (bi_length x - 1) ds)))"
          using r same nz False al unfolding compareToDouble_def Let_def msd
          by (simp add: e s_def [symmetric] L_def bi_length_def ds_def [symmetric] digitBits_def)
        have U2: "n * unit_scale < double_mag y" if "L < e + 1"
        proof -
          have "(2 :: nat) ^ L \<le> 2 ^ e" using that by (intro power_increasing) simp_all
          then have "n * unit_scale < 2 ^ e * unit_scale" using bl(2) U by (intro mult_strict_right_mono) linarith+
          then show ?thesis using double_mag_bounds(1) [OF e] by linarith
        qed
        have U3: "double_mag y < n * unit_scale" if "e + 1 < L"
        proof -
          have "(2 :: nat) ^ (e + 1) \<le> 2 ^ (L - 1)" using that by (intro power_increasing) simp_all
          then have "2 ^ (e + 1) * unit_scale \<le> n * unit_scale" using bl(1) by (intro mult_right_mono) linarith+
          then show ?thesis using double_mag_bounds(2) [OF e] by linarith
        qed
        consider "L < e + 1" | "e + 1 < L" | "L = e + 1" by linarith
        then show ?thesis
        proof cases
          case 1
          then show ?thesis unfolding goal signed_compare_simps(1) [OF U2 [OF 1]] by (simp add: code)
        next
          case 2
          then show ?thesis unfolding goal signed_compare_simps(2) [OF U3 [OF 2]] by (simp add: code)
        next
          case 3
          have "nval ds = n" by (simp add: n_def ds_def)
          then show ?thesis unfolding goal using compare_aligned [OF ne last e 3 [unfolded L_def] al, of s] 3
            by (simp add: code bi_length_def ds_def [symmetric])
        qed
      qed
    qed
  qed
qed


section \<open>Creation from a double\<close>

definition integer_double :: "double_bits \<Rightarrow> bool" where
  "integer_double d \<longleftrightarrow> finite_double d \<and> unit_scale dvd double_mag d"

lemma fill_digits_correct:
  assumes "n \<le> length ds" "rem \<le> 0 \<Longrightarrow> m = 0" "rem \<le> 64"
  shows "length (fill_digits n m rem ds) = length ds \<and> drop n (fill_digits n m rem ds) = drop n ds
    \<and> (n = 0 \<or> nval (take n (fill_digits n m rem ds)) = unat m * 2 ^ (64 * (n - 1)))"
  using assms
proof (induction n arbitrary: m rem ds)
  case (Suc n)
  define rem' where "rem' = (if rem > 0 then rem - 64 else rem)"
  let ?ds = "ds[n := m]"
  have step: "fill_digits (Suc n) m rem ds = fill_digits n 0 rem' ?ds"
    using Suc.prems(2) by (cases "rem > 0") (simp_all add: digitBits_def rem'_def)
  have n: "n \<le> length ?ds" "n < length ds" using Suc.prems(1) by simp_all
  have r: "rem' \<le> 64" using Suc.prems(3) by (simp add: rem'_def)
  let ?f = "fill_digits n 0 rem' ?ds"
  have IH: "length ?f = length ds" "drop n ?f = drop n ?ds" "n = 0 \<or> nval (take n ?f) = 0"
    using Suc.IH [OF n(1) _ r, of 0] by auto
  have "drop (Suc n) ?f = drop 1 (drop n ?f)" by simp
  also have "\<dots> = drop (Suc n) ds" unfolding IH(2) by simp
  finally have drop: "drop (Suc n) ?f = drop (Suc n) ds" .
  have "?f ! n = (drop n ?f) ! 0" using IH(1) n(2) by simp
  also have "\<dots> = m" unfolding IH(2) using n(2) by simp
  finally have "?f ! n = m" .
  moreover have "take (Suc n) ?f = take n ?f @ [?f ! n]" using IH(1) n(2) by (intro take_Suc_conv_app_nth) simp
  moreover have "length (take n ?f) = n" using IH(1) n(2) by simp
  moreover have "nval (take n ?f) = 0" using IH(3) by auto
  ultimately have "nval (take (Suc n) ?f) = unat m * 2 ^ (64 * n)" by (simp add: nval_append)
  then show ?case unfolding step using drop IH(1) by simp
qed simp

lemma regroup_shift: "a * X = m * P \<Longrightarrow> (a + P * c) * (X * Z) = (c * X + m) * (P * Z)" for a :: nat
proof -
  assume "a * X = m * P"
  then have "(a * X + P * c * X) * Z = (m * P + P * c * X) * Z" by simp
  then show ?thesis by (simp only: algebra_simps)
qed

lemma createFrom_double_correct:
  assumes "integer_double d"
  shows "\<exists>x. createFrom_double d = Inr x \<and> canonical x \<and> bigint_val x * int unit_scale = double_num d"
proof (cases "double_zero d")
  case True
  then show ?thesis by (simp add: createFrom_double_def createZero_eq double_num_def double_zero_iff with_sign_def)
next
  case False
  have fin: "finite_double d" and int: "unit_scale dvd double_mag d" using assms by (simp_all add: integer_double_def)
  have U: "0 < unit_scale" by (simp add: unit_scale_def)
  have U2: "unit_scale = 2 ^ 64 * 2 ^ 1010" unfolding unit_scale_def by (simp flip: power_add)
  have mag: "0 < double_mag d" using False double_zero_iff by auto
  have "unit_scale \<le> double_mag d" using int mag by (rule dvd_imp_le)
  then have "\<not> raw_exponent d < 1023" using double_mag_small [of d] by linarith
  then obtain e where e: "raw_exponent d = e + 1023" by (metis add.commute le_Suc_ex linorder_not_less)
  have e1024: "e < 1024" using fin e by (simp add: finite_double_def)
  define k where "k = e div 64"
  define t where "t = e mod 64"
  have ekt: "e = 64 * k + t" by (simp add: k_def t_def)
  have t: "t < 64" by (simp add: t_def)
  define M where "M = unat ((d AND mask 52) OR push_bit 52 1 :: u64)"
  have "unat d mod 2 ^ 52 < 2 ^ 52" by (rule mod_less_divisor) simp
  then have M: "M < 2 ^ 53" unfolding M_def mantissa_value by simp
  obtain c m' rem where al: "align_mantissa ((d AND mask 52) OR push_bit 52 1) t = (c, m', rem)" by (metis prod_cases3)
  note alc = align_mantissa_correct [OF al M [unfolded M_def] t, folded M_def]
  define ds where "ds = fill_digits k m' rem ((replicate (k + 1) 0)[k := c])"
  have len: "k + 1 \<le> maxLength" using e1024 by (simp add: k_def maxLength_def maxLengthBits_def digitBits_def)
  have code: "createFrom_double d = rightTrim \<lparr>m_sign = double_negative d, m_data = ds\<rparr>"
    unfolding createFrom_double_def Let_def using False al createWithLength_Inr [OF len]
    by (simp add: e digitBits_def k_def [symmetric] t_def [symmetric] ds_def)
  have init: "(replicate (k + 1) 0)[k := c] = replicate k 0 @ [c]"
    unfolding replicate_add by (simp add: list_update_append)
  have f: "length ds = k + 1" "drop k ds = [c]" "k = 0 \<or> nval (take k ds) = unat m' * 2 ^ (64 * (k - 1))"
    unfolding ds_def init using fill_digits_correct [of k "replicate k 0 @ [c]" rem m'] alc(2,3) by simp_all
  have "nval ds = nval (take k ds) + 2 ^ (64 * k) * unat c"
    using nval_append [of "take k ds" "drop k ds", unfolded append_take_drop_id] f(1,2) by simp
  moreover have mag_eq: "double_mag d = (unat c * 2 ^ 64 + unat m') * (2 ^ (64 * k) * 2 ^ 1010)"
  proof -
    have "e + 1022 = (t + 12) + (64 * k + 1010)" using ekt by simp
    then show ?thesis unfolding double_mag_normal [OF e] M_def [symmetric] alc(1) by (simp only: power_add mult.assoc)
  qed
  moreover have "nval (take k ds) * 2 ^ 64 = unat m' * 2 ^ (64 * k)"
  proof (cases "k = 0")
    case True
    have "2 ^ 64 * 2 ^ 1010 dvd (unat c * 2 ^ 64 + unat m') * 2 ^ 1010"
      using int mag_eq True unfolding U2 by (simp only: mult_0_right power_0 mult_1_left)
    then have "2 ^ 64 dvd unat c * 2 ^ 64 + unat m'" by (subst (asm) dvd_times_right_cancel_iff) simp_all
    then have "2 ^ 64 dvd unat m'" by (simp only: dvd_add_right_iff dvd_triv_right)
    moreover have "unat m' < 2 ^ 64" using unsigned_less [of m'] by simp
    ultimately have "unat m' = 0" by (metis dvd_imp_le gr0I linorder_not_less)
    then show ?thesis using True by simp
  next
    case False
    then have "2 ^ (64 * (k - 1)) * 2 ^ 64 = (2 :: nat) ^ (64 * k)" unfolding power_add [symmetric] by (simp add: algebra_simps)
    then show ?thesis using f(3) False by simp
  qed
  ultimately have val: "nval ds * unit_scale = double_mag d"
    unfolding U2 by (simp only: regroup_shift)
  have "length ds \<le> maxLength" "ds \<noteq> []" using f(1) len by auto
  then obtain x where x: "rightTrim \<lparr>m_sign = double_negative d, m_data = ds\<rparr> = Inr x" "canonical x"
    "bigint_val x = with_sign (double_negative d) (dval ds)" by (rule rightTrim_with_sign)
  have "bigint_val x * int unit_scale = with_sign (double_negative d) (int (nval ds * unit_scale))"
    unfolding x(3) nval_dval [symmetric] by (simp add: with_sign_def)
  also have "\<dots> = double_num d" unfolding val by (rule signed_compare_num [OF fin refl, symmetric])
  finally show ?thesis unfolding code x(1) using x(2) by blast
qed


lemma createFrom_small:
  "\<exists>x. createFrom_uint32 u = Inr x \<and> canonical x \<and> bigint_val x = uint u"
  "\<exists>x. createFrom_uint64 w = Inr x \<and> canonical x \<and> bigint_val x = uint w"
  "\<exists>x. createFrom_bool b = Inr x \<and> canonical x \<and> bigint_val x = of_bool b"
proof -
  have one: "canonical \<lparr>m_sign = False, m_data = [d]\<rparr>" "bigint_val \<lparr>m_sign = False, m_data = [d]\<rparr> = uint d" if "d \<noteq> 0" for d
    using that by (simp_all add: canonical_def trimmed_def bi_length_def bigint_val_def maxLength_def maxLengthBits_def digitBits_def)
  have len: "createWithLength (Suc 0) = Inr \<lparr>m_sign = False, m_data = [0]\<rparr>"
    using createWithLength_Inr [of "Suc 0"] by (simp add: maxLength_def maxLengthBits_def digitBits_def)
  have uw: "uint (ucast u :: digit) = uint u" by (simp add: uint_ucast_widen)
  have "(ucast u :: digit) \<noteq> 0" if "u \<noteq> 0" using that uw by (auto simp: word_uint_eq_iff)
  then show "\<exists>x. createFrom_uint32 u = Inr x \<and> canonical x \<and> bigint_val x = uint u"
    using one [of "ucast u"] uw by (simp add: createFrom_uint32_def createZero_eq len)
  show "\<exists>x. createFrom_uint64 w = Inr x \<and> canonical x \<and> bigint_val x = uint w"
    using one [of w] by (simp add: createFrom_uint64_def createFromImpl_def createZero_eq len)
  show "\<exists>x. createFrom_bool b = Inr x \<and> canonical x \<and> bigint_val x = of_bool b"
    using one [of 1] by (simp add: createFrom_bool_def createZero_eq len)
qed

lemma equalsToInt32_correct:
  assumes "canonical x"
  shows "equalsToInt32 x v \<longleftrightarrow> bigint_val x = sint v"
proof -
  have "equalsToInt32 x v \<longleftrightarrow> x = int32Impl v"
    using assms by (cases x; cases "m_data x") (auto simp: equalsToInt32_def int32Impl_def isZero_def bi_length_def canonical_def)
  then show ?thesis using canonical_inj [OF assms int32Impl_correct(1)] int32Impl_correct(2) by metis
qed



section \<open>Rounding\<close>

definition round_half_even :: "nat \<Rightarrow> nat \<Rightarrow> nat" where
  "round_half_even n u =
     (let q = n div 2 ^ u; r = n mod 2 ^ u
      in if 2 * r < 2 ^ u \<or> 2 * r = 2 ^ u \<and> even q then q else q + 1)"

lemma all_zero_below_iff: "all_zero_below (rev ds) \<longleftrightarrow> nval ds = 0"
proof -
  have "all_zero_below es \<longleftrightarrow> (\<forall>d\<in>set es. d = 0)" for es by (induction es) simp_all
  moreover have "nval ds = 0 \<longleftrightarrow> (\<forall>d\<in>set ds. d = 0)" for ds :: "digit list" by (induction ds) (simp_all add: unat_eq_0)
  ultimately show ?thesis by simp
qed

text \<open>The tests on the topmost bit that is left, on the other bits of its digit and on the digits below.\<close>

lemma rounding_tests:
  fixes w :: u64
  assumes "0 < b" "b \<le> 64" "low < 2 ^ (64 * i)"
  defines "r \<equiv> (unat w mod 2 ^ b) * 2 ^ (64 * i) + low"
  shows "(if w AND push_bit (b - 1) 1 = 0 then RoundDown
      else if w AND (push_bit (b - 1) 1 - 1) \<noteq> 0 then RoundUp
      else if low \<noteq> 0 then RoundUp else Tie) =
    (if 2 * r < 2 ^ (64 * i + b) then RoundDown else if 2 * r = 2 ^ (64 * i + b) then Tie else RoundUp)"
proof -
  obtain a where b: "b = Suc a" using assms(1) by (cases b) simp_all
  let ?B = "2 ^ (64 * i) :: nat" and ?l = "unat w mod 2 ^ a"
  have t1: "w AND push_bit a 1 = 0 \<longleftrightarrow> \<not> bit w a" using and_exp_eq_0_iff_not_bit [of w a] by (simp add: push_bit_eq_mult)
  have m: "(push_bit a 1 - 1 :: u64) = mask a" by (simp add: mask_eq_exp_minus_1 push_bit_eq_mult)
  have t2: "w AND (push_bit a 1 - 1) = 0 \<longleftrightarrow> ?l = 0"
    unfolding m word_unat_eq_iff unat_and_mask_mod by simp
  have mod: "unat w mod 2 ^ b = ?l + of_bool (bit w a) * 2 ^ a"
    using take_bit_Suc_from_most [of a "unat w"] by (simp add: b take_bit_eq_mod bit_unsigned_iff)
  have pw: "(2 :: nat) ^ (64 * i + b) = 2 * 2 ^ a * ?B" by (simp add: b power_add)
  have l: "?l < 2 ^ a" by simp
  show ?thesis
  proof (cases "bit w a")
    case False
    have "?l + 1 \<le> 2 ^ a" using l by linarith
    then have "(?l + 1) * ?B \<le> 2 ^ a * ?B" by (rule mult_right_mono) simp
    then have "r < 2 ^ a * ?B" unfolding r_def mod using False assms(3) by simp
    then have "2 * r < 2 ^ (64 * i + b)" unfolding pw by simp
    then show ?thesis using False t1 by (simp add: b)
  next
    case True
    have r: "2 * r = 2 ^ (64 * i + b) + 2 * (?l * ?B + low)" unfolding r_def mod pw using True by (simp add: algebra_simps)
    have "?l * ?B + low = 0 \<longleftrightarrow> ?l = 0 \<and> low = 0" by simp
    then show ?thesis unfolding r using True t1 t2 by (simp add: b)
  qed
qed

lemma decideRounding_correct:
  fixes w :: u64
  assumes "unset \<le> 0" "a = nat (- unset)" "a < 64" "i \<le> bi_length x"
  defines "r \<equiv> (unat w mod 2 ^ a) * 2 ^ (64 * i) + nval (take i (m_data x))"
  shows "decideRounding x unset i w =
    (if 2 * r < 2 ^ (64 * i + a) then RoundDown else if 2 * r = 2 ^ (64 * i + a) then Tie else RoundUp)"
proof (cases "unset = 0")
  case False
  have low: "nval (take i (m_data x)) < 2 ^ (64 * i)" using nval_lt [of "take i (m_data x)"] assms(4) by (simp add: bi_length_def)
  have a: "0 < a" "a \<le> 64" "nat (- unset - 1) = a - 1" using assms(1,2,3) False by simp_all
  show ?thesis
    unfolding r_def rounding_tests [OF a(1,2) low, symmetric] decideRounding_def Let_def
    using assms(1) False by (simp add: a(3) all_zero_below_iff)
next
  case unset: True
  then have a: "a = 0" using assms(2) by simp
  show ?thesis
  proof (cases i)
    case 0
    then show ?thesis by (simp add: unset a decideRounding_def r_def)
  next
    case (Suc j)
    have j: "j < length (m_data x)" using assms(4) Suc by (simp add: bi_length_def)
    have low: "nval (take j (m_data x)) < 2 ^ (64 * j)" using nval_lt [of "take j (m_data x)"] j by simp
    let ?w = "m_data x ! j"
    have "unat ?w < 2 ^ 64" using unsigned_less [of ?w] by simp
    then have r: "r = (unat ?w mod 2 ^ 64) * 2 ^ (64 * j) + nval (take j (m_data x))"
      unfolding r_def a Suc using j by (simp add: take_Suc_conv_app_nth nval_append)
    have e: "64 * i + a = 64 * j + 64" by (simp add: a Suc)
    have code: "decideRounding x unset i w =
      (if ?w AND push_bit (64 - 1) 1 = 0 then RoundDown
       else if ?w AND (push_bit (64 - 1) 1 - 1) \<noteq> 0 then RoundUp
       else if nval (take j (m_data x)) \<noteq> 0 then RoundUp else Tie)"
      by (simp add: decideRounding_def unset Suc digitBits_def all_zero_below_iff)
    have b: "(0 :: nat) < 64" "(64 :: nat) \<le> 64" by simp_all
    show ?thesis unfolding e r code by (rule rounding_tests [OF b low])
  qed
qed

section \<open>The bits of a double put together\<close>

lemma pack_double_parts:
  assumes "e \<le> 1023" "unat m < 2 ^ 52"
  shows "raw_exponent (pack_double s e m) = e + 1023" "unat (pack_double s e m) mod 2 ^ 52 = unat m"
    "bit (pack_double s e m) 63 = s"
proof -
  let ?e = "push_bit 52 (of_nat (e + 0x3FF)) :: u64" and ?s = "push_bit 63 (of_bool s) :: u64"
  have e: "unat (of_nat (e + 0x3FF) :: u64) = e + 1023" using assms(1) by (subst unat_of_nat) simp
  have e': "unat ?e = (e + 1023) * 2 ^ 52" unfolding unat_push_bit_mod e using assms(1) by simp
  have em: "unat (?e OR m) = (e + 1023) * 2 ^ 52 + unat m" unfolding unat_or_push_bit [OF assms(2)] e' ..
  have lt: "unat (?e OR m) < 2 ^ 63"
  proof -
    have "(e + 1023) * 2 ^ 52 \<le> 2046 * 2 ^ 52" using assms(1) by (intro mult_right_mono) simp_all
    then show ?thesis unfolding em using assms(2) by simp
  qed
  have code: "pack_double s e m = ?s OR (?e OR m)"
    unfolding pack_double_def Let_def or.assoc by (cases s) simp_all
  have s: "unat ?s = of_bool s * 2 ^ 63" unfolding unat_push_bit_mod by (cases s) simp_all
  have all: "unat (pack_double s e m) = of_bool s * 2 ^ 63 + ((e + 1023) * 2 ^ 52 + unat m)"
    unfolding code unat_or_push_bit [OF lt] s em ..
  have all': "unat (pack_double s e m) = (of_bool s * 2 ^ 11 + (e + 1023)) * 2 ^ 52 + unat m"
    unfolding all by simp
  show "unat (pack_double s e m) mod 2 ^ 52 = unat m" unfolding all' using assms(2) by (simp only: mod_mult_self3 mod_less)
  have "unat (pack_double s e m) div 2 ^ 52 = of_bool s * 2 ^ 11 + (e + 1023)"
    unfolding all' using assms(2) by (subst div_mult_self3) simp_all
  then show "raw_exponent (pack_double s e m) = e + 1023"
    unfolding raw_exponent_eq using assms(1) by (simp only: mod_mult_self3) simp
  show "bit (pack_double s e m) 63 = s"
  proof -
    have "\<not> bit (?e OR m) 63" using bit_below [OF lt, of 63] by blast
    moreover have "bit ?s 63 = s" unfolding bit_push_bit_iff by (cases s) simp_all
    ultimately show ?thesis unfolding code bit_or_iff [of ?s] by blast
  qed
qed

lemma pack_double_num:
  assumes "e \<le> 1023" "unat m < 2 ^ 52"
  shows "finite_double (pack_double s e m)"
    "double_num (pack_double s e m) = with_sign s (int ((2 ^ 52 + unat m) * 2 ^ (e + 1022)))"
  unfolding finite_double_def double_num_def double_mag_def pack_double_parts [OF assms] using assms(1) by (simp_all add: add.commute)


section \<open>The mantissa of a big integer\<close>

lemma shifted_div_mod:
  fixes d :: nat
  assumes "low < P" "0 < Q"
  shows "(d * P + low) div (P * Q) = d div Q" "(d * P + low) mod (P * Q) = (d mod Q) * P + low"
proof -
  have "(d * P + low) div P = d" using assms(1) by simp
  then show "(d * P + low) div (P * Q) = d div Q" by (simp add: div_mult2_eq)
  have "(d * P + low) mod (P * Q) = P * ((d * P + low) div P mod Q) + (d * P + low) mod P" by (rule mod_mult2_eq)
  then show "(d * P + low) mod (P * Q) = (d mod Q) * P + low" using assms(1) by simp
qed

lemma leading_bit_removed:
  fixes A :: nat
  assumes "2 ^ 63 \<le> A" "A < 2 ^ 64"
  shows "2 ^ 52 + (2 * A mod 2 ^ 64) div 2 ^ 12 = A div 2 ^ 11"
proof -
  obtain B where B: "A = 2 ^ 63 + B" using assms(1) le_Suc_ex by blast
  have "2 * A mod 2 ^ 64 = 2 * B" using B assms(2) by simp
  then show ?thesis unfolding B by simp
qed

lemma collect_mantissa_correct:
  assumes "m_data x = ds" "ds \<noteq> []" "last ds \<noteq> 0" "collect_mantissa x (last ds) (clz (last ds)) = (i, w, m, unset)"
  defines "L \<equiv> length ds * 64 - clz (last ds)"
  shows "unset > 0 \<and> i = 0 \<and> L < 53 \<and> 2 ^ 52 + unat m = nval ds * 2 ^ (53 - L)
    \<or> unset \<le> 0 \<and> nat (- unset) < 64 \<and> i \<le> length ds \<and> 53 \<le> L \<and> L - 53 = 64 * i + nat (- unset)
      \<and> 2 ^ 52 + unat m = nval ds div 2 ^ (L - 53)
      \<and> (unat w mod 2 ^ nat (- unset)) * 2 ^ (64 * i) + nval (take i ds) = nval ds mod 2 ^ (L - 53)"
proof -
  define c where "c = clz (last ds)"
  define k where "k = length ds - 1"
  define d where "d = unat (last ds)"
  have len: "length ds = Suc k" using assms(2) by (simp add: k_def)
  have "int (2 ^ 63) \<le> int (d * 2 ^ c)" "int (d * 2 ^ c) < int (2 ^ 64)"
    using clz_bounds [OF assms(3)] by (simp_all add: c_def d_def)
  then have c: "c < 64" "2 ^ 63 \<le> d * 2 ^ c" "d * 2 ^ c < 2 ^ 64"
    using clz_bounds(1) [OF assms(3)] by (simp_all only: of_nat_le_iff of_nat_less_iff c_def)
  have ds: "take k ds @ [last ds] = ds" using assms(2) unfolding k_def butlast_conv_take [symmetric] by simp
  have "length (take k ds) = k" by (simp add: len)
  then have n: "nval ds = d * 2 ^ (64 * k) + nval (take k ds)"
    using nval_append [of "take k ds" "[last ds]"] unfolding ds by (simp add: d_def)
  have lowk: "nval (take k ds) < 2 ^ (64 * k)" using nval_lt [of "take k ds"] by (simp add: len)
  define m0 where "m0 = drop_bit 12 (if c + 1 = 64 then 0 else push_bit (c + 1) (last ds))"
  have m0: "2 ^ 52 + unat m0 = d * 2 ^ c div 2 ^ 11"
  proof -
    have "unat (if c + 1 = 64 then 0 else push_bit (c + 1) (last ds)) = d * 2 ^ (c + 1) mod 2 ^ 64"
    proof (cases "c + 1 = 64")
      case False
      then show ?thesis unfolding if_not_P [OF False] unat_push_bit_mod d_def by simp
    qed simp
    also have "\<dots> = 2 * (d * 2 ^ c) mod 2 ^ 64" by (simp only: power_Suc Suc_eq_plus1 [symmetric] mult.left_commute)
    finally show ?thesis unfolding m0_def unat_drop_bit_div using leading_bit_removed [OF c(2,3)] by simp
  qed
  have sub: "nat (75 - int c) = 75 - c" by arith
  have code: "collect_mantissa x (last ds) c =
    (if c > 11 \<and> k > 0 then (k - 1, ds ! (k - 1), m0 OR drop_bit (64 - (c - 11)) (ds ! (k - 1)), int c - 11 - 64)
     else (k, last ds, m0, int c - 11))"
    unfolding collect_mantissa_def Let_def m0_def using assms(1) sub
    by (simp add: bi_length_def len digitBits_def)
  consider "c \<le> 11" | "11 < c" "k = 0" | "11 < c" "0 < k" by linarith
  then show ?thesis
  proof cases
    case 1
    then have e: "i = k" "w = last ds" "m = m0" "unset = int c - 11" using assms(4) code by (simp_all add: c_def)
    have a: "nat (- unset) = 11 - c" using 1 e by simp
    have L: "L - 53 = 64 * k + (11 - c)" "53 \<le> L" using 1 unfolding L_def c_def [symmetric] len by simp_all
    have "(2 :: nat) ^ 11 = 2 ^ (11 - c) * 2 ^ c" using 1 by (simp flip: power_add)
    moreover have "d * 2 ^ c div (2 ^ (11 - c) * 2 ^ c) = d div 2 ^ (11 - c)" by (rule div_mult_mult2) simp
    ultimately have q: "2 ^ 52 + unat m0 = d div 2 ^ (11 - c)" unfolding m0 by (simp only:)
    have Q: "(0 :: nat) < 2 ^ (11 - c)" by simp
    show ?thesis
      unfolding e(1,2,3) a L(1) power_add n shifted_div_mod [OF lowk Q] using q 1 L(2) e(4) by (simp add: d_def len)
  next
    case 2
    then have e: "i = 0" "m = m0" "unset = int c - 11" using assms(4) code by (simp_all add: c_def)
    have L: "53 - L = c - 11" "L < 53" using 2 c(1) unfolding L_def c_def [symmetric] len by simp_all
    have "(2 :: nat) ^ c = 2 ^ (c - 11) * 2 ^ 11" using 2(1) unfolding power_add [symmetric] by simp
    then have "d * 2 ^ c = d * 2 ^ (c - 11) * 2 ^ 11" by (simp only: mult.assoc)
    moreover have "d * 2 ^ (c - 11) * 2 ^ 11 div 2 ^ 11 = d * 2 ^ (c - 11)" by (rule nonzero_mult_div_cancel_right) simp
    ultimately have "2 ^ 52 + unat m0 = d * 2 ^ (c - 11)" unfolding m0 by (simp only:)
    then show ?thesis unfolding L(1) using 2 L(2) e n by simp
  next
    case 3
    define b where "b = c - 11"
    define j where "j = k - 1"
    have k: "k = Suc j" using 3(2) by (simp add: j_def)
    have b: "0 < b" "b \<le> 52" "c = b + 11" using 3(1) c(1) by (simp_all add: b_def)
    have e: "i = j" "w = ds ! j" "m = m0 OR drop_bit (64 - b) (ds ! j)" "unset = int b - 64"
      using assms(4) code 3 by (simp_all add: c_def b_def j_def)
    have a: "nat (- unset) = 64 - b" unfolding e using b by simp
    have L: "L - 53 = 64 * j + (64 - b)" "53 \<le> L" using b unfolding L_def c_def [symmetric] len k by simp_all
    have Q: "(0 :: nat) < 2 ^ (64 - b)" by simp
    have p64: "(2 :: nat) ^ 64 = 2 ^ b * 2 ^ (64 - b)" using b by (simp flip: power_add)
    have n': "nval ds = (d * 2 ^ 64 + unat w) * 2 ^ (64 * j) + nval (take j ds)"
    proof -
      have "nval (take k ds) = nval (take j ds) + 2 ^ (64 * j) * unat w"
        unfolding k e(2) using len k by (simp add: take_Suc_conv_app_nth nval_append)
      then show ?thesis unfolding n k by (simp add: power_add algebra_simps)
    qed
    have lowj: "nval (take j ds) < 2 ^ (64 * j)" using nval_lt [of "take j ds"] by (simp add: len k)
    have w: "unat w < 2 ^ 64" using unsigned_less [of w] by simp
    have "d * 2 ^ c = d * 2 ^ b * 2 ^ 11" unfolding b(3) by (simp only: power_add mult.assoc)
    moreover have "d * 2 ^ b * 2 ^ 11 div 2 ^ 11 = d * 2 ^ b" by (rule nonzero_mult_div_cancel_right) simp
    ultimately have m0': "2 ^ 52 + unat m0 = d * 2 ^ b" unfolding m0 by (simp only:)
    have m: "unat m = unat m0 + unat w div 2 ^ (64 - b)"
    proof -
      have dvd: "2 ^ b dvd unat m0"
      proof -
        have "2 ^ b dvd (2 :: nat) ^ 52" using b by (intro le_imp_power_dvd) simp
        moreover have "2 ^ b dvd 2 ^ 52 + unat m0" unfolding m0' by simp
        ultimately show ?thesis by (simp only: dvd_add_right_iff)
      qed
      have "unat m0 < 2 ^ 64" using unsigned_less [of m0] by simp
      then have "unat m0 = unat (push_bit b (drop_bit b m0))"
        unfolding unat_push_bit_mod unat_drop_bit_div dvd_div_mult_self [OF dvd] by simp
      then have m0b: "m0 = push_bit b (drop_bit b m0)" by (simp only: word_unat_eq_iff)
      have "unat w div 2 ^ (64 - b) < 2 ^ b" using w unfolding p64 by (rule less_mult_imp_div_less)
      then have lt: "unat (drop_bit (64 - b) w) < 2 ^ b" unfolding unat_drop_bit_div .
      show ?thesis unfolding e(3) e(2) [symmetric]
        using unat_or_push_bit [OF lt, of "drop_bit b m0", folded m0b] unfolding unat_drop_bit_div .
    qed
    have div: "(d * 2 ^ 64 + unat w) div 2 ^ (64 - b) = d * 2 ^ b + unat w div 2 ^ (64 - b)"
      unfolding p64 mult.assoc [symmetric] by simp
    have mod: "(d * 2 ^ 64 + unat w) mod 2 ^ (64 - b) = unat w mod 2 ^ (64 - b)"
      unfolding p64 mult.assoc [symmetric] by simp
    have q: "2 ^ 52 + unat m = d * 2 ^ b + unat w div 2 ^ (64 - b)" unfolding m using m0' by simp
    show ?thesis
      unfolding a L(1) power_add n' shifted_div_mod [OF lowj Q] div mod q e(1) using b L(2) e(4) by (simp add: len k)
  qed
qed


section \<open>The nearest double\<close>

text \<open>What the conversion promises: the nearest double, the even one of two, and infinity beyond the finite range. The
  number of bits that are rounded away is taken from the number of binary digits.\<close>

definition nearest_double :: "int \<Rightarrow> double_bits \<Rightarrow> bool" where
  "nearest_double v d \<longleftrightarrow>
     (let n = nat \<bar>v\<bar>;
          u = length (base_digits 2 n) - 53;
          rounded = round_half_even n u * 2 ^ u
      in if 2 ^ 1024 \<le> rounded then d = double_infinity (v < 0)
         else finite_double d \<and> double_num d = with_sign (v < 0) (int (rounded * unit_scale)))"

lemma exact_round: "round_half_even n 0 = n"
  by (simp add: round_half_even_def)

lemma round_half_even_eq:
  assumes "r = n mod 2 ^ u" "q = n div 2 ^ u" "rounding = (if 2 * r < 2 ^ u then RoundDown else if 2 * r = 2 ^ u then Tie else RoundUp)"
  shows "round_half_even n u = (if rounding = RoundUp \<or> rounding = Tie \<and> odd q then q + 1 else q)"
  using assms(3) unfolding round_half_even_def Let_def assms(1,2) [symmetric] by auto

lemma pack_rounded:
  fixes m :: u64
  assumes "E \<le> 1023" "unat m < 2 ^ 52" "q' = (if up then 2 ^ 52 + unat m + 1 else 2 ^ 52 + unat m)"
    "d = (if up then if drop_bit 52 (m + 1) \<noteq> 0 then if E + 1 > 1023 then double_infinity s else pack_double s (E + 1) 0
            else pack_double s E (m + 1)
          else pack_double s E m)"
  shows "if 2 ^ 1024 * unit_scale \<le> q' * 2 ^ (E + 1022) then d = double_infinity s
    else finite_double d \<and> double_num d = with_sign s (int (q' * 2 ^ (E + 1022)))"
proof -
  have m1: "unat (m + 1) = unat m + 1" using assms(2) by (simp add: unat_word_ariths)
  have "drop_bit 52 (m + 1) = 0 \<longleftrightarrow> unat (drop_bit 52 (m + 1)) = 0" by (simp only: unat_eq_0)
  also have "\<dots> \<longleftrightarrow> unat m + 1 < 2 ^ 52" unfolding unat_drop_bit_div m1 by (simp add: div_eq_0_iff)
  finally have ov: "drop_bit 52 (m + 1) \<noteq> 0 \<longleftrightarrow> unat m + 1 = 2 ^ 52" using assms(2) by auto
  have top: "2 ^ 1024 * unit_scale = 2 ^ 53 * 2 ^ (1023 + 1022)" unfolding unit_scale_def power_add [symmetric] by (intro arg_cong [where f = "(^) 2"]) simp
  have lt: "q' * 2 ^ (E + 1022) < 2 ^ 1024 * unit_scale" if "q' < 2 ^ 53"
  proof -
    have "q' * 2 ^ (E + 1022) < 2 ^ 53 * 2 ^ (E + 1022)" using that by (rule mult_strict_right_mono) simp
    also have "\<dots> \<le> 2 ^ 1024 * unit_scale" unfolding top using assms(1) by (intro mult_left_mono power_increasing) simp_all
    finally show ?thesis .
  qed
  show ?thesis
  proof (cases "up \<and> unat m + 1 = 2 ^ 52")
    case over: True
    then have q: "q' = 2 ^ 53" using assms(3) by simp
    show ?thesis
    proof (cases "E = 1023")
      case True
      then have "d = double_infinity s" using assms(4) over ov by simp
      moreover have "2 ^ 1024 * unit_scale \<le> q' * 2 ^ (E + 1022)" unfolding top q True ..
      ultimately show ?thesis by simp
    next
      case False
      then have E: "E + 1 \<le> 1023" using assms(1) by simp
      have d: "d = pack_double s (E + 1) 0" using assms(4) over ov E by simp
      have z: "unat (0 :: u64) < 2 ^ 52" by simp
      have v: "(2 ^ 52 + unat (0 :: u64)) * 2 ^ (E + 1 + 1022) = q' * 2 ^ (E + 1022)" unfolding q by (simp add: power_add)
      have "2 ^ 53 * 2 ^ (E + 1022) < (2 :: nat) ^ 53 * 2 ^ (1023 + 1022)"
        using E by (intro mult_strict_left_mono power_strict_increasing) simp_all
      then have "\<not> 2 ^ 1024 * unit_scale \<le> q' * 2 ^ (E + 1022)" unfolding top q by linarith
      then show ?thesis unfolding d using pack_double_num [OF E z, of s] unfolding v by (simp only: if_False simp_thms)
    qed
  next
    case False
    define mm where "mm = (if up then m + 1 else m)"
    have mm: "unat mm < 2 ^ 52" "q' = 2 ^ 52 + unat mm" using False assms(2,3) m1 by (auto simp: mm_def)
    have d: "d = pack_double s E mm" using assms(4) False ov by (auto simp: mm_def)
    have "q' < 2 ^ 53" using mm by simp
    then have "\<not> 2 ^ 1024 * unit_scale \<le> q' * 2 ^ (E + 1022)" using lt by simp
    then show ?thesis unfolding d using pack_double_num [OF assms(1) mm(1), of s] unfolding mm(2) by (simp only: if_False simp_thms)
  qed
qed

lemma toNumberHeap_correct:
  assumes "canonical x"
  shows "nearest_double (bigint_val x) (toNumberHeap x)"
proof (cases "isZero x")
  case True
  then have "bigint_val x = 0" using canonicalD(5) [OF assms] by simp
  moreover have "double_num 0 = 0" "finite_double 0"
    by (simp_all add: double_num_def double_mag_def finite_double_def raw_exponent_def with_sign_def)
  ultimately show ?thesis using True
    by (simp add: nearest_double_def toNumberHeap_def exact_round with_sign_def)
next
  case False
  define ds where "ds = m_data x"
  define s where "s = m_sign x"
  have ne: "ds \<noteq> []" using False by (auto simp: isZero_def bi_length_def ds_def)
  have last: "last ds \<noteq> 0" using canonicalD(1) [OF assms] ne by (simp add: trimmed_def ds_def)
  define L where "L = length ds * 64 - clz (last ds)"
  define n where "n = nval ds"
  note bl = bit_length [OF ne last, folded L_def n_def]
  have msd: "m_data x ! (bi_length x - 1) = last ds" using ne by (simp add: bi_length_def last_conv_nth ds_def)
  have v: "nat \<bar>bigint_val x\<bar> = n" using canonicalD(4) [OF assms] by (simp add: n_def nval_eq ds_def)
  have sv: "(bigint_val x < 0) = s" using canonicalD(6) [OF assms] by (simp add: s_def)
  have len2: "length (base_digits 2 n) = L" using base_digits_length [of 2 n L] bl by auto
  define u where "u = L - 53"
  have goal: "nearest_double (bigint_val x) d \<longleftrightarrow>
      (if 2 ^ 1024 \<le> round_half_even n u * 2 ^ u then d = double_infinity s
       else finite_double d \<and> double_num d = with_sign s (int (round_half_even n u * 2 ^ u * unit_scale)))" for d
    unfolding nearest_double_def v sv len2 Let_def u_def ..
  obtain i w m unset where cm: "collect_mantissa x (last ds) (clz (last ds)) = (i, w, m, unset)" by (metis prod_cases4)
  define rounding where "rounding = decideRounding x unset i w"
  have code: "toNumberHeap x =
    (if L > 1024 then double_infinity s
     else if rounding = RoundUp \<or> rounding = Tie \<and> m AND 1 = 1
     then if drop_bit 52 (m + 1) \<noteq> 0 then if L - 1 + 1 > 1023 then double_infinity s else pack_double s (L - 1 + 1) 0
          else pack_double s (L - 1) (m + 1)
     else pack_double s (L - 1) m)"
    unfolding toNumberHeap_def Let_def if_not_P [OF False] msd using cm
    by (simp add: s_def L_def rounding_def bi_length_def ds_def [symmetric] digitBits_def)
  have odd: "m AND 1 = 1 \<longleftrightarrow> odd (2 ^ 52 + unat m)"
  proof -
    have "m AND 1 = 1 \<longleftrightarrow> m AND 1 \<noteq> 0" by (simp add: and_one_eq odd_iff_mod_2_eq_one flip: even_iff_mod_2_eq_zero)
    then show ?thesis using and_one_neq_0_iff [of m] by simp
  qed
  note res = collect_mantissa_correct [OF ds_def [symmetric] ne last cm, folded L_def n_def]
  show ?thesis
  proof (cases "L > 1024")
    case True
    have "2 ^ (u + 52) div 2 ^ u \<le> n div 2 ^ u" using bl(1) True by (intro div_le_mono) (simp add: u_def)
    then have "2 ^ 52 \<le> round_half_even n u" by (simp add: power_add round_half_even_def Let_def)
    then have "2 ^ 52 * 2 ^ u \<le> round_half_even n u * 2 ^ u" by (rule mult_right_mono) simp
    moreover have "(2 :: nat) ^ 1024 \<le> 2 ^ 52 * 2 ^ u" unfolding power_add [symmetric] using True by (intro power_increasing) (simp_all add: u_def)
    ultimately have "2 ^ 1024 \<le> round_half_even n u * 2 ^ u" by (rule order_trans [rotated])
    then show ?thesis unfolding goal using True by (simp only: code if_True)
  next
    case small: False
    define up where "up \<longleftrightarrow> rounding = RoundUp \<or> rounding = Tie \<and> m AND 1 = 1"
    have E: "L - 1 \<le> 1023" using small by simp
    have "unat m < 2 ^ 52 \<and> round_half_even n u * 2 ^ u * unit_scale =
      (if up then 2 ^ 52 + unat m + 1 else 2 ^ 52 + unat m) * 2 ^ (L - 1 + 1022)"
    proof (cases "unset > 0")
      case True
      then have r: "L < 53" "2 ^ 52 + unat m = n * 2 ^ (53 - L)" using res by simp_all
      have "n * 2 ^ (53 - L) < 2 ^ L * 2 ^ (53 - L)" using bl(2) by (rule mult_strict_right_mono) simp
      also have "\<dots> = 2 ^ 53" using r(1) by (simp flip: power_add)
      finally have "unat m < 2 ^ 52" unfolding r(2) [symmetric] by simp
      moreover have nup: "\<not> up" using True by (simp add: up_def rounding_def decideRounding_def)
      moreover have "n * 2 ^ (53 - L) * 2 ^ (L - 1 + 1022) = n * unit_scale"
        unfolding unit_scale_def mult.assoc power_add [symmetric] using r(1) bl(3) by (intro arg_cong [where f = "\<lambda>k. n * 2 ^ k"]) simp
      moreover have "u = 0" using r(1) by (simp add: u_def)
      ultimately show ?thesis unfolding if_not_P [OF nup] r(2) by (simp only: exact_round power_0 mult_1_right simp_thms)
    next
      case neg: False
      then have r: "unset \<le> 0" "nat (- unset) < 64" "i \<le> bi_length x" "53 \<le> L" "u = 64 * i + nat (- unset)"
        "2 ^ 52 + unat m = n div 2 ^ u" "(unat w mod 2 ^ nat (- unset)) * 2 ^ (64 * i) + nval (take i (m_data x)) = n mod 2 ^ u"
        using res by (simp_all add: bi_length_def ds_def u_def)
      have L: "L = u + 53" using r(4) by (simp add: u_def)
      have "n < 2 ^ 53 * 2 ^ u" using bl(2) unfolding L power_add by (simp only: mult.commute)
      then have "n div 2 ^ u < 2 ^ 53" by (rule less_mult_imp_div_less)
      then have m: "unat m < 2 ^ 52" unfolding r(6) [symmetric] by simp
      have "rounding = (if 2 * (n mod 2 ^ u) < 2 ^ u then RoundDown else if 2 * (n mod 2 ^ u) = 2 ^ u then Tie else RoundUp)"
        unfolding rounding_def using decideRounding_correct [OF r(1) refl r(2,3), of w] unfolding r(7) r(5) [symmetric] .
      then have "round_half_even n u = (if up then 2 ^ 52 + unat m + 1 else 2 ^ 52 + unat m)"
        unfolding up_def odd by (rule round_half_even_eq [OF refl r(6)])
      moreover have "2 ^ u * unit_scale = 2 ^ (L - 1 + 1022)" unfolding unit_scale_def power_add [symmetric] L by (simp add: algebra_simps)
      ultimately show ?thesis using m by (simp only: mult.assoc simp_thms)
    qed
    then have m: "unat m < 2 ^ 52" and q: "round_half_even n u * 2 ^ u * unit_scale =
      (if up then 2 ^ 52 + unat m + 1 else 2 ^ 52 + unat m) * 2 ^ (L - 1 + 1022)" by simp_all
    have "0 < unit_scale" by (simp add: unit_scale_def)
    then have inf: "2 ^ 1024 \<le> round_half_even n u * 2 ^ u \<longleftrightarrow> 2 ^ 1024 * unit_scale \<le> round_half_even n u * 2 ^ u * unit_scale"
      by (simp only: mult_le_cancel2) simp
    have "toNumberHeap x =
      (if up then if drop_bit 52 (m + 1) \<noteq> 0 then if L - 1 + 1 > 1023 then double_infinity s else pack_double s (L - 1 + 1) 0
          else pack_double s (L - 1) (m + 1)
       else pack_double s (L - 1) m)"
      unfolding code if_not_P [OF small] up_def [symmetric] ..
    from pack_rounded [OF E m refl this] show ?thesis unfolding goal inf q .
  qed
qed


section \<open>Infinities and not-a-number\<close>

lemma compareToDouble_special:
  "double_isnan y \<Longrightarrow> compareToDouble x y = Undefined"
  "compareToDouble x (double_infinity False) = LessThan"
  "compareToDouble x (double_infinity True) = GreaterThan"
proof -
  show "double_isnan y \<Longrightarrow> compareToDouble x y = Undefined"
    by (simp add: compareToDouble_def double_isnan_def)
  have "raw_exponent (double_infinity s) = 0x7FF \<and> \<not> double_isnan (double_infinity s)" for s
  proof (cases s)
    case True
    have "raw_exponent (double_infinity True) = 0x7FF \<and> \<not> double_isnan (double_infinity True)" by code_simp
    with True show ?thesis by simp
  next
    case False
    have "raw_exponent (double_infinity False) = 0x7FF \<and> \<not> double_isnan (double_infinity False)" by code_simp
    with False show ?thesis by simp
  qed
  then show "compareToDouble x (double_infinity False) = LessThan" "compareToDouble x (double_infinity True) = GreaterThan"
    by (simp_all add: compareToDouble_def) (simp_all add: double_infinity_def)
qed

lemma equalsToNumber_correct:
  assumes "canonical x"
  shows "equalsToNumber x (Int32Value v) \<longleftrightarrow> bigint_val x = sint v"
    "finite_double d \<Longrightarrow> equalsToNumber x (DoubleValue d) \<longleftrightarrow> bigint_val x * int unit_scale = double_num d"
    "\<not> finite_double d \<Longrightarrow> \<not> equalsToNumber x (DoubleValue d)"
proof -
  show "equalsToNumber x (Int32Value v) \<longleftrightarrow> bigint_val x = sint v"
    by (simp add: equalsToNumber_def equalsToInt32_correct [OF assms])
  show "finite_double d \<Longrightarrow> equalsToNumber x (DoubleValue d) \<longleftrightarrow> bigint_val x * int unit_scale = double_num d"
    by (auto simp: equalsToNumber_def compareToDouble_finite [OF assms] int_compare_def)
  have "raw_exponent d \<le> 0x7FF" using raw_exponent_lt [of d] by simp
  then show "\<not> finite_double d \<Longrightarrow> \<not> equalsToNumber x (DoubleValue d)"
    by (simp add: equalsToNumber_def compareToDouble_def finite_double_def)
qed


section \<open>Integers that a double can hold\<close>

lemma double_num_inj:
  assumes "finite_double d" "finite_double d'" "double_num d = double_num d'" "double_num d \<noteq> 0"
  shows "d = d'"
proof -
  have sgn: "bit d 63 = bit d' 63" and mag: "double_mag d = double_mag d'"
    using assms(3,4) by (auto simp: double_num_def with_sign_def split: if_splits)
  let ?m = "\<lambda>d. unat d mod 2 ^ 52"
  have m: "?m d < 2 ^ 52" for d :: u64 by (rule mod_less_divisor) simp
  have lt: "double_mag d < double_mag d'" if "raw_exponent d < raw_exponent d'" for d d'
  proof (cases "raw_exponent d = 0")
    case True
    have "?m d < 2 ^ 52 + ?m d'" using m [of d] by (rule trans_less_add1)
    also have "\<dots> = (2 ^ 52 + ?m d') * 1" by (rule mult_1_right [symmetric])
    also have "\<dots> \<le> (2 ^ 52 + ?m d') * 2 ^ (raw_exponent d' - 1)" by (intro mult_left_mono) simp_all
    finally show ?thesis using True that unfolding double_mag_def by simp
  next
    case False
    have "(2 ^ 52 + ?m d) * 2 ^ (raw_exponent d - 1) < 2 ^ 53 * 2 ^ (raw_exponent d - 1)" using m [of d] by (intro mult_strict_right_mono) simp_all
    also have "\<dots> = 2 ^ 52 * 2 ^ raw_exponent d" using False by (simp add: power_eq_if)
    also have "\<dots> \<le> 2 ^ 52 * 2 ^ (raw_exponent d' - 1)" using that by (intro mult_left_mono power_increasing) simp_all
    also have "\<dots> \<le> (2 ^ 52 + ?m d') * 2 ^ (raw_exponent d' - 1)" by (intro mult_right_mono) simp_all
    finally show ?thesis using False that unfolding double_mag_def by simp
  qed
  have e: "raw_exponent d = raw_exponent d'"
    using lt [of d d'] lt [of d' d] mag by (metis less_irrefl linorder_less_linear)
  have mm: "?m d = ?m d'"
  proof (cases "raw_exponent d' = 0")
    case True
    then show ?thesis using mag e by (simp add: double_mag_def)
  next
    case False
    then have "(2 ^ 52 + ?m d) * 2 ^ (raw_exponent d' - 1) = (2 ^ 52 + ?m d') * 2 ^ (raw_exponent d' - 1)"
      using mag e unfolding double_mag_def by simp
    then show ?thesis by (subst (asm) mult_cancel2) simp
  qed
  have split: "unat d = (of_bool (bit d 63) * 2 ^ 11 + raw_exponent d) * 2 ^ 52 + ?m d" for d :: u64
  proof -
    let ?h = "unat d div 2 ^ 52"
    have "?h div 2 ^ 11 = unat d div 2 ^ 63" by (simp flip: div_mult2_eq)
    also have "\<dots> = of_bool (bit d 63)"
    proof -
      have "unat d div 2 ^ 63 < 2" using unsigned_less [of d] by (intro less_mult_imp_div_less) simp
      moreover have "odd (unat d div 2 ^ 63) = bit (unat d) 63" by (simp add: bit_iff_odd)
      moreover have "bit (unat d) 63 = bit d 63" by (simp add: bit_unsigned_iff)
      ultimately show ?thesis by (cases "bit d 63") (auto simp: less_2_cases_iff)
    qed
    finally have "?h = of_bool (bit d 63) * 2 ^ 11 + raw_exponent d"
      unfolding raw_exponent_eq by (metis div_mult_mod_eq)
    then show ?thesis by (metis div_mult_mod_eq)
  qed
  have "unat d = (of_bool (bit d 63) * 2 ^ 11 + raw_exponent d) * 2 ^ 52 + ?m d" by (rule split)
  also have "\<dots> = (of_bool (bit d' 63) * 2 ^ 11 + raw_exponent d') * 2 ^ 52 + ?m d'" unfolding sgn e mm ..
  also have "\<dots> = unat d'" by (rule split [symmetric])
  finally have "unat d = unat d'" .
  then show ?thesis by (simp only: word_unat_eq_iff)
qed

lemma toNumberHeap_createFrom_double:
  assumes "integer_double d" "\<not> double_zero d" "createFrom_double d = Inr x"
  shows "toNumberHeap x = d"
proof -
  have fin: "finite_double d" using assms(1) by (simp add: integer_double_def)
  obtain "canonical x" and val: "bigint_val x * int unit_scale = double_num d"
    using createFrom_double_correct [OF assms(1)] assms(3) by auto
  have U: "0 < unit_scale" by (simp add: unit_scale_def)
  have mag: "0 < double_mag d" using assms(2) double_zero_iff by auto
  define n where "n = nat \<bar>bigint_val x\<bar>"
  have nm: "n * unit_scale = double_mag d"
  proof -
    have "int (n * unit_scale) = \<bar>bigint_val x * int unit_scale\<bar>" by (simp add: n_def abs_mult)
    also have "\<dots> = int (double_mag d)" unfolding val by (simp add: double_num_def with_sign_def)
    finally show ?thesis by (simp only: of_nat_eq_iff)
  qed
  have "0 < n" using nm mag by (cases n) simp_all
  have "unit_scale \<le> double_mag d" unfolding nm [symmetric] using \<open>0 < n\<close> by simp
  then have "\<not> raw_exponent d < 1023" using double_mag_small [of d] by linarith
  then obtain e where e: "raw_exponent d = e + 1023" by (metis add.commute le_Suc_ex linorder_not_less)
  have e1024: "e < 1024" using fin e by (simp add: finite_double_def)
  have n: "2 ^ e \<le> n" "n < 2 ^ (e + 1)"
    using double_mag_bounds [OF e] U unfolding nm [symmetric] by simp_all
  then have len: "length (base_digits 2 n) = e + 1" by (intro base_digits_length) simp_all
  define u where "u = e + 1 - 53"
  have "2 ^ u dvd n"
  proof (cases "52 \<le> e")
    case True
    have "n * 2 ^ 1074 = unat ((d AND mask 52) OR push_bit 52 1 :: u64) * 2 ^ (e + 1022)"
      using nm unfolding double_mag_normal [OF e] unit_scale_def .
    also have "\<dots> = unat ((d AND mask 52) OR push_bit 52 1 :: u64) * 2 ^ u * 2 ^ 1074"
      unfolding mult.assoc power_add [symmetric] using True by (intro arg_cong [where f = "\<lambda>k. unat _ * 2 ^ k"]) (simp add: u_def)
    finally have "n = unat ((d AND mask 52) OR push_bit 52 1 :: u64) * 2 ^ u" by (subst (asm) mult_cancel2) simp
    then show ?thesis by simp
  next
    case False
    then show ?thesis by (simp add: u_def)
  qed
  then have "n mod 2 ^ u = 0" "n div 2 ^ u * 2 ^ u = n" by simp_all
  then have round: "round_half_even n u * 2 ^ u = n" by (simp add: round_half_even_def)
  have "(2 :: nat) ^ (e + 1) \<le> 2 ^ 1024" using e1024 by (intro power_increasing) simp_all
  then have small: "\<not> 2 ^ 1024 \<le> n" using n(2) by linarith
  have "nearest_double (bigint_val x) (toNumberHeap x)" by (rule toNumberHeap_correct) fact
  then have "finite_double (toNumberHeap x)" "double_num (toNumberHeap x) = with_sign (bigint_val x < 0) (int (n * unit_scale))"
    unfolding nearest_double_def n_def [symmetric] len u_def [symmetric] Let_def round if_not_P [OF small] by simp_all
  moreover have "with_sign (bigint_val x < 0) (int (n * unit_scale)) = double_num d"
    unfolding val [symmetric] by (simp add: n_def with_sign_def)
  moreover have "double_num d \<noteq> 0" using mag by (simp add: double_num_def with_sign_def)
  ultimately show ?thesis using double_num_inj [OF _ fin] by simp
qed

end
