(* ===== verification/BigIntTyping.thy ===== *)
theory BigIntTyping
  imports BigIntShift BigIntTruncate BigIntBitwise
begin

text \<open>
  The operators as functions from big integers to big integers: on canonical operands each returns a canonical number or
  throws, whatever the sizes.
\<close>


definition returns_bigint :: "js_bigint throws \<Rightarrow> bool" where
  "returns_bigint r = (case r of Inl e \<Rightarrow> e \<noteq> SyntaxError | Inr x \<Rightarrow> canonical x)"

lemma returns_bigint_simps [simp]:
  "returns_bigint (Inl e) \<longleftrightarrow> e \<noteq> SyntaxError" "returns_bigint (Inr x) \<longleftrightarrow> canonical x"
  by (simp_all add: returns_bigint_def)

lemma returns_bigintI: "\<exists>r. f = Inr r \<and> canonical r \<and> P r \<Longrightarrow> returns_bigint f"
  by auto

lemma returns_bigint_if: "(if c then f = Inl e else \<exists>r. f = Inr r \<and> canonical r \<and> P r) \<Longrightarrow> e \<noteq> SyntaxError \<Longrightarrow> returns_bigint f"
  by (auto split: if_splits)

lemma returns_bigint_if_not: "(if c then \<exists>r. f = Inr r \<and> canonical r \<and> P r else f = Inl e) \<Longrightarrow> e \<noteq> SyntaxError \<Longrightarrow> returns_bigint f"
  by (auto split: if_splits)

lemma maxLength_pos: "0 < maxLength"
  by (simp add: maxLength_def maxLengthBits_def digitBits_def)

lemma absoluteAddOne_returns:
  assumes "canonical x"
  shows "returns_bigint (absoluteAddOne x s)"
proof (cases "dval (m_data x) + 1 < dbase ^ maxLength")
  case True
  then show ?thesis
    using absoluteAddOne_correct [OF canonicalD(2) [OF assms], of s] by (metis returns_bigint_simps(2))
next
  case False
  have "dval (m_data x) < dbase ^ bi_length x"
    using dval_less [of "m_data x"] by (simp add: bi_length_def)
  moreover have "\<not> bi_length x < maxLength"
  proof
    assume "bi_length x < maxLength"
    then have "dbase ^ bi_length x < dbase ^ maxLength"
      by (intro power_strict_increasing) simp_all
    with False \<open>dval (m_data x) < dbase ^ bi_length x\<close> show False
      by linarith
  qed
  then have "bi_length x = maxLength"
    using canonicalD(2) [OF assms] by simp
  ultimately have "willOverflow_loop (m_data x)" "bi_length x = maxLength"
    using False by (simp_all add: willOverflow_loop_iff bi_length_def)
  then show ?thesis
    by (simp add: absoluteAddOne_def createWithLength_def)
qed

lemma unary_returns:
  assumes "canonical x"
  shows "returns_bigint (incImpl x)" "returns_bigint (decImpl x)" "returns_bigint (bitwiseNotImpl x)" "returns_bigint (unaryMinusImpl x)"
proof -
  have b: "\<bar>bigint_val x\<bar> < dbase ^ maxLength" "m_sign x \<longleftrightarrow> bigint_val x < 0"
    using canonical_bound [OF assms canonicalD(2) [OF assms]] canonicalD(6) [OF assms] by blast+
  show "returns_bigint (unaryMinusImpl x)"
    using unaryMinusImpl_correct [OF assms] by (metis returns_bigint_simps(2))
  show "returns_bigint (incImpl x)"
  proof (cases "m_sign x")
    case True
    then have "bigint_val x + 1 < dbase ^ maxLength"
      using b by linarith
    from returns_bigintI [OF incImpl_correct [OF assms this]] show ?thesis .
  qed (simp add: incImpl_def absoluteAddOne_returns [OF assms])
  show "returns_bigint (bitwiseNotImpl x)"
  proof (cases "m_sign x")
    case True
    then have "bigint_val x + 1 < dbase ^ maxLength"
      using b by linarith
    from returns_bigintI [OF bitwiseNotImpl_correct [OF assms this]] show ?thesis .
  qed (simp add: bitwiseNotImpl_def absoluteAddOne_returns [OF assms])
  show "returns_bigint (decImpl x)"
  proof (cases "m_sign x")
    case True
    then show ?thesis
      using canonicalD(5) [OF assms] b(2) by (simp add: decImpl_def absoluteAddOne_returns [OF assms])
  next
    case False
    then have "- (dbase ^ maxLength) < bigint_val x - 1"
      using b one_less_power [OF dbase_pos(4) maxLength_pos] by linarith
    from returns_bigintI [OF decImpl_correct [OF assms this]] show ?thesis .
  qed
qed

lemma binary_returns:
  assumes "canonical x" "canonical y"
  shows "returns_bigint (addImpl x y)" "returns_bigint (subImpl x y)" "returns_bigint (multiplyImpl x y)"
    "returns_bigint (exponentiateImpl x y)" "returns_bigint (bitwiseAndImpl x y)" "returns_bigint (bitwiseOrImpl x y)"
    "returns_bigint (bitwiseXorImpl x y)" "returns_bigint (leftShiftImpl x y)" "returns_bigint (signedRightShiftImpl x y)"
proof -
  show "returns_bigint (addImpl x y)" "returns_bigint (subImpl x y)"
    using returns_bigint_if [OF addImpl_exact [OF assms]] returns_bigint_if [OF subImpl_exact [OF assms]] by simp_all
  show "returns_bigint (multiplyImpl x y)"
    using multiplyImpl_Inr(1) [OF assms] multiplyImpl_Inl [OF assms, THEN conjunct1] by (cases "multiplyImpl x y") auto
  show "returns_bigint (exponentiateImpl x y)"
  proof (cases "bigint_val y < 0")
    case True
    then show ?thesis
      using canonicalD(6) [OF assms(2)] by (simp add: exponentiateImpl_def)
  next
    case False
    then show ?thesis
      using exponentiateImpl_Inr(2) [OF assms] exponentiateImpl_Inl [OF assms, THEN conjunct1] by (cases "exponentiateImpl x y") auto
  qed
  have l: "max (bi_length x) (bi_length y) \<noteq> maxLength \<Longrightarrow> max (bi_length x) (bi_length y) < maxLength"
    using canonicalD(2) [OF assms(1)] canonicalD(2) [OF assms(2)] unfolding max_def by (auto split: if_splits)
  show "returns_bigint (bitwiseAndImpl x y)"
  proof (cases "m_sign x \<and> m_sign y \<and> max (bi_length x) (bi_length y) = maxLength")
    case False
    with l have "m_sign x \<and> m_sign y \<longrightarrow> max (bi_length x) (bi_length y) < maxLength"
      by blast
    from returns_bigintI [OF bitwiseAndImpl_correct [OF assms this]] show ?thesis .
  qed (use bitwise_max_length(1) [of x y] in simp)
  show "returns_bigint (bitwiseXorImpl x y)"
  proof (cases "m_sign x \<noteq> m_sign y \<and> max (bi_length x) (bi_length y) = maxLength")
    case False
    with l have "m_sign x \<noteq> m_sign y \<longrightarrow> max (bi_length x) (bi_length y) < maxLength"
      by blast
    from returns_bigintI [OF bitwiseXorImpl_correct [OF assms this]] show ?thesis .
  qed (use bitwise_max_length(2) [of x y] in simp)
  show "returns_bigint (bitwiseOrImpl x y)"
    using bitwiseOrImpl_correct [OF assms] by auto
  show "returns_bigint (leftShiftImpl x y)" "returns_bigint (signedRightShiftImpl x y)"
    using returns_bigint_if_not [OF leftShiftImpl_correct [OF assms]] returns_bigint_if_not [OF signedRightShiftImpl_correct [OF assms]]
    by simp_all
qed

context digit_divider
begin

lemma division_returns:
  assumes "canonical x" "canonical y"
  shows "returns_bigint (divideImpl dv x y)" "returns_bigint (remainderImpl dv x y)"
proof -
  consider "isZero y" | "absoluteCompare x y = LessThan" "\<not> isZero y"
    | "\<not> isZero y" "bi_length x < maxLength \<or> bi_length y = 1"
    | "bi_length x = maxLength" "2 \<le> bi_length y" "absoluteCompare x y \<noteq> LessThan"
    using canonicalD(2) [OF assms(1)] unfolding isZero_def by linarith
  then have "returns_bigint (divideImpl dv x y) \<and> returns_bigint (remainderImpl dv x y)"
  proof cases
    case 2
    then show ?thesis
      using assms(1) by (simp add: divideImpl_def remainderImpl_def createZero_eq canonical_zero)
  next
    case 3
    then have "bigint_val y \<noteq> 0"
      using canonicalD(5) [OF assms(2)] by simp
    from returns_bigintI [OF divideImpl_correct [OF assms this 3(2)]] returns_bigintI [OF remainderImpl_correct [OF assms this 3(2)]]
    show ?thesis ..
  qed (simp_all add: divideImpl_by_zero divideImpl_max_length [OF assms])
  then show "returns_bigint (divideImpl dv x y)" "returns_bigint (remainderImpl dv x y)"
    by blast+
qed

end

lemma truncate_returns:
  assumes "canonical x" "unat n < 2 ^ 63"
  shows "returns_bigint (asIntNImpl n x)" "returns_bigint (asUintNImpl n x)"
  using returns_bigintI [OF asIntNImpl_correct [OF assms]] returns_bigint_if [OF asUintNImpl_correct [OF assms]] by simp_all

end
