(* ===== verification/UnicodeMacros.thy ===== *)
theory UnicodeMacros
  imports Prelude
begin

text \<open>
  One code point: the macros of ICU that WTF uses to read and append UTF-8 and UTF-16 (\<open>WTF/icu/unicode/utf8.h\<close>,
  \<open>utf16.h\<close>), the loops of \<open>WTF/wtf/unicode/UTF8Conversion.cpp\<close> and \<open>String::fromUTF8\<close> built on them, and the reference
  encodings \<open>utf8_bytes\<close> and \<open>utf16_units\<close> of a scalar value. The lemmas show that \<open>U8_NEXT\<close> reads exactly the
  reference encodings (\<open>U8_NEXT_utf8_bytes\<close>, \<open>U8_NEXT_Some\<close>) and that the two \<open>APPEND\<close> macros write them.
\<close>


section \<open>The macros of ICU\<close>

text \<open>A code point is an \<open>UChar32\<close>; here an unsigned 32-bit word, and \<open>None\<close> for the negative value that reports an error.
  A string is the list of what is left of it.\<close>

definition U_IS_SURROGATE :: "u32 \<Rightarrow> bool" where
  "U_IS_SURROGATE c = (c AND 0xFFFFF800 = 0xD800)"

definition U_IS_SURROGATE_LEAD :: "u32 \<Rightarrow> bool" where
  "U_IS_SURROGATE_LEAD c = (c AND 0x400 = 0)"

definition U16_IS_LEAD :: "u32 \<Rightarrow> bool" where
  "U16_IS_LEAD c = (c AND 0xFFFFFC00 = 0xD800)"

definition U16_IS_TRAIL :: "u32 \<Rightarrow> bool" where
  "U16_IS_TRAIL c = (c AND 0xFFFFFC00 = 0xDC00)"

definition U16_GET_SUPPLEMENTARY :: "u32 \<Rightarrow> u32 \<Rightarrow> u32" where
  "U16_GET_SUPPLEMENTARY lead trail = push_bit 10 lead + trail - (push_bit 10 0xD800 + 0xDC00 - 0x10000)"

fun U16_NEXT :: "u16 list \<Rightarrow> u32 \<times> u16 list" where
  "U16_NEXT [] = (0, [])"
| "U16_NEXT (c # s) =
     (let c = ucast c in
      if U16_IS_LEAD c
      then (case s of
              [] \<Rightarrow> (c, s)
            | c2 # s' \<Rightarrow> if U16_IS_TRAIL (ucast c2) then (U16_GET_SUPPLEMENTARY c (ucast c2), s') else (c, s))
      else (c, s))"

definition U16_APPEND :: "u16 list \<Rightarrow> nat \<Rightarrow> u32 \<Rightarrow> u16 list option" where
  "U16_APPEND s capacity c =
     (if c \<le> 0xFFFF then Some (s @ [ucast c])
      else if c \<le> 0x10FFFF \<and> length s + 1 < capacity
      then Some (s @ [ucast (drop_bit 10 c + 0xD7C0), ucast ((c AND 0x3FF) OR 0xDC00)])
      else None)"

definition U8_LEAD3_T1_BITS :: "u8 list" where
  "U8_LEAD3_T1_BITS =
    [0x20, 0x30, 0x30, 0x30, 0x30, 0x30, 0x30, 0x30, 0x30, 0x30, 0x30, 0x30, 0x30, 0x10, 0x30, 0x30]"

definition U8_LEAD4_T1_BITS :: "u8 list" where
  "U8_LEAD4_T1_BITS =
    [0x00, 0x00, 0x00, 0x00, 0x00, 0x00, 0x00, 0x00, 0x1E, 0x0F, 0x0F, 0x0F, 0x00, 0x00, 0x00, 0x00]"

text \<open>The end of \<open>U8_INTERNAL_NEXT_OR_SUB\<close>, common to the three lengths: the last trail byte.\<close>

definition last_trail_byte :: "u32 \<Rightarrow> u8 list \<Rightarrow> u32 option \<times> u8 list" where
  "last_trail_byte c s =
     (case s of
        [] \<Rightarrow> (None, s)
      | b # s' \<Rightarrow>
          let t = b - 0x80
          in if t \<le> 0x3F then (Some (push_bit 6 c OR ucast t), s') else (None, s))"

fun U8_NEXT :: "u8 list \<Rightarrow> u32 option \<times> u8 list" where
  "U8_NEXT [] = (None, [])"
| "U8_NEXT (b # s) =
     (let c = ucast b in
      if c AND 0x80 = 0 then (Some c, s)
      else case s of
        [] \<Rightarrow> (None, s)
      | t # s1 \<Rightarrow>
          if c \<ge> 0xE0
          then
            if c < 0xF0
            then
              let c = c AND 0xF
              in if U8_LEAD3_T1_BITS ! unat c AND push_bit (unat (drop_bit 5 t)) 1 \<noteq> 0
                 then last_trail_byte (push_bit 6 c OR ucast (t AND 0x3F)) s1
                 else (None, s)
            else
              let c = c - 0xF0
              in if c \<le> 4 \<and> U8_LEAD4_T1_BITS ! unat (drop_bit 4 t) AND push_bit (unat c) 1 \<noteq> 0
                 then
                   let c = push_bit 6 c OR ucast (t AND 0x3F)
                   in case s1 of
                        [] \<Rightarrow> (None, s1)
                      | u # s2 \<Rightarrow>
                          let t = u - 0x80
                          in if t \<le> 0x3F then last_trail_byte (push_bit 6 c OR ucast t) s2 else (None, s1)
                 else (None, s)
          else if c \<ge> 0xC2 then last_trail_byte (c AND 0x1F) s
          else (None, s))"

definition U8_NEXT_OR_FFFD :: "u8 list \<Rightarrow> u32 option \<times> u8 list" where
  "U8_NEXT_OR_FFFD s = (case U8_NEXT s of (None, s') \<Rightarrow> (Some 0xFFFD, s') | (Some c, s') \<Rightarrow> (Some c, s'))"

definition U8_APPEND :: "u8 list \<Rightarrow> nat \<Rightarrow> u32 \<Rightarrow> u8 list option" where
  "U8_APPEND s capacity uc =
     (if uc \<le> 0x7F then Some (s @ [ucast uc])
      else if uc \<le> 0x7FF \<and> length s + 1 < capacity
      then Some (s @ [ucast (drop_bit 6 uc OR 0xC0), ucast ((uc AND 0x3F) OR 0x80)])
      else if (uc \<le> 0xD7FF \<or> 0xE000 \<le> uc \<and> uc \<le> 0xFFFF) \<and> length s + 2 < capacity
      then Some (s @ [ucast (drop_bit 12 uc OR 0xE0), ucast ((drop_bit 6 uc AND 0x3F) OR 0x80), ucast ((uc AND 0x3F) OR 0x80)])
      else if 0xFFFF < uc \<and> uc \<le> 0x10FFFF \<and> length s + 3 < capacity
      then Some (s @ [ucast (drop_bit 18 uc OR 0xF0), ucast ((drop_bit 12 uc AND 0x3F) OR 0x80),
             ucast ((drop_bit 6 uc AND 0x3F) OR 0x80), ucast ((uc AND 0x3F) OR 0x80)])
      else None)"

text \<open>\<open>U8_APPEND_UNSAFE\<close>, of any 16-bit unit, surrogates included, in \<open>putUTF8Triple\<close>.\<close>

definition putUTF8Triple :: "u8 list \<Rightarrow> u16 \<Rightarrow> u8 list" where
  "putUTF8Triple buffer character =
     (let uc = ucast character :: u32
      in buffer @ [ucast (drop_bit 12 uc OR 0xE0), ucast ((drop_bit 6 uc AND 0x3F) OR 0x80), ucast ((uc AND 0x3F) OR 0x80)])"

lemma last_trail_byte_length: "length (snd (last_trail_byte c s)) \<le> length s"
  by (auto simp: last_trail_byte_def Let_def split: list.split)

lemma U8_NEXT_length: "s \<noteq> [] \<Longrightarrow> length (snd (U8_NEXT s)) < length s"
proof (cases s)
  case (Cons b s')
  then show ?thesis
    by (auto simp: Let_def le_imp_less_Suc last_trail_byte_length split: list.split
        intro!: le_trans [OF last_trail_byte_length] le_imp_less_Suc)
qed simp

lemma U8_NEXT_OR_FFFD_snd: "snd (U8_NEXT_OR_FFFD s) = snd (U8_NEXT s)"
  by (simp add: U8_NEXT_OR_FFFD_def split: prod.split option.split)

lemma U16_NEXT_length: "s \<noteq> [] \<Longrightarrow> length (snd (U16_NEXT s)) < length s"
  by (cases s) (auto simp: Let_def split: list.split)

section \<open>The conversions\<close>

datatype ConversionResult = Success | SourceExhausted | TargetExhausted | SourceIllegal

definition replacementCharacter :: u16 where "replacementCharacter = 0xFFFD"

text \<open>The loop of \<open>convertUTF8ToUTF16Impl\<close>; \<open>None\<close> is the result \<open>false\<close>.\<close>

function convertUTF8ToUTF16Impl :: "bool \<Rightarrow> u8 list \<Rightarrow> u16 list \<Rightarrow> nat \<Rightarrow> u16 list option" where
  "convertUTF8ToUTF16Impl replaceInvalidSequences source target capacity =
     (if source = [] then Some target
      else
        case (if replaceInvalidSequences then U8_NEXT_OR_FFFD source else U8_NEXT source) of
          (None, source') \<Rightarrow> None
        | (Some character, source') \<Rightarrow>
            case U16_APPEND target capacity character of
              None \<Rightarrow> None
            | Some target \<Rightarrow> convertUTF8ToUTF16Impl replaceInvalidSequences source' target capacity)"
  by pat_completeness auto
termination
proof (relation "measure (\<lambda>(r, s, t, c). length s)", goal_cases)
  case (2 r s t c x s' ch t')
  then have "snd (U8_NEXT s) = s'" by (metis U8_NEXT_OR_FFFD_snd snd_conv)
  then show ?case using 2 U8_NEXT_length [of s] by simp
qed simp

declare convertUTF8ToUTF16Impl.simps [simp del]

definition StringImpl_MaxLength :: nat where "StringImpl_MaxLength = 2 ^ 31 - 1"

text \<open>The outer option is the crash of the release assertion, the inner one the null string.\<close>

definition fromUTF8Impl :: "bool \<Rightarrow> u8 list \<Rightarrow> u16 list option option" where
  "fromUTF8Impl replaceInvalidSequences stringStart =
     (if \<not> length stringStart \<le> StringImpl_MaxLength then None
      else if stringStart = [] then Some (Some [])
      else if list_all (\<lambda>c. c AND 0x80 = 0) stringStart then Some (Some (map ucast stringStart))
      else Some (convertUTF8ToUTF16Impl replaceInvalidSequences stringStart [] (length stringStart)))"

function convertUTF16ToUTF8 :: "u16 list \<Rightarrow> u8 list \<Rightarrow> nat \<Rightarrow> bool \<Rightarrow> ConversionResult \<times> u16 list \<times> u8 list" where
  "convertUTF16ToUTF8 source target capacity strict =
     (if source = [] then (Success, source, target)
      else
        let (ch, source') = U16_NEXT source
        in if U_IS_SURROGATE ch \<and> source' = [] \<and> U_IS_SURROGATE_LEAD ch then (SourceExhausted, source, target)
           else if U_IS_SURROGATE ch \<and> strict then (SourceIllegal, source, target)
           else
             let ch = (if U_IS_SURROGATE ch then ucast replacementCharacter else ch)
             in case U8_APPEND target capacity ch of
                  None \<Rightarrow> (TargetExhausted, source, target)
                | Some target \<Rightarrow> convertUTF16ToUTF8 source' target capacity strict)"
  by pat_completeness auto
termination
proof (relation "measure (\<lambda>(s, t, c, r). length s)", goal_cases)
  case (2 s t c r p ch s' ch' t')
  then have "snd (U16_NEXT s) = s'" by (metis snd_conv)
  then show ?case using 2 U16_NEXT_length [of s] by simp
qed simp

declare convertUTF16ToUTF8.simps [simp del]


section \<open>Scalar values and their encodings\<close>

text \<open>The reference: the code points but the surrogates, and their encodings as the Unicode standard tabulates
  them.\<close>

definition scalar_value :: "nat \<Rightarrow> bool" where
  "scalar_value n \<longleftrightarrow> n < 0xD800 \<or> 0xE000 \<le> n \<and> n < 0x110000"

definition utf8_bytes :: "nat \<Rightarrow> u8 list" where
  "utf8_bytes n =
     (if n < 0x80 then [of_nat n]
      else if n < 0x800 then [of_nat (0xC0 + n div 64), of_nat (0x80 + n mod 64)]
      else if n < 0x10000 then [of_nat (0xE0 + n div 4096), of_nat (0x80 + n div 64 mod 64), of_nat (0x80 + n mod 64)]
      else [of_nat (0xF0 + n div 262144), of_nat (0x80 + n div 4096 mod 64), of_nat (0x80 + n div 64 mod 64),
            of_nat (0x80 + n mod 64)])"

definition utf16_units :: "nat \<Rightarrow> u16 list" where
  "utf16_units n =
     (if n < 0x10000 then [of_nat n] else [of_nat (0xD7C0 + n div 1024), of_nat (0xDC00 + n mod 1024)])"

definition trail_byte :: "u8 \<Rightarrow> bool" where
  "trail_byte b \<longleftrightarrow> 0x80 \<le> unat b \<and> unat b < 0xC0"

lemma trail_byte_iff: "b - 0x80 \<le> 0x3F \<longleftrightarrow> trail_byte b"
  and unat_trail_byte: "trail_byte b \<Longrightarrow> unat (ucast (b - 0x80) :: u32) = unat b - 0x80"
proof -
  have b: "unat b < 256" using unsigned_less [of b] by simp
  show "b - 0x80 \<le> 0x3F \<longleftrightarrow> trail_byte b"
    using b by (auto simp: trail_byte_def word_le_nat_alt unat_sub_if' split: if_splits)
  show "trail_byte b \<Longrightarrow> unat (ucast (b - 0x80) :: u32) = unat b - 0x80"
    by (auto simp: trail_byte_def unat_sub_if' unsigned_ucast_eq word_le_nat_alt intro!: take_bit_nat_eq_self)
qed

lemma unat_u8: "n < 256 \<Longrightarrow> unat (of_nat n :: u8) = n"
  by (simp add: unat_of_nat)

lemma nat_div_eq_iff: "0 < k \<Longrightarrow> x div k = q \<longleftrightarrow> q * k \<le> x \<and> x < Suc q * k" for x :: nat
  by (metis div_less_iff_less_mult less_Suc_eq_le less_eq_div_iff_mult_less_eq order_antisym order_refl)

lemma mod_offset: "k * q \<le> x \<Longrightarrow> x < k * q + k \<Longrightarrow> x mod k = x - k * q" for x :: nat
  by (metis add_diff_cancel_left' le_Suc_ex mod_less mod_mult_self4 nat_add_left_cancel_less)

lemma mod_offsets:
  fixes x :: nat
  shows "0x80 \<le> x \<Longrightarrow> x < 0xC0 \<Longrightarrow> x mod 64 = x - 0x80" "0xE0 \<le> x \<Longrightarrow> x < 0xF0 \<Longrightarrow> x mod 16 = x - 0xE0"
    "0xC0 \<le> x \<Longrightarrow> x < 0xE0 \<Longrightarrow> x mod 32 = x - 0xC0"
proof -
  assume "0x80 \<le> x" "x < 0xC0"
  then have "x mod 64 = x - 64 * 2" by (intro mod_offset) linarith+
  then show "x mod 64 = x - 0x80" by linarith
next
  assume "0xE0 \<le> x" "x < 0xF0"
  then have "x mod 16 = x - 16 * 14" by (intro mod_offset) linarith+
  then show "x mod 16 = x - 0xE0" by linarith
next
  assume "0xC0 \<le> x" "x < 0xE0"
  then have "x mod 32 = x - 32 * 6" by (intro mod_offset) linarith+
  then show "x mod 32 = x - 0xC0" by linarith
qed

lemma shift_last_trail:
  fixes c :: u32
  assumes "trail_byte b" "unat c < 2 ^ 20"
  shows "push_bit 6 c OR ucast (b - 0x80) = of_nat (unat c * 64 + (unat b - 0x80))"
proof -
  have v: "unat (ucast (b - 0x80) :: u32) = unat b - 0x80" using assms(1) by (rule unat_trail_byte)
  then have "unat (ucast (b - 0x80) :: u32) < 2 ^ 6" using assms(1) by (auto simp: trail_byte_def)
  moreover have "unat c * 2 ^ 6 < 2 ^ LENGTH(32)" using assms(2) by simp
  ultimately have "unat (push_bit 6 c OR ucast (b - 0x80)) = unat c * 2 ^ 6 + unat (ucast (b - 0x80) :: u32)"
    by (rule unat_shift_or)
  then have u: "unat (push_bit 6 c OR ucast (b - 0x80)) = unat c * 64 + (unat b - 0x80)" unfolding v by simp
  have "push_bit 6 c OR ucast (b - 0x80) = of_nat (unat (push_bit 6 c OR ucast (b - 0x80)))" by (rule word_of_unat [symmetric])
  then show ?thesis unfolding u .
qed

lemma last_trail_byte_eq:
  assumes "unat c < 2 ^ 20"
  shows "last_trail_byte c s =
    (case s of
       [] \<Rightarrow> (None, [])
     | b # s' \<Rightarrow> if trail_byte b then (Some (of_nat (unat c * 64 + (unat b - 0x80))), s') else (None, s))"
  using shift_last_trail [OF _ assms]
  by (cases s) (simp_all add: last_trail_byte_def Let_def trail_byte_iff)

lemma lead3_table:
  assumes "c < 16" "k < 8"
  shows "U8_LEAD3_T1_BITS ! c AND push_bit k 1 \<noteq> 0 \<longleftrightarrow> (k = 4 \<or> k = 5) \<and> (c = 0 \<longrightarrow> k = 5) \<and> (c = 13 \<longrightarrow> k = 4)"
proof -
  have "list_all (\<lambda>c. list_all (\<lambda>k. (U8_LEAD3_T1_BITS ! c AND push_bit k 1 \<noteq> 0) =
      ((k = 4 \<or> k = 5) \<and> (c = 0 \<longrightarrow> k = 5) \<and> (c = 13 \<longrightarrow> k = 4))) [0..<8]) [0..<16]"
    by code_simp
  then show ?thesis using assms by (auto simp: list_all_iff)
qed

lemma lead4_table:
  assumes "c \<le> 4" "k < 16"
  shows "U8_LEAD4_T1_BITS ! k AND push_bit c 1 \<noteq> 0 \<longleftrightarrow> 8 \<le> k \<and> k < 12 \<and> (c = 0 \<longrightarrow> 9 \<le> k) \<and> (c = 4 \<longrightarrow> k = 8)"
proof -
  have "list_all (\<lambda>c. list_all (\<lambda>k. (U8_LEAD4_T1_BITS ! k AND push_bit c 1 \<noteq> 0) =
      (8 \<le> k \<and> k < 12 \<and> (c = 0 \<longrightarrow> 9 \<le> k) \<and> (c = 4 \<longrightarrow> k = 8))) [0..<16]) [0..<5]"
    by code_simp
  then show ?thesis using assms by (auto simp: list_all_iff)
qed


section \<open>Reading one code point\<close>

lemma unat_wide: "unat (ucast b :: u32) = unat b" for b :: u8
proof -
  have "unat b < 256" using unsigned_less [of b] by simp
  then show ?thesis by (simp add: unsigned_ucast_eq take_bit_nat_eq_self)
qed

lemma unat_low_bits: "unat ((ucast b :: u32) AND 0xF) = unat b mod 16" "unat ((ucast b :: u32) AND 0x1F) = unat b mod 32"
  for b :: u8
proof -
  have m: "(0xF :: u32) = mask 4" "(0x1F :: u32) = mask 5" by (simp_all add: mask_eq_exp_minus_1)
  show "unat ((ucast b :: u32) AND 0xF) = unat b mod 16" "unat ((ucast b :: u32) AND 0x1F) = unat b mod 32"
    unfolding m unat_and_mask_mod by (simp_all add: unat_wide)
qed

lemma unat_trail_bits: "trail_byte t \<Longrightarrow> unat (ucast (t AND 0x3F) :: u32) = unat t - 0x80"
proof -
  assume t: "trail_byte t"
  have m: "(0x3F :: u8) = mask 6" by (simp add: mask_eq_exp_minus_1)
  have "0x80 \<le> unat t" "unat t < 0xC0" using t by (simp_all add: trail_byte_def)
  then have "unat t mod 64 = unat t - 0x80" by (rule mod_offsets)
  then show ?thesis unfolding unat_wide m unat_and_mask_mod by simp
qed

lemma shift_trail_bits:
  fixes c :: u32
  assumes "trail_byte t" "unat c < 2 ^ 20"
  shows "push_bit 6 c OR ucast (t AND 0x3F) = of_nat (unat c * 64 + (unat t - 0x80))" "unat (push_bit 6 c OR ucast (t AND 0x3F)) = unat c * 64 + (unat t - 0x80)"
proof -
  note v = unat_trail_bits [OF assms(1)]
  have "unat (ucast (t AND 0x3F) :: u32) < 2 ^ 6" unfolding v using assms(1) by (auto simp: trail_byte_def)
  moreover have "unat c * 2 ^ 6 < 2 ^ LENGTH(32)" using assms(2) by simp
  ultimately have "unat (push_bit 6 c OR ucast (t AND 0x3F)) = unat c * 2 ^ 6 + unat (ucast (t AND 0x3F) :: u32)"
    by (rule unat_shift_or)
  then show u: "unat (push_bit 6 c OR ucast (t AND 0x3F)) = unat c * 64 + (unat t - 0x80)" unfolding v by simp
  have "push_bit 6 c OR ucast (t AND 0x3F) = of_nat (unat (push_bit 6 c OR ucast (t AND 0x3F)))" by (rule word_of_unat [symmetric])
  then show "push_bit 6 c OR ucast (t AND 0x3F) = of_nat (unat c * 64 + (unat t - 0x80))" unfolding u .
qed

lemma single_byte: "(ucast b :: u32) AND 0x80 = 0 \<longleftrightarrow> unat b < 0x80" for b :: u8
proof -
  have "(ucast b :: u32) AND 2 ^ 7 = 0 \<longleftrightarrow> \<not> bit (ucast b :: u32) 7" by (rule and_exp_eq_0_iff_not_bit)
  also have "\<dots> \<longleftrightarrow> \<not> bit (unat b) 7" by (simp add: bit_unsigned_iff)
  also have "\<dots> \<longleftrightarrow> unat b div 2 ^ 7 mod 2 = 0" by (simp add: bit_iff_odd even_iff_mod_2_eq_zero)
  also have "unat b div 2 ^ 7 mod 2 = unat b div 2 ^ 7"
  proof (rule mod_less)
    have "unat b < 256" using unsigned_less [of b] by simp
    then show "unat b div 2 ^ 7 < 2" by (intro less_mult_imp_div_less) simp
  qed
  also have "unat b div 2 ^ 7 = 0 \<longleftrightarrow> unat b < 0x80" by (simp add: div_eq_0_iff)
  finally show ?thesis by simp
qed

text \<open>Which second bytes follow a lead byte of three and of four bytes.\<close>

definition second_byte3 :: "u8 \<Rightarrow> u8 \<Rightarrow> bool" where
  "second_byte3 b t \<longleftrightarrow> trail_byte t \<and> (unat b = 0xE0 \<longrightarrow> 0xA0 \<le> unat t) \<and> (unat b = 0xED \<longrightarrow> unat t < 0xA0)"

definition second_byte4 :: "u8 \<Rightarrow> u8 \<Rightarrow> bool" where
  "second_byte4 b t \<longleftrightarrow> trail_byte t \<and> (unat b = 0xF0 \<longrightarrow> 0x90 \<le> unat t) \<and> (unat b = 0xF4 \<longrightarrow> unat t < 0x90)"

lemma second_byte3_iff:
  assumes "0xE0 \<le> unat b" "unat b < 0xF0"
  shows "U8_LEAD3_T1_BITS ! (unat b mod 16) AND push_bit (unat (drop_bit 5 t)) 1 \<noteq> 0 \<longleftrightarrow> second_byte3 b t"
proof -
  have t: "unat t < 256" using unsigned_less [of t] by simp
  have k: "unat (drop_bit 5 t) = unat t div 32" unfolding unat_drop_bit_div by simp
  have b: "unat b mod 16 = unat b - 0xE0" using assms by (rule mod_offsets)
  have lt: "unat b - 0xE0 < 16" "unat t div 32 < 8" using t assms by (simp_all add: less_mult_imp_div_less)
  have d: "unat t div 32 = 4 \<longleftrightarrow> 0x80 \<le> unat t \<and> unat t < 0xA0" "unat t div 32 = 5 \<longleftrightarrow> 0xA0 \<le> unat t \<and> unat t < 0xC0"
    by (simp_all add: nat_div_eq_iff)
  have e: "unat b - 0xE0 = 0 \<longleftrightarrow> unat b = 0xE0" "unat b - 0xE0 = 13 \<longleftrightarrow> unat b = 0xED" using assms by auto
  show ?thesis unfolding k b lead3_table [OF lt] d e second_byte3_def trail_byte_def by auto
qed

lemma second_byte4_iff:
  assumes "0xF0 \<le> unat b" "unat b < 0xF5"
  shows "U8_LEAD4_T1_BITS ! unat (drop_bit 4 t) AND push_bit (unat b - 0xF0) 1 \<noteq> 0 \<longleftrightarrow> second_byte4 b t"
proof -
  have t: "unat t < 256" using unsigned_less [of t] by simp
  have k: "unat (drop_bit 4 t) = unat t div 16" unfolding unat_drop_bit_div by simp
  have lt: "unat b - 0xF0 \<le> 4" "unat t div 16 < 16" using t assms by (simp_all add: less_mult_imp_div_less)
  have d: "8 \<le> unat t div 16 \<longleftrightarrow> 0x80 \<le> unat t" "unat t div 16 < 12 \<longleftrightarrow> unat t < 0xC0"
    "9 \<le> unat t div 16 \<longleftrightarrow> 0x90 \<le> unat t" "unat t div 16 = 8 \<longleftrightarrow> 0x80 \<le> unat t \<and> unat t < 0x90"
    by (simp_all add: less_eq_div_iff_mult_less_eq div_less_iff_less_mult nat_div_eq_iff)
  have e: "unat b - 0xF0 = 0 \<longleftrightarrow> unat b = 0xF0" "unat b - 0xF0 = 4 \<longleftrightarrow> unat b = 0xF4" using assms by auto
  show ?thesis unfolding k lead4_table [OF lt] d e second_byte4_def trail_byte_def by auto
qed

lemma U8_NEXT_1: "unat b < 0x80 \<Longrightarrow> U8_NEXT (b # s) = (Some (of_nat (unat b)), s)"
proof -
  assume b: "unat b < 0x80"
  have "(ucast b :: u32) = of_nat (unat b)" by (simp add: word_unat_eq_iff unat_wide)
  then show ?thesis using b by (simp add: single_byte)
qed

lemma wide_compare:
  "(0xE0 :: u32) \<le> ucast b \<longleftrightarrow> 0xE0 \<le> unat b" "ucast b < (0xF0 :: u32) \<longleftrightarrow> unat b < 0xF0" "(0xC2 :: u32) \<le> ucast b \<longleftrightarrow> 0xC2 \<le> unat b"
  for b :: u8
  by (simp_all add: word_le_nat_alt word_less_nat_alt unat_wide)

lemma U8_NEXT_2: "0xC2 \<le> unat b \<Longrightarrow> unat b < 0xE0 \<Longrightarrow> U8_NEXT (b # s) = last_trail_byte (of_nat (unat b - 0xC0)) s"
proof -
  assume b: "0xC2 \<le> unat b" "unat b < 0xE0"
  have "unat ((ucast b :: u32) AND 0x1F) = unat b - 0xC0" unfolding unat_low_bits using b by (intro mod_offsets) simp_all
  then have "(ucast b :: u32) AND 0x1F = of_nat (unat b - 0xC0)" by (metis word_of_unat)
  then show ?thesis using b by (simp add: Let_def single_byte wide_compare last_trail_byte_def split: list.split)
qed

lemma U8_NEXT_3:
  assumes "0xE0 \<le> unat b" "unat b < 0xF0"
  shows "U8_NEXT (b # s) =
    (case s of [] \<Rightarrow> (None, [])
     | t # s1 \<Rightarrow> if second_byte3 b t then last_trail_byte (of_nat ((unat b - 0xE0) * 64 + (unat t - 0x80))) s1 else (None, s))"
proof (cases s)
  case (Cons t s1)
  have c: "unat ((ucast b :: u32) AND 0xF) = unat b - 0xE0" unfolding unat_low_bits using assms by (rule mod_offsets)
  have "push_bit 6 ((ucast b :: u32) AND 0xF) OR ucast (t AND 0x3F) = of_nat ((unat b - 0xE0) * 64 + (unat t - 0x80))" if "second_byte3 b t"
    using shift_trail_bits(1) [of t "ucast b AND 0xF"] that assms unfolding c by (simp add: second_byte3_def)
  then show ?thesis
    using Cons assms second_byte3_iff [OF assms, of t] by (simp add: Let_def single_byte wide_compare unat_low_bits)
qed (use assms in \<open>simp add: Let_def single_byte\<close>)

lemma U8_NEXT_4:
  assumes "0xF0 \<le> unat b"
  shows "U8_NEXT (b # s) =
    (case s of [] \<Rightarrow> (None, [])
     | t # s1 \<Rightarrow>
         if unat b < 0xF5 \<and> second_byte4 b t
         then case s1 of
                [] \<Rightarrow> (None, [])
              | u # s2 \<Rightarrow>
                  if trail_byte u then last_trail_byte (of_nat (((unat b - 0xF0) * 64 + (unat t - 0x80)) * 64 + (unat u - 0x80))) s2
                  else (None, s1)
         else (None, s))"
proof (cases s)
  case (Cons t s1)
  have c: "unat ((ucast b :: u32) - 0xF0) = unat b - 0xF0" using assms by (simp add: unat_sub_if' unat_wide word_le_nat_alt)
  have le: "(ucast b :: u32) - 0xF0 \<le> 4 \<longleftrightarrow> unat b < 0xF5" using assms c by (auto simp: word_le_nat_alt)
  have first: "push_bit 6 ((ucast b :: u32) - 0xF0) OR ucast (t AND 0x3F) = of_nat ((unat b - 0xF0) * 64 + (unat t - 0x80))"
    if "second_byte4 b t" "unat b < 0xF5"
    using shift_trail_bits(1) [of t "ucast b - 0xF0"] that unfolding c by (simp add: second_byte4_def)
  have second: "push_bit 6 (of_nat ((unat b - 0xF0) * 64 + (unat t - 0x80)) :: u32) OR ucast (u - 0x80) =
      of_nat (((unat b - 0xF0) * 64 + (unat t - 0x80)) * 64 + (unat u - 0x80))"
    if "second_byte4 b t" "unat b < 0xF5" "trail_byte u" for u
  proof -
    have "(unat b - 0xF0) * 64 \<le> 4 * 64" using that(2) by (intro mult_right_mono) linarith+
    moreover have "unat t - 0x80 < 64" using that(1) by (auto simp: second_byte4_def trail_byte_def)
    ultimately have "(unat b - 0xF0) * 64 + (unat t - 0x80) < 320" by linarith
    then have lt: "(unat b - 0xF0) * 64 + (unat t - 0x80) < 2 ^ 20" by (rule order_less_trans) simp
    then have u: "unat (of_nat ((unat b - 0xF0) * 64 + (unat t - 0x80)) :: u32) = (unat b - 0xF0) * 64 + (unat t - 0x80)"
      by (simp only: unat_of_nat) simp
    show ?thesis using shift_last_trail [OF that(3), of "of_nat ((unat b - 0xF0) * 64 + (unat t - 0x80))"] lt unfolding u .
  qed
  show ?thesis
  proof (cases "unat b < 0xF5 \<and> second_byte4 b t")
    case True
    then show ?thesis
      using Cons assms second_byte4_iff [of b t] le c first second
      by (simp add: Let_def single_byte wide_compare trail_byte_iff split: list.split)
  next
    case False
    then show ?thesis
      using Cons assms second_byte4_iff [of b t] le c
      by (auto simp: Let_def single_byte wide_compare)
  qed
qed (use assms in \<open>simp add: Let_def single_byte\<close>)

lemma U8_NEXT_bad: "0x80 \<le> unat b \<Longrightarrow> unat b < 0xC2 \<Longrightarrow> fst (U8_NEXT (b # s)) = None"
  by (simp add: Let_def single_byte wide_compare split: list.split)


lemma split64: "v < 64 \<Longrightarrow> (a * 64 + v) div 64 = a" "v < 64 \<Longrightarrow> (a * 64 + v) mod 64 = v" for a v :: nat
  by simp_all

lemma unat_u32: "n < 2 ^ 32 \<Longrightarrow> unat (of_nat n :: u32) = n"
  by (simp add: unat_of_nat)

lemma trail_value: "trail_byte b \<Longrightarrow> unat b - 0x80 < 64" "trail_byte b \<Longrightarrow> of_nat (0x80 + (unat b - 0x80)) = b"
proof -
  assume b: "trail_byte b"
  show "unat b - 0x80 < 64" using b by (auto simp: trail_byte_def)
  have "0x80 + (unat b - 0x80) = unat b" using b by (simp add: trail_byte_def)
  then show "of_nat (0x80 + (unat b - 0x80)) = b" by (simp only: word_of_unat)
qed

lemma lead_value: "k \<le> unat b \<Longrightarrow> of_nat (k + (unat b - k)) = b" for b :: u8
  by (simp only: le_add_diff_inverse word_of_unat)

lemma U8_NEXT_Some:
  assumes "U8_NEXT bs = (Some c, s)"
  shows "scalar_value (unat c) \<and> bs = utf8_bytes (unat c) @ s"
proof (cases bs)
  case Nil
  then show ?thesis using assms by simp
next
  case (Cons b r)
  consider "unat b < 0x80" | "0x80 \<le> unat b" "unat b < 0xC2" | "0xC2 \<le> unat b" "unat b < 0xE0" | "0xE0 \<le> unat b" "unat b < 0xF0"
    | "0xF0 \<le> unat b" by linarith
  then show ?thesis
  proof cases
    case 1
    then have "c = of_nat (unat b)" "r = s" using assms Cons U8_NEXT_1 by auto
    then have "unat c = unat b" by (simp add: unat_wide)
    then show ?thesis using Cons 1 \<open>r = s\<close> by (simp add: utf8_bytes_def scalar_value_def)
  next
    case 2
    then show ?thesis using U8_NEXT_bad [of b r] assms Cons by simp
  next
    case 3
    have "unat b - 0xC0 < 32" using 3 by linarith
    then have l: "unat b - 0xC0 < 2 ^ 20" by (rule order_less_trans) simp
    then have u: "unat (of_nat (unat b - 0xC0) :: u32) = unat b - 0xC0" by (intro unat_u32) simp
    obtain t where t: "r = t # s" "trail_byte t" "c = of_nat ((unat b - 0xC0) * 64 + (unat t - 0x80))"
      using assms U8_NEXT_2 [OF 3, of r] last_trail_byte_eq [of "of_nat (unat b - 0xC0)" r] l unfolding u Cons
      by (auto split: list.splits if_splits)
    define n where "n = (unat b - 0xC0) * 64 + (unat t - 0x80)"
    note v = trail_value [OF t(2)]
    have n: "0x80 \<le> n" "n < 0x800" using 3 v(1) unfolding n_def by linarith+
    have d: "n div 64 = unat b - 0xC0" "n mod 64 = unat t - 0x80" unfolding n_def by (rule split64 [OF v(1)])+
    have c: "unat c = n" unfolding t(3) n_def [symmetric] using n by (intro unat_u32) simp
    have "utf8_bytes n = [b, t]" unfolding utf8_bytes_def d using n v(2) lead_value [of "0xC0" b] 3(1) by simp
    then show ?thesis unfolding c Cons t(1) using n by (simp add: scalar_value_def)
  next
    case 4
    obtain t r1 where t: "r = t # r1" "second_byte3 b t" "last_trail_byte (of_nat ((unat b - 0xE0) * 64 + (unat t - 0x80))) r1 = (Some c, s)"
      using assms U8_NEXT_3 [OF 4, of r] unfolding Cons by (auto split: list.splits if_splits)
    have tt: "trail_byte t" using t(2) by (simp add: second_byte3_def)
    note vt = trail_value [OF tt]
    define m where "m = (unat b - 0xE0) * 64 + (unat t - 0x80)"
    have m: "m < 1024" using 4 vt(1) unfolding m_def by linarith
    then have u: "unat (of_nat m :: u32) = m" by (intro unat_u32) simp
    obtain w where w: "r1 = w # s" "trail_byte w" "c = of_nat (m * 64 + (unat w - 0x80))"
      using t(3) last_trail_byte_eq [of "of_nat m" r1] m unfolding u m_def [symmetric] by (auto split: list.splits if_splits)
    note vw = trail_value [OF w(2)]
    define n where "n = m * 64 + (unat w - 0x80)"
    have d: "n div 64 = m" "n mod 64 = unat w - 0x80" "m div 64 = unat b - 0xE0" "m mod 64 = unat t - 0x80"
      unfolding n_def m_def by (rule split64 [OF vw(1)] split64 [OF vt(1)])+
    have d2: "n div 4096 = unat b - 0xE0" using div_mult2_eq [of n 64 64] unfolding d by simp
    have n: "0x800 \<le> n" "n < 0x10000" "scalar_value n"
    proof -
      have "0x20 \<le> m" using 4 t(2) unfolding m_def second_byte3_def trail_byte_def by (cases "unat b = 0xE0") auto
      then show "0x800 \<le> n" unfolding n_def by linarith
      show "n < 0x10000" using m vw(1) unfolding n_def by linarith
      consider "unat b < 0xED" | "unat b = 0xED" | "0xED < unat b" by linarith
      then show "scalar_value n"
      proof cases
        case 1
        then have "m < 13 * 64" using vt(1) unfolding m_def by linarith
        then show ?thesis using vw(1) unfolding scalar_value_def n_def by linarith
      next
        case 2
        then have "m < 13 * 64 + 32" using t(2) tt unfolding m_def second_byte3_def trail_byte_def by auto
        then show ?thesis using vw(1) unfolding scalar_value_def n_def by linarith
      next
        case 3
        then have "14 * 64 \<le> m" unfolding m_def by linarith
        then show ?thesis using m vw(1) unfolding scalar_value_def n_def by linarith
      qed
    qed
    have c: "unat c = n" unfolding w(3) n_def [symmetric] using n by (intro unat_u32) simp
    have "utf8_bytes n = [b, t, w]" unfolding utf8_bytes_def d d2 using n(1,2) vw(2) vt(2) lead_value [of "0xE0" b] 4(1) by simp
    then show ?thesis unfolding c Cons t(1) w(1) using n(3) by simp
  next
    case 5
    obtain t u r2 where t: "r = t # u # r2" "unat b < 0xF5" "second_byte4 b t" "trail_byte u"
      "last_trail_byte (of_nat (((unat b - 0xF0) * 64 + (unat t - 0x80)) * 64 + (unat u - 0x80))) r2 = (Some c, s)"
      using assms U8_NEXT_4 [OF 5, of r] unfolding Cons by (auto split: list.splits if_splits)
    have tt: "trail_byte t" using t(3) by (simp add: second_byte4_def)
    note vt = trail_value [OF tt] and vu = trail_value [OF t(4)]
    define l where "l = (unat b - 0xF0) * 64 + (unat t - 0x80)"
    define m where "m = l * 64 + (unat u - 0x80)"
    have l: "16 \<le> l" "l < 272"
    proof -
      show "16 \<le> l" using 5 t(3) unfolding l_def second_byte4_def trail_byte_def by (cases "unat b = 0xF0") auto
      show "l < 272" using t(2,3) vt(1) unfolding l_def second_byte4_def trail_byte_def by (cases "unat b = 0xF4") auto
    qed
    have m: "m < 17408" using l(2) vu(1) unfolding m_def by linarith
    then have um: "unat (of_nat m :: u32) = m" by (intro unat_u32) simp
    obtain w where w: "r2 = w # s" "trail_byte w" "c = of_nat (m * 64 + (unat w - 0x80))"
      using t(5) last_trail_byte_eq [of "of_nat m" r2] m unfolding um l_def [symmetric] m_def [symmetric]
      by (auto split: list.splits if_splits)
    note vw = trail_value [OF w(2)]
    define n where "n = m * 64 + (unat w - 0x80)"
    have d: "n div 64 = m" "n mod 64 = unat w - 0x80" "m div 64 = l" "m mod 64 = unat u - 0x80" "l div 64 = unat b - 0xF0" "l mod 64 = unat t - 0x80"
      unfolding n_def m_def l_def by (rule split64 [OF vw(1)] split64 [OF vu(1)] split64 [OF vt(1)])+
    have d2: "n div 4096 = l" using div_mult2_eq [of n 64 64] unfolding d by simp
    have d3: "n div 262144 = unat b - 0xF0" using div_mult2_eq [of n 4096 64] unfolding d2 d by simp
    have n: "0x10000 \<le> n" "n < 0x110000"
    proof -
      have "16 * 64 \<le> m" using l(1) unfolding m_def by linarith
      then show "0x10000 \<le> n" unfolding n_def by linarith
      show "n < 0x110000" using m vw(1) unfolding n_def by linarith
    qed
    have c: "unat c = n" unfolding w(3) n_def [symmetric] using n by (intro unat_u32) simp
    have "utf8_bytes n = [b, t, u, w]" unfolding utf8_bytes_def d d2 d3 using n vw(2) vu(2) vt(2) lead_value [of "0xF0" b] 5 by simp
    then show ?thesis unfolding c Cons t(1) w(1) using n by (simp add: scalar_value_def)
  qed
qed


lemma trail_of_nat: "r < 64 \<Longrightarrow> unat (of_nat (0x80 + r) :: u8) = 0x80 + r" "r < 64 \<Longrightarrow> trail_byte (of_nat (0x80 + r))"
proof -
  assume r: "r < 64"
  show u: "unat (of_nat (0x80 + r) :: u8) = 0x80 + r" using r by (intro unat_u8) simp
  show "trail_byte (of_nat (0x80 + r))" unfolding trail_byte_def u using r by simp
qed

lemma U8_NEXT_last:
  assumes "a < 2 ^ 20" "r < 64"
  shows "last_trail_byte (of_nat a) (of_nat (0x80 + r) # s) = (Some (of_nat (a * 64 + r)), s)"
proof -
  have a: "unat (of_nat a :: u32) = a" using assms(1) by (intro unat_u32) simp
  show ?thesis using last_trail_byte_eq [of "of_nat a" "of_nat (0x80 + r) # s"] assms(1) trail_of_nat [OF assms(2)] unfolding a
    by (simp del: of_nat_add)
qed

lemma U8_NEXT_utf8_bytes:
  assumes "scalar_value n"
  shows "U8_NEXT (utf8_bytes n @ s) = (Some (of_nat n), s)"
proof -
  define r where "r = n mod 64"
  define m where "m = n div 64"
  define q where "q = m mod 64"
  define l where "l = m div 64"
  have n: "n = m * 64 + r" by (simp add: m_def r_def)
  have m: "m = l * 64 + q" by (simp add: q_def l_def)
  have r: "r < 64" "q < 64" by (simp_all add: r_def q_def)
  have l4096: "n div 4096 = l" using div_mult2_eq [of n 64 64] by (simp add: l_def m_def)
  consider "n < 0x80" | "0x80 \<le> n" "n < 0x800" | "0x800 \<le> n" "n < 0x10000" | "0x10000 \<le> n" "n < 0x110000"
    using assms unfolding scalar_value_def by linarith
  then show ?thesis
  proof cases
    case 1
    then have "unat (of_nat n :: u8) = n" by (intro unat_u8) simp
    then show ?thesis using U8_NEXT_1 [of "of_nat n" s] 1 by (simp add: utf8_bytes_def)
  next
    case 2
    then have b: "2 \<le> m" "m < 32" using n r(1) by linarith+
    have u: "unat (of_nat (0xC0 + m) :: u8) = 0xC0 + m" using b by (intro unat_u8) simp
    have "utf8_bytes n = [of_nat (0xC0 + m), of_nat (0x80 + r)]" unfolding utf8_bytes_def r_def m_def using 2 by simp
    then have "U8_NEXT (utf8_bytes n @ s) = last_trail_byte (of_nat m) (of_nat (0x80 + r) # s)"
      using U8_NEXT_2 [of "of_nat (0xC0 + m)" "of_nat (0x80 + r) # s"] b unfolding u by (simp del: of_nat_add)
    also have "\<dots> = (Some (of_nat n), s)" unfolding n using b(2) by (intro U8_NEXT_last r) simp
    finally show ?thesis .
  next
    case 3
    then have b: "l < 16" using n m r by linarith
    have u: "unat (of_nat (0xE0 + l) :: u8) = 0xE0 + l" using b by (intro unat_u8) simp
    have "utf8_bytes n = [of_nat (0xE0 + l), of_nat (0x80 + q), of_nat (0x80 + r)]"
      unfolding utf8_bytes_def l4096 q_def m_def r_def using 3 by simp
    moreover have "second_byte3 (of_nat (0xE0 + l)) (of_nat (0x80 + q))"
      unfolding second_byte3_def u trail_of_nat(1) [OF r(2)]
    proof (intro conjI impI)
      show "trail_byte (of_nat (0x80 + q))" by (rule trail_of_nat [OF r(2)])
      assume "0xE0 + l = 0xE0"
      then show "0xA0 \<le> 0x80 + q" using n m 3 r by linarith
    next
      assume "0xE0 + l = 0xED"
      then have "n < 0xE000" using n m r by linarith
      then have "n < 0xD800" using assms by (simp add: scalar_value_def)
      then show "0x80 + q < 0xA0" using n m r \<open>0xE0 + l = 0xED\<close> by linarith
    qed
    ultimately have "U8_NEXT (utf8_bytes n @ s) = last_trail_byte (of_nat (l * 64 + q)) (of_nat (0x80 + r) # s)"
      using U8_NEXT_3 [of "of_nat (0xE0 + l)" "of_nat (0x80 + q) # of_nat (0x80 + r) # s"] b trail_of_nat(1) [OF r(2)] unfolding u
      by (simp del: of_nat_add)
    also have "\<dots> = (Some (of_nat n), s)" unfolding n m using b r(2) by (intro U8_NEXT_last r) simp
    finally show ?thesis .
  next
    case 4
    define p where "p = l mod 64"
    define h where "h = l div 64"
    have l: "l = h * 64 + p" and p: "p < 64" by (simp_all add: p_def h_def)
    have h4: "n div 262144 = h" using div_mult2_eq [of n 4096 64] by (simp add: h_def l4096)
    have b: "h < 5" using 4 n m l r p by linarith
    have u: "unat (of_nat (0xF0 + h) :: u8) = 0xF0 + h" using b by (intro unat_u8) simp
    have "utf8_bytes n = [of_nat (0xF0 + h), of_nat (0x80 + p), of_nat (0x80 + q), of_nat (0x80 + r)]"
      unfolding utf8_bytes_def h4 l4096 p_def [symmetric] q_def m_def r_def using 4 by simp
    moreover have "second_byte4 (of_nat (0xF0 + h)) (of_nat (0x80 + p))"
      unfolding second_byte4_def u trail_of_nat(1) [OF p]
    proof (intro conjI impI)
      show "trail_byte (of_nat (0x80 + p))" by (rule trail_of_nat [OF p])
      assume "0xF0 + h = 0xF0"
      then show "0x90 \<le> 0x80 + p" using n m l 4 r by linarith
    next
      assume "0xF0 + h = 0xF4"
      then show "0x80 + p < 0x90" using n m l 4 r by linarith
    qed
    ultimately have "U8_NEXT (utf8_bytes n @ s) = last_trail_byte (of_nat ((h * 64 + p) * 64 + q)) (of_nat (0x80 + r) # s)"
      using U8_NEXT_4 [of "of_nat (0xF0 + h)" "of_nat (0x80 + p) # of_nat (0x80 + q) # of_nat (0x80 + r) # s"] b
        trail_of_nat [OF r(2)] trail_of_nat(1) [OF p] unfolding u
      by (simp del: of_nat_add)
    also have "\<dots> = (Some (of_nat (((h * 64 + p) * 64 + q) * 64 + r)), s)" using b r(2) p by (intro U8_NEXT_last r) simp
    also have "((h * 64 + p) * 64 + q) * 64 + r = n" unfolding n m l ..
    finally show ?thesis .
  qed
qed

section \<open>Appending and reading UTF-16\<close>

lemma ucast_of_nat_u8: "(ucast (of_nat n :: u32) :: u8) = of_nat n"
  and ucast_of_nat_u16: "(ucast (of_nat n :: u32) :: u16) = of_nat n"
proof -
  have "n mod 2 ^ 32 mod 2 ^ 8 = n mod 2 ^ 8" "n mod 2 ^ 32 mod 2 ^ 16 = n mod 2 ^ 16"
    by (rule mod_mod_cancel; simp add: dvd_def)+
  then show "(ucast (of_nat n :: u32) :: u8) = of_nat n" "(ucast (of_nat n :: u32) :: u16) = of_nat n"
    by (simp_all only: word_unat_eq_iff unsigned_ucast_eq unat_of_nat take_bit_eq_mod) simp_all
qed

lemma or_marker:
  fixes a :: u32
  shows "unat a < 2 ^ 7 \<Longrightarrow> a OR 0x80 = of_nat (0x80 + unat a)" "unat a < 2 ^ 6 \<Longrightarrow> a OR 0xC0 = of_nat (0xC0 + unat a)"
    "unat a < 2 ^ 5 \<Longrightarrow> a OR 0xE0 = of_nat (0xE0 + unat a)" "unat a < 2 ^ 4 \<Longrightarrow> a OR 0xF0 = of_nat (0xF0 + unat a)"
    "unat a < 2 ^ 10 \<Longrightarrow> a OR 0xDC00 = of_nat (0xDC00 + unat a)"
proof -
  have or: "a OR push_bit k b = of_nat (unat (push_bit k b) + unat a)" if "unat a < 2 ^ k" for k and b :: u32
    using unat_or_push_bit [OF that, of b] by (metis or.commute word_of_unat)
  show "unat a < 2 ^ 7 \<Longrightarrow> a OR 0x80 = of_nat (0x80 + unat a)" using or [of 7 1] by simp
  show "unat a < 2 ^ 6 \<Longrightarrow> a OR 0xC0 = of_nat (0xC0 + unat a)" using or [of 6 3] by simp
  show "unat a < 2 ^ 5 \<Longrightarrow> a OR 0xE0 = of_nat (0xE0 + unat a)" using or [of 5 7] by simp
  show "unat a < 2 ^ 4 \<Longrightarrow> a OR 0xF0 = of_nat (0xF0 + unat a)" using or [of 4 15] by simp
  show "unat a < 2 ^ 10 \<Longrightarrow> a OR 0xDC00 = of_nat (0xDC00 + unat a)" using or [of 10 55] by simp
qed

lemma and_marker:
  fixes a :: u32
  shows "unat (a AND 0x3F) = unat a mod 64" "unat (a AND 0x3FF) = unat a mod 1024"
proof -
  have m: "(0x3F :: u32) = mask 6" "(0x3FF :: u32) = mask 10" by (simp_all add: mask_eq_exp_minus_1)
  show "unat (a AND 0x3F) = unat a mod 64" "unat (a AND 0x3FF) = unat a mod 1024" unfolding m unat_and_mask_mod by simp_all
qed

lemma append_bytes:
  fixes c :: u32
  shows "ucast ((c AND 0x3F) OR 0x80) = (of_nat (0x80 + unat c mod 64) :: u8)"
    "ucast ((drop_bit 6 c AND 0x3F) OR 0x80) = (of_nat (0x80 + unat c div 64 mod 64) :: u8)"
    "ucast ((drop_bit 12 c AND 0x3F) OR 0x80) = (of_nat (0x80 + unat c div 4096 mod 64) :: u8)"
    "unat c < 0x800 \<Longrightarrow> ucast (drop_bit 6 c OR 0xC0) = (of_nat (0xC0 + unat c div 64) :: u8)"
    "unat c < 0x10000 \<Longrightarrow> ucast (drop_bit 12 c OR 0xE0) = (of_nat (0xE0 + unat c div 4096) :: u8)"
    "unat c < 0x110000 \<Longrightarrow> ucast (drop_bit 18 c OR 0xF0) = (of_nat (0xF0 + unat c div 262144) :: u8)"
proof -
  have m: "unat (a AND 0x3F) < 2 ^ 7" for a :: u32 unfolding and_marker by (rule less_trans [of _ 64]) simp_all
  show "ucast ((c AND 0x3F) OR 0x80) = (of_nat (0x80 + unat c mod 64) :: u8)"
    "ucast ((drop_bit 6 c AND 0x3F) OR 0x80) = (of_nat (0x80 + unat c div 64 mod 64) :: u8)"
    "ucast ((drop_bit 12 c AND 0x3F) OR 0x80) = (of_nat (0x80 + unat c div 4096 mod 64) :: u8)"
    unfolding or_marker(1) [OF m] and_marker unat_drop_bit_div ucast_of_nat_u8 by simp_all
  { assume "unat c < 0x800"
    then have "unat (drop_bit 6 c) < 2 ^ 6" unfolding unat_drop_bit_div by (intro less_mult_imp_div_less) simp
    then show "ucast (drop_bit 6 c OR 0xC0) = (of_nat (0xC0 + unat c div 64) :: u8)"
      by (simp only: or_marker(2) unat_drop_bit_div ucast_of_nat_u8) simp }
  { assume "unat c < 0x10000"
    then have "unat (drop_bit 12 c) < 2 ^ 5" unfolding unat_drop_bit_div by (intro less_mult_imp_div_less) simp
    then show "ucast (drop_bit 12 c OR 0xE0) = (of_nat (0xE0 + unat c div 4096) :: u8)"
      by (simp only: or_marker(3) unat_drop_bit_div ucast_of_nat_u8) simp }
  { assume "unat c < 0x110000"
    then have "unat (drop_bit 18 c) < 2 ^ 4" unfolding unat_drop_bit_div by (intro less_mult_imp_div_less) simp
    then show "ucast (drop_bit 18 c OR 0xF0) = (of_nat (0xF0 + unat c div 262144) :: u8)"
      by (simp only: or_marker(4) unat_drop_bit_div ucast_of_nat_u8) simp }
qed

lemma utf8_bytes_length: "length (utf8_bytes n) = (if n < 0x80 then 1 else if n < 0x800 then 2 else if n < 0x10000 then 3 else 4)"
  by (simp add: utf8_bytes_def)

lemma u32_of_unat: "(ucast c :: u8) = of_nat (unat c)" "(ucast c :: u16) = of_nat (unat c)" for c :: u32
  using ucast_of_nat_u8 [of "unat c"] ucast_of_nat_u16 [of "unat c"] by simp_all

lemma U8_APPEND_eq:
  assumes "scalar_value (unat c)" "length s + length (utf8_bytes (unat c)) \<le> capacity"
  shows "U8_APPEND s capacity c = Some (s @ utf8_bytes (unat c))"
proof -
  have cmp: "c \<le> 0x7F \<longleftrightarrow> unat c < 0x80" "c \<le> 0x7FF \<longleftrightarrow> unat c < 0x800" "c \<le> 0xD7FF \<longleftrightarrow> unat c < 0xD800"
    "0xE000 \<le> c \<longleftrightarrow> 0xE000 \<le> unat c" "c \<le> 0xFFFF \<longleftrightarrow> unat c < 0x10000" "0xFFFF < c \<longleftrightarrow> 0x10000 \<le> unat c"
    "c \<le> 0x10FFFF \<longleftrightarrow> unat c < 0x110000"
    by (auto simp: word_le_nat_alt word_less_nat_alt)
  consider "unat c < 0x80" | "0x80 \<le> unat c" "unat c < 0x800" | "0x800 \<le> unat c" "unat c < 0x10000" | "0x10000 \<le> unat c" "unat c < 0x110000"
    using assms unfolding scalar_value_def by linarith
  then show ?thesis
  proof cases
    case 1
    then show ?thesis unfolding U8_APPEND_def cmp utf8_bytes_def u32_of_unat by (simp only: if_True)
  next
    case 2
    then have e: "utf8_bytes (unat c) = [of_nat (0xC0 + unat c div 64), of_nat (0x80 + unat c mod 64)]"
      unfolding utf8_bytes_def by (simp del: of_nat_add)
    have "length s + 1 < capacity" using assms(2) unfolding e by simp
    then show ?thesis using 2 unfolding U8_APPEND_def cmp e append_bytes(1) append_bytes(4) [OF 2(2)]
      by (simp del: of_nat_add)
  next
    case 3
    then have e: "utf8_bytes (unat c) = [of_nat (0xE0 + unat c div 4096), of_nat (0x80 + unat c div 64 mod 64), of_nat (0x80 + unat c mod 64)]"
      unfolding utf8_bytes_def by (simp del: of_nat_add)
    have "length s + 2 < capacity" using assms(2) unfolding e by simp
    moreover have "unat c < 0xD800 \<or> 0xE000 \<le> unat c" using assms(1) 3 by (simp add: scalar_value_def)
    moreover have "\<not> unat c < 0x80" "\<not> unat c < 0x800" using 3 by linarith+
    ultimately show ?thesis using 3 unfolding U8_APPEND_def cmp e append_bytes(1) append_bytes(5) [OF 3(2)] unat_drop_bit_div
      by (simp del: of_nat_add)
  next
    case 4
    then have "\<not> unat c < 0x80" "\<not> unat c < 0x800" "\<not> unat c < 0x10000" "\<not> unat c < 0xD800" by linarith+
    note n = this
    then have e: "utf8_bytes (unat c) = [of_nat (0xF0 + unat c div 262144), of_nat (0x80 + unat c div 4096 mod 64),
        of_nat (0x80 + unat c div 64 mod 64), of_nat (0x80 + unat c mod 64)]"
      unfolding utf8_bytes_def by (simp only: if_False)
    have "length s + 3 < capacity" using assms(2) unfolding e by simp
    then show ?thesis using 4 n unfolding U8_APPEND_def cmp e append_bytes(1) append_bytes(6) [OF 4(2)] unat_drop_bit_div
      by (simp del: of_nat_add)
  qed
qed

lemma U16_APPEND_eq:
  assumes "unat c < 0x110000" "length s + length (utf16_units (unat c)) \<le> capacity"
  shows "U16_APPEND s capacity c = Some (s @ utf16_units (unat c))"
proof -
  have cmp: "c \<le> 0xFFFF \<longleftrightarrow> unat c < 0x10000" "c \<le> 0x10FFFF \<longleftrightarrow> unat c < 0x110000"
    by (auto simp: word_le_nat_alt)
  have "unat (c AND 0x3FF) < 2 ^ 10" unfolding and_marker by simp
  then have t: "ucast ((c AND 0x3FF) OR 0xDC00) = (of_nat (0xDC00 + unat c mod 1024) :: u16)"
    by (simp only: or_marker(5) and_marker ucast_of_nat_u16)
  have "drop_bit 10 c + 0xD7C0 = of_nat (unat (drop_bit 10 c) + unat (0xD7C0 :: u32))"
    by (simp only: of_nat_add word_of_unat)
  also have "\<dots> = of_nat (0xD7C0 + unat c div 1024)" unfolding unat_drop_bit_div by simp
  finally have l: "ucast (drop_bit 10 c + 0xD7C0) = (of_nat (0xD7C0 + unat c div 1024) :: u16)"
    by (simp only: ucast_of_nat_u16)
  show ?thesis
  proof (cases "unat c < 0x10000")
    case True
    then show ?thesis unfolding U16_APPEND_def cmp utf16_units_def u32_of_unat by (simp only: if_True)
  next
    case False
    have e: "utf16_units (unat c) = [of_nat (0xD7C0 + unat c div 1024), of_nat (0xDC00 + unat c mod 1024)]"
      unfolding utf16_units_def using False by (simp only: if_False)
    have "length s + 1 < capacity" using assms(2) unfolding e by simp
    then show ?thesis using assms(1) False unfolding U16_APPEND_def cmp e t l by (simp only: if_True if_False simp_thms)
  qed
qed

section \<open>Surrogates\<close>

lemma high_bits: "unat (c AND NOT (mask k)) = unat c div 2 ^ k * 2 ^ k" for c :: u32
proof -
  have "c AND NOT (mask k) = push_bit k (drop_bit k c)"
    by (rule bit_eqI) (auto simp: bit_and_iff bit_not_iff bit_mask_iff bit_push_bit_iff bit_drop_bit_eq)
  moreover have "unat c div 2 ^ k * 2 ^ k < 2 ^ 32"
  proof -
    have "unat c div 2 ^ k * 2 ^ k \<le> unat c" by (simp add: div_times_less_eq_dividend)
    also have "unat c < 2 ^ 32" using unsigned_less [of c] by simp
    finally show ?thesis .
  qed
  ultimately show ?thesis by (simp add: unat_push_bit_mod unat_drop_bit_div del: push_bit_eq_mult)
qed

lemma surrogate_iff:
  fixes c :: u32
  shows "U_IS_SURROGATE c \<longleftrightarrow> 0xD800 \<le> unat c \<and> unat c < 0xE000" "U16_IS_LEAD c \<longleftrightarrow> 0xD800 \<le> unat c \<and> unat c < 0xDC00"
    "U16_IS_TRAIL c \<longleftrightarrow> 0xDC00 \<le> unat c \<and> unat c < 0xE000"
proof -
  have m: "(0xFFFFF800 :: u32) = NOT (mask 11)" "(0xFFFFFC00 :: u32) = NOT (mask 10)" by (simp_all add: mask_eq_exp_minus_1)
  have d: "unat c div 2 ^ 11 * 2 ^ 11 = 27 * 2 ^ 11 \<longleftrightarrow> 27 * 2 ^ 11 \<le> unat c \<and> unat c < 28 * 2 ^ 11"
    "unat c div 2 ^ 10 * 2 ^ 10 = 54 * 2 ^ 10 \<longleftrightarrow> 54 * 2 ^ 10 \<le> unat c \<and> unat c < 55 * 2 ^ 10"
    "unat c div 2 ^ 10 * 2 ^ 10 = 55 * 2 ^ 10 \<longleftrightarrow> 55 * 2 ^ 10 \<le> unat c \<and> unat c < 56 * 2 ^ 10"
    using nat_div_eq_iff [of "2 ^ 11" "unat c" 27] nat_div_eq_iff [of "2 ^ 10" "unat c" 54] nat_div_eq_iff [of "2 ^ 10" "unat c" 55]
    by simp_all
  show "U_IS_SURROGATE c \<longleftrightarrow> 0xD800 \<le> unat c \<and> unat c < 0xE000"
    using d(1) unfolding U_IS_SURROGATE_def m word_unat_eq_iff high_bits by simp
  show "U16_IS_LEAD c \<longleftrightarrow> 0xD800 \<le> unat c \<and> unat c < 0xDC00"
    using d(2) unfolding U16_IS_LEAD_def m word_unat_eq_iff high_bits by simp
  show "U16_IS_TRAIL c \<longleftrightarrow> 0xDC00 \<le> unat c \<and> unat c < 0xE000"
    using d(3) unfolding U16_IS_TRAIL_def m word_unat_eq_iff high_bits by simp
qed

lemma unat_wide16: "unat (ucast b :: u32) = unat b" for b :: u16
proof -
  have "unat b < 65536" using unsigned_less [of b] by simp
  then show ?thesis by (simp add: unsigned_ucast_eq take_bit_nat_eq_self)
qed

lemma supplementary:
  fixes l t :: u32
  assumes "0xD800 \<le> unat l" "unat l < 0xDC00" "0xDC00 \<le> unat t" "unat t < 0xE000"
  shows "unat (U16_GET_SUPPLEMENTARY l t) = 0x10000 + (unat l - 0xD800) * 1024 + (unat t - 0xDC00)"
proof -
  have "unat l * 1024 < 0xDC00 * 1024" using assms(2) by (rule mult_strict_right_mono) simp
  then have p: "unat (push_bit 10 l) = unat l * 1024" unfolding unat_push_bit_mod by simp
  have "unat l * 1024 + unat t < 0xDC00 * 1024 + 0xE000" using \<open>unat l * 1024 < _\<close> assms(4) by linarith
  then have s: "unat (push_bit 10 l + t) = unat l * 1024 + unat t" by (simp add: unat_word_ariths p)
  have k: "(push_bit 10 0xD800 + 0xDC00 - 0x10000 :: u32) = 0x35FDC00" by (simp add: push_bit_eq_mult)
  have "0xD800 * 1024 + 0xDC00 \<le> unat l * 1024 + unat t" using assms(1,3) by (intro add_mono mult_right_mono) simp_all
  then have le: "(0x35FDC00 :: u32) \<le> push_bit 10 l + t" unfolding word_le_nat_alt s by simp
  have "unat (U16_GET_SUPPLEMENTARY l t) = unat l * 1024 + unat t - 0x35FDC00"
    unfolding U16_GET_SUPPLEMENTARY_def k using le s by (simp add: unat_sub_if' word_le_nat_alt)
  moreover obtain a where "unat l = 0xD800 + a" using assms(1) le_Suc_ex by blast
  moreover obtain b where "unat t = 0xDC00 + b" using assms(3) le_Suc_ex by blast
  ultimately show ?thesis by simp
qed

lemma U16_NEXT_utf16_units:
  assumes "scalar_value n"
  shows "U16_NEXT (utf16_units n @ s) = (of_nat n, s)"
proof (cases "n < 0x10000")
  case True
  have u: "unat (of_nat n :: u16) = n" using True by (simp add: unat_of_nat)
  then have w: "ucast (of_nat n :: u16) = (of_nat n :: u32)" using True by (simp add: word_unat_eq_iff unat_wide16 unat_u32)
  have "\<not> U16_IS_LEAD (of_nat n)" using assms True unfolding surrogate_iff by (auto simp: unat_u32 scalar_value_def)
  then show ?thesis using True by (simp only: utf16_units_def if_True append_Cons append_Nil U16_NEXT.simps Let_def w if_False)
next
  case False
  define a where "a = n div 1024"
  define b where "b = n mod 1024"
  have n: "n = a * 1024 + b" "b < 1024" by (simp_all add: a_def b_def)
  have a: "64 \<le> a" "a < 1088" using False assms n unfolding scalar_value_def by linarith+
  have u: "unat (of_nat (0xD7C0 + a) :: u16) = 0xD7C0 + a" "unat (of_nat (0xDC00 + b) :: u16) = 0xDC00 + b"
    using a(2) n(2) by (simp_all only: unat_of_nat) simp_all
  let ?l = "ucast (of_nat (0xD7C0 + a) :: u16) :: u32" and ?t = "ucast (of_nat (0xDC00 + b) :: u16) :: u32"
  have ul: "unat ?l = 0xD7C0 + a" "unat ?t = 0xDC00 + b" unfolding unat_wide16 u by (rule refl)+
  have lead: "U16_IS_LEAD ?l" "U16_IS_TRAIL ?t" unfolding surrogate_iff ul using a n(2) by simp_all
  have "unat (U16_GET_SUPPLEMENTARY ?l ?t) = 0x10000 + (unat ?l - 0xD800) * 1024 + (unat ?t - 0xDC00)"
    by (rule supplementary) (use ul a n(2) in simp_all)
  also have "\<dots> = n" unfolding ul n(1) using a(1) by (simp add: algebra_simps)
  finally have "U16_GET_SUPPLEMENTARY ?l ?t = of_nat n" by (metis word_of_unat)
  moreover have "utf16_units n = [of_nat (0xD7C0 + a), of_nat (0xDC00 + b)]" unfolding utf16_units_def a_def b_def using False by simp
  ultimately show ?thesis using lead by (simp only: append_Cons append_Nil U16_NEXT.simps Let_def if_True list.case)
qed

lemma split1024: "v < 1024 \<Longrightarrow> (a * 1024 + v) div 1024 = a" "v < 1024 \<Longrightarrow> (a * 1024 + v) mod 1024 = v" for a v :: nat
  by simp_all

lemma U16_NEXT_scalar:
  assumes "U16_NEXT cs = (c, s)" "cs \<noteq> []" "\<not> U_IS_SURROGATE c"
  shows "scalar_value (unat c) \<and> cs = utf16_units (unat c) @ s"
proof -
  obtain l r where cs: "cs = l # r" using assms(2) by (cases cs) auto
  have l: "unat l < 65536" using unsigned_less [of l] by simp
  show ?thesis
  proof (cases "U16_IS_LEAD (ucast l)")
    case False
    then have "c = ucast l" "s = r" using assms(1) cs by (simp_all add: Let_def)
    then show ?thesis using assms(3) l cs unfolding surrogate_iff
      by (auto simp: unat_wide16 scalar_value_def utf16_units_def)
  next
    case True
    obtain t where t: "r = t # s" "U16_IS_TRAIL (ucast t)" "c = U16_GET_SUPPLEMENTARY (ucast l) (ucast t)"
    proof (cases "\<exists>t r'. r = t # r' \<and> U16_IS_TRAIL (ucast t)")
      case found: True
      then obtain t r' where r: "r = t # r'" "U16_IS_TRAIL (ucast t)" by blast
      then show ?thesis using assms(1) cs True by (intro that [of t]) (simp_all add: Let_def)
    next
      case missing: False
      have "c = ucast l"
      proof (cases r)
        case Nil
        then show ?thesis using assms(1) cs True by (simp add: Let_def)
      next
        case (Cons t r')
        then have "\<not> U16_IS_TRAIL (ucast t)" using missing by blast
        then show ?thesis using assms(1) cs True Cons by (simp add: Let_def)
      qed
      then show ?thesis using True assms(3) unfolding surrogate_iff by simp
    qed
    have b: "0xD800 \<le> unat l" "unat l < 0xDC00" "0xDC00 \<le> unat t" "unat t < 0xE000"
      using True t(2) unfolding surrogate_iff unat_wide16 by simp_all
    define n where "n = 0x10000 + (unat l - 0xD800) * 1024 + (unat t - 0xDC00)"
    have c: "unat c = n" unfolding t(3) n_def using supplementary [of "ucast l" "ucast t"] b unfolding unat_wide16 by simp
    obtain x y where xy: "unat l = 0xD800 + x" "unat t = 0xDC00 + y" using b(1,3) le_Suc_ex by meson
    have lt: "x < 1024" "y < 1024" using b xy by simp_all
    have n: "n = (64 + x) * 1024 + y" unfolding n_def xy by simp
    have d: "n div 1024 = 64 + x" "n mod 1024 = y" unfolding n by (rule split1024 [OF lt(2)])+
    have "0xD7C0 + (64 + x) = unat l" "0xDC00 + y = unat t" unfolding xy by simp_all
    then have "utf16_units n = [l, t]" unfolding utf16_units_def d using n by (simp only: word_of_unat) simp
    then show ?thesis unfolding c cs t(1) using n lt by (simp add: scalar_value_def)
  qed
qed

end
