(* ===== verification/UnicodeStrings.thy ===== *)
theory UnicodeStrings
  imports UnicodeMacros
begin

text \<open>
  Conversion of whole strings: \<open>String::fromUTF8\<close> and \<open>StringImpl::tryGetUTF8ForCharacters\<close> in its three modes, against
  the encodings of sequences of scalar values. \<open>fromUTF8Impl_iff\<close> says what is accepted, \<open>tryGetUTF8_strict\<close>,
  \<open>tryGetUTF8_lenient\<close> and \<open>tryGetUTF8_replacing\<close> what the modes write, and the interpretation \<open>utf8c\<close> of \<open>codec\<close>
  that the strict conversion and the decoder are inverse.
\<close>


section \<open>Conversions of strings\<close>

text \<open>The reference: a sequence of scalar values and its two encodings.\<close>

definition scalars :: "nat list \<Rightarrow> bool" where
  "scalars ns \<longleftrightarrow> list_all scalar_value ns"

definition utf8_encoding :: "nat list \<Rightarrow> u8 list" where
  "utf8_encoding ns = concat (map utf8_bytes ns)"

definition utf16_encoding :: "nat list \<Rightarrow> u16 list" where
  "utf16_encoding ns = concat (map utf16_units ns)"

lemma encoding_simps [simp]:
  "utf8_encoding [] = []" "utf8_encoding (n # ns) = utf8_bytes n @ utf8_encoding ns"
  "utf16_encoding [] = []" "utf16_encoding (n # ns) = utf16_units n @ utf16_encoding ns"
  "scalars []" "scalars (n # ns) \<longleftrightarrow> scalar_value n \<and> scalars ns"
  by (simp_all add: utf8_encoding_def utf16_encoding_def scalars_def)

lemma utf16_units_length: "length (utf16_units n) = (if n < 0x10000 then 1 else 2)"
  by (simp add: utf16_units_def)

lemma encoding_lengths:
  "length (utf16_units n) \<le> length (utf8_bytes n)" "length (utf8_bytes n) \<le> 3 * length (utf16_units n)"
  by (simp_all add: utf8_bytes_length utf16_units_length)

lemma utf8_bytes_ne: "utf8_bytes n \<noteq> []" and utf16_units_ne: "utf16_units n \<noteq> []"
  by (simp_all add: utf8_bytes_def utf16_units_def)

lemma scalar_lt: "scalar_value n \<Longrightarrow> n < 0x110000" "scalar_value n \<Longrightarrow> unat (of_nat n :: u32) = n"
proof -
  assume "scalar_value n"
  then show "n < 0x110000" unfolding scalar_value_def by linarith
  then show "unat (of_nat n :: u32) = n" by (intro unat_u32) simp
qed

lemma convertUTF8ToUTF16_encoding:
  assumes "scalars ns" "length t + length (utf8_encoding ns) \<le> capacity"
  shows "convertUTF8ToUTF16Impl False (utf8_encoding ns) t capacity = Some (t @ utf16_encoding ns)"
  using assms
proof (induction ns arbitrary: t)
  case Nil
  then show ?case by (simp add: convertUTF8ToUTF16Impl.simps)
next
  case (Cons n ns)
  then have n: "scalar_value n" by simp
  have "U16_APPEND t capacity (of_nat n) = Some (t @ utf16_units n)"
    using U16_APPEND_eq [of "of_nat n" t capacity] Cons.prems encoding_lengths(1) [of n] scalar_lt [OF n]
    by simp
  then show ?case
    using Cons.IH [of "t @ utf16_units n"] Cons.prems encoding_lengths(1) [of n] U8_NEXT_utf8_bytes [OF n] utf8_bytes_ne [of n]
    by (subst convertUTF8ToUTF16Impl.simps) simp
qed

lemma convertUTF8ToUTF16_Some:
  assumes "convertUTF8ToUTF16Impl False bs t capacity = Some t'" "length t + length bs \<le> capacity"
  shows "\<exists>ns. scalars ns \<and> bs = utf8_encoding ns \<and> t' = t @ utf16_encoding ns"
  using assms
proof (induction "length bs" arbitrary: bs t rule: less_induct)
  case less
  show ?case
  proof (cases "bs = []")
    case True
    then show ?thesis using less.prems(1) by (intro exI [of _ "[]"]) (simp add: convertUTF8ToUTF16Impl.simps)
  next
    case False
    obtain o' s where nx: "U8_NEXT bs = (o', s)" by fastforce
    then obtain c where c: "o' = Some c" using less.prems(1) False
      by (cases o') (simp_all add: convertUTF8ToUTF16Impl.simps [of False bs])
    define n where "n = unat c"
    have n: "scalar_value n" "bs = utf8_bytes n @ s" using U8_NEXT_Some [of bs c s] nx c by (simp_all add: n_def)
    have ap: "U16_APPEND t capacity c = Some (t @ utf16_units n)"
      unfolding n_def using less.prems(2) n encoding_lengths(1) [of n] scalar_lt(1) [OF n(1)]
      by (intro U16_APPEND_eq) (simp_all add: n_def)
    have rec: "convertUTF8ToUTF16Impl False s (t @ utf16_units n) capacity = Some t'"
      using less.prems(1) False nx c ap by (simp add: convertUTF8ToUTF16Impl.simps [of False bs])
    have "length s < length bs" using U8_NEXT_length [OF False] nx by simp
    moreover have "length (t @ utf16_units n) + length s \<le> capacity" using less.prems(2) n(2) encoding_lengths(1) [of n] by simp
    ultimately obtain ns where "scalars ns" "s = utf8_encoding ns" "t' = (t @ utf16_units n) @ utf16_encoding ns"
      using less.hyps [OF _ rec] by blast
    then show ?thesis using n by (intro exI [of _ "n # ns"]) simp
  qed
qed

lemma ascii_encoding:
  assumes "list_all (\<lambda>c. c AND 0x80 = 0) bs"
  shows "scalars (map unat bs) \<and> bs = utf8_encoding (map unat bs) \<and> map ucast bs = utf16_encoding (map unat bs)"
  using assms
proof (induction bs)
  case (Cons b bs)
  have "unat b < 0x80"
  proof -
    have "b AND 2 ^ 7 = 0 \<longleftrightarrow> \<not> bit b 7" by (rule and_exp_eq_0_iff_not_bit)
    then have "\<not> bit (ucast b :: u32) 7" using Cons.prems by (simp add: bit_ucast_iff)
    moreover have "(ucast b :: u32) AND 2 ^ 7 = 0 \<longleftrightarrow> \<not> bit (ucast b :: u32) 7" by (rule and_exp_eq_0_iff_not_bit)
    ultimately show ?thesis using single_byte [of b] by simp
  qed
  then have "scalar_value (unat b)" "utf8_bytes (unat b) = [b]" "utf16_units (unat b) = [ucast b]"
    by (simp_all add: scalar_value_def utf8_bytes_def utf16_units_def)
  then show ?case using Cons by simp
qed simp

lemma encoding_append:
  "utf8_encoding (ms @ ns) = utf8_encoding ms @ utf8_encoding ns" "utf16_encoding (ms @ ns) = utf16_encoding ms @ utf16_encoding ns"
  by (simp_all add: utf8_encoding_def utf16_encoding_def)

lemma utf8_encoding_inj: "scalars ms \<Longrightarrow> scalars ns \<Longrightarrow> utf8_encoding ms = utf8_encoding ns \<Longrightarrow> ms = ns"
proof (induction ms arbitrary: ns)
  case Nil
  then show ?case using utf8_bytes_ne by (cases ns) auto
next
  case (Cons m ms)
  obtain n ns' where ns: "ns = n # ns'" using Cons.prems utf8_bytes_ne by (cases ns) auto
  have "U8_NEXT (utf8_encoding (m # ms)) = (Some (of_nat m), utf8_encoding ms)"
    using U8_NEXT_utf8_bytes Cons.prems(1) by (simp del: U8_NEXT.simps)
  moreover have "U8_NEXT (utf8_encoding ns) = (Some (of_nat n), utf8_encoding ns')"
    unfolding ns using U8_NEXT_utf8_bytes Cons.prems(2) ns by (simp del: U8_NEXT.simps)
  ultimately have "(of_nat m :: u32) = of_nat n" "utf8_encoding ms = utf8_encoding ns'" using Cons.prems(3) by simp_all
  then show ?case using Cons scalar_lt(2) ns by (metis encoding_simps(6))
qed

lemma fromUTF8Impl_iff:
  assumes fits: "length bs \<le> StringImpl_MaxLength"
  shows "fromUTF8Impl False bs = Some (Some s) \<longleftrightarrow> (\<exists>ns. scalars ns \<and> bs = utf8_encoding ns \<and> s = utf16_encoding ns)"
proof
  assume dec: "fromUTF8Impl False bs = Some (Some s)"
  consider "bs = []" | "bs \<noteq> []" "list_all (\<lambda>c. c AND 0x80 = 0) bs" | "bs \<noteq> []" "\<not> list_all (\<lambda>c. c AND 0x80 = 0) bs" by blast
  then show "\<exists>ns. scalars ns \<and> bs = utf8_encoding ns \<and> s = utf16_encoding ns"
  proof cases
    case 1
    then show ?thesis using dec by (intro exI [of _ "[]"]) (simp add: fromUTF8Impl_def fits)
  next
    case 2
    then have "s = map ucast bs" using dec by (simp add: fromUTF8Impl_def fits)
    then show ?thesis using ascii_encoding [OF 2(2)] by blast
  next
    case 3
    then have "convertUTF8ToUTF16Impl False bs [] (length bs) = Some s" using dec by (simp add: fromUTF8Impl_def fits)
    from convertUTF8ToUTF16_Some [OF this] show ?thesis by simp
  qed
next
  assume "\<exists>ns. scalars ns \<and> bs = utf8_encoding ns \<and> s = utf16_encoding ns"
  then obtain ns where ns: "scalars ns" "bs = utf8_encoding ns" "s = utf16_encoding ns" by blast
  show "fromUTF8Impl False bs = Some (Some s)"
  proof (cases "bs \<noteq> [] \<and> list_all (\<lambda>c. c AND 0x80 = 0) bs")
    case True
    then have "ns = map unat bs" using utf8_encoding_inj [OF ns(1)] ascii_encoding ns(2) by metis
    then show ?thesis using True ascii_encoding [of bs] ns(3) by (simp add: fromUTF8Impl_def fits)
  next
    case False
    show ?thesis
    proof (cases "bs = []")
      case True
      then have "ns = []" using ns(2) utf8_bytes_ne by (cases ns) auto
      then show ?thesis using True ns(3) by (simp add: fromUTF8Impl_def fits)
    next
      case ne: False
      then show ?thesis using False fits convertUTF8ToUTF16_encoding [OF ns(1), of "[]" "length bs"] ns(2,3)
        by (simp add: fromUTF8Impl_def fits)
    qed
  qed
qed

section \<open>From UTF-16\<close>

datatype ConversionMode = LenientConversion | StrictConversion | StrictConversionReplacingUnpairedSurrogatesWithFFFD

datatype UTF8ConversionError = OutOfMemory | IllegalSource | ErrorSourceExhausted

lemma convertUTF16ToUTF8_rest: "length (fst (snd (convertUTF16ToUTF8 source target capacity strict))) \<le> length source"
proof (induction "length source" arbitrary: source target rule: less_induct)
  case less
  show ?case
  proof (cases "source = []")
    case False
    obtain ch s where nx: "U16_NEXT source = (ch, s)" by fastforce
    have lt: "length s < length source" using U16_NEXT_length [OF False] nx by simp
    have "length (fst (snd (convertUTF16ToUTF8 s t capacity strict))) \<le> length source" for t
      using less [OF lt, of t] lt by simp
    then show ?thesis
      by (subst convertUTF16ToUTF8.simps) (use nx False in \<open>auto simp: Let_def split: option.splits\<close>)
  qed (simp add: convertUTF16ToUTF8.simps)
qed

text \<open>The loop of the replacing mode.\<close>

function replace_unpaired :: "u16 list \<Rightarrow> u8 list \<Rightarrow> nat \<Rightarrow> u8 list" where
  "replace_unpaired characters buffer capacity =
     (if characters = [] then buffer
      else
        let (result, characters', buffer') = convertUTF16ToUTF8 characters buffer capacity True
        in if result \<noteq> Success \<and> characters' \<noteq> []
           then replace_unpaired (tl characters') (putUTF8Triple buffer' replacementCharacter) capacity
           else buffer')"
  by pat_completeness auto
termination
proof (relation "measure (\<lambda>(s, t, c). length s)", goal_cases)
  case (2 s t c x r y s' t')
  then have "s' = fst (snd (convertUTF16ToUTF8 s t c True))" by (metis fst_conv snd_conv)
  then have "length s' \<le> length s" using convertUTF16ToUTF8_rest [of s t c True] by simp
  moreover have "s' \<noteq> []" using 2 by simp
  ultimately show ?case by (cases s') simp_all
qed simp

declare replace_unpaired.simps [simp del]

text \<open>The outer option is the crash of a release assertion.\<close>

definition utf8ForCharactersIntoBuffer :: "u16 list \<Rightarrow> ConversionMode \<Rightarrow> (UTF8ConversionError + u8 list) option" where
  "utf8ForCharactersIntoBuffer characters mode =
     (let capacity = length characters * 3
      in if mode = StrictConversionReplacingUnpairedSurrogatesWithFFFD
         then Some (Inr (replace_unpaired characters [] capacity))
         else
           let strict = (mode = StrictConversion);
               (conversionResult, characters, buffer) = convertUTF16ToUTF8 characters [] capacity strict
           in case conversionResult of
                Success \<Rightarrow> Some (Inr buffer)
              | SourceExhausted \<Rightarrow>
                  if strict then Some (Inl ErrorSourceExhausted)
                  else Some (Inr (putUTF8Triple buffer (hd characters)))
              | TargetExhausted \<Rightarrow> None
              | SourceIllegal \<Rightarrow> Some (Inl IllegalSource))"

definition tryGetUTF8ForCharacters :: "u16 list \<Rightarrow> ConversionMode \<Rightarrow> (UTF8ConversionError + u8 list) option" where
  "tryGetUTF8ForCharacters characters mode =
     (if length characters = 0 then Some (Inr [])
      else if length characters > StringImpl_MaxLength div 3 then Some (Inl OutOfMemory)
      else utf8ForCharactersIntoBuffer characters mode)"

definition utf8 :: "u16 list \<Rightarrow> ConversionMode \<Rightarrow> u8 list option" where
  "utf8 s mode = (case tryGetUTF8ForCharacters s mode of Some (Inr bs) \<Rightarrow> Some bs | _ \<Rightarrow> None)"

lemma U16_NEXT_cases:
  assumes "s \<noteq> []" "U16_NEXT s = (c, s')"
  obtains (scalar) n where "scalar_value n" "c = of_nat n" "s = utf16_units n @ s'" "\<not> U_IS_SURROGATE c"
    | (unpaired) u where "U_IS_SURROGATE c" "c = ucast u" "s = u # s'"
proof (cases "U_IS_SURROGATE c")
  case False
  then have "scalar_value (unat c) \<and> s = utf16_units (unat c) @ s'" using U16_NEXT_scalar assms by blast
  then show thesis using False by (intro scalar [of "unat c"]) simp_all
next
  case True
  obtain u r where s: "s = u # r" using assms(1) by (cases s) auto
  have "c = ucast u \<and> s' = r"
  proof (rule ccontr)
    assume no: "\<not> (c = ucast u \<and> s' = r)"
    then obtain t where t: "U16_IS_LEAD (ucast u)" "r = t # s'" "U16_IS_TRAIL (ucast t)" "c = U16_GET_SUPPLEMENTARY (ucast u) (ucast t)"
      using assms(2) unfolding s by (auto simp: Let_def split: if_splits list.splits)
    then have "unat c = 0x10000 + (unat u - 0xD800) * 1024 + (unat t - 0xDC00)"
      using supplementary [of "ucast u" "ucast t"] unfolding surrogate_iff unat_wide16 by simp
    then show False using True unfolding surrogate_iff by simp
  qed
  then show thesis using True s by (intro unpaired [of u]) simp_all
qed

lemma U8_APPEND_scalar:
  assumes "scalar_value n" "length t + 3 * length (utf16_units n) \<le> capacity"
  shows "U8_APPEND t capacity (of_nat n) = Some (t @ utf8_bytes n)"
  using U8_APPEND_eq [of "of_nat n" t capacity] assms encoding_lengths(2) [of n] scalar_lt [OF assms(1)] by simp

lemma not_surrogate_scalar: "scalar_value n \<Longrightarrow> \<not> U_IS_SURROGATE (of_nat n)"
  using scalar_lt [of n] unfolding surrogate_iff scalar_value_def by auto

lemma convertUTF16ToUTF8_prefix:
  assumes "scalars ns" "length t + 3 * length (utf16_encoding ns) + 3 * length s \<le> capacity"
  shows "convertUTF16ToUTF8 (utf16_encoding ns @ s) t capacity strict =
    convertUTF16ToUTF8 s (t @ utf8_encoding ns) capacity strict"
  using assms
proof (induction ns arbitrary: t)
  case (Cons n ns)
  then have n: "scalar_value n" by simp
  have "U8_APPEND t capacity (of_nat n) = Some (t @ utf8_bytes n)" using U8_APPEND_scalar [OF n, of t capacity] Cons.prems by simp
  moreover have "length (t @ utf8_bytes n) + 3 * length (utf16_encoding ns) + 3 * length s \<le> capacity"
    using Cons.prems(2) encoding_lengths(2) [of n] by simp
  ultimately show ?case
    using Cons.IH [of "t @ utf8_bytes n"] Cons.prems(1) U16_NEXT_utf16_units [OF n] utf16_units_ne [of n] not_surrogate_scalar [OF n]
    by (subst convertUTF16ToUTF8.simps) (simp add: Let_def)
qed simp

lemma convertUTF16ToUTF8_encoding:
  assumes "scalars ns" "3 * length (utf16_encoding ns) \<le> capacity"
  shows "convertUTF16ToUTF8 (utf16_encoding ns) [] capacity strict = (Success, [], utf8_encoding ns)"
  using convertUTF16ToUTF8_prefix [OF assms(1), of "[]" "[]" capacity strict] assms(2) by (simp add: convertUTF16ToUTF8.simps [of "[]"])

text \<open>Three bytes for every unit are enough, whatever the string holds.\<close>

lemma replacement_scalar: "scalar_value 0xFFFD" "(ucast replacementCharacter :: u32) = of_nat 0xFFFD"
  by (simp_all add: scalar_value_def replacementCharacter_def)

lemma replacement_lengths: "length (utf16_units 0xFFFD) = 1" "length (utf8_bytes 0xFFFD) = 3"
  by (simp_all add: utf16_units_length utf8_bytes_length)

lemma convertUTF16ToUTF8_total:
  assumes "length t + 3 * length s \<le> capacity" "convertUTF16ToUTF8 s t capacity strict = (result, s', t')"
  shows "result \<noteq> TargetExhausted \<and> length t' + 3 * length s' \<le> capacity \<and> (result = Success \<longleftrightarrow> s' = [])
    \<and> (result \<noteq> Success \<longrightarrow> (\<exists>u r. s' = u # r \<and> U_IS_SURROGATE (ucast u)))"
  using assms
proof (induction s t capacity strict rule: convertUTF16ToUTF8.induct)
  case (1 s t capacity strict)
  show ?case
  proof (cases "s = []")
    case True
    then show ?thesis using 1 by (auto simp: convertUTF16ToUTF8.simps [of "[]"])
  next
    case False
    obtain c r where nx: "U16_NEXT s = (c, r)" by fastforce
    from False nx show ?thesis
    proof (cases rule: U16_NEXT_cases)
      case (scalar n)
      have ap: "U8_APPEND t capacity c = Some (t @ utf8_bytes n)" unfolding scalar(2) using 1(2) scalar(3)
        by (intro U8_APPEND_scalar scalar(1)) simp
      have "length (t @ utf8_bytes n) + 3 * length r \<le> capacity" using 1(2) scalar(3) encoding_lengths(2) [of n] by simp
      then show ?thesis using 1 False nx ap scalar(4) by (simp add: convertUTF16ToUTF8.simps [of s] Let_def)
    next
      case (unpaired u)
      note code = convertUTF16ToUTF8.simps [of s t capacity strict, unfolded nx Let_def prod.case]
      show ?thesis
      proof (cases "r = [] \<and> U_IS_SURROGATE_LEAD c \<or> strict")
        case True
        then have "convertUTF16ToUTF8 s t capacity strict = (SourceExhausted, s, t) \<or> convertUTF16ToUTF8 s t capacity strict = (SourceIllegal, s, t)"
          unfolding code using False unpaired(1) by auto
        then show ?thesis using 1(2,3) unpaired by auto
      next
        case lenient: False
        have len: "length t + 3 * length (utf16_units 0xFFFD) \<le> capacity" using 1(2) unpaired(3) replacement_lengths by simp
        note ap = U8_APPEND_scalar [OF replacement_scalar(1) len]
        have "length (t @ utf8_bytes 0xFFFD) + 3 * length r \<le> capacity" using 1(2) unpaired(3) replacement_lengths by simp
        moreover have "convertUTF16ToUTF8 s t capacity strict = convertUTF16ToUTF8 r (t @ utf8_bytes 0xFFFD) capacity strict"
          unfolding code using False unpaired(1) lenient ap replacement_scalar(2) by auto
        moreover have "U_IS_SURROGATE c \<longrightarrow> \<not> (r = [] \<and> U_IS_SURROGATE_LEAD c) \<and> \<not> strict" using lenient by blast
        ultimately show ?thesis using 1(1) [of "(c, r)" c r "ucast replacementCharacter" "t @ utf8_bytes 0xFFFD"] 1(3) False nx ap unpaired(1) lenient replacement_scalar(2)
          by (simp del: U16_NEXT.simps)
      qed
    qed
  qed
qed

section \<open>What the three modes write\<close>

text \<open>The reference: the scalar values of a string, with U+FFFD for every surrogate that is not half of a pair.\<close>

fun scalars_of :: "u16 list \<Rightarrow> nat list" where
  "scalars_of [] = []"
| "scalars_of [u] = [if 0xD800 \<le> unat u \<and> unat u < 0xE000 then 0xFFFD else unat u]"
| "scalars_of (u # v # s) =
     (if 0xD800 \<le> unat u \<and> unat u < 0xDC00 \<and> 0xDC00 \<le> unat v \<and> unat v < 0xE000
      then (0x10000 + (unat u - 0xD800) * 1024 + (unat v - 0xDC00)) # scalars_of s
      else if 0xD800 \<le> unat u \<and> unat u < 0xE000 then 0xFFFD # scalars_of (v # s)
      else unat u # scalars_of (v # s))"

lemma scalars_of_single: "\<not> (0xD800 \<le> unat u \<and> unat u < 0xDC00) \<Longrightarrow>
    scalars_of (u # s) = (if 0xD800 \<le> unat u \<and> unat u < 0xE000 then 0xFFFD else unat u) # scalars_of s"
  by (cases s) auto

lemma scalars_of_units:
  assumes "scalar_value n"
  shows "scalars_of (utf16_units n @ s) = n # scalars_of s"
proof (cases "n < 0x10000")
  case True
  then have u: "unat (of_nat n :: u16) = n" by (simp add: unat_of_nat)
  show ?thesis using True assms scalars_of_single [of "of_nat n" s] unfolding u by (auto simp: utf16_units_def scalar_value_def)
next
  case False
  define a where "a = n div 1024"
  define b where "b = n mod 1024"
  have n: "n = a * 1024 + b" "b < 1024" by (simp_all add: a_def b_def)
  have a: "64 \<le> a" "a < 1088" using False assms n unfolding scalar_value_def by linarith+
  have u: "unat (of_nat (0xD7C0 + a) :: u16) = 0xD7C0 + a" "unat (of_nat (0xDC00 + b) :: u16) = 0xDC00 + b"
    using a(2) n(2) by (simp_all only: unat_of_nat) simp_all
  have units: "utf16_units n = [of_nat (0xD7C0 + a), of_nat (0xDC00 + b)]" using False unfolding utf16_units_def a_def b_def by simp
  have "0x10000 + (0xD7C0 + a - 0xD800) * 1024 + (0xDC00 + b - 0xDC00) = n" unfolding n(1) using a(1) by (simp add: algebra_simps)
  moreover have "0xD7C0 + a < 0xDC00" "0xD800 \<le> 0xD7C0 + a" "0xDC00 + b < 0xE000" using a n(2) by simp_all
  ultimately show ?thesis unfolding units append_Cons append_Nil scalars_of.simps(3) u by simp
qed

lemma scalars_of_encoding: "scalars ns \<Longrightarrow> scalars_of (utf16_encoding ns @ s) = ns @ scalars_of s"
  by (induction ns) (simp_all add: scalars_of_units)

lemma scalars_of_unpaired:
  assumes "U16_NEXT (u # s) = (ucast u, s)" "U_IS_SURROGATE (ucast u)"
  shows "scalars_of (u # s) = 0xFFFD # scalars_of s"
proof -
  have u: "0xD800 \<le> unat u" "unat u < 0xE000" using assms(2) unfolding surrogate_iff unat_wide16 by simp_all
  show ?thesis
  proof (cases s)
    case (Cons v r)
    have "\<not> (unat u < 0xDC00 \<and> 0xDC00 \<le> unat v \<and> unat v < 0xE000)"
    proof
      assume pair: "unat u < 0xDC00 \<and> 0xDC00 \<le> unat v \<and> unat v < 0xE000"
      then have "U16_IS_LEAD (ucast u)" "U16_IS_TRAIL (ucast v)" using u unfolding surrogate_iff unat_wide16 by simp_all
      then have "s = r" using assms(1) Cons by (simp add: Let_def)
      then show False using Cons by simp
    qed
    then show ?thesis using u Cons by simp
  qed (use u in simp)
qed

lemma scalars_scalars_of: "scalars (scalars_of s)"
proof (induction s rule: scalars_of.induct)
  case (2 u)
  have "unat u < 65536" using unsigned_less [of u] by simp
  then show ?case by (auto simp: scalar_value_def)
next
  case (3 u v s)
  have "unat u < 65536" using unsigned_less [of u] by simp
  then show ?case using 3 by (auto simp: scalar_value_def)
qed simp

lemma scalars_of_length: "length (utf8_encoding (scalars_of s)) \<le> 3 * length s"
proof (induction s rule: scalars_of.induct)
  case (2 u)
  have "unat u < 65536" using unsigned_less [of u] by simp
  then show ?case by (simp add: utf8_bytes_length)
next
  case (3 u v s)
  obtain x where x: "0x10000 + (unat u - 0xD800) * 1024 + (unat v - 0xDC00) = x" by blast
  have "unat u < 65536" using unsigned_less [of u] by simp
  then have "length (utf8_bytes (unat u)) \<le> 3" "length (utf8_bytes 0xFFFD) \<le> 3" "length (utf8_bytes x) \<le> 4"
    by (simp_all add: utf8_bytes_length)
  note three = this
  consider "0xD800 \<le> unat u \<and> unat u < 0xDC00 \<and> 0xDC00 \<le> unat v \<and> unat v < 0xE000"
    | "\<not> (0xD800 \<le> unat u \<and> unat u < 0xDC00 \<and> 0xDC00 \<le> unat v \<and> unat v < 0xE000)" "0xD800 \<le> unat u \<and> unat u < 0xE000"
    | "\<not> (0xD800 \<le> unat u \<and> unat u < 0xDC00 \<and> 0xDC00 \<le> unat v \<and> unat v < 0xE000)" "\<not> (0xD800 \<le> unat u \<and> unat u < 0xE000)"
    by blast
  then show ?case
  proof cases
    case 1
    have "scalars_of (u # v # s) = x # scalars_of s" unfolding scalars_of.simps x using 1 by (simp only: if_True simp_thms)
    then show ?thesis using 3(1) [OF 1] three by simp
  next
    case 2
    have "scalars_of (u # v # s) = 0xFFFD # scalars_of (v # s)" unfolding scalars_of.simps using 2 by (simp only: if_True if_False simp_thms)
    then show ?thesis using 3(2) [OF 2] three by simp
  next
    case three': 3
    have "scalars_of (u # v # s) = unat u # scalars_of (v # s)" unfolding scalars_of.simps using three' by (simp only: if_False simp_thms)
    then show ?thesis using 3(3) [OF three'] three by simp
  qed
qed simp

lemma utf16_encoding_scalars_of: "s = utf16_encoding ns \<Longrightarrow> scalars ns \<Longrightarrow> scalars_of s = ns"
  using scalars_of_encoding [of ns "[]"] by simp

lemma putUTF8Triple_replacement: "putUTF8Triple t replacementCharacter = t @ utf8_bytes 0xFFFD"
  by (simp add: putUTF8Triple_def replacementCharacter_def utf8_bytes_def)

text \<open>The strict conversion stops exactly at the first unpaired surrogate.\<close>

lemma convertUTF16ToUTF8_strict:
  assumes "length t + 3 * length s \<le> capacity" "convertUTF16ToUTF8 s t capacity True = (result, s', t')"
  shows "\<exists>ns. scalars ns \<and> s = utf16_encoding ns @ s' \<and> t' = t @ utf8_encoding ns
    \<and> (result = Success \<and> s' = [] \<or> (\<exists>u r. s' = u # r \<and> U16_NEXT s' = (ucast u, r) \<and> U_IS_SURROGATE (ucast u)
         \<and> result = (if r = [] \<and> U_IS_SURROGATE_LEAD (ucast u) then SourceExhausted else SourceIllegal)))"
  using assms
proof (induction "length s" arbitrary: s t rule: less_induct)
  case less
  show ?case
  proof (cases "s = []")
    case True
    then show ?thesis using less by (intro exI [of _ "[]"]) (auto simp: convertUTF16ToUTF8.simps [of "[]"])
  next
    case False
    obtain c r where nx: "U16_NEXT s = (c, r)" by fastforce
    note code = convertUTF16ToUTF8.simps [of s t capacity True, unfolded nx Let_def prod.case]
    from False nx show ?thesis
    proof (cases rule: U16_NEXT_cases)
      case (scalar n)
      have ap: "U8_APPEND t capacity c = Some (t @ utf8_bytes n)" unfolding scalar(2) using less(2) scalar(3)
        by (intro U8_APPEND_scalar scalar(1)) simp
      have len: "length (t @ utf8_bytes n) + 3 * length r \<le> capacity" using less(2) scalar(3) encoding_lengths(2) [of n] by simp
      have "length r < length s" using scalar(3) utf16_units_ne [of n] by simp
      moreover have "convertUTF16ToUTF8 r (t @ utf8_bytes n) capacity True = (result, s', t')"
        using less(3) unfolding code using False scalar(4) ap by simp
      ultimately obtain ns where ns: "scalars ns" "r = utf16_encoding ns @ s'" "t' = (t @ utf8_bytes n) @ utf8_encoding ns"
        "result = Success \<and> s' = [] \<or> (\<exists>u r. s' = u # r \<and> U16_NEXT s' = (ucast u, r) \<and> U_IS_SURROGATE (ucast u)
         \<and> result = (if r = [] \<and> U_IS_SURROGATE_LEAD (ucast u) then SourceExhausted else SourceIllegal))"
        using less(1) [OF _ len] by blast
      have "scalars (n # ns) \<and> s = utf16_encoding (n # ns) @ s' \<and> t' = t @ utf8_encoding (n # ns)"
        using ns(1,2,3) scalar(1,3) by simp
      then show ?thesis using ns(4) by blast
    next
      case (unpaired u)
      then have "(result, s', t') = (if r = [] \<and> U_IS_SURROGATE_LEAD c then SourceExhausted else SourceIllegal, s, t)"
        using less(3) unfolding code using False by auto
      then show ?thesis using unpaired nx by (intro exI [of _ "[]"]) (simp del: U16_NEXT.simps)
    qed
  qed
qed

lemma replace_unpaired_eq:
  assumes "length t + 3 * length s \<le> capacity"
  shows "replace_unpaired s t capacity = t @ utf8_encoding (scalars_of s)"
  using assms
proof (induction "length s" arbitrary: s t rule: less_induct)
  case less
  obtain result s' t' where conv: "convertUTF16ToUTF8 s t capacity True = (result, s', t')" by (cases "convertUTF16ToUTF8 s t capacity True")
  obtain ns where ns: "scalars ns" "s = utf16_encoding ns @ s'" "t' = t @ utf8_encoding ns"
      "result = Success \<and> s' = [] \<or> (\<exists>u r. s' = u # r \<and> U16_NEXT s' = (ucast u, r) \<and> U_IS_SURROGATE (ucast u)
         \<and> result = (if r = [] \<and> U_IS_SURROGATE_LEAD (ucast u) then SourceExhausted else SourceIllegal))"
    using convertUTF16ToUTF8_strict [OF less(2) conv] by blast
  have sc: "scalars_of s = ns @ scalars_of s'" unfolding ns(2) using ns(1) by (rule scalars_of_encoding)
  from ns(4) show ?case
  proof
    assume "result = Success \<and> s' = []"
    then show ?thesis using conv sc ns(3) by (cases "s = []") (simp_all add: replace_unpaired.simps [of s] replace_unpaired.simps [of "[]"])
  next
    assume "\<exists>u r. s' = u # r \<and> U16_NEXT s' = (ucast u, r) \<and> U_IS_SURROGATE (ucast u)
      \<and> result = (if r = [] \<and> U_IS_SURROGATE_LEAD (ucast u) then SourceExhausted else SourceIllegal)"
    then obtain u r where u: "s' = u # r" "U16_NEXT (u # r) = (ucast u, r)" "U_IS_SURROGATE (ucast u)" "result \<noteq> Success"
      by (auto simp del: U16_NEXT.simps split: if_splits)
    have "length t' + 3 * length s' \<le> capacity" using convertUTF16ToUTF8_total [OF less(2) conv] by simp
    then have "length (t' @ utf8_bytes 0xFFFD) + 3 * length r \<le> capacity" using u(1) replacement_lengths by simp
    moreover have "length r < length s" using ns(2) u(1) by simp
    ultimately have "replace_unpaired r (t' @ utf8_bytes 0xFFFD) capacity = (t' @ utf8_bytes 0xFFFD) @ utf8_encoding (scalars_of r)"
      by (intro less(1))
    moreover have "s \<noteq> []" using ns(2) u(1) by simp
    then have "replace_unpaired s t capacity = replace_unpaired r (t' @ utf8_bytes 0xFFFD) capacity"
      using conv u(1,4) by (subst replace_unpaired.simps) (simp add: putUTF8Triple_replacement)
    ultimately show ?thesis using u(1) sc ns(3) scalars_of_unpaired [OF u(2,3)] by (simp add: encoding_append)
  qed
qed

section \<open>The interface of the two conversions\<close>

lemma convertUTF16ToUTF8_lenient:
  assumes "length t + 3 * length s \<le> capacity" "convertUTF16ToUTF8 s t capacity False = (result, s', t')"
  shows "(result = Success \<and> s' = [] \<and> t' = t @ utf8_encoding (scalars_of s))
    \<or> (\<exists>p u. result = SourceExhausted \<and> s = p @ [u] \<and> s' = [u] \<and> U16_IS_LEAD (ucast u) \<and> t' = t @ utf8_encoding (scalars_of p))"
  using assms
proof (induction "length s" arbitrary: s t rule: less_induct)
  case less
  show ?case
  proof (cases "s = []")
    case True
    then show ?thesis using less by (auto simp: convertUTF16ToUTF8.simps [of "[]"])
  next
    case False
    obtain c r where nx: "U16_NEXT s = (c, r)" by fastforce
    note code = convertUTF16ToUTF8.simps [of s t capacity False, unfolded nx Let_def prod.case]
    have lt: "length r < length s" using U16_NEXT_length [OF False] nx by simp
    from False nx show ?thesis
    proof (cases rule: U16_NEXT_cases)
      case (scalar n)
      have ap: "U8_APPEND t capacity c = Some (t @ utf8_bytes n)" unfolding scalar(2) using less(2) scalar(3)
        by (intro U8_APPEND_scalar scalar(1)) simp
      have len: "length (t @ utf8_bytes n) + 3 * length r \<le> capacity" using less(2) scalar(3) encoding_lengths(2) [of n] by simp
      have rec: "convertUTF16ToUTF8 r (t @ utf8_bytes n) capacity False = (result, s', t')"
        using less(3) unfolding code using False scalar(4) ap by simp
      have sc: "scalars_of (utf16_units n @ p) = n # scalars_of p" for p using scalar(1) by (rule scalars_of_units)
      from less(1) [OF lt len rec] show ?thesis
      proof
        assume "result = Success \<and> s' = [] \<and> t' = (t @ utf8_bytes n) @ utf8_encoding (scalars_of r)"
        then show ?thesis unfolding scalar(3) using sc by simp
      next
        assume "\<exists>p u. result = SourceExhausted \<and> r = p @ [u] \<and> s' = [u] \<and> U16_IS_LEAD (ucast u) \<and> t' = (t @ utf8_bytes n) @ utf8_encoding (scalars_of p)"
        then obtain p u where "result = SourceExhausted" "r = p @ [u]" "s' = [u]" "U16_IS_LEAD (ucast u)"
          "t' = (t @ utf8_bytes n) @ utf8_encoding (scalars_of p)" by blast
        then show ?thesis unfolding scalar(3) using sc by (intro disjI2 exI [of _ "utf16_units n @ p"] exI [of _ u]) simp
      qed
    next
      case (unpaired u)
      show ?thesis
      proof (cases "r = [] \<and> U_IS_SURROGATE_LEAD c")
        case True
        then have "(result, s', t') = (SourceExhausted, s, t)" using less(3) unfolding code using False unpaired(1) by auto
        moreover have "U16_IS_LEAD (ucast u)"
        proof -
          have "(ucast u :: u32) AND 2 ^ 10 = 0" using True unpaired(2) unfolding U_IS_SURROGATE_LEAD_def by simp
          then have b: "\<not> bit (ucast u :: u32) 10" unfolding and_exp_eq_0_iff_not_bit .
          show ?thesis
          proof (rule ccontr)
            assume "\<not> U16_IS_LEAD (ucast u)"
            then have "U16_IS_TRAIL (ucast u)" using unpaired(1,2) unfolding surrogate_iff by simp
            then have "bit ((ucast u :: u32) AND 0xFFFFFC00) 10" unfolding U16_IS_TRAIL_def by simp
            then show False using b by (simp add: bit_and_iff)
          qed
        qed
        ultimately show ?thesis using True unpaired(3) by (intro disjI2 exI [of _ "[]"] exI [of _ u]) simp
      next
        case lenient: False
        have len: "length t + 3 * length (utf16_units 0xFFFD) \<le> capacity" using less(2) unpaired(3) replacement_lengths by simp
        note ap = U8_APPEND_scalar [OF replacement_scalar(1) len]
        have rec: "convertUTF16ToUTF8 r (t @ utf8_bytes 0xFFFD) capacity False = (result, s', t')"
          using less(3) unfolding code using False unpaired(1) lenient ap replacement_scalar(2) by auto
        have len': "length (t @ utf8_bytes 0xFFFD) + 3 * length r \<le> capacity" using less(2) unpaired(3) replacement_lengths by simp
        have next_u: "U16_NEXT (u # r) = (ucast u, r)" using nx unpaired by simp
        have sc: "scalars_of (u # r) = 0xFFFD # scalars_of r" using scalars_of_unpaired next_u unpaired by simp
        from less(1) [OF lt len' rec] show ?thesis
        proof
          assume "result = Success \<and> s' = [] \<and> t' = (t @ utf8_bytes 0xFFFD) @ utf8_encoding (scalars_of r)"
          then show ?thesis using sc unpaired(3) by simp
        next
          assume "\<exists>p v. result = SourceExhausted \<and> r = p @ [v] \<and> s' = [v] \<and> U16_IS_LEAD (ucast v) \<and> t' = (t @ utf8_bytes 0xFFFD) @ utf8_encoding (scalars_of p)"
          then obtain p v where p: "result = SourceExhausted" "r = p @ [v]" "s' = [v]" "U16_IS_LEAD (ucast v)"
            "t' = (t @ utf8_bytes 0xFFFD) @ utf8_encoding (scalars_of p)" by blast
          have "U16_NEXT (u # p) = (ucast u, p)"
            using next_u unfolding p(2) by (cases p) (auto simp: Let_def split: if_splits)
          then have "scalars_of (u # p) = 0xFFFD # scalars_of p" using scalars_of_unpaired unpaired by simp
          then show ?thesis using p unpaired(3) by (intro disjI2 exI [of _ "u # p"] exI [of _ v]) simp
        qed
      qed
    qed
  qed
qed

text \<open>The contract of a pair of inverse conversions: \<open>enc\<close> and \<open>dec\<close> fail with \<open>None\<close>.\<close>

lemma last_unit: "scalar_value n \<Longrightarrow> \<not> U16_IS_LEAD (ucast (last (utf16_units n)))"
proof (cases "n < 0x10000")
  case True
  assume "scalar_value n"
  moreover have "unat (of_nat n :: u16) = n" using True by (simp add: unat_of_nat)
  ultimately show ?thesis using True unfolding surrogate_iff unat_wide16 by (auto simp: utf16_units_def scalar_value_def)
next
  case False
  have m: "n mod 1024 < 1024" by simp
  then have lt: "0xDC00 + n mod 1024 < 2 ^ LENGTH(16)" by simp
  have "unat (of_nat (0xDC00 + n mod 1024) :: u16) = 0xDC00 + n mod 1024" by (simp only: unat_of_nat mod_less [OF lt])
  moreover have "last (utf16_units n) = of_nat (0xDC00 + n mod 1024)" using False by (simp add: utf16_units_def)
  ultimately show ?thesis unfolding surrogate_iff unat_wide16 by simp
qed

lemma convertUTF16ToUTF8_last:
  assumes "length t + 3 * length s \<le> capacity" "convertUTF16ToUTF8 s t capacity False = (Success, s', t')" "s \<noteq> []"
  shows "\<not> U16_IS_LEAD (ucast (last s))"
  using assms
proof (induction "length s" arbitrary: s t rule: less_induct)
  case less
  obtain c r where nx: "U16_NEXT s = (c, r)" by fastforce
  note code = convertUTF16ToUTF8.simps [of s t capacity False, unfolded nx Let_def prod.case]
  have lt: "length r < length s" using U16_NEXT_length [OF less(4)] nx by simp
  from less(4) nx show ?case
  proof (cases rule: U16_NEXT_cases)
    case (scalar n)
    have ap: "U8_APPEND t capacity c = Some (t @ utf8_bytes n)" unfolding scalar(2) using less(2) scalar(3)
      by (intro U8_APPEND_scalar scalar(1)) simp
    have len: "length (t @ utf8_bytes n) + 3 * length r \<le> capacity" using less(2) scalar(3) encoding_lengths(2) [of n] by simp
    have rec: "convertUTF16ToUTF8 r (t @ utf8_bytes n) capacity False = (Success, s', t')"
      using less(3,4) unfolding code using scalar(4) ap by simp
    show ?thesis using less(1) [OF lt len rec] last_unit [OF scalar(1)] unfolding scalar(3) by (cases "r = []") simp_all
  next
    case (unpaired u)
    have len: "length t + 3 * length (utf16_units 0xFFFD) \<le> capacity" using less(2) unpaired(3) replacement_lengths by simp
    note ap = U8_APPEND_scalar [OF replacement_scalar(1) len]
    have rec: "convertUTF16ToUTF8 r (t @ utf8_bytes 0xFFFD) capacity False = (Success, s', t')"
      and notlead: "\<not> (r = [] \<and> U_IS_SURROGATE_LEAD c)"
      using less(3,4) unfolding code using unpaired(1) ap replacement_scalar(2) by (auto split: if_splits)
    have len': "length (t @ utf8_bytes 0xFFFD) + 3 * length r \<le> capacity" using less(2) unpaired(3) replacement_lengths by simp
    show ?thesis
    proof (cases "r = []")
      case True
      have "\<not> U16_IS_LEAD c"
      proof
        assume "U16_IS_LEAD c"
        then have e: "c AND 0xFFFFFC00 = 0xD800" unfolding U16_IS_LEAD_def .
        have "c AND 2 ^ 10 = (c AND 0xFFFFFC00) AND 2 ^ 10" by (simp add: and.assoc)
        also have "\<dots> = 0" unfolding e by simp
        finally show False using notlead True unfolding U_IS_SURROGATE_LEAD_def by simp
      qed
      then show ?thesis using True unpaired(2,3) by simp
    next
      case False
      then show ?thesis using less(1) [OF lt len' rec] unpaired(3) by simp
    qed
  qed
qed

lemma tryGetUTF8_replacing:
  assumes "length s \<le> StringImpl_MaxLength div 3"
  shows "tryGetUTF8ForCharacters s StrictConversionReplacingUnpairedSurrogatesWithFFFD = Some (Inr (utf8_encoding (scalars_of s)))"
  using assms replace_unpaired_eq [of "[]" s "length s * 3"]
  by (auto simp: tryGetUTF8ForCharacters_def utf8ForCharactersIntoBuffer_def Let_def)

lemma tryGetUTF8_lenient:
  assumes "length s \<le> StringImpl_MaxLength div 3"
  shows "tryGetUTF8ForCharacters s LenientConversion =
    Some (Inr (if s \<noteq> [] \<and> U16_IS_LEAD (ucast (last s)) then putUTF8Triple (utf8_encoding (scalars_of (butlast s))) (last s)
               else utf8_encoding (scalars_of s)))"
proof (cases "s = []")
  case True
  then show ?thesis by (simp add: tryGetUTF8ForCharacters_def)
next
  case False
  obtain result s' t' where conv: "convertUTF16ToUTF8 s [] (length s * 3) False = (result, s', t')" by (cases "convertUTF16ToUTF8 s [] (length s * 3) False")
  have len: "length [] + 3 * length s \<le> length s * 3" by simp
  from convertUTF16ToUTF8_lenient [OF len conv] show ?thesis
  proof
    assume ok: "result = Success \<and> s' = [] \<and> t' = [] @ utf8_encoding (scalars_of s)"
    then have "\<not> U16_IS_LEAD (ucast (last s))" using convertUTF16ToUTF8_last [OF len _ False] conv by blast
    then show ?thesis using ok conv assms False by (simp add: tryGetUTF8ForCharacters_def utf8ForCharactersIntoBuffer_def)
  next
    assume "\<exists>p u. result = SourceExhausted \<and> s = p @ [u] \<and> s' = [u] \<and> U16_IS_LEAD (ucast u) \<and> t' = [] @ utf8_encoding (scalars_of p)"
    then obtain p u where p: "result = SourceExhausted" "s = p @ [u]" "s' = [u]" "U16_IS_LEAD (ucast u)" "t' = utf8_encoding (scalars_of p)"
      by auto
    have "tryGetUTF8ForCharacters s LenientConversion = Some (Inr (putUTF8Triple t' u))"
      using conv assms False p(1,3) by (simp add: tryGetUTF8ForCharacters_def utf8ForCharactersIntoBuffer_def)
    then show ?thesis using p(2,4,5) by simp
  qed
qed

lemma tryGetUTF8_strict:
  assumes "length s \<le> StringImpl_MaxLength div 3"
  shows "tryGetUTF8ForCharacters s StrictConversion = Some (Inr bs) \<longleftrightarrow> (\<exists>ns. scalars ns \<and> s = utf16_encoding ns \<and> bs = utf8_encoding ns)"
proof (cases "s = []")
  case True
  have "ns = []" if "[] = utf16_encoding ns" for ns using that utf16_units_ne by (cases ns) auto
  then have "(\<exists>ns. scalars ns \<and> [] = utf16_encoding ns \<and> bs = utf8_encoding ns) \<longleftrightarrow> bs = []"
    by (metis encoding_simps(1,3,5))
  then show ?thesis using True by (auto simp: tryGetUTF8ForCharacters_def)
next
  case False
  obtain result s' t' where conv: "convertUTF16ToUTF8 s [] (length s * 3) True = (result, s', t')" by (cases "convertUTF16ToUTF8 s [] (length s * 3) True")
  have code: "tryGetUTF8ForCharacters s StrictConversion = Some (Inr bs) \<longleftrightarrow> result = Success \<and> bs = t'"
    using conv assms False by (auto simp: tryGetUTF8ForCharacters_def utf8ForCharactersIntoBuffer_def split: ConversionResult.splits)
  have len: "length [] + 3 * length s \<le> length s * 3" by simp
  show ?thesis
  proof
    assume "tryGetUTF8ForCharacters s StrictConversion = Some (Inr bs)"
    then have ok: "result = Success" "bs = t'" using code by simp_all
    then show "\<exists>ns. scalars ns \<and> s = utf16_encoding ns \<and> bs = utf8_encoding ns"
      using convertUTF16ToUTF8_strict [OF len conv] by (auto split: if_splits)
  next
    assume "\<exists>ns. scalars ns \<and> s = utf16_encoding ns \<and> bs = utf8_encoding ns"
    then obtain ns where ns: "scalars ns" "s = utf16_encoding ns" "bs = utf8_encoding ns" by blast
    have "3 * length (utf16_encoding ns) \<le> length s * 3" using ns(2) by simp
    from convertUTF16ToUTF8_encoding [OF ns(1) this, of True]
    show "tryGetUTF8ForCharacters s StrictConversion = Some (Inr bs)" unfolding code using conv ns(2,3) by simp
  qed
qed

section \<open>UTF-8 as a codec\<close>

text \<open>The strict conversion and the rejecting decoder, with their errors as \<open>None\<close>.\<close>

definition strict_utf8 :: "u16 list \<Rightarrow> u8 list option" where
  "strict_utf8 s = (case tryGetUTF8ForCharacters s StrictConversion of Some (Inr bs) \<Rightarrow> Some bs | _ \<Rightarrow> None)"

definition from_utf8 :: "u8 list \<Rightarrow> u16 list option" where
  "from_utf8 bs = (case fromUTF8Impl False bs of Some s \<Rightarrow> s | None \<Rightarrow> None)"

definition utf8_limit :: nat where "utf8_limit = StringImpl_MaxLength div 3"

lemma utf16_shorter: "length (utf16_encoding ns) \<le> length (utf8_encoding ns)"
proof (induction ns)
  case (Cons n ns)
  then show ?case using encoding_lengths(1) [of n] by simp
qed simp

lemma utf8_limit_le: "utf8_limit \<le> StringImpl_MaxLength"
  by (simp add: utf8_limit_def)

lemma from_utf8_iff:
  "length bs \<le> StringImpl_MaxLength \<Longrightarrow> from_utf8 bs = Some s \<longleftrightarrow> (\<exists>ns. scalars ns \<and> bs = utf8_encoding ns \<and> s = utf16_encoding ns)"
  using fromUTF8Impl_iff [of bs s] by (auto simp: from_utf8_def split: option.splits)

lemma strict_utf8_iff:
  "length s \<le> utf8_limit \<Longrightarrow> strict_utf8 s = Some bs \<longleftrightarrow> (\<exists>ns. scalars ns \<and> s = utf16_encoding ns \<and> bs = utf8_encoding ns)"
  using tryGetUTF8_strict [of s bs] by (auto simp: strict_utf8_def utf8_limit_def split: option.splits sum.splits)

lemma utf16_encoding_inj: "scalars ms \<Longrightarrow> scalars ns \<Longrightarrow> utf16_encoding ms = utf16_encoding ns \<Longrightarrow> ms = ns"
  using utf16_encoding_scalars_of by metis

interpretation utf8c: codec strict_utf8 from_utf8 "\<lambda>s. length s \<le> utf8_limit" "\<lambda>bs. length bs \<le> utf8_limit"
proof
  fix s bs
  assume "length s \<le> utf8_limit" "strict_utf8 s = Some bs" "length bs \<le> utf8_limit"
  then show "from_utf8 bs = Some s" using from_utf8_iff [of bs s] strict_utf8_iff [of s bs] utf8_limit_le by auto
next
  fix bs s
  assume bs: "length bs \<le> utf8_limit" "from_utf8 bs = Some s"
  then obtain ns where ns: "scalars ns" "bs = utf8_encoding ns" "s = utf16_encoding ns" using from_utf8_iff [of bs s] utf8_limit_le by auto
  then have "length s \<le> utf8_limit" using utf16_shorter [of ns] bs(1) by simp
  then show "length s \<le> utf8_limit \<and> strict_utf8 s = Some bs" using strict_utf8_iff [of s bs] ns by blast
qed

lemma utf8_strict_canonical:
  "length bs \<le> utf8_limit \<Longrightarrow> from_utf8 bs = Some s \<longleftrightarrow> length s \<le> utf8_limit \<and> strict_utf8 s = Some bs"
  by (rule utf8c.decode_iff)

lemma U8_NEXT_lead_surrogate:
  assumes "U16_IS_LEAD (ucast u)"
  shows "fst (U8_NEXT (putUTF8Triple [] u)) = None"
proof -
  have u: "0xD800 \<le> unat u" "unat u < 0xDC00" using assms unfolding surrogate_iff unat_wide16 by simp_all
  have w: "unat (ucast u :: u32) < 0x10000" unfolding unat_wide16 using u(2) by simp
  have hd: "unat u div 4096 = 13" using u nat_div_eq_iff [of 4096 "unat u" 13] by simp
  define k where "k = unat u div 64"
  have k: "864 \<le> k" "k < 880" unfolding k_def using u by (simp_all add: less_eq_div_iff_mult_less_eq div_less_iff_less_mult)
  have km: "k mod 64 = k - 64 * 13" by (rule mod_offset) (use k in simp_all)
  have b: "putUTF8Triple [] u = [of_nat 0xED, of_nat (0x80 + k mod 64), of_nat (0x80 + unat u mod 64)]"
    unfolding putUTF8Triple_def Let_def append_bytes(1,2) append_bytes(5) [OF w] unat_drop_bit_div unat_wide16 hd k_def by simp
  have first: "unat (of_nat 0xED :: u8) = 0xED" by simp
  have second: "unat (of_nat (0x80 + k mod 64) :: u8) = 0x80 + k mod 64" using k km by (intro unat_u8) simp
  define t where "t = (of_nat (0x80 + k mod 64) :: u8)"
  have "0xA0 \<le> unat t" unfolding t_def second using k km by simp
  then have "\<not> second_byte3 (of_nat 0xED) t" unfolding second_byte3_def first by simp
  moreover have "0xE0 \<le> unat (of_nat 0xED :: u8)" "unat (of_nat 0xED :: u8) < 0xF0" unfolding first by simp_all
  ultimately show ?thesis unfolding b t_def [symmetric] by (simp only: U8_NEXT_3 list.case if_False prod.case fst_conv)
qed

text \<open>The bytes a lenient conversion writes for an unpaired lead surrogate at the end are not UTF-8.\<close>

lemma from_utf8_lone_lead:
  assumes "scalars ns" "U16_IS_LEAD (ucast u)" "length (utf8_encoding ns) + 3 \<le> StringImpl_MaxLength"
  shows "from_utf8 (putUTF8Triple (utf8_encoding ns) u) = None"
proof -
  let ?w = "ucast u :: u32"
  have u: "0xD800 \<le> unat u" "unat u < 0xDC00" using assms(2) unfolding surrogate_iff unat_wide16 by simp_all
  obtain b where b: "putUTF8Triple (utf8_encoding ns) u = utf8_encoding ns @ b" "length b = 3" "b = putUTF8Triple [] u"
    by (simp add: putUTF8Triple_def Let_def)
  have no: "scalars ms \<Longrightarrow> utf8_encoding ns @ b = utf8_encoding ms \<Longrightarrow> \<exists>ms'. scalars ms' \<and> b = utf8_encoding ms'" for ms
    using assms(1)
  proof (induction ns arbitrary: ms)
    case (Cons n ns)
    obtain m ms' where ms: "ms = m # ms'" using Cons.prems utf8_bytes_ne by (cases ms) auto
    have "U8_NEXT (utf8_bytes n @ (utf8_encoding ns @ b)) = (Some (of_nat n), utf8_encoding ns @ b)"
      using Cons.prems(3) by (intro U8_NEXT_utf8_bytes) simp
    moreover have "U8_NEXT (utf8_bytes m @ utf8_encoding ms') = (Some (of_nat m), utf8_encoding ms')"
      using Cons.prems(1) ms by (intro U8_NEXT_utf8_bytes) simp
    ultimately have "utf8_encoding ns @ b = utf8_encoding ms'" using Cons.prems(2) ms by simp
    then show ?case using Cons.IH [of ms'] Cons.prems(1,3) ms by simp
  qed auto
  show ?thesis
  proof (rule ccontr)
    assume "from_utf8 (putUTF8Triple (utf8_encoding ns) u) \<noteq> None"
    then obtain ms where "scalars ms" "utf8_encoding ns @ b = utf8_encoding ms"
      using from_utf8_iff [of "utf8_encoding ns @ b"] assms(3) b(1,2) by auto
    from no [OF this] obtain ms where ms: "scalars ms" "b = utf8_encoding ms" by blast
    obtain m ms' where m: "ms = m # ms'" using ms(2) b(2) by (cases ms) auto
    have "U8_NEXT b = (Some (of_nat m), utf8_encoding ms')" using U8_NEXT_utf8_bytes [of m] ms m by simp
    moreover have "fst (U8_NEXT b) = None" unfolding b(3) by (rule U8_NEXT_lead_surrogate [OF assms(2)])
    ultimately show False by simp
  qed
qed

text \<open>A lenient conversion of a string that ends in a lead surrogate succeeds, but what it writes is not UTF-8.\<close>

lemma utf8_lenient_lone_lead:
  assumes "length (p @ [u]) \<le> utf8_limit" "U16_IS_LEAD (ucast u)"
  shows "\<exists>bs. utf8 (p @ [u]) LenientConversion = Some bs \<and> from_utf8 bs = None"
proof -
  let ?e = "utf8_encoding (scalars_of p)"
  have "3 * length (p @ [u]) \<le> StringImpl_MaxLength" using assms(1) unfolding utf8_limit_def by simp
  then have "length ?e + 3 \<le> StringImpl_MaxLength" using scalars_of_length [of p] by simp
  then have "from_utf8 (putUTF8Triple ?e u) = None" using scalars_scalars_of assms(2) by (intro from_utf8_lone_lead)
  moreover have "utf8 (p @ [u]) LenientConversion = Some (putUTF8Triple ?e u)"
    unfolding utf8_def using tryGetUTF8_lenient [of "p @ [u]"] assms by (simp add: utf8_limit_def)
  ultimately show ?thesis by blast
qed

text \<open>A string without unpaired surrogates.\<close>

definition well_formed_utf16 :: "u16 list \<Rightarrow> bool" where
  "well_formed_utf16 s \<longleftrightarrow> utf16_encoding (scalars_of s) = s"

lemma well_formed_utf16_iff: "well_formed_utf16 s \<longleftrightarrow> (\<exists>ns. scalars ns \<and> s = utf16_encoding ns)"
  using scalars_scalars_of utf16_encoding_scalars_of by (metis well_formed_utf16_def)

end
