(* ===== verification/StringHash.thy ===== *)
theory StringHash
  imports UnicodeStrings
begin

text \<open>
  8-bit strings (\<open>convertLatin1ToUTF8\<close>), the string hash of \<open>WTF/wtf/text/StringHasher.h\<close>, and the two routines the atom
  table uses to look up UTF-8 without converting it (\<open>calculateStringHashAndLengthFromUTF8MaskingTop8Bits\<close>,
  \<open>equalUTF16WithUTF8\<close>, \<open>equalLatin1WithUTF8\<close>). The lemmas compare the hash of the bytes with the hash of the converted
  string, and the comparisons with equality of the converted string.
\<close>


section \<open>Strings of 8-bit characters\<close>

text \<open>The loop of \<open>convertLatin1ToUTF8\<close>; \<open>None\<close> is the result \<open>false\<close>.\<close>

fun convertLatin1ToUTF8 :: "u8 list \<Rightarrow> u8 list \<Rightarrow> nat \<Rightarrow> u8 list option" where
  "convertLatin1ToUTF8 [] target capacity = Some target"
| "convertLatin1ToUTF8 (c # source) target capacity =
     (case U8_APPEND target capacity (ucast c) of
        None \<Rightarrow> None
      | Some target \<Rightarrow> convertLatin1ToUTF8 source target capacity)"

definition tryGetUTF8ForCharacters8 :: "u8 list \<Rightarrow> (UTF8ConversionError + u8 list)" where
  "tryGetUTF8ForCharacters8 characters =
     (if length characters = 0 then Inr []
      else if length characters > StringImpl_MaxLength div 2 then Inl OutOfMemory
      else case convertLatin1ToUTF8 characters [] (length characters * 2) of
             None \<Rightarrow> Inr []
           | Some buffer \<Rightarrow> Inr buffer)"

lemma latin1_scalar: "scalar_value (unat c)" "length (utf8_bytes (unat c)) \<le> 2" "utf16_units (unat c) = [ucast c]" for c :: u8
proof -
  have "unat c < 256" using unsigned_less [of c] by simp
  then show "scalar_value (unat c)" "length (utf8_bytes (unat c)) \<le> 2" "utf16_units (unat c) = [ucast c]"
    by (simp_all add: scalar_value_def utf8_bytes_length utf16_units_def)
qed

lemma latin1_encoding: "scalars (map unat cs)" "utf16_encoding (map unat cs) = map ucast cs" for cs :: "u8 list"
  by (induction cs) (simp_all add: latin1_scalar)

lemma convertLatin1ToUTF8_eq:
  "length t + 2 * length cs \<le> capacity \<Longrightarrow> convertLatin1ToUTF8 cs t capacity = Some (t @ utf8_encoding (map unat cs))"
proof (induction cs arbitrary: t)
  case (Cons c cs)
  have u: "unat (ucast c :: u32) = unat c" by (rule unat_wide)
  have "unat c < 256" using unsigned_less [of c] by simp
  then have "U8_APPEND t capacity (ucast c) = Some (t @ utf8_bytes (unat c))"
    using U8_APPEND_eq [of "ucast c" t capacity] Cons.prems latin1_scalar [of c] unfolding u by simp
  then show ?case using Cons.IH [of "t @ utf8_bytes (unat c)"] Cons.prems latin1_scalar(2) [of c] by simp
qed simp

lemma tryGetUTF8ForCharacters8_eq:
  "length cs \<le> StringImpl_MaxLength div 2 \<Longrightarrow> tryGetUTF8ForCharacters8 cs = Inr (utf8_encoding (map unat cs))"
  using convertLatin1ToUTF8_eq [of "[]" cs "length cs * 2"] by (auto simp: tryGetUTF8ForCharacters8_def)

section \<open>The hash of a string\<close>

record StringHasher =
  m_hash :: u32
  m_pendingCharacter :: u16
  m_hasPendingCharacter :: bool

definition stringHashingStartValue :: u32 where "stringHashingStartValue = 0x9E3779B9"

definition newStringHasher :: StringHasher where
  "newStringHasher = \<lparr>m_hash = stringHashingStartValue, m_pendingCharacter = 0, m_hasPendingCharacter = False\<rparr>"

definition calculateWithTwoCharacters :: "u32 \<Rightarrow> u32 \<Rightarrow> u32 \<Rightarrow> u32" where
  "calculateWithTwoCharacters hash firstCharacter secondCharacter =
     (let result = hash;
          result = result + firstCharacter;
          result = push_bit 16 result XOR (push_bit 11 secondCharacter XOR result);
          result = result + drop_bit 11 result
      in result)"

definition calculateWithRemainingLastCharacter :: "u32 \<Rightarrow> u32 \<Rightarrow> u32" where
  "calculateWithRemainingLastCharacter hash character =
     (let result = hash;
          result = result + character;
          result = result XOR push_bit 11 result;
          result = result + drop_bit 17 result
      in result)"

definition avalancheBits :: "u32 \<Rightarrow> u32" where
  "avalancheBits hash =
     (let result = hash;
          result = result XOR push_bit 3 result;
          result = result + drop_bit 5 result;
          result = result XOR push_bit 2 result;
          result = result + drop_bit 15 result;
          result = result XOR push_bit 10 result
      in result)"

definition flagCount :: nat where "flagCount = 8"

definition maskHash :: u32 where "maskHash = push_bit (32 - flagCount) 1 - 1"

definition avoidZero :: "u32 \<Rightarrow> u32" where
  "avoidZero hash = (if hash \<noteq> 0 then hash else drop_bit flagCount 0x80000000)"

definition finalizeAndMaskTop8Bits :: "u32 \<Rightarrow> u32" where
  "finalizeAndMaskTop8Bits hash = avoidZero (avalancheBits hash AND maskHash)"

definition addCharactersAssumingAligned :: "u16 \<Rightarrow> u16 \<Rightarrow> StringHasher \<Rightarrow> StringHasher" where
  "addCharactersAssumingAligned a b h = h\<lparr>m_hash := calculateWithTwoCharacters (m_hash h) (ucast a) (ucast b)\<rparr>"

definition addCharacter :: "u16 \<Rightarrow> StringHasher \<Rightarrow> StringHasher" where
  "addCharacter character h =
     (if m_hasPendingCharacter h
      then addCharactersAssumingAligned (m_pendingCharacter h) character (h\<lparr>m_hasPendingCharacter := False\<rparr>)
      else h\<lparr>m_pendingCharacter := character, m_hasPendingCharacter := True\<rparr>)"

definition addCharacters :: "u16 \<Rightarrow> u16 \<Rightarrow> StringHasher \<Rightarrow> StringHasher" where
  "addCharacters a b h =
     (if m_hasPendingCharacter h
      then (addCharactersAssumingAligned (m_pendingCharacter h) a h)\<lparr>m_pendingCharacter := b\<rparr>
      else addCharactersAssumingAligned a b h)"

definition processPendingCharacter :: "StringHasher \<Rightarrow> u32" where
  "processPendingCharacter h =
     (if m_hasPendingCharacter h then calculateWithRemainingLastCharacter (m_hash h) (ucast (m_pendingCharacter h)) else m_hash h)"

definition hashWithTop8BitsMasked :: "StringHasher \<Rightarrow> u32" where
  "hashWithTop8BitsMasked h = finalizeAndMaskTop8Bits (processPendingCharacter h)"

fun computeHash_loop :: "u32 \<Rightarrow> u16 list \<Rightarrow> u32" where
  "computeHash_loop result (a # b # characters) =
     computeHash_loop (calculateWithTwoCharacters result (ucast a) (ucast b)) characters"
| "computeHash_loop result [a] = calculateWithRemainingLastCharacter result (ucast a)"
| "computeHash_loop result [] = result"

definition computeHashImpl :: "u16 list \<Rightarrow> u32" where
  "computeHashImpl characters = computeHash_loop stringHashingStartValue characters"

definition computeHashAndMaskTop8Bits :: "u16 list \<Rightarrow> u32" where
  "computeHashAndMaskTop8Bits characters = finalizeAndMaskTop8Bits (computeHashImpl characters)"

definition U16_LEAD :: "u32 \<Rightarrow> u16" where
  "U16_LEAD supplementary = ucast (drop_bit 10 supplementary + 0xD7C0)"

definition U16_TRAIL :: "u32 \<Rightarrow> u16" where
  "U16_TRAIL supplementary = ucast ((supplementary AND 0x3FF) OR 0xDC00)"

text \<open>The loop of \<open>calculateStringHashAndLengthFromUTF8MaskingTop8Bits\<close>: the hash is 0 for invalid data; the outputs
  are the offset reached and the number of UTF-16 units.\<close>

function hashUTF8_loop :: "u8 list \<Rightarrow> StringHasher \<Rightarrow> u32 \<Rightarrow> (u32 \<times> u32)" where
  "hashUTF8_loop data h utf16Length =
     (if data = [] then (hashWithTop8BitsMasked h, utf16Length)
      else case U8_NEXT data of
          (None, data') \<Rightarrow> (0, utf16Length)
        | (Some character, data') \<Rightarrow>
            if character \<le> 0xFFFF
            then hashUTF8_loop data' (addCharacter (ucast character) h) (utf16Length + 1)
            else hashUTF8_loop data' (addCharacters (U16_LEAD character) (U16_TRAIL character) h) (utf16Length + 2))"
  by pat_completeness auto
termination
proof (relation "measure (\<lambda>(s, h, n). length s)", goal_cases)
  case (2 s h n x s' c)
  then have "snd (U8_NEXT s) = s'" by (metis snd_conv)
  then show ?case using 2 U8_NEXT_length [of s] by simp
next
  case (3 s h n x s' c)
  then have "snd (U8_NEXT s) = s'" by (metis snd_conv)
  then show ?case using 3 U8_NEXT_length [of s] by simp
qed simp

declare hashUTF8_loop.simps [simp del]

definition calculateStringHashAndLengthFromUTF8MaskingTop8Bits :: "u8 list \<Rightarrow> u32 \<times> u32" where
  "calculateStringHashAndLengthFromUTF8MaskingTop8Bits data = hashUTF8_loop data newStringHasher 0"

text \<open>What the hash will be if the hasher still has to see the characters \<open>s\<close>.\<close>

definition hash_after :: "StringHasher \<Rightarrow> u16 list \<Rightarrow> u32" where
  "hash_after h s = computeHash_loop (m_hash h) (if m_hasPendingCharacter h then m_pendingCharacter h # s else s)"

lemma hash_after_simps:
  "hash_after (addCharacter c h) s = hash_after h (c # s)"
  "hash_after (addCharacters a b h) s = hash_after h (a # b # s)"
  "processPendingCharacter h = hash_after h []"
  "hash_after newStringHasher s = computeHashImpl s"
  by (simp_all add: hash_after_def addCharacter_def addCharacters_def addCharactersAssumingAligned_def
      processPendingCharacter_def newStringHasher_def computeHashImpl_def)

lemma U16_LEAD_TRAIL:
  assumes "scalar_value n" "0x10000 \<le> n"
  shows "[U16_LEAD (of_nat n), U16_TRAIL (of_nat n)] = utf16_units n"
proof -
  have u: "unat (of_nat n :: u32) = n" using assms(1) by (rule scalar_lt)
  then have "U16_APPEND [] 2 (of_nat n) = Some (utf16_units n)" using U16_APPEND_eq [of "of_nat n" "[]" 2] scalar_lt(1) [OF assms(1)]
    by (simp add: utf16_units_length)
  moreover have "\<not> (of_nat n :: u32) \<le> 0xFFFF" unfolding word_le_nat_alt u using assms(2) by simp
  ultimately show ?thesis by (simp add: U16_APPEND_def U16_LEAD_def U16_TRAIL_def split: if_splits)
qed

lemma bmp_units:
  assumes "scalar_value n" "n < 0x10000"
  shows "utf16_units n = [ucast (of_nat n :: u32)]" "(of_nat n :: u32) \<le> 0xFFFF"
proof -
  have u: "unat (of_nat n :: u32) = n" using assms(1) by (rule scalar_lt)
  show le: "(of_nat n :: u32) \<le> 0xFFFF" unfolding word_le_nat_alt u using assms(2) by simp
  have "U16_APPEND [] 2 (of_nat n) = Some (utf16_units n)" using u U16_APPEND_eq [of "of_nat n" "[]" 2] scalar_lt(1) [OF assms(1)]
    by (simp add: utf16_units_length)
  then show "utf16_units n = [ucast (of_nat n :: u32)]" using le by (simp add: U16_APPEND_def)
qed

lemma unat_narrow16: "n < 0x10000 \<Longrightarrow> unat (ucast (of_nat n :: u32) :: u16) = n"
proof -
  assume "n < 0x10000"
  then have "take_bit 16 n = n" by (simp add: take_bit_nat_eq_self)
  moreover have "unat (of_nat n :: u32) = n" using \<open>n < 0x10000\<close> by (intro unat_u32) simp
  ultimately show ?thesis by (simp add: unsigned_ucast_eq)
qed

lemma hashUTF8_loop_encoding:
  assumes "scalars ns"
  shows "hashUTF8_loop (utf8_encoding ns) h k =
    (finalizeAndMaskTop8Bits (hash_after h (utf16_encoding ns)), k + of_nat (length (utf16_encoding ns)))"
  using assms
proof (induction ns arbitrary: h k)
  case Nil
  then show ?case by (simp add: hashUTF8_loop.simps [of "[]"] hashWithTop8BitsMasked_def hash_after_simps)
next
  case (Cons n ns)
  then have n: "scalar_value n" "scalars ns" by simp_all
  have nx: "U8_NEXT (utf8_encoding (n # ns)) = (Some (of_nat n), utf8_encoding ns)" using U8_NEXT_utf8_bytes [OF n(1)] by simp
  have ne: "utf8_encoding (n # ns) \<noteq> []" using utf8_bytes_ne by simp
  note code = hashUTF8_loop.simps [of "utf8_encoding (n # ns)" h k, unfolded nx prod.case option.case if_not_P [OF ne]]
  show ?case
  proof (cases "n < 0x10000")
    case True
    then show ?thesis unfolding code using bmp_units [OF n(1)] Cons.IH [OF n(2)] by (simp add: hash_after_simps add.assoc)
  next
    case False
    have "\<not> (of_nat n :: u32) \<le> 0xFFFF" unfolding word_le_nat_alt scalar_lt(2) [OF n(1)] using False by simp
    moreover have "utf16_units n = [U16_LEAD (of_nat n), U16_TRAIL (of_nat n)]" using U16_LEAD_TRAIL [OF n(1)] False by simp
    ultimately show ?thesis unfolding code using Cons.IH [OF n(2)] by (simp add: hash_after_simps add.assoc)
  qed
qed

lemma hashUTF8_loop_invalid:
  assumes "\<not> (\<exists>ns. scalars ns \<and> data = utf8_encoding ns)"
  shows "fst (hashUTF8_loop data h k) = 0"
  using assms
proof (induction "length data" arbitrary: data h k rule: less_induct)
  case less
  have ne: "data \<noteq> []" using less.prems by (metis encoding_simps(1,5))
  obtain o' s where nx: "U8_NEXT data = (o', s)" by fastforce
  note code = hashUTF8_loop.simps [of data h k, unfolded nx prod.case if_not_P [OF ne]]
  show ?case
  proof (cases o')
    case (Some c)
    have c: "scalar_value (unat c)" "data = utf8_bytes (unat c) @ s" using U8_NEXT_Some [of data c s] nx Some by simp_all
    have lt: "length s < length data" using U8_NEXT_length [OF ne] nx by simp
    have "\<not> (\<exists>ns. scalars ns \<and> s = utf8_encoding ns)"
    proof
      assume "\<exists>ns. scalars ns \<and> s = utf8_encoding ns"
      then obtain ns where "scalars ns" "s = utf8_encoding ns" by blast
      then have "scalars (unat c # ns) \<and> data = utf8_encoding (unat c # ns)" using c by simp
      then show False using less.prems by blast
    qed
    then show ?thesis unfolding code using Some less.hyps [OF lt] by simp
  qed (simp add: code)
qed

lemma finalize_ne: "finalizeAndMaskTop8Bits w \<noteq> 0"
  by (simp add: finalizeAndMaskTop8Bits_def avoidZero_def flagCount_def)

section \<open>Comparison of a string with UTF-8\<close>

text \<open>\<open>None\<close> is a read past the end of the string.\<close>

function equalUTF16WithUTF8 :: "u16 list \<Rightarrow> u8 list \<Rightarrow> bool option" where
  "equalUTF16WithUTF8 a b =
     (if b = [] then Some True
      else case U8_NEXT b of
          (None, b') \<Rightarrow> Some False
        | (Some character, b') \<Rightarrow>
            case a of
              [] \<Rightarrow> None
            | u # a' \<Rightarrow>
                if character \<le> 0xFFFF
                then if ucast u \<noteq> character then Some False else equalUTF16WithUTF8 a' b'
                else if u \<noteq> U16_LEAD character then Some False
                else (case a' of
                        [] \<Rightarrow> None
                      | v # a'' \<Rightarrow> if v \<noteq> U16_TRAIL character then Some False else equalUTF16WithUTF8 a'' b'))"
  by pat_completeness auto
termination
proof (relation "measure (\<lambda>(a, b). length b)", goal_cases)
  case (2 a b x b' c u a')
  then have "snd (U8_NEXT b) = b'" by (metis snd_conv)
  then show ?case using 2 U8_NEXT_length [of b] by simp
next
  case (3 a b x b' c u a')
  then have "snd (U8_NEXT b) = b'" by (metis snd_conv)
  then show ?case using 3 U8_NEXT_length [of b] by simp
qed simp

declare equalUTF16WithUTF8.simps [simp del]

fun equalLatin1WithUTF8 :: "u8 list \<Rightarrow> u8 list \<Rightarrow> bool option" where
  "equalLatin1WithUTF8 a [] = Some True"
| "equalLatin1WithUTF8 [] (y # b) = None"
| "equalLatin1WithUTF8 (x # a) (y # b) =
     (if x AND 0x80 = 0 \<or> y AND 0x80 = 0
      then if x \<noteq> y then Some False else equalLatin1WithUTF8 a b
      else case b of
          [] \<Rightarrow> Some False
        | z # b' \<Rightarrow>
            if y AND 0xE0 \<noteq> 0xC0 \<or> z AND 0xC0 \<noteq> 0x80 then Some False
            else
              let character = ucast (push_bit 6 (ucast (y AND 0x1F) :: u32) OR ucast (z AND 0x3F) :: u32) :: u8
              in if x \<noteq> character then Some False else equalLatin1WithUTF8 a b')"

lemma equalUTF16WithUTF8_encoding:
  assumes "scalars ns" "length a = length (utf16_encoding ns)"
  shows "equalUTF16WithUTF8 a (utf8_encoding ns) = Some (a = utf16_encoding ns)"
  using assms
proof (induction ns arbitrary: a)
  case Nil
  then show ?case by (simp add: equalUTF16WithUTF8.simps [of _ "[]"])
next
  case (Cons n ns)
  then have n: "scalar_value n" "scalars ns" by simp_all
  have nx: "U8_NEXT (utf8_encoding (n # ns)) = (Some (of_nat n), utf8_encoding ns)" using U8_NEXT_utf8_bytes [OF n(1)] by simp
  have ne: "utf8_encoding (n # ns) \<noteq> []" using utf8_bytes_ne by simp
  note code = equalUTF16WithUTF8.simps [of a "utf8_encoding (n # ns)", unfolded nx prod.case option.case if_not_P [OF ne]]
  show ?case
  proof (cases "n < 0x10000")
    case True
    note bmp = bmp_units [OF n(1) True]
    obtain u a' where a: "a = u # a'" using Cons.prems(2) bmp(1) by (cases a) simp_all
    have lt: "n < 65536" using True by simp
    have w: "ucast u = (of_nat n :: u32) \<longleftrightarrow> u = ucast (of_nat n :: u32)"
      unfolding word_unat_eq_iff unat_wide16 scalar_lt(2) [OF n(1)] unat_narrow16 [OF True] ..
    have "length a' = length (utf16_encoding ns)" using Cons.prems(2) a bmp(1) by simp
    then show ?thesis unfolding code using a bmp w Cons.IH [OF n(2)] by simp
  next
    case False
    have big: "\<not> (of_nat n :: u32) \<le> 0xFFFF" unfolding word_le_nat_alt scalar_lt(2) [OF n(1)] using False by simp
    have units: "utf16_units n = [U16_LEAD (of_nat n), U16_TRAIL (of_nat n)]" using U16_LEAD_TRAIL [OF n(1)] False by simp
    obtain u v a' where a: "a = u # v # a'" using Cons.prems(2) units by (cases a; cases "tl a") simp_all
    have "length a' = length (utf16_encoding ns)" using Cons.prems(2) a units by simp
    then show ?thesis unfolding code using a big units Cons.IH [OF n(2)] by simp
  qed
qed

lemma two_byte_lead:
  assumes "q < 32"
  shows "(of_nat (0xC0 + q) :: u8) AND 0x80 \<noteq> 0" "(of_nat (0xC0 + q) :: u8) AND 0xE0 = 0xC0"
    "(of_nat (0xC0 + q) :: u8) AND 0x1F = of_nat q"
proof -
  have "list_all (\<lambda>q. (of_nat (0xC0 + q) :: u8) AND 0x80 \<noteq> 0 \<and> (of_nat (0xC0 + q) :: u8) AND 0xE0 = 0xC0
      \<and> (of_nat (0xC0 + q) :: u8) AND 0x1F = of_nat q) [0..<32]"
    by code_simp
  moreover have "q \<in> set [0..<32]" using assms by simp
  ultimately have "(of_nat (0xC0 + q) :: u8) AND 0x80 \<noteq> 0 \<and> (of_nat (0xC0 + q) :: u8) AND 0xE0 = 0xC0
      \<and> (of_nat (0xC0 + q) :: u8) AND 0x1F = of_nat q"
    unfolding list_all_iff by (rule bspec)
  then show "(of_nat (0xC0 + q) :: u8) AND 0x80 \<noteq> 0" "(of_nat (0xC0 + q) :: u8) AND 0xE0 = 0xC0"
    "(of_nat (0xC0 + q) :: u8) AND 0x1F = of_nat q" by blast+
qed

lemma two_byte_trail:
  assumes "r < 64"
  shows "(of_nat (0x80 + r) :: u8) AND 0xC0 = 0x80" "(of_nat (0x80 + r) :: u8) AND 0x3F = of_nat r"
proof -
  have "list_all (\<lambda>r. (of_nat (0x80 + r) :: u8) AND 0xC0 = 0x80 \<and> (of_nat (0x80 + r) :: u8) AND 0x3F = of_nat r) [0..<64]"
    by code_simp
  moreover have "r \<in> set [0..<64]" using assms by simp
  ultimately have "(of_nat (0x80 + r) :: u8) AND 0xC0 = 0x80 \<and> (of_nat (0x80 + r) :: u8) AND 0x3F = of_nat r"
    unfolding list_all_iff by (rule bspec)
  then show "(of_nat (0x80 + r) :: u8) AND 0xC0 = 0x80" "(of_nat (0x80 + r) :: u8) AND 0x3F = of_nat r" by blast+
qed

lemma ascii_byte_iff: "b AND 0x80 = 0 \<longleftrightarrow> unat b < 0x80" for b :: u8
proof -
  have "b AND 2 ^ 7 = 0 \<longleftrightarrow> \<not> bit b 7" by (rule and_exp_eq_0_iff_not_bit)
  moreover have "(ucast b :: u32) AND 2 ^ 7 = 0 \<longleftrightarrow> \<not> bit (ucast b :: u32) 7" by (rule and_exp_eq_0_iff_not_bit)
  moreover have "bit (ucast b :: u32) 7 = bit b 7" by (simp add: bit_ucast_iff)
  ultimately show ?thesis using single_byte [of b] by simp
qed

lemma equalLatin1WithUTF8_two:
  assumes "0x80 \<le> n" "n < 0x800" "0x80 \<le> n mod 256"
  shows "equalLatin1WithUTF8 (of_nat n # a) (utf8_bytes n @ b) = equalLatin1WithUTF8 a b"
proof -
  define q where "q = n div 64"
  define r where "r = n mod 64"
  have n: "q < 32" "r < 64" "q * 64 + r = n" using assms(2) by (simp_all add: q_def r_def)
  have units: "utf8_bytes n = [of_nat (0xC0 + q), of_nat (0x80 + r)]" using assms(1,2) by (simp add: utf8_bytes_def q_def r_def)
  have x: "\<not> ((of_nat n :: u8) AND 0x80 = 0)" unfolding ascii_byte_iff using assms(3) by (simp add: unat_of_nat)
  have u: "unat (ucast (of_nat q :: u8) :: u32) = q" "unat (ucast (of_nat r :: u8) :: u32) = r"
    unfolding unat_wide using n(1,2) by (simp_all add: unat_u8)
  have "unat (push_bit 6 (ucast (of_nat q :: u8) :: u32) OR ucast (of_nat r :: u8)) = q * 2 ^ 6 + r"
    using unat_shift_or [of "ucast (of_nat r :: u8) :: u32" 6 "ucast (of_nat q :: u8)"] n(1,2) unfolding u by simp
  also have "\<dots> = n" using n(3) by simp
  finally have "push_bit 6 (ucast (of_nat q :: u8) :: u32) OR ucast (of_nat r :: u8) = of_nat n" by (metis word_of_unat)
  moreover have "ucast (of_nat n :: u32) = (of_nat n :: u8)"
    using assms(2) by (simp add: word_unat_eq_iff unsigned_ucast_eq unat_of_nat take_bit_eq_mod)
  ultimately have c: "ucast (push_bit 6 (ucast (of_nat (0xC0 + q) AND 0x1F :: u8) :: u32) OR ucast (of_nat (0x80 + r) AND 0x3F :: u8)) = (of_nat n :: u8)"
    unfolding two_byte_lead(3) [OF n(1)] two_byte_trail(2) [OF n(2)] by simp
  show ?thesis unfolding units append_Cons append_Nil equalLatin1WithUTF8.simps Let_def list.case c
      two_byte_lead(2) [OF n(1)] two_byte_trail(1) [OF n(2)]
    using x two_byte_lead(1) [OF n(1)] by simp
qed

lemma equalLatin1WithUTF8_encoding:
  "length a = length cs \<Longrightarrow> equalLatin1WithUTF8 a (utf8_encoding (map unat cs)) = Some (a = cs)"
proof (induction cs arbitrary: a)
  case (Cons c cs)
  obtain x a' where a: "a = x # a'" "length a' = length cs" using Cons.prems by (cases a) simp_all
  have lt: "unat c < 256" using unsigned_less [of c] by simp
  show ?case
  proof (cases "unat c < 0x80")
    case True
    then have "utf8_bytes (unat c) = [c]" by (simp add: utf8_bytes_def)
    then show ?thesis using Cons.IH [OF a(2)] a(1) True ascii_byte_iff [of c] by simp
  next
    case False
    have two: "utf8_bytes (unat c) = [of_nat (0xC0 + unat c div 64), of_nat (0x80 + unat c mod 64)]"
      using False lt by (simp add: utf8_bytes_def)
    have same: "equalLatin1WithUTF8 (c # a') (utf8_bytes (unat c) @ b) = equalLatin1WithUTF8 a' b" for b
      using equalLatin1WithUTF8_two [of "unat c" a' b] False lt by simp
    show ?thesis
    proof (cases "x = c")
      case True
      then show ?thesis using same Cons.IH [OF a(2)] a(1) by simp
    next
      case diff: False
      have nt: "\<not> of_nat (0xC0 + unat c div 64) AND (0x80 :: u8) = 0" using two_byte_lead(1) [of "unat c div 64"] lt by simp
      have neq: "x \<noteq> of_nat (0xC0 + unat c div 64)" if "x AND 0x80 = 0" using that nt by auto
      define l where "l = (of_nat (0xC0 + unat c div 64) :: u8)"
      define t where "t = (of_nat (0x80 + unat c mod 64) :: u8)"
      have "equalLatin1WithUTF8 (c # a') (l # t # []) = equalLatin1WithUTF8 a' []" using same [of "[]"] unfolding two l_def t_def by simp
      moreover have "\<not> c AND 0x80 = 0" using False ascii_byte_iff by simp
      ultimately have enc: "\<not> (l AND 0xE0 \<noteq> 0xC0 \<or> t AND 0xC0 \<noteq> 0x80)"
          "c = ucast (push_bit 6 (ucast (l AND 0x1F) :: u32) OR ucast (t AND 0x3F) :: u32)"
        using nt unfolding l_def [symmetric] by (simp_all add: Let_def split: if_splits)
      have "equalLatin1WithUTF8 (x # a') (l # t # b) = Some False" for b
        using nt neq enc diff unfolding l_def [symmetric] by (simp add: Let_def)
      then show ?thesis using diff a(1) unfolding two l_def t_def
        by (simp del: equalLatin1WithUTF8.simps add: two)
    qed
  qed
qed simp

text \<open>\<open>equalLatin1WithUTF8\<close> compares code points only modulo 256.\<close>

lemma equal_latin1_truncates:
  assumes "0x80 \<le> n" "n < 0x800" "0x80 \<le> n mod 256"
  shows "equalLatin1WithUTF8 [of_nat n] (utf8_bytes n) = Some True"
  using equalLatin1WithUTF8_two [OF assms, of "[]" "[]"] by simp

end
