(* ===== verification/StdMap.thy ===== *)
theory StdMap
  imports Prelude
begin

text \<open>
  \<open>std::map\<close> (WTF's \<open>StdMap\<close>) over a comparison function: the entries in order, \<open>find\<close> and \<open>emplace\<close> by the comparison
  alone. The locale \<open>ordered_map\<close> states what a client needs of the comparison, a strict total order of the keys, and
  derives what lookup and insertion do to a sorted map.
\<close>


section \<open>Ordered maps\<close>

type_synonym ('k, 'v) std_map = "('k \<times> 'v) list"

fun std_find :: "('k \<Rightarrow> 'k \<Rightarrow> bool) \<Rightarrow> 'k \<Rightarrow> ('k, 'v) std_map \<Rightarrow> ('k \<times> 'v) option" where
  "std_find lt k [] = None"
| "std_find lt k (e # m) =
     (if lt (fst e) k then std_find lt k m else if lt k (fst e) then None else Some e)"

fun std_emplace :: "('k \<Rightarrow> 'k \<Rightarrow> bool) \<Rightarrow> 'k \<Rightarrow> 'v \<Rightarrow> ('k, 'v) std_map \<Rightarrow> ('k, 'v) std_map" where
  "std_emplace lt k v [] = [(k, v)]"
| "std_emplace lt k v (e # m) =
     (if lt (fst e) k then e # std_emplace lt k v m else if lt k (fst e) then (k, v) # e # m else e # m)"

definition std_sorted :: "('k \<Rightarrow> 'k \<Rightarrow> bool) \<Rightarrow> ('k \<Rightarrow> bool) \<Rightarrow> ('k, 'v) std_map \<Rightarrow> bool" where
  "std_sorted lt is_key m \<longleftrightarrow> list_all is_key (map fst m) \<and> sorted_wrt lt (map fst m)"

locale ordered_map =
  fixes lt :: "'k \<Rightarrow> 'k \<Rightarrow> bool" and is_key :: "'k \<Rightarrow> bool"
  assumes less_irrefl: "is_key a \<Longrightarrow> \<not> lt a a"
    and less_trans: "is_key a \<Longrightarrow> is_key b \<Longrightarrow> is_key c \<Longrightarrow> lt a b \<Longrightarrow> lt b c \<Longrightarrow> lt a c"
    and less_total: "is_key a \<Longrightarrow> is_key b \<Longrightarrow> lt a b \<or> a = b \<or> lt b a"
begin

lemma less_asym: "is_key a \<Longrightarrow> is_key b \<Longrightarrow> lt a b \<Longrightarrow> \<not> lt b a"
  using less_irrefl less_trans by blast

lemma sorted_Cons: "std_sorted lt is_key (e # m) \<longleftrightarrow>
    is_key (fst e) \<and> std_sorted lt is_key m \<and> (\<forall>e' \<in> set m. lt (fst e) (fst e'))"
  by (auto simp: std_sorted_def)

lemma sorted_keys: "std_sorted lt is_key m \<Longrightarrow> e \<in> set m \<Longrightarrow> is_key (fst e)"
  by (simp add: std_sorted_def list_all_iff)

lemma find_None: "std_sorted lt is_key m \<Longrightarrow> is_key k \<Longrightarrow> std_find lt k m = None \<longleftrightarrow> k \<notin> fst ` set m"
proof (induction m)
  case (Cons e m)
  then have e: "is_key (fst e)" "std_sorted lt is_key m" "\<forall>e' \<in> set m. lt (fst e) (fst e')" by (simp_all add: sorted_Cons)
  consider "lt (fst e) k" | "k = fst e" | "lt k (fst e)" using less_total [OF e(1) Cons.prems(2)] by blast
  then show ?case
  proof cases
    case 1
    then have "fst e \<noteq> k" using less_irrefl [OF e(1)] by blast
    then show ?thesis using 1 Cons.IH [OF e(2) Cons.prems(2)] by auto
  next
    case 2
    then show ?thesis using less_irrefl [OF e(1)] by simp
  next
    case 3
    have "lt k (fst e')" if "e' \<in> set m" for e'
      using less_trans [OF Cons.prems(2) e(1) sorted_keys [OF e(2) that] 3] e(3) that by blast
    then have "k \<notin> fst ` set m" using less_irrefl [OF Cons.prems(2)] by auto
    then show ?thesis using 3 less_asym [OF Cons.prems(2) e(1) 3] less_irrefl [OF Cons.prems(2)] by auto
  qed
qed simp

lemma find_Some: "std_sorted lt is_key m \<Longrightarrow> is_key k \<Longrightarrow> std_find lt k m = Some e \<Longrightarrow> e \<in> set m \<and> fst e = k"
proof (induction m)
  case (Cons e' m)
  then have e: "is_key (fst e')" "std_sorted lt is_key m" by (simp_all add: sorted_Cons)
  then show ?case using Cons less_total [OF e(1) Cons.prems(2)] by (auto split: if_splits)
qed simp

lemma emplace_keys: "std_sorted lt is_key m \<Longrightarrow> is_key k \<Longrightarrow> fst ` set (std_emplace lt k v m) = insert k (fst ` set m)"
proof (induction m)
  case (Cons e m)
  then have e: "is_key (fst e)" "std_sorted lt is_key m" by (simp_all add: sorted_Cons)
  then show ?case using Cons less_total [OF e(1) Cons.prems(2)] by auto
qed simp

lemma emplace_sorted: "std_sorted lt is_key m \<Longrightarrow> is_key k \<Longrightarrow> std_sorted lt is_key (std_emplace lt k v m)"
proof (induction m)
  case Nil
  then show ?case by (simp add: std_sorted_def)
next
  case (Cons e m)
  then have e: "is_key (fst e)" "std_sorted lt is_key m" "\<forall>e' \<in> set m. lt (fst e) (fst e')" by (simp_all add: sorted_Cons)
  have keys: "fst ` set (std_emplace lt k v m) = insert k (fst ` set m)" using e(2) Cons.prems(2) by (rule emplace_keys)
  show ?case
  proof (cases "lt (fst e) k")
    case True
    have "lt (fst e) x" if "x \<in> fst ` set (std_emplace lt k v m)" for x using that True e(3) unfolding keys by auto
    then show ?thesis using True e Cons.IH [OF e(2) Cons.prems(2)] by (auto simp: sorted_Cons)
  next
    case False
    have "lt k (fst e')" if "lt k (fst e)" "e' \<in> set m" for e'
      using less_trans [OF Cons.prems(2) e(1) sorted_keys [OF e(2) that(2)] that(1)] e(3) that(2) by blast
    then show ?thesis using False Cons.prems by (auto simp: sorted_Cons)
  qed
qed

lemma sorted_snoc: "std_sorted lt is_key (m @ [(k, v)]) \<longleftrightarrow>
    std_sorted lt is_key m \<and> is_key k \<and> (m = [] \<or> lt (fst (last m)) k)"
proof (induction m)
  case (Cons e m)
  have "(\<forall>e' \<in> set m. lt (fst e) (fst e')) \<Longrightarrow> std_sorted lt is_key m \<Longrightarrow> is_key (fst e) \<Longrightarrow> is_key k \<Longrightarrow> m \<noteq> [] \<Longrightarrow>
      lt (fst (last m)) k \<Longrightarrow> lt (fst e) k"
    using less_trans [of "fst e" "fst (last m)" k] sorted_keys last_in_set by blast
  then show ?case using Cons.IH by (cases "m = []") (auto simp: sorted_Cons)
qed (simp add: std_sorted_def)

text \<open>Two checks of a client that inserts keys in order: no equal key, and not below the largest.\<close>

lemma above_last:
  assumes "std_sorted lt is_key m" "is_key k" "m \<noteq> []" "\<not> lt k (fst (last m))"
  shows "std_find lt k m = None \<longleftrightarrow> lt (fst (last m)) k"
proof -
  have l: "is_key (fst (last m))" using sorted_keys [OF assms(1)] assms(3) by simp
  have "lt e (fst (last m)) \<or> e = fst (last m)" if "e \<in> fst ` set m" for e
    using assms(1,3) that
  proof (induction m)
    case (Cons x m)
    then show ?case by (cases "m = []") (auto simp: sorted_Cons)
  qed simp
  moreover have "lt (fst (last m)) k \<or> fst (last m) = k" using less_total [OF l assms(2)] assms(4) by blast
  moreover have "fst (last m) \<in> fst ` set m" using assms(3) by simp
  ultimately show ?thesis unfolding find_None [OF assms(1,2)]
    using less_asym less_irrefl l assms(1,2) sorted_keys by (metis imageE)
qed

lemma emplace_above_last:
  "std_sorted lt is_key (m @ [(k, v)]) \<Longrightarrow> std_emplace lt k v m = m @ [(k, v)]"
proof (induction m)
  case (Cons e m)
  then have "std_sorted lt is_key (m @ [(k, v)])" "lt (fst e) k" by (auto simp: sorted_Cons)
  then show ?case using Cons.IH by simp
qed simp

end

end
