(* ===== verification/CBORValue.thy ===== *)
theory CBORValue
  imports StdMap
begin

text \<open>
  CBOR values (\<open>WebCore/Modules/webauthn/cbor/CBORValue.h\<close> and \<open>CBORValue.cpp\<close>): the tagged union, its constructors and
  getters, moves and deep copies, and the order \<open>CTAPLess\<close> of map keys, which interprets \<open>ordered_map\<close>.
\<close>


section \<open>Values\<close>

datatype simple_value = FalseValue | TrueValue | NullValue | UndefinedValue

primrec simple_code :: "simple_value \<Rightarrow> nat" where
  "simple_code FalseValue = 20"
| "simple_code TrueValue = 21"
| "simple_code NullValue = 22"
| "simple_code UndefinedValue = 23"

datatype cbor_type = TUnsigned | TNegative | TByteString | TString | TArray | TMap | TSimpleValue | TNone

primrec type_code :: "cbor_type \<Rightarrow> int" where
  "type_code TUnsigned = 0"
| "type_code TNegative = 1"
| "type_code TByteString = 2"
| "type_code TString = 3"
| "type_code TArray = 4"
| "type_code TMap = 5"
| "type_code TSimpleValue = 7"
| "type_code TNone = -1"

text \<open>The union with its tag. An integer is the 64-bit word read with \<open>sint\<close>; a map is its entries in the order of the
  \<open>std::map\<close>.\<close>

datatype cbor_value =
    CNone
  | CUnsigned u64
  | CNegative u64
  | CByteString "u8 list"
  | CString "u16 list"
  | CArray "cbor_value list"
  | CMap "(cbor_value \<times> cbor_value) list"
  | CSimple simple_value

fun type_of :: "cbor_value \<Rightarrow> cbor_type" where
  "type_of CNone = TNone"
| "type_of (CUnsigned _) = TUnsigned"
| "type_of (CNegative _) = TNegative"
| "type_of (CByteString _) = TByteString"
| "type_of (CString _) = TString"
| "type_of (CArray _) = TArray"
| "type_of (CMap _) = TMap"
| "type_of (CSimple _) = TSimpleValue"

definition isType :: "cbor_value \<Rightarrow> cbor_type \<Rightarrow> bool" where "isType v t = (type_of v = t)"

definition isInteger :: "cbor_value \<Rightarrow> bool" where
  "isInteger v = (isType v TUnsigned \<or> isType v TNegative)"

definition isString :: "cbor_value \<Rightarrow> bool" where
  "isString v = isType v TString"

fun isBool :: "cbor_value \<Rightarrow> bool" where
  "isBool (CSimple s) = (s = TrueValue \<or> s = FalseValue)"
| "isBool _ = False"

text \<open>The getters: \<open>None\<close> where the assertion on the type fails.\<close>

fun getInteger :: "cbor_value \<Rightarrow> u64 option" where
  "getInteger (CUnsigned i) = Some i"
| "getInteger (CNegative i) = Some i"
| "getInteger _ = None"

fun getUnsigned :: "cbor_value \<Rightarrow> u64 option" where
  "getUnsigned (CUnsigned i) = (if 0 \<le> sint i then Some i else None)"
| "getUnsigned _ = None"

fun getNegative :: "cbor_value \<Rightarrow> u64 option" where
  "getNegative (CNegative i) = (if sint i < 0 then Some i else None)"
| "getNegative _ = None"

fun getString :: "cbor_value \<Rightarrow> u16 list option" where
  "getString (CString s) = Some s"
| "getString _ = None"

fun getByteString :: "cbor_value \<Rightarrow> u8 list option" where
  "getByteString (CByteString bs) = Some bs"
| "getByteString _ = None"

fun getArray :: "cbor_value \<Rightarrow> cbor_value list option" where
  "getArray (CArray vs) = Some vs"
| "getArray _ = None"

fun getMap :: "cbor_value \<Rightarrow> (cbor_value, cbor_value) std_map option" where
  "getMap (CMap m) = Some m"
| "getMap _ = None"

fun getSimpleValue :: "cbor_value \<Rightarrow> simple_value option" where
  "getSimpleValue (CSimple s) = Some s"
| "getSimpleValue _ = None"

fun getBool :: "cbor_value \<Rightarrow> bool option" where
  "getBool (CSimple s) = (if s = TrueValue \<or> s = FalseValue then Some (s = TrueValue) else None)"
| "getBool _ = None"

section \<open>The order of map keys\<close>

fun codePointCompare :: "u16 list \<Rightarrow> u16 list \<Rightarrow> int" where
  "codePointCompare [] [] = 0"
| "codePointCompare [] (_ # _) = -1"
| "codePointCompare (_ # _) [] = 1"
| "codePointCompare (a # s) (b # t) = (if a = b then codePointCompare s t else if b < a then 1 else -1)"

definition codePointCompareLessThan :: "u16 list \<Rightarrow> u16 list \<Rightarrow> bool" where
  "codePointCompareLessThan a b = (codePointCompare a b < 0)"

definition CTAPLess :: "cbor_value \<Rightarrow> cbor_value \<Rightarrow> bool" where
  "CTAPLess a b =
     (if type_of a \<noteq> type_of b then type_code (type_of a) < type_code (type_of b)
      else case (a, b) of
        (CUnsigned i, CUnsigned j) \<Rightarrow> sint i < sint j
      | (CNegative i, CNegative j) \<Rightarrow> sint i > sint j
      | (CString s, CString t) \<Rightarrow>
          if length s \<noteq> length t then length s < length t else codePointCompareLessThan s t
      | _ \<Rightarrow> False)"

section \<open>Construction, copies and moves\<close>

primrec CBORValue_of_type :: "cbor_type \<Rightarrow> cbor_value" where
  "CBORValue_of_type TUnsigned = CUnsigned 0"
| "CBORValue_of_type TNegative = CNegative 0"
| "CBORValue_of_type TByteString = CByteString []"
| "CBORValue_of_type TString = CString []"
| "CBORValue_of_type TArray = CArray []"
| "CBORValue_of_type TMap = CMap []"
| "CBORValue_of_type TSimpleValue = CSimple UndefinedValue"
| "CBORValue_of_type TNone = CNone"

definition CBORValue_of_int64 :: "u64 \<Rightarrow> cbor_value" where
  "CBORValue_of_int64 integerValue = (if 0 \<le> sint integerValue then CUnsigned integerValue else CNegative integerValue)"

definition CBORValue_of_int :: "u32 \<Rightarrow> cbor_value" where
  "CBORValue_of_int integerValue = CBORValue_of_int64 (scast integerValue)"

definition CBORValue_of_latin1 :: "u8 list \<Rightarrow> cbor_value" where
  "CBORValue_of_latin1 inString = CString (map ucast inString)"

definition CBORValue_of_bool :: "bool \<Rightarrow> cbor_value" where
  "CBORValue_of_bool inBool = CSimple (if inBool then TrueValue else FalseValue)"

definition CBORValue_of_map :: "(cbor_value, cbor_value) std_map \<Rightarrow> cbor_value" where
  "CBORValue_of_map cloned = CMap (fold (\<lambda>(k, v) m. std_emplace CTAPLess k v m) cloned [])"

fun clone :: "cbor_value \<Rightarrow> cbor_value" where
  "clone CNone = CNone"
| "clone (CUnsigned i) = CBORValue_of_int64 i"
| "clone (CNegative i) = CBORValue_of_int64 i"
| "clone (CByteString bs) = CByteString bs"
| "clone (CString s) = CString s"
| "clone (CArray vs) = CArray (map clone vs)"
| "clone (CMap m) = CBORValue_of_map (map (\<lambda>(k, v). (clone k, clone v)) m)"
| "clone (CSimple s) = CSimple s"

text \<open>What a move leaves behind: the members of the union that own memory become empty, the tag stays.\<close>

fun moved_from :: "cbor_value \<Rightarrow> cbor_value" where
  "moved_from (CByteString _) = CByteString []"
| "moved_from (CString _) = CString []"
| "moved_from (CArray _) = CArray []"
| "moved_from (CMap _) = CMap []"
| "moved_from v = v"

definition internalMoveConstructFrom :: "cbor_value \<Rightarrow> cbor_value \<times> cbor_value" where
  "internalMoveConstructFrom that = (that, moved_from that)"

definition internalCleanup :: "cbor_value \<Rightarrow> cbor_value" where
  "internalCleanup this = CNone"

text \<open>\<open>operator=\<close>: the new contents of \<open>this\<close> and of \<open>that\<close>, two different objects.\<close>

definition move_assign :: "cbor_value \<Rightarrow> cbor_value \<Rightarrow> cbor_value \<times> cbor_value" where
  "move_assign this that = (let this = internalCleanup this in internalMoveConstructFrom that)"

lemma codePointCompare_cases: "codePointCompare a b = 0 \<longleftrightarrow> a = b" "codePointCompare a b = - codePointCompare b a"
  "codePointCompare a b \<in> {-1, 0, 1}"
  by (induction a b rule: codePointCompare.induct) auto

lemma codePointCompare_trans: "codePointCompare a b < 0 \<Longrightarrow> codePointCompare b c < 0 \<Longrightarrow> codePointCompare a c < 0"
proof (induction a b arbitrary: c rule: codePointCompare.induct)
  case (2 b t)
  then show ?case by (cases c) auto
next
  case (4 a s b t)
  then show ?case by (cases c) (auto split: if_splits)
qed auto

lemma codePoint_order:
  "\<not> codePointCompareLessThan a a"
  "codePointCompareLessThan a b \<Longrightarrow> codePointCompareLessThan b c \<Longrightarrow> codePointCompareLessThan a c"
  "codePointCompareLessThan a b \<or> a = b \<or> codePointCompareLessThan b a"
  using codePointCompare_cases [of a b] codePointCompare_cases(1) [of a a] codePointCompare_trans [of a b c]
  by (auto simp: codePointCompareLessThan_def)

definition is_key :: "cbor_value \<Rightarrow> bool" where "is_key v \<longleftrightarrow> isInteger v \<or> isString v"

lemma is_key_simps [simp]:
  "is_key (CUnsigned i)" "is_key (CNegative i)" "is_key (CString s)" "\<not> is_key CNone" "\<not> is_key (CByteString bs)"
  "\<not> is_key (CArray vs)" "\<not> is_key (CMap m)" "\<not> is_key (CSimple x)"
  by (simp_all add: is_key_def isInteger_def isString_def isType_def)

lemma is_key_cases: "is_key v \<Longrightarrow> (\<exists>i. v = CUnsigned i) \<or> (\<exists>i. v = CNegative i) \<or> (\<exists>s. v = CString s)"
  by (cases v) simp_all

lemma CTAPLess_simps [simp]:
  "CTAPLess (CUnsigned i) (CUnsigned j) \<longleftrightarrow> sint i < sint j"
  "CTAPLess (CNegative i) (CNegative j) \<longleftrightarrow> sint j < sint i"
  "CTAPLess (CString s) (CString t) \<longleftrightarrow> length s < length t \<or> length s = length t \<and> codePointCompareLessThan s t"
  "CTAPLess (CUnsigned i) (CNegative j)" "CTAPLess (CUnsigned i) (CString s)" "CTAPLess (CNegative i) (CString s)"
  "\<not> CTAPLess (CNegative j) (CUnsigned i)" "\<not> CTAPLess (CString s) (CUnsigned i)" "\<not> CTAPLess (CString s) (CNegative i)"
  by (simp_all add: CTAPLess_def)

lemma sint_total: "sint i < sint j \<or> i = j \<or> sint j < sint i" for i j :: u64
  by (metis linorder_less_linear signed_word_eqI)

lemma CTAPLess_total: "is_key a \<Longrightarrow> is_key b \<Longrightarrow> CTAPLess a b \<or> a = b \<or> CTAPLess b a"
proof -
  assume "is_key a" "is_key b"
  from this [THEN is_key_cases] show ?thesis
    by (elim disjE exE, simp_all add: sint_total) (use codePoint_order(3) linorder_less_linear sint_total in blast)+
qed

lemma CTAPLess_trans: "is_key a \<Longrightarrow> is_key b \<Longrightarrow> is_key c \<Longrightarrow> CTAPLess a b \<Longrightarrow> CTAPLess b c \<Longrightarrow> CTAPLess a c"
proof -
  assume keys: "is_key a" "is_key b" "is_key c" and lt: "CTAPLess a b" "CTAPLess b c"
  from keys [THEN is_key_cases] lt show ?thesis
    by (elim disjE exE, simp_all) (use codePoint_order(2) in auto)
qed

interpretation ctap: ordered_map CTAPLess is_key
proof
  show "\<not> CTAPLess a a" if "is_key a" for a using is_key_cases [OF that] codePoint_order(1) by auto
qed (fact CTAPLess_total CTAPLess_trans)+

end
