(* ===== verification/BigEndian.thy ===== *)
theory BigEndian
  imports Prelude
begin

text \<open>
  Numbers in network byte order: the bytes of a number, and the loop that shifts them back into a 64-bit integer, which the
  CBOR reader and the parser of WebSocket frames share.
\<close>

definition big_endian :: "nat \<Rightarrow> nat \<Rightarrow> u8 list" where
  "big_endian k n = map (\<lambda>i. of_nat (n div 256 ^ i)) (rev [0..<k])"

lemma big_endian_Suc: "big_endian (Suc k) n = of_nat (n div 256 ^ k) # big_endian k n"
  by (simp add: big_endian_def)

lemma low_byte: "(ucast (0xFF AND v) :: u8) = of_nat (unat v)" for v :: u64
proof -
  have m: "0xFF AND v = v AND mask 8" by (simp add: mask_eq_exp_minus_1 and.commute)
  show ?thesis unfolding m word_unat_eq_iff unsigned_ucast_eq unat_of_nat unat_and_mask_mod by (simp add: take_bit_eq_mod)
qed

lemma big_endian_length: "length (big_endian k n) = k"
  by (simp add: big_endian_def)

primrec read_big_endian :: "nat \<Rightarrow> u64 \<Rightarrow> u8 list \<Rightarrow> u64 \<times> u8 list" where
  "read_big_endian 0 intData it = (intData, it)"
| "read_big_endian (Suc n) intData it = read_big_endian n (push_bit 8 intData OR ucast (hd it)) (tl it)"

lemma of_nat_u8_eq: "(of_nat n :: u8) = of_nat m \<longleftrightarrow> n mod 256 = m mod 256"
  by (simp add: word_unat_eq_iff unat_of_nat)

lemma big_endian_eq_mod: "big_endian k n = big_endian k m \<Longrightarrow> n mod 256 ^ k = m mod 256 ^ k"
proof (induction k)
  case (Suc k)
  then have "n div 256 ^ k mod 256 = m div 256 ^ k mod 256" "n mod 256 ^ k = m mod 256 ^ k"
    by (simp_all add: big_endian_Suc of_nat_u8_eq)
  then show ?case unfolding power_Suc mult.commute [of 256] mod_mult2_eq by simp
qed simp

lemma big_endian_inj: "big_endian k n = big_endian k m \<Longrightarrow> n < 256 ^ k \<Longrightarrow> m < 256 ^ k \<Longrightarrow> n = m"
  using big_endian_eq_mod [of k n m] by simp

lemma shift_in_byte:
  fixes acc :: u64
  assumes "unat acc < 2 ^ 56"
  shows "unat (push_bit 8 acc OR ucast b) = unat acc * 256 + unat (b :: u8)"
proof -
  have b: "unat (ucast b :: u64) = unat b"
  proof -
    have "unat b < 256" using unsigned_less [of b] by simp
    then show ?thesis by (simp add: unsigned_ucast_eq take_bit_nat_eq_self)
  qed
  have "unat b < 2 ^ 8" using unsigned_less [of b] by simp
  then show ?thesis using unat_shift_or [of "ucast b :: u64" 8 acc] assms unfolding b by simp
qed

lemma pow_256_le: "j \<le> 7 \<Longrightarrow> (256 :: nat) ^ j \<le> 2 ^ 56"
  using power_increasing [of j 7 "256 :: nat"] by simp

lemma read_big_endian_sound:
  assumes "read_big_endian k acc it = (v, it')" "unat acc < 256 ^ j" "j + k \<le> 8" "k \<le> length it"
  shows "it = big_endian k (unat v) @ it' \<and> unat v div 256 ^ k = unat acc \<and> unat v < 256 ^ (j + k)"
  using assms
proof (induction k arbitrary: acc it j)
  case (Suc k)
  obtain b bs where it: "it = b # bs" using Suc.prems(4) by (cases it) auto
  let ?acc = "push_bit 8 acc OR ucast b :: u64"
  have "256 ^ j \<le> (2 :: nat) ^ 56" using Suc.prems(3) by (intro pow_256_le) simp
  then have u: "unat ?acc = unat acc * 256 + unat b" using Suc.prems(2) by (intro shift_in_byte) simp
  have b: "unat b < 256" using unsigned_less [of b] by simp
  have "unat acc + 1 \<le> 256 ^ j" using Suc.prems(2) by simp
  then have "(unat acc + 1) * 256 \<le> 256 ^ j * 256" by (rule mult_right_mono) simp
  then have lt: "unat ?acc < 256 ^ Suc j" unfolding u using b by simp
  have IH: "bs = big_endian k (unat v) @ it' \<and> unat v div 256 ^ k = unat ?acc \<and> unat v < 256 ^ (Suc j + k)"
    using Suc.prems it by (intro Suc.IH lt) simp_all
  have "unat v div 256 ^ k = unat acc * 256 + unat b" using IH u by simp
  then have "unat (of_nat (unat v div 256 ^ k) :: u8) = unat b" using b by (simp only: unat_of_nat) simp
  then have "of_nat (unat v div 256 ^ k) = b" by (simp only: word_unat_eq_iff)
  moreover have "unat v div 256 ^ Suc k = unat acc"
    using IH u b by (simp add: mult.commute [of 256] div_mult2_eq)
  ultimately show ?case using IH it by (simp add: big_endian_Suc)
qed (simp add: big_endian_def)

lemma read_big_endian_complete:
  assumes "n < 256 ^ k" "k \<le> 8"
  shows "read_big_endian k 0 (big_endian k n @ rest) = (of_nat n, rest)"
proof -
  obtain v it' where r: "read_big_endian k 0 (big_endian k n @ rest) = (v, it')" by fastforce
  have "big_endian k n @ rest = big_endian k (unat v) @ it' \<and> unat v div 256 ^ k = 0 \<and> unat v < 256 ^ (0 + k)"
    using read_big_endian_sound [OF r, of 0] assms(2) by (simp add: big_endian_length)
  then have "big_endian k n = big_endian k (unat v)" "it' = rest" "unat v < 256 ^ k" by (simp_all add: big_endian_length)
  then have "unat v = n" using big_endian_inj assms(1) by metis
  then show ?thesis unfolding r using \<open>it' = rest\<close> by (metis word_of_unat)
qed

lemma read_big_endian_length: "length (snd (read_big_endian k acc it)) \<le> length it"
proof (induction k arbitrary: acc it)
  case (Suc k)
  show ?case using Suc [of "push_bit 8 acc OR ucast (hd it)" "tl it"] by simp
qed simp

end
