(* ===== verification/CBORWriter.thy ===== *)
theory CBORWriter
  imports CBORValue UnicodeStrings BigEndian
begin

text \<open>
  The CBOR writer (\<open>CBORWriter.cpp\<close>). The reference is \<open>cbor_bytes\<close>, the encoding of RFC 7049 with shortest heads;
  \<open>encodeCBOR_eq\<close> and \<open>cbor_write_eq\<close> show that the writer writes it for every well-formed value whose nesting is within
  the limit, and returns \<open>std::nullopt\<close> otherwise.
\<close>


section \<open>The writer\<close>

definition kAdditionalInformationMask :: u8 where "kAdditionalInformationMask = 0x1F"
definition kMajorTypeMask :: u8 where "kMajorTypeMask = 0xE0"
definition kMajorTypeBitShift :: nat where "kMajorTypeBitShift = 5"
definition kAdditionalInformation1Byte :: u8 where "kAdditionalInformation1Byte = 24"
definition kAdditionalInformation2Bytes :: u8 where "kAdditionalInformation2Bytes = 25"
definition kAdditionalInformation4Bytes :: u8 where "kAdditionalInformation4Bytes = 26"
definition kAdditionalInformation8Bytes :: u8 where "kAdditionalInformation8Bytes = 27"

definition getNumUintBytes :: "u64 \<Rightarrow> nat" where
  "getNumUintBytes value =
     (if value < 24 then 0
      else if value \<le> 0xFF then 1
      else if value \<le> 0xFFFF then 2
      else if value \<le> 0xFFFFFFFF then 4
      else 8)"

definition setAdditionalInformation :: "u8 \<Rightarrow> u8 list \<Rightarrow> u8 list" where
  "setAdditionalInformation additionalInformation encodedCBOR =
     encodedCBOR[length encodedCBOR - 1 := last encodedCBOR OR (additionalInformation AND kAdditionalInformationMask)]"

text \<open>The loop at the end of \<open>setUint\<close>, from \<open>shift\<close> down to 0.\<close>

primrec append_shifted :: "nat \<Rightarrow> u64 \<Rightarrow> u8 list \<Rightarrow> u8 list" where
  "append_shifted 0 value encodedCBOR = encodedCBOR @ [ucast (0xFF AND value)]"
| "append_shifted (Suc shift) value encodedCBOR =
     append_shifted shift value (encodedCBOR @ [ucast (0xFF AND drop_bit (Suc shift * 8) value)])"

definition setUint :: "u64 \<Rightarrow> u8 list \<Rightarrow> u8 list" where
  "setUint value encodedCBOR =
     (let count = getNumUintBytes value in
      if count = 0 then setAdditionalInformation (ucast value) encodedCBOR
      else if count = 1 then append_shifted 0 value (setAdditionalInformation kAdditionalInformation1Byte encodedCBOR)
      else if count = 2 then append_shifted 1 value (setAdditionalInformation kAdditionalInformation2Bytes encodedCBOR)
      else if count = 4 then append_shifted 3 value (setAdditionalInformation kAdditionalInformation4Bytes encodedCBOR)
      else append_shifted 7 value (setAdditionalInformation kAdditionalInformation8Bytes encodedCBOR))"

definition startItem :: "cbor_type \<Rightarrow> u64 \<Rightarrow> u8 list \<Rightarrow> u8 list" where
  "startItem t len encodedCBOR =
     setUint len (encodedCBOR @ [ucast (push_bit kMajorTypeBitShift (of_int (type_code t) :: u32))])"

text \<open>The result and the buffer; \<open>None\<close> is the crash in \<open>String::utf8\<close>. The loops over an array and a map are functions
  of their own.\<close>

function encodeCBOR :: "cbor_value \<Rightarrow> int \<Rightarrow> u8 list \<Rightarrow> (bool \<times> u8 list) option"
  and encode_elements :: "cbor_value list \<Rightarrow> int \<Rightarrow> u8 list \<Rightarrow> (bool \<times> u8 list) option"
  and encode_entries :: "(cbor_value \<times> cbor_value) list \<Rightarrow> int \<Rightarrow> u8 list \<Rightarrow> (bool \<times> u8 list) option"
where
  "encodeCBOR node maxNestingLevel encodedCBOR =
     (if maxNestingLevel < 0 then Some (False, encodedCBOR)
      else case node of
        CNone \<Rightarrow> Some (True, startItem TByteString 0 encodedCBOR)
      | CUnsigned value \<Rightarrow> Some (True, startItem TUnsigned value encodedCBOR)
      | CNegative value \<Rightarrow> Some (True, startItem TNegative (- (value + 1)) encodedCBOR)
      | CByteString bytes \<Rightarrow> Some (True, startItem TByteString (of_nat (length bytes)) encodedCBOR @ bytes)
      | CString s \<Rightarrow>
          (case utf8 s LenientConversion of
             None \<Rightarrow> None
           | Some utf8String \<Rightarrow>
               Some (True, startItem TString (of_nat (length utf8String)) encodedCBOR @ utf8String))
      | CArray array \<Rightarrow>
          encode_elements array (maxNestingLevel - 1) (startItem TArray (of_nat (length array)) encodedCBOR)
      | CMap m \<Rightarrow>
          encode_entries m (maxNestingLevel - 1) (startItem TMap (of_nat (length m)) encodedCBOR)
      | CSimple s \<Rightarrow> Some (True, startItem TSimpleValue (of_nat (simple_code s)) encodedCBOR))"
| "encode_elements [] level encodedCBOR = Some (True, encodedCBOR)"
| "encode_elements (v # vs) level encodedCBOR =
     (case encodeCBOR v level encodedCBOR of
        None \<Rightarrow> None
      | Some (ok, encodedCBOR) \<Rightarrow>
          if \<not> ok then Some (False, encodedCBOR) else encode_elements vs level encodedCBOR)"
| "encode_entries [] level encodedCBOR = Some (True, encodedCBOR)"
| "encode_entries ((key, v) # m) level encodedCBOR =
     (case encodeCBOR key level encodedCBOR of
        None \<Rightarrow> None
      | Some (ok, encodedCBOR) \<Rightarrow>
          if \<not> ok then Some (False, encodedCBOR)
          else (case encodeCBOR v level encodedCBOR of
                  None \<Rightarrow> None
                | Some (ok, encodedCBOR) \<Rightarrow>
                    if \<not> ok then Some (False, encodedCBOR) else encode_entries m level encodedCBOR))"
  by pat_completeness auto
termination
  by (relation "measure (case_sum (\<lambda>p. size (fst p))
      (case_sum (\<lambda>p. size_list size (fst p)) (\<lambda>p. size_list (size_prod size size) (fst p))))") simp_all

declare encodeCBOR.simps [simp del]

text \<open>\<open>write\<close>: the outer option is the crash, the inner one \<open>std::nullopt\<close>. The level is narrowed to an \<open>int\<close>.\<close>

definition cbor_write :: "cbor_value \<Rightarrow> u64 \<Rightarrow> u8 list option option" where
  "cbor_write node maxNestingLevel =
     (case encodeCBOR node (sint (ucast maxNestingLevel :: u32)) [] of
        None \<Rightarrow> None
      | Some (ok, cbor) \<Rightarrow> Some (if ok then Some cbor else None))"

definition kDefaultMaxNestingDepth :: u64 where "kDefaultMaxNestingDepth = 16"

section \<open>The reference encoding\<close>

text \<open>The head of a data item of RFC 7049: three bits of major type and the shortest form of the argument.\<close>

definition cbor_head :: "nat \<Rightarrow> nat \<Rightarrow> u8 list" where
  "cbor_head t n =
     (if n < 24 then [of_nat (t * 32 + n)]
      else if n < 2 ^ 8 then of_nat (t * 32 + 24) # big_endian 1 n
      else if n < 2 ^ 16 then of_nat (t * 32 + 25) # big_endian 2 n
      else if n < 2 ^ 32 then of_nat (t * 32 + 26) # big_endian 4 n
      else of_nat (t * 32 + 27) # big_endian 8 n)"

lemma append_shifted_eq: "append_shifted k v buf = buf @ big_endian (Suc k) (unat v)"
proof (induction k arbitrary: buf)
  case (Suc k)
  have "unat (drop_bit (Suc k * 8) v) = unat v div 2 ^ (Suc k * 8)" by (rule unat_drop_bit_div)
  also have "(2 :: nat) ^ (Suc k * 8) = 256 ^ Suc k" unfolding mult.commute [of "Suc k"] power_mult by simp
  finally have "(ucast (0xFF AND drop_bit (Suc k * 8) v) :: u8) = of_nat (unat v div 256 ^ Suc k)" unfolding low_byte by (rule arg_cong)
  then show ?case unfolding big_endian_Suc [of "Suc k"] using Suc [of "buf @ [ucast (0xFF AND drop_bit (Suc k * 8) v)]"] by simp
qed (simp add: big_endian_def low_byte)

lemma additional_information:
  assumes "m < 8" "unat info < 32"
  shows "setAdditionalInformation info (buf @ [of_nat (m * 32)]) = buf @ [of_nat (m * 32 + unat info)]"
proof -
  have mask: "kAdditionalInformationMask = mask 5" by (simp add: kAdditionalInformationMask_def mask_eq_exp_minus_1)
  have i: "info AND kAdditionalInformationMask = info" unfolding mask word_unat_eq_iff unat_and_mask_mod using assms(2) by simp
  have m: "unat (of_nat m :: u8) = m" using assms(1) by (intro unat_u8) simp
  have p: "(of_nat (m * 32) :: u8) = push_bit 5 (of_nat m)" by (simp add: push_bit_eq_mult)
  have u: "unat (push_bit 5 (of_nat m :: u8)) = m * 32" unfolding unat_push_bit_mod m using assms(1) by simp
  have "unat (push_bit 5 (of_nat m :: u8) OR info) = m * 32 + unat info"
    using unat_or_push_bit [of info 5 "of_nat m :: u8"] assms(2) unfolding u by simp
  then have "push_bit 5 (of_nat m :: u8) OR info = of_nat (m * 32 + unat info)" by (metis word_of_unat)
  then show ?thesis unfolding setAdditionalInformation_def i p [symmetric] by (simp add: list_update_append)
qed

lemma startItem_eq:
  assumes "type_code t = int m" "m < 8"
  shows "startItem t v buf = buf @ cbor_head m (unat v)"
proof -
  have "ucast (push_bit kMajorTypeBitShift (of_int (type_code t) :: u32)) = (of_nat (m * 32) :: u8)"
  proof -
    have "m * 32 mod 4294967296 mod 256 = m * 32" using assms(2) by simp
    then have "unat (ucast (push_bit 5 (of_nat m :: u32)) :: u8) = m * 32"
      using assms(2) by (simp add: unsigned_ucast_eq unat_push_bit_mod take_bit_eq_mod unat_of_nat)
    then have "ucast (push_bit 5 (of_nat m :: u32)) = (of_nat (m * 32) :: u8)" by (metis word_of_unat)
    then show ?thesis using assms(1) by (simp add: kMajorTypeBitShift_def)
  qed
  note head = this
  have cmp: "v < 24 \<longleftrightarrow> unat v < 24" "v \<le> 0xFF \<longleftrightarrow> unat v < 2 ^ 8" "v \<le> 0xFFFF \<longleftrightarrow> unat v < 2 ^ 16" "v \<le> 0xFFFFFFFF \<longleftrightarrow> unat v < 2 ^ 32"
    by (auto simp: word_less_nat_alt word_le_nat_alt)
  have k: "unat kAdditionalInformation1Byte = 24" "unat kAdditionalInformation2Bytes = 25" "unat kAdditionalInformation4Bytes = 26"
    "unat kAdditionalInformation8Bytes = 27"
    by (simp_all add: kAdditionalInformation1Byte_def kAdditionalInformation2Bytes_def kAdditionalInformation4Bytes_def kAdditionalInformation8Bytes_def)
  have sets: "setAdditionalInformation kAdditionalInformation1Byte (buf @ [of_nat (m * 32)]) = buf @ [of_nat (m * 32 + 24)]"
    "setAdditionalInformation kAdditionalInformation2Bytes (buf @ [of_nat (m * 32)]) = buf @ [of_nat (m * 32 + 25)]"
    "setAdditionalInformation kAdditionalInformation4Bytes (buf @ [of_nat (m * 32)]) = buf @ [of_nat (m * 32 + 26)]"
    "setAdditionalInformation kAdditionalInformation8Bytes (buf @ [of_nat (m * 32)]) = buf @ [of_nat (m * 32 + 27)]"
    using additional_information [OF assms(2), of _ buf] by (simp_all only: k)
  have small: "setAdditionalInformation (ucast v) (buf @ [of_nat (m * 32)]) = buf @ [of_nat (m * 32 + unat v)]" if "unat v < 24"
  proof -
    have "unat (ucast v :: u8) = unat v" using that by (simp add: unsigned_ucast_eq take_bit_nat_eq_self)
    then show ?thesis using additional_information [OF assms(2), of "ucast v" buf] that by simp
  qed
  have one: "Suc 0 = (1::nat)" "Suc 1 = (2::nat)" "Suc 3 = (4::nat)" "Suc 7 = (8::nat)" by simp_all
  show ?thesis
    unfolding startItem_def head setUint_def Let_def getNumUintBytes_def cbor_head_def cmp append_shifted_eq sets one
    using small by (simp del: of_nat_add of_nat_mult)
qed

section \<open>What the writer writes\<close>

fun cbor_bytes :: "cbor_value \<Rightarrow> u8 list" where
  "cbor_bytes CNone = cbor_head 2 0"
| "cbor_bytes (CUnsigned i) = cbor_head 0 (unat i)"
| "cbor_bytes (CNegative i) = cbor_head 1 (unat (- (i + 1)))"
| "cbor_bytes (CByteString bs) = cbor_head 2 (length bs) @ bs"
| "cbor_bytes (CString s) = cbor_head 3 (length (utf8_encoding (scalars_of s))) @ utf8_encoding (scalars_of s)"
| "cbor_bytes (CArray vs) = cbor_head 4 (length vs) @ concat (map cbor_bytes vs)"
| "cbor_bytes (CMap m) = cbor_head 5 (length m) @ concat (map (\<lambda>(k, v). cbor_bytes k @ cbor_bytes v) m)"
| "cbor_bytes (CSimple s) = cbor_head 7 (simple_code s)"

text \<open>The nesting depth as CBORWriter.h defines it.\<close>

fun cbor_depth :: "cbor_value \<Rightarrow> nat" where
  "cbor_depth (CArray vs) = foldr (\<lambda>v d. max (Suc (cbor_depth v)) d) vs 0"
| "cbor_depth (CMap m) = foldr (\<lambda>(k, v) d. max (Suc (max (cbor_depth k) (cbor_depth v))) d) m 0"
| "cbor_depth _ = 0"

text \<open>Well-formed values: the sign of an integer agrees with its tag, strings are pairs of surrogates only, the keys of a map
  are integers or strings in strictly increasing order.\<close>

fun cbor_wf :: "cbor_value \<Rightarrow> bool" where
  "cbor_wf CNone \<longleftrightarrow> False"
| "cbor_wf (CUnsigned i) \<longleftrightarrow> 0 \<le> sint i"
| "cbor_wf (CNegative i) \<longleftrightarrow> sint i < 0"
| "cbor_wf (CByteString bs) \<longleftrightarrow> length bs < 2 ^ 64"
| "cbor_wf (CString s) \<longleftrightarrow> well_formed_utf16 s \<and> length (utf8_encoding (scalars_of s)) < 2 ^ 64"
| "cbor_wf (CArray vs) \<longleftrightarrow> length vs < 2 ^ 64 \<and> list_all cbor_wf vs"
| "cbor_wf (CMap m) \<longleftrightarrow> length m < 2 ^ 64 \<and> std_sorted CTAPLess is_key m \<and> list_all (\<lambda>(k, v). cbor_wf k \<and> cbor_wf v) m"
| "cbor_wf (CSimple s) \<longleftrightarrow> True"

text \<open>No string is too long for \<open>String::utf8\<close>.\<close>

fun strings_fit :: "cbor_value \<Rightarrow> bool" where
  "strings_fit (CString s) \<longleftrightarrow> length s \<le> utf8_limit"
| "strings_fit (CArray vs) \<longleftrightarrow> list_all strings_fit vs"
| "strings_fit (CMap m) \<longleftrightarrow> list_all (\<lambda>(k, v). strings_fit k \<and> strings_fit v) m"
| "strings_fit _ \<longleftrightarrow> True"

lemma foldr_max: "foldr (\<lambda>v d. max (Suc (f v)) d) vs 0 \<le> n \<longleftrightarrow> (\<forall>v \<in> set vs. Suc (f v) \<le> n)" for f :: "'a \<Rightarrow> nat"
  by (induction vs) auto

lemma depth_elements: "vs \<noteq> [] \<Longrightarrow> int (cbor_depth (CArray vs)) \<le> l \<longleftrightarrow> (\<forall>v \<in> set vs. int (cbor_depth v) \<le> l - 1)"
proof -
  assume ne: "vs \<noteq> []"
  show ?thesis
  proof (cases "0 \<le> l")
    case True
    then obtain n where l: "l = int n" using nonneg_int_cases by blast
    have "int (cbor_depth v) \<le> int n - 1 \<longleftrightarrow> Suc (cbor_depth v) \<le> n" for v by linarith
    then show ?thesis unfolding l using foldr_max [of cbor_depth vs n] by simp
  next
    case False
    moreover obtain v where "v \<in> set vs" using ne by (cases vs) auto
    ultimately show ?thesis by force
  qed
qed

lemma depth_entries: "m \<noteq> [] \<Longrightarrow> int (cbor_depth (CMap m)) \<le> l \<longleftrightarrow>
    (\<forall>(k, v) \<in> set m. int (cbor_depth k) \<le> l - 1 \<and> int (cbor_depth v) \<le> l - 1)"
proof -
  assume ne: "m \<noteq> []"
  let ?f = "\<lambda>(k, v). max (cbor_depth k) (cbor_depth v)"
  have fold: "cbor_depth (CMap m) = foldr (\<lambda>e d. max (Suc (?f e)) d) m 0" by (simp add: case_prod_unfold)
  show ?thesis
  proof (cases "0 \<le> l")
    case True
    then obtain n where l: "l = int n" using nonneg_int_cases by blast
    have "(int (cbor_depth k) \<le> int n - 1 \<and> int (cbor_depth v) \<le> int n - 1) \<longleftrightarrow> Suc (?f (k, v)) \<le> n" for k v by auto
    then show ?thesis unfolding l fold using foldr_max [of ?f m n] by auto
  next
    case False
    obtain k v where "(k, v) \<in> set m" using ne by (cases m) auto
    moreover have "\<not> int (cbor_depth k) \<le> l - 1" using False by linarith
    ultimately have "\<not> (\<forall>(k, v) \<in> set m. int (cbor_depth k) \<le> l - 1 \<and> int (cbor_depth v) \<le> l - 1)" by blast
    then show ?thesis using False by (simp del: cbor_depth.simps)
  qed
qed

lemma last_not_lead: "scalars ns \<Longrightarrow> utf16_encoding ns \<noteq> [] \<Longrightarrow> \<not> U16_IS_LEAD (ucast (last (utf16_encoding ns)))"
proof (induction ns rule: rev_induct)
  case (snoc n ns)
  then have "scalar_value n" by (simp add: scalars_def)
  then show ?case using last_unit utf16_units_ne by (simp add: encoding_append)
qed simp

lemma utf8_well_formed:
  assumes "well_formed_utf16 s" "length s \<le> utf8_limit"
  shows "utf8 s LenientConversion = Some (utf8_encoding (scalars_of s))"
proof -
  obtain ns where ns: "scalars ns" "s = utf16_encoding ns" using assms(1) unfolding well_formed_utf16_iff by blast
  have "\<not> (s \<noteq> [] \<and> U16_IS_LEAD (ucast (last s)))" using last_not_lead [OF ns(1)] ns(2) by blast
  then show ?thesis unfolding utf8_def using tryGetUTF8_lenient [of s] assms(2) by (auto simp: utf8_limit_def)
qed

lemma unat_len: "n < 2 ^ 64 \<Longrightarrow> unat (of_nat n :: u64) = n"
  by (simp add: unat_of_nat)

lemma startItem_len: "type_code t = int m \<Longrightarrow> m < 8 \<Longrightarrow> n < 2 ^ 64 \<Longrightarrow> startItem t (of_nat n) buf = buf @ cbor_head m n"
  using startItem_eq [of t m "of_nat n" buf] unat_len [of n] by simp

lemmas startItem_simps = startItem_eq [of TUnsigned 0, simplified] startItem_eq [of TNegative 1, simplified]
  startItem_len [of TByteString 2, simplified] startItem_len [of TString 3, simplified] startItem_len [of TArray 4, simplified]
  startItem_len [of TMap 5, simplified] startItem_len [of TSimpleValue 7, simplified]

lemma simple_code_lt: "simple_code s < 24" "20 \<le> simple_code s"
  by (cases s; simp)+

lemma encode_primitive:
  assumes "0 \<le> l"
  shows "encodeCBOR (CUnsigned i) l buf = Some (True, buf @ cbor_bytes (CUnsigned i))"
    "encodeCBOR (CNegative i) l buf = Some (True, buf @ cbor_bytes (CNegative i))"
    "length bs < 2 ^ 64 \<Longrightarrow> encodeCBOR (CByteString bs) l buf = Some (True, buf @ cbor_bytes (CByteString bs))"
    "cbor_wf (CString s) \<Longrightarrow> strings_fit (CString s) \<Longrightarrow> encodeCBOR (CString s) l buf = Some (True, buf @ cbor_bytes (CString s))"
    "encodeCBOR (CSimple x) l buf = Some (True, buf @ cbor_bytes (CSimple x))"
    "encodeCBOR CNone l buf = Some (True, buf @ cbor_bytes CNone)"
  using assms simple_code_lt [of x] startItem_len [of TByteString 2 0 buf]
  by (simp_all add: encodeCBOR.simps(1) [of _ l] startItem_simps utf8_well_formed)

lemma encode_array:
  assumes "0 \<le> l" "length vs < 2 ^ 64"
  shows "encodeCBOR (CArray vs) l buf = encode_elements vs (l - 1) (buf @ cbor_head 4 (length vs))"
    "length m < 2 ^ 64 \<Longrightarrow> encodeCBOR (CMap m) l buf = encode_entries m (l - 1) (buf @ cbor_head 5 (length m))"
  using assms by (simp_all add: encodeCBOR.simps(1) [of _ l] startItem_simps)

text \<open>\<open>encodes f b\<close>: started with any buffer, \<open>f\<close> appends \<open>bs\<close> and returns \<open>true\<close>; or, where the nesting is too deep, it
  returns \<open>false\<close>.\<close>

definition encodes :: "bool \<Rightarrow> u8 list \<Rightarrow> (u8 list \<Rightarrow> (bool \<times> u8 list) option) \<Rightarrow> bool" where
  "encodes shallow bs f \<longleftrightarrow> (\<forall>buf. if shallow then f buf = Some (True, buf @ bs) else (\<exists>buf'. f buf = Some (False, buf')))"

lemma encodesI: "(\<And>buf. shallow \<Longrightarrow> f buf = Some (True, buf @ bs)) \<Longrightarrow> (\<And>buf. \<not> shallow \<Longrightarrow> \<exists>buf'. f buf = Some (False, buf')) \<Longrightarrow> encodes shallow bs f"
  by (simp add: encodes_def)

lemma encodes_elements:
  "(\<And>v. v \<in> set vs \<Longrightarrow> encodes (int (cbor_depth v) \<le> l) (cbor_bytes v) (encodeCBOR v l)) \<Longrightarrow>
    encodes (\<forall>v \<in> set vs. int (cbor_depth v) \<le> l) (concat (map cbor_bytes vs)) (encode_elements vs l)"
proof (induction vs)
  case (Cons v vs)
  have v: "encodes (int (cbor_depth v) \<le> l) (cbor_bytes v) (encodeCBOR v l)" using Cons.prems by simp
  have vs: "encodes (\<forall>v \<in> set vs. int (cbor_depth v) \<le> l) (concat (map cbor_bytes vs)) (encode_elements vs l)" using Cons by simp
  show ?case
  proof (cases "int (cbor_depth v) \<le> l")
    case True
    then show ?thesis using v vs by (auto simp: encodes_def)
  next
    case False
    have "\<exists>buf'. encode_elements (v # vs) l buf = Some (False, buf')" for buf
      using v False unfolding encodes_def by (auto dest!: spec [of _ buf])
    then show ?thesis using False by (simp add: encodes_def)
  qed
qed (simp add: encodes_def)

lemma encodes_entries:
  "(\<And>k v. (k, v) \<in> set m \<Longrightarrow> encodes (int (cbor_depth k) \<le> l) (cbor_bytes k) (encodeCBOR k l)
      \<and> encodes (int (cbor_depth v) \<le> l) (cbor_bytes v) (encodeCBOR v l)) \<Longrightarrow>
    encodes (\<forall>(k, v) \<in> set m. int (cbor_depth k) \<le> l \<and> int (cbor_depth v) \<le> l)
      (concat (map (\<lambda>(k, v). cbor_bytes k @ cbor_bytes v) m)) (encode_entries m l)"
proof (induction m)
  case (Cons e m)
  obtain k v where e: "e = (k, v)" by (cases e)
  have kv: "encodes (int (cbor_depth k) \<le> l) (cbor_bytes k) (encodeCBOR k l)" "encodes (int (cbor_depth v) \<le> l) (cbor_bytes v) (encodeCBOR v l)"
    using Cons.prems [of k v] e by simp_all
  have m: "encodes (\<forall>(k, v) \<in> set m. int (cbor_depth k) \<le> l \<and> int (cbor_depth v) \<le> l)
      (concat (map (\<lambda>(k, v). cbor_bytes k @ cbor_bytes v) m)) (encode_entries m l)"
    by (rule Cons.IH, rule Cons.prems) simp
  consider "int (cbor_depth k) \<le> l" "int (cbor_depth v) \<le> l" | "int (cbor_depth k) \<le> l" "\<not> int (cbor_depth v) \<le> l" | "\<not> int (cbor_depth k) \<le> l"
    by blast
  then show ?case
  proof cases
    case 1
    then show ?thesis using kv m e by (auto simp: encodes_def)
  next
    case 2
    have "\<exists>buf'. encode_entries (e # m) l buf = Some (False, buf')" for buf
      using kv 2 e unfolding encodes_def by (auto dest!: spec [of _ "buf @ cbor_bytes k"])
    then show ?thesis using 2 e by (simp add: encodes_def)
  next
    case 3
    have "\<exists>buf'. encode_entries (e # m) l buf = Some (False, buf')" for buf
      using kv(1) 3 e unfolding encodes_def by (auto dest!: spec [of _ buf])
    then show ?thesis using 3 e by (simp add: encodes_def)
  qed
qed (simp add: encodes_def)

lemma encodeCBOR_eq:
  "cbor_wf v \<Longrightarrow> strings_fit v \<Longrightarrow> encodes (int (cbor_depth v) \<le> l) (cbor_bytes v) (encodeCBOR v l)"
proof (induction v arbitrary: l)
  case (CArray vs)
  show ?case
  proof (cases "0 \<le> l")
    case True
    have "encodes (\<forall>v \<in> set vs. int (cbor_depth v) \<le> l - 1) (concat (map cbor_bytes vs)) (encode_elements vs (l - 1))"
    proof (rule encodes_elements)
      fix v
      assume "v \<in> set vs"
      then show "encodes (int (cbor_depth v) \<le> l - 1) (cbor_bytes v) (encodeCBOR v (l - 1))"
        using CArray.prems by (intro CArray.IH) (simp_all add: list_all_iff)
    qed
    then show ?thesis using encode_array(1) [OF True] CArray.prems(1) depth_elements [of vs l] True
      by (cases "vs = []") (auto simp: encodes_def simp del: cbor_depth.simps, simp)
  next
    case False
    then show ?thesis by (simp add: encodes_def encodeCBOR.simps(1) del: cbor_depth.simps)
  qed
next
  case (CMap m)
  show ?case
  proof (cases "0 \<le> l")
    case True
    have "encodes (\<forall>(k, v) \<in> set m. int (cbor_depth k) \<le> l - 1 \<and> int (cbor_depth v) \<le> l - 1)
        (concat (map (\<lambda>(k, v). cbor_bytes k @ cbor_bytes v) m)) (encode_entries m (l - 1))"
    proof (rule encodes_entries)
      fix k v
      assume kv: "(k, v) \<in> set m"
      then have "cbor_wf k" "cbor_wf v" "strings_fit k" "strings_fit v" using CMap.prems by (auto simp: list_all_iff)
      then show "encodes (int (cbor_depth k) \<le> l - 1) (cbor_bytes k) (encodeCBOR k (l - 1))
          \<and> encodes (int (cbor_depth v) \<le> l - 1) (cbor_bytes v) (encodeCBOR v (l - 1))"
        using CMap.IH [OF kv, of k "l - 1"] CMap.IH [OF kv, of v "l - 1"] by (simp add: fsts.simps snds.simps)
    qed
    then show ?thesis using encode_array(2) [OF True, of "[]" m] CMap.prems(1) depth_entries [of m l] True
      by (cases "m = []") (auto simp: encodes_def simp del: cbor_depth.simps, simp)
  next
    case False
    then show ?thesis by (simp add: encodes_def encodeCBOR.simps(1) del: cbor_depth.simps)
  qed
qed (auto intro!: encodesI simp: encode_primitive simp del: cbor_bytes.simps, auto simp: encodeCBOR.simps(1))

lemma cbor_write_eq:
  assumes "cbor_wf v" "strings_fit v" "unat n < 2 ^ 31"
  shows "cbor_write v n = Some (if cbor_depth v \<le> unat n then Some (cbor_bytes v) else None)"
proof -
  have "take_bit 32 (unat n) = unat n" using assms(3) by (simp add: take_bit_nat_eq_self)
  then have u: "unat (ucast n :: u32) = unat n" by (simp add: unsigned_ucast_eq)
  have "uint (ucast n :: u32) < 2 ^ 31" unfolding uint_nat u using of_nat_less_iff [of "unat n" "2 ^ 31", where 'a = int] assms(3) by simp
  moreover have "0 \<le> uint (ucast n :: u32)" by simp
  ultimately have "signed_take_bit 31 (uint (ucast n :: u32)) = uint (ucast n :: u32)"
    by (intro signed_take_bit_int_eq_self) linarith+
  then have i: "sint (ucast n :: u32) = int (unat n)" unfolding sint_uint u [symmetric] uint_nat by simp
  have "encodes (int (cbor_depth v) \<le> int (unat n)) (cbor_bytes v) (encodeCBOR v (int (unat n)))" by (rule encodeCBOR_eq [OF assms(1,2)])
  then have e: "if cbor_depth v \<le> unat n then encodeCBOR v (int (unat n)) [] = Some (True, [] @ cbor_bytes v)
      else (\<exists>buf'. encodeCBOR v (int (unat n)) [] = Some (False, buf'))"
    unfolding encodes_def of_nat_le_iff by blast
  show ?thesis unfolding cbor_write_def i
  proof (cases "cbor_depth v \<le> unat n")
    case True
    with e show "(case encodeCBOR v (int (unat n)) [] of None \<Rightarrow> None | Some (ok, cbor) \<Rightarrow> Some (if ok then Some cbor else None)) =
      Some (if cbor_depth v \<le> unat n then Some (cbor_bytes v) else None)" by simp
  next
    case False
    with e obtain b where "encodeCBOR v (int (unat n)) [] = Some (False, b)" by auto
    with False show "(case encodeCBOR v (int (unat n)) [] of None \<Rightarrow> None | Some (ok, cbor) \<Rightarrow> Some (if ok then Some cbor else None)) =
      Some (if cbor_depth v \<le> unat n then Some (cbor_bytes v) else None)" by simp
  qed
qed

end
