(* ===== verification/CBORReader.thy ===== *)
theory CBORReader
  imports CBORWriter
begin

text \<open>
  The CBOR reader (\<open>CBORReader.cpp\<close>). Its state is the rest of the data and the error code; every operation returns its
  result and the new state. The lemmas relate it to the writer's reference \<open>cbor_bytes\<close>: a successful step consumes
  exactly the encoding of the well-formed value it returns (\<open>decodeCBOR_sound\<close>), a failed one leaves an error code, and
  every encoding within the nesting limit is read (\<open>decodeCBOR_complete\<close>).
\<close>


section \<open>The reader\<close>

datatype DecoderError = CBORNoError | UnsupportedMajorType | UnknownAdditionalInfo | IncompleteCBORData | IncorrectMapKeyType
  | TooMuchNesting | InvalidUTF8 | ExtraneousData | DuplicateKey | OutOfOrderKey | NonMinimalCBOREncoding
  | UnsupportedSimpleValue | UnsupportedFloatingPointValue | OutOfRangeIntegerValue

text \<open>\<open>m_it\<close> is the data from the iterator to the end.\<close>

record cbor_reader =
  m_it :: "u8 list"
  m_errorCode :: DecoderError

text \<open>An operation that returns \<open>std::optional\<close> and changes the reader.\<close>

type_synonym 'a reading = "'a option \<times> cbor_reader"

definition getMajorType :: "u8 \<Rightarrow> u8" where
  "getMajorType initialDataByte = drop_bit kMajorTypeBitShift (initialDataByte AND kMajorTypeMask)"

definition getAdditionalInfo :: "u8 \<Rightarrow> u8" where
  "getAdditionalInfo initialDataByte = initialDataByte AND kAdditionalInformationMask"

definition canConsume :: "u64 \<Rightarrow> cbor_reader \<Rightarrow> bool \<times> cbor_reader" where
  "canConsume bytes r =
     (if unat bytes \<le> length (m_it r) then (True, r) else (False, r\<lparr>m_errorCode := IncompleteCBORData\<rparr>))"

definition checkMinimalEncoding :: "nat \<Rightarrow> u64 \<Rightarrow> cbor_reader \<Rightarrow> bool \<times> cbor_reader" where
  "checkMinimalEncoding additionalBytes uintData r =
     (if additionalBytes = 1 \<and> uintData < 24 \<or> uintData \<le> push_bit (8 * (additionalBytes div 2)) 1 - 1
      then (False, r\<lparr>m_errorCode := NonMinimalCBOREncoding\<rparr>)
      else (True, r))"

definition readVariadicLengthInteger :: "u8 \<Rightarrow> cbor_reader \<Rightarrow> u64 reading" where
  "readVariadicLengthInteger additionalInfo r =
     (if additionalInfo < 24 then (Some (ucast additionalInfo), r)
      else if additionalInfo > 27 then (None, r\<lparr>m_errorCode := UnknownAdditionalInfo\<rparr>)
      else
        let additionalBytes =
              (if additionalInfo = 24 then 1 else if additionalInfo = 25 then 2 else if additionalInfo = 26 then 4 else 8 :: nat)
        in case canConsume (of_nat additionalBytes) r of
             (False, r) \<Rightarrow> (None, r\<lparr>m_errorCode := IncompleteCBORData\<rparr>)
           | (True, r) \<Rightarrow>
               let (intData, it) = read_big_endian additionalBytes 0 (m_it r);
                   (minimal, r) = checkMinimalEncoding additionalBytes intData (r\<lparr>m_it := it\<rparr>)
               in (if minimal then Some intData else None, r))"

definition decodeValueToNegative :: "u64 \<Rightarrow> cbor_reader \<Rightarrow> cbor_value reading" where
  "decodeValueToNegative value r =
     (if value > 0x7FFFFFFFFFFFFFFF then (None, r\<lparr>m_errorCode := OutOfRangeIntegerValue\<rparr>)
      else (Some (CBORValue_of_int64 (- value - 1)), r))"

definition decodeValueToUnsigned :: "u64 \<Rightarrow> cbor_reader \<Rightarrow> cbor_value reading" where
  "decodeValueToUnsigned value r =
     (if value > 0x7FFFFFFFFFFFFFFF then (None, r\<lparr>m_errorCode := OutOfRangeIntegerValue\<rparr>)
      else (Some (CBORValue_of_int64 value), r))"

definition readSimpleValue :: "u8 \<Rightarrow> u64 \<Rightarrow> cbor_reader \<Rightarrow> cbor_value reading" where
  "readSimpleValue additionalInfo value r =
     (if additionalInfo > 24 \<and> additionalInfo < 28 then (None, r\<lparr>m_errorCode := UnsupportedFloatingPointValue\<rparr>)
      else if value = 20 then (Some (CSimple FalseValue), r)
      else if value = 21 then (Some (CSimple TrueValue), r)
      else if value = 22 then (Some (CSimple NullValue), r)
      else if value = 23 then (Some (CSimple UndefinedValue), r)
      else (None, r\<lparr>m_errorCode := UnsupportedSimpleValue\<rparr>))"

definition hasValidUTF8Format :: "u16 list \<Rightarrow> cbor_reader \<Rightarrow> bool \<times> cbor_reader" where
  "hasValidUTF8Format stringData r =
     (if stringData = [] then (False, r\<lparr>m_errorCode := InvalidUTF8\<rparr>) else (True, r))"

text \<open>The outer option is the crash in \<open>String::fromUTF8\<close>; its null string is an empty one to \<open>isEmpty\<close>.\<close>

definition readString :: "u64 \<Rightarrow> cbor_reader \<Rightarrow> cbor_value reading option" where
  "readString numBytes r =
     (case canConsume numBytes r of
        (False, r) \<Rightarrow> Some (None, r\<lparr>m_errorCode := IncompleteCBORData\<rparr>)
      | (True, r) \<Rightarrow>
          (case fromUTF8Impl False (take (unat numBytes) (m_it r)) of
             None \<Rightarrow> None
           | Some result \<Rightarrow>
               let cborString = (case result of None \<Rightarrow> [] | Some s \<Rightarrow> s);
                   r = r\<lparr>m_it := drop (unat numBytes) (m_it r)\<rparr>
               in if numBytes = 0 then Some (Some (CString cborString), r)
                  else (case hasValidUTF8Format cborString r of
                          (True, r) \<Rightarrow> Some (Some (CString cborString), r)
                        | (False, r) \<Rightarrow> Some (None, r))))"

definition readBytes :: "u64 \<Rightarrow> cbor_reader \<Rightarrow> cbor_value reading" where
  "readBytes numBytes r =
     (case canConsume numBytes r of
        (False, r) \<Rightarrow> (None, r\<lparr>m_errorCode := IncompleteCBORData\<rparr>)
      | (True, r) \<Rightarrow>
          (Some (CByteString (take (unat numBytes) (m_it r))), r\<lparr>m_it := drop (unat numBytes) (m_it r)\<rparr>))"

definition checkDuplicateKey :: "cbor_value \<Rightarrow> (cbor_value, cbor_value) std_map \<Rightarrow> cbor_reader \<Rightarrow> bool \<times> cbor_reader" where
  "checkDuplicateKey newKey m r =
     (if std_find CTAPLess newKey m \<noteq> None then (False, r\<lparr>m_errorCode := DuplicateKey\<rparr>) else (True, r))"

definition checkOutOfOrderKey :: "cbor_value \<Rightarrow> (cbor_value, cbor_value) std_map \<Rightarrow> cbor_reader \<Rightarrow> bool \<times> cbor_reader" where
  "checkOutOfOrderKey newKey m r =
     (if m \<noteq> [] \<and> CTAPLess newKey (fst (last m)) then (False, r\<lparr>m_errorCode := OutOfOrderKey\<rparr>) else (True, r))"

text \<open>The loops of \<open>readCBORArray\<close> and \<open>readCBORMap\<close> over the decoder of one item at the next level.\<close>

function readCBORArray :: "(cbor_reader \<Rightarrow> cbor_value reading option) \<Rightarrow> nat \<Rightarrow> cbor_value list \<Rightarrow> cbor_reader
    \<Rightarrow> cbor_value reading option" where
  "readCBORArray decode n cborArray r =
     (if n = 0 then Some (Some (CArray cborArray), r)
      else case decode r of
        None \<Rightarrow> None
      | Some (None, r) \<Rightarrow> Some (None, r)
      | Some (Some cborElement, r) \<Rightarrow> readCBORArray decode (n - 1) (cborArray @ [cborElement]) r)"
  by pat_completeness auto
termination by (relation "measure (\<lambda>(d, n, a, r). n)") simp_all

function readCBORMap :: "(cbor_reader \<Rightarrow> cbor_value reading option) \<Rightarrow> nat \<Rightarrow> (cbor_value, cbor_value) std_map \<Rightarrow> cbor_reader
    \<Rightarrow> cbor_value reading option" where
  "readCBORMap decode n cborMap r =
     (if n = 0 then Some (Some (CMap cborMap), r)
      else case decode r of
        None \<Rightarrow> None
      | Some (key, r) \<Rightarrow>
          case decode r of
            None \<Rightarrow> None
          | Some (value, r) \<Rightarrow>
              case (key, value) of
                (Some key, Some value) \<Rightarrow>
                  if \<not> isString key \<and> \<not> isInteger key then Some (None, r\<lparr>m_errorCode := IncorrectMapKeyType\<rparr>)
                  else
                    (case checkDuplicateKey key cborMap r of
                       (False, r) \<Rightarrow> Some (None, r)
                     | (True, r) \<Rightarrow>
                         case checkOutOfOrderKey key cborMap r of
                           (False, r) \<Rightarrow> Some (None, r)
                         | (True, r) \<Rightarrow> readCBORMap decode (n - 1) (std_emplace CTAPLess key value cborMap) r)
              | _ \<Rightarrow> Some (None, r))"
  by pat_completeness auto
termination by (relation "measure (\<lambda>(d, n, m, r). n)") simp_all

declare readCBORArray.simps [simp del] readCBORMap.simps [simp del]

definition kCBORMaxDepth :: int where "kCBORMaxDepth = 16"

function decodeCBOR :: "int \<Rightarrow> cbor_reader \<Rightarrow> cbor_value reading option" where
  "decodeCBOR maxNestingLevel r =
     (if maxNestingLevel < 0 \<or> maxNestingLevel > kCBORMaxDepth
      then Some (None, r\<lparr>m_errorCode := TooMuchNesting\<rparr>)
      else case canConsume 1 r of
        (False, r) \<Rightarrow> Some (None, r\<lparr>m_errorCode := IncompleteCBORData\<rparr>)
      | (True, r) \<Rightarrow>
          let initialByte = hd (m_it r);
              r = r\<lparr>m_it := tl (m_it r)\<rparr>;
              major_type = int (unat (getMajorType initialByte));
              additionalInfo = getAdditionalInfo initialByte
          in case readVariadicLengthInteger additionalInfo r of
               (None, r) \<Rightarrow> Some (None, r)
             | (Some value, r) \<Rightarrow>
                 if major_type = type_code TUnsigned then Some (decodeValueToUnsigned value r)
                 else if major_type = type_code TNegative then Some (decodeValueToNegative value r)
                 else if major_type = type_code TByteString then Some (readBytes value r)
                 else if major_type = type_code TString then readString value r
                 else if major_type = type_code TArray
                 then readCBORArray (decodeCBOR (maxNestingLevel - 1)) (unat value) [] r
                 else if major_type = type_code TMap
                 then readCBORMap (decodeCBOR (maxNestingLevel - 1)) (unat value) [] r
                 else if major_type = type_code TSimpleValue then Some (readSimpleValue additionalInfo value r)
                 else Some (None, r\<lparr>m_errorCode := UnsupportedMajorType\<rparr>))"
  by pat_completeness auto
termination by (relation "measure (\<lambda>(l, r). nat (l + 1))") auto

declare decodeCBOR.simps [simp del]

definition checkExtraneousData :: "cbor_reader \<Rightarrow> cbor_reader" where
  "checkExtraneousData r = (if m_it r \<noteq> [] then r\<lparr>m_errorCode := ExtraneousData\<rparr> else r)"

definition cbor_read :: "u8 list \<Rightarrow> int \<Rightarrow> (cbor_value option \<times> DecoderError) option" where
  "cbor_read data maxNestingLevel =
     (case decodeCBOR maxNestingLevel \<lparr>m_it = data, m_errorCode = CBORNoError\<rparr> of
        None \<Rightarrow> None
      | Some (decodedCbor, r) \<Rightarrow>
          let r = (if decodedCbor \<noteq> None then checkExtraneousData r else r)
          in Some (if m_errorCode r \<noteq> CBORNoError then None else decodedCbor, m_errorCode r))"

primrec errorCodeToString :: "DecoderError \<Rightarrow> string" where
  "errorCodeToString CBORNoError = ''Successfully deserialized to a CBOR value.''"
| "errorCodeToString UnsupportedMajorType = ''Unsupported major type.''"
| "errorCodeToString UnknownAdditionalInfo = ''Unknown additional info format in the first byte.''"
| "errorCodeToString IncompleteCBORData = ''Prematurely terminated CBOR data byte array.''"
| "errorCodeToString IncorrectMapKeyType = ''Map keys other than utf-8 encoded strings are not allowed.''"
| "errorCodeToString TooMuchNesting = ''Too much nesting.''"
| "errorCodeToString InvalidUTF8 = ''String encoding other than utf8 are not allowed.''"
| "errorCodeToString ExtraneousData = ''Trailing data bytes are not allowed.''"
| "errorCodeToString DuplicateKey = ''Duplicate map keys are not allowed.''"
| "errorCodeToString OutOfOrderKey = ''Map keys must be sorted by byte length and then by byte-wise lexical order.''"
| "errorCodeToString NonMinimalCBOREncoding = ''Unsigned integers must be encoded with minimum number of bytes.''"
| "errorCodeToString UnsupportedSimpleValue = ''Unsupported or unassigned simple value.''"
| "errorCodeToString UnsupportedFloatingPointValue = ''Floating point numbers are not supported.''"
| "errorCodeToString OutOfRangeIntegerValue = ''Integer values must be between INT64_MIN and INT64_MAX.''"

section \<open>Reading the head of an item\<close>

text \<open>The additional information of a head.\<close>

definition head_info :: "nat \<Rightarrow> nat" where
  "head_info n = (if n < 24 then n else if n < 2 ^ 8 then 24 else if n < 2 ^ 16 then 25 else if n < 2 ^ 32 then 26 else 27)"

definition info_bytes :: "nat \<Rightarrow> nat" where
  "info_bytes i = (if i < 24 then 0 else if i = 24 then 1 else if i = 25 then 2 else if i = 26 then 4 else 8)"

lemma cbor_head_info: "cbor_head m n = of_nat (m * 32 + head_info n) # big_endian (info_bytes (head_info n)) n"
  by (simp add: cbor_head_def head_info_def info_bytes_def big_endian_def)

lemma head_info_lt: "head_info n < 28"
  by (simp add: head_info_def)

lemma initial_byte:
  shows "unat (getMajorType b) = unat b div 32" "unat (getAdditionalInfo b) = unat b mod 32"
proof -
  have m: "kAdditionalInformationMask = mask 5" by (simp add: kAdditionalInformationMask_def mask_eq_exp_minus_1)
  show "unat (getAdditionalInfo b) = unat b mod 32" unfolding getAdditionalInfo_def m unat_and_mask_mod by simp
  have k: "kMajorTypeMask = push_bit 5 (mask 3)" by (simp add: kMajorTypeMask_def push_bit_eq_mult mask_eq_exp_minus_1)
  have "drop_bit 5 (b AND push_bit 5 (mask 3)) = drop_bit 5 b AND mask 3"
    by (rule bit_word_eqI) (auto simp: bit_and_iff bit_drop_bit_eq bit_push_bit_iff bit_mask_iff)
  then have "unat (getMajorType b) = unat b div 2 ^ 5 mod 2 ^ 3"
    unfolding getMajorType_def kMajorTypeBitShift_def k by (simp only: unat_and_mask_mod unat_drop_bit_div)
  moreover have "unat b div 32 < 8" using unsigned_less [of b, where 'a = nat] by (simp add: less_mult_imp_div_less)
  ultimately show "unat (getMajorType b) = unat b div 32" by simp
qed

lemma minimal_iff:
  assumes "k \<in> {1, 2, 4, 8}"
  shows "fst (checkMinimalEncoding k v r) \<longleftrightarrow> \<not> (k = 1 \<and> unat v < 24 \<or> k = 2 \<and> unat v < 2 ^ 8 \<or> k = 4 \<and> unat v < 2 ^ 16 \<or> k = 8 \<and> unat v < 2 ^ 32)"
    "snd (checkMinimalEncoding k v r) = (if fst (checkMinimalEncoding k v r) then r else r\<lparr>m_errorCode := NonMinimalCBOREncoding\<rparr>)"
proof -
  show "snd (checkMinimalEncoding k v r) = (if fst (checkMinimalEncoding k v r) then r else r\<lparr>m_errorCode := NonMinimalCBOREncoding\<rparr>)"
    by (simp add: checkMinimalEncoding_def)
  show "fst (checkMinimalEncoding k v r) \<longleftrightarrow> \<not> (k = 1 \<and> unat v < 24 \<or> k = 2 \<and> unat v < 2 ^ 8 \<or> k = 4 \<and> unat v < 2 ^ 16 \<or> k = 8 \<and> unat v < 2 ^ 32)"
    using assms by (auto simp: checkMinimalEncoding_def push_bit_eq_mult word_less_nat_alt word_le_nat_alt)
qed

lemma word_info: "i < 24 \<longleftrightarrow> unat i < 24" "i > 27 \<longleftrightarrow> unat i > 27" "i = 24 \<longleftrightarrow> unat i = 24" "i = 25 \<longleftrightarrow> unat i = 25"
  "i = 26 \<longleftrightarrow> unat i = 26" for i :: u8
  by (simp_all add: word_less_nat_alt word_unat_eq_iff)

lemma minimal_eq:
  assumes "24 \<le> i" "i \<le> 27"
  shows "checkMinimalEncoding (info_bytes i) v r =
    (if i \<le> head_info (unat v) then (True, r) else (False, r\<lparr>m_errorCode := NonMinimalCBOREncoding\<rparr>))"
proof -
  have k: "info_bytes i \<in> {1, 2, 4, 8}" using assms by (simp add: info_bytes_def)
  consider "i = 24" | "i = 25" | "i = 26" | "i = 27" using assms by linarith
  then have "fst (checkMinimalEncoding (info_bytes i) v r) \<longleftrightarrow> i \<le> head_info (unat v)"
    unfolding minimal_iff(1) [OF k] by cases (simp_all add: info_bytes_def head_info_def)
  then show ?thesis using minimal_iff(2) [OF k, of v r] by (simp add: prod_eq_iff)
qed

lemma readVariadicLengthInteger_eq:
  "readVariadicLengthInteger i r =
    (if unat i < 24 then (Some (of_nat (unat i)), r)
     else if unat i > 27 then (None, r\<lparr>m_errorCode := UnknownAdditionalInfo\<rparr>)
     else if length (m_it r) < info_bytes (unat i) then (None, r\<lparr>m_errorCode := IncompleteCBORData\<rparr>)
     else let (v, it) = read_big_endian (info_bytes (unat i)) 0 (m_it r)
          in if unat i \<le> head_info (unat v) then (Some v, r\<lparr>m_it := it\<rparr>)
             else (None, r\<lparr>m_it := it, m_errorCode := NonMinimalCBOREncoding\<rparr>))"
proof -
  have k: "(if i = 24 then 1 else if i = 25 then 2 else if i = 26 then 4 else 8 :: nat) = info_bytes (unat i)" if "\<not> unat i < 24"
    using that by (simp add: info_bytes_def word_info)
  have "unat (of_nat (info_bytes (unat i)) :: u64) = info_bytes (unat i)" by (simp add: info_bytes_def)
  then have c: "canConsume (of_nat (info_bytes (unat i))) r =
      (if info_bytes (unat i) \<le> length (m_it r) then (True, r) else (False, r\<lparr>m_errorCode := IncompleteCBORData\<rparr>))"
    by (simp only: canConsume_def)
  consider "unat i < 24" | "unat i > 27" | "24 \<le> unat i" "unat i \<le> 27" by linarith
  then show ?thesis
  proof cases
    case 3
    then have nk: "\<not> unat i < 24" "\<not> unat i > 27" by simp_all
    obtain v it where rd: "read_big_endian (info_bytes (unat i)) 0 (m_it r) = (v, it)" by fastforce
    show ?thesis unfolding readVariadicLengthInteger_def word_info(1,2) if_not_P [OF nk(1)] if_not_P [OF nk(2)] k [OF nk(1)] Let_def c
      using rd minimal_eq [OF 3] by simp
  qed (simp_all add: readVariadicLengthInteger_def word_info)
qed

lemma info_bytes_le: "info_bytes i \<le> 8"
  by (simp add: info_bytes_def)

lemma head_info_bound: "24 \<le> i \<Longrightarrow> i \<le> 27 \<Longrightarrow> n < 256 ^ info_bytes i \<Longrightarrow> i \<le> head_info n \<Longrightarrow> head_info n = i"
  and head_info_fits: "n < 2 ^ 64 \<Longrightarrow> 24 \<le> head_info n \<Longrightarrow> n < 256 ^ info_bytes (head_info n)"
  by (auto simp: info_bytes_def head_info_def split: if_splits)

text \<open>Reading a head succeeds exactly on \<open>cbor_head\<close>, the shortest form.\<close>

lemma read_head_sound:
  assumes "readVariadicLengthInteger (getAdditionalInfo b) r = (Some v, r')" "i = unat (getAdditionalInfo b)"
  shows "i = head_info (unat v) \<and> b # m_it r = cbor_head (unat (getMajorType b)) (unat v) @ m_it r' \<and> m_errorCode r' = m_errorCode r"
proof -
  have byte: "of_nat (unat (getMajorType b) * 32 + i) = b" unfolding assms(2) initial_byte by simp
  have "i < 28 \<and> i = head_info (unat v) \<and> m_it r = big_endian (info_bytes i) (unat v) @ m_it r' \<and> m_errorCode r' = m_errorCode r"
  proof (cases "i < 24")
    case True
    then have v: "v = of_nat i" "r' = r" using assms by (simp_all add: readVariadicLengthInteger_eq)
    have "unat v = i" unfolding v(1) using True by (simp add: unat_of_nat)
    then show ?thesis using True v(2) by (simp add: head_info_def info_bytes_def big_endian_def)
  next
    case False
    obtain w it where rd: "read_big_endian (info_bytes i) 0 (m_it r) = (w, it)" by fastforce
    have ok: "i \<le> 27" "info_bytes i \<le> length (m_it r)" "i \<le> head_info (unat w)" "w = v" "r' = r\<lparr>m_it := it\<rparr>"
      using assms(1) False rd unfolding readVariadicLengthInteger_eq assms(2) [symmetric] by (auto split: if_splits)
    have "m_it r = big_endian (info_bytes i) (unat v) @ it \<and> unat v div 256 ^ info_bytes i = unat (0 :: u64) \<and> unat v < 256 ^ (0 + info_bytes i)"
      using read_big_endian_sound [OF rd, of 0] ok(2,4) info_bytes_le [of i] by simp
    moreover from this have "head_info (unat v) = i" using ok(1,3,4) False by (intro head_info_bound) simp_all
    ultimately show ?thesis using ok by simp
  qed
  then show ?thesis unfolding cbor_head_info using byte by simp
qed

lemma read_head_complete:
  assumes "n < 2 ^ 64" "m < 8" "b # it = cbor_head m n @ rest" "m_it r = it"
  shows "readVariadicLengthInteger (getAdditionalInfo b) r = (Some (of_nat n), r\<lparr>m_it := rest\<rparr>)"
    "unat (getMajorType b) = m" "unat (getAdditionalInfo b) = head_info n"
proof -
  have b: "b = of_nat (m * 32 + head_info n)" "it = big_endian (info_bytes (head_info n)) n @ rest"
    using assms(3) unfolding cbor_head_info by simp_all
  have lt: "m * 32 + head_info n < 256" using assms(2) head_info_lt [of n] by linarith
  have u: "unat b = m * 32 + head_info n" unfolding b(1) by (rule unat_u8 [OF lt])
  have "head_info n < 32" using head_info_lt [of n] by linarith
  then show i: "unat (getAdditionalInfo b) = head_info n" and "unat (getMajorType b) = m"
    unfolding initial_byte u by simp_all
  show "readVariadicLengthInteger (getAdditionalInfo b) r = (Some (of_nat n), r\<lparr>m_it := rest\<rparr>)"
  proof (cases "n < 24")
    case True
    then have "head_info n = n" "it = rest" using b(2) by (simp_all add: head_info_def info_bytes_def big_endian_def)
    then show ?thesis unfolding readVariadicLengthInteger_eq i using True assms(4) by simp
  next
    case False
    then have h: "24 \<le> head_info n" "head_info n \<le> 27" using head_info_lt [of n] by (simp_all add: head_info_def)
    then have "n < 256 ^ info_bytes (head_info n)" using head_info_fits assms(1) by blast
    then have rd: "read_big_endian (info_bytes (head_info n)) 0 (m_it r) = (of_nat n, rest)"
      unfolding assms(4) b(2) using info_bytes_le by (rule read_big_endian_complete)
    have len: "\<not> length (m_it r) < info_bytes (head_info n)" unfolding assms(4) b(2) by (simp add: big_endian_length)
    show ?thesis unfolding readVariadicLengthInteger_eq i rd using h len unat_len [OF assms(1)] by simp
  qed
qed

section \<open>Soundness of the reader\<close>

definition decode_major :: "int \<Rightarrow> nat \<Rightarrow> nat \<Rightarrow> cbor_reader \<Rightarrow> cbor_value reading option" where
  "decode_major l m n r =
     (if m = 0 then Some (decodeValueToUnsigned (of_nat n) r)
      else if m = 1 then Some (decodeValueToNegative (of_nat n) r)
      else if m = 2 then Some (readBytes (of_nat n) r)
      else if m = 3 then readString (of_nat n) r
      else if m = 4 then readCBORArray (decodeCBOR (l - 1)) n [] r
      else if m = 5 then readCBORMap (decodeCBOR (l - 1)) n [] r
      else if m = 7 then Some (readSimpleValue (of_nat (head_info n)) (of_nat n) r)
      else Some (None, r\<lparr>m_errorCode := UnsupportedMajorType\<rparr>))"

lemma decodeCBOR_level: "l < 0 \<or> 16 < l \<Longrightarrow> decodeCBOR l r = Some (None, r\<lparr>m_errorCode := TooMuchNesting\<rparr>)"
  by (simp add: decodeCBOR.simps [of l] kCBORMaxDepth_def)

lemma decodeCBOR_empty: "0 \<le> l \<Longrightarrow> l \<le> 16 \<Longrightarrow> m_it r = [] \<Longrightarrow> decodeCBOR l r = Some (None, r\<lparr>m_errorCode := IncompleteCBORData\<rparr>)"
  by (simp add: decodeCBOR.simps [of l] kCBORMaxDepth_def canConsume_def)

lemma decodeCBOR_Cons:
  assumes "0 \<le> l" "l \<le> 16" "m_it r = b # it"
  shows "decodeCBOR l r =
    (case readVariadicLengthInteger (getAdditionalInfo b) (r\<lparr>m_it := it\<rparr>) of
       (None, r) \<Rightarrow> Some (None, r)
     | (Some value, r) \<Rightarrow> decode_major l (unat (getMajorType b)) (unat value) r)"
proof -
  have info: "of_nat (head_info (unat v)) = getAdditionalInfo b"
    if "readVariadicLengthInteger (getAdditionalInfo b) (r\<lparr>m_it := it\<rparr>) = (Some v, r')" for v r'
    using read_head_sound [OF that refl] by (metis word_of_unat)
  have level: "\<not> (l < 0 \<or> kCBORMaxDepth < l)" using assms(1,2) by (simp add: kCBORMaxDepth_def)
  have c: "canConsume 1 r = (True, r)" using assms(3) by (simp add: canConsume_def)
  have codes: "int k = type_code TUnsigned \<longleftrightarrow> k = 0" "int k = type_code TNegative \<longleftrightarrow> k = 1" "int k = type_code TByteString \<longleftrightarrow> k = 2"
    "int k = type_code TString \<longleftrightarrow> k = 3" "int k = type_code TArray \<longleftrightarrow> k = 4" "int k = type_code TMap \<longleftrightarrow> k = 5"
    "int k = type_code TSimpleValue \<longleftrightarrow> k = 7" for k
    by simp_all
  show ?thesis
    unfolding decodeCBOR.simps [of l r] if_not_P [OF level] c prod.case bool.case Let_def assms(3) list.sel codes decode_major_def
    using info by (auto split: prod.split option.split)
qed

text \<open>What a step of the reader may do: return a well-formed value no deeper than the level allows and consume exactly its
  encoding, or set the error code; and never go back in the data.\<close>

definition decoded :: "int \<Rightarrow> cbor_reader \<Rightarrow> cbor_value reading \<Rightarrow> bool" where
  "decoded l r x \<longleftrightarrow> length (m_it (snd x)) \<le> length (m_it r) \<and>
     (case fst x of
        None \<Rightarrow> m_errorCode (snd x) \<noteq> CBORNoError
      | Some v \<Rightarrow> cbor_wf v \<and> int (cbor_depth v) \<le> l \<and> m_it r = cbor_bytes v @ m_it (snd x) \<and> m_errorCode (snd x) = m_errorCode r)"

definition decodes_soundly :: "int \<Rightarrow> (cbor_reader \<Rightarrow> cbor_value reading option) \<Rightarrow> bool" where
  "decodes_soundly l dec \<longleftrightarrow>
     (\<forall>r. case dec r of None \<Rightarrow> StringImpl_MaxLength < length (m_it r) | Some x \<Rightarrow> decoded l r x)"

lemma decodes_soundlyD:
  "decodes_soundly l dec \<Longrightarrow> dec r = None \<Longrightarrow> StringImpl_MaxLength < length (m_it r)"
  "decodes_soundly l dec \<Longrightarrow> dec r = Some x \<Longrightarrow> decoded l r x"
  by (auto simp: decodes_soundly_def dest: spec [of _ r])

lemma sint_of_nat: "n < 2 ^ 63 \<Longrightarrow> sint (of_nat n :: u64) = int n"
proof -
  assume n: "n < 2 ^ 63"
  then have u: "uint (of_nat n :: u64) = int n" by (simp add: uint_nat unat_of_nat)
  have "int n < 2 ^ 63" using of_nat_less_iff [of n "2 ^ 63", where 'a = int] n by simp
  then have "signed_take_bit 63 (int n) = int n" by (intro signed_take_bit_int_eq_self) linarith+
  then show ?thesis unfolding sint_uint u by simp
qed

lemma max_int64: "unat (0x7FFFFFFFFFFFFFFF :: u64) = 2 ^ 63 - 1" "v > 0x7FFFFFFFFFFFFFFF \<longleftrightarrow> 2 ^ 63 \<le> unat v" for v :: u64
  by (simp_all add: word_less_nat_alt) linarith

lemma negative_value:
  fixes v :: u64
  assumes "unat v < 2 ^ 63"
  shows "sint (- v - 1) = - int (unat v) - 1" "- ((- v - 1) + 1) = v"
proof -
  have "sint v = int (unat v)" using sint_of_nat [of "unat v"] assms by simp
  moreover have "- int (unat v) - 1 \<ge> - (2 ^ 63)" using of_nat_less_iff [of "unat v" "2 ^ 63", where 'a = int] assms by simp
  moreover have "- int (unat v) - 1 < 2 ^ 63" by (rule order_less_trans [of _ 0]) (linarith, simp)
  ultimately have t: "signed_take_bit 63 (- sint v - 1) = - int (unat v) - 1" by (simp add: signed_take_bit_int_eq_self)
  have "- v - 1 = word_of_int (- sint v - 1)" by simp
  then have "sint (- v - 1) = sint (word_of_int (- sint v - 1) :: u64)" by (rule arg_cong)
  also have "\<dots> = signed_take_bit (LENGTH(64) - 1) (- sint v - 1)" by (rule sint_sbintrunc')
  finally show "sint (- v - 1) = - int (unat v) - 1" using t by simp
qed simp

lemma decodeValueToUnsigned_eq: "n < 2 ^ 64 \<Longrightarrow> decodeValueToUnsigned (of_nat n) r =
    (if n < 2 ^ 63 then (Some (CUnsigned (of_nat n)), r) else (None, r\<lparr>m_errorCode := OutOfRangeIntegerValue\<rparr>))"
  using sint_of_nat [of n] unat_len [of n] by (simp add: decodeValueToUnsigned_def max_int64 CBORValue_of_int64_def)

lemma decodeValueToNegative_eq: "n < 2 ^ 64 \<Longrightarrow> decodeValueToNegative (of_nat n) r =
    (if n < 2 ^ 63 then (Some (CNegative (- of_nat n - 1)), r) else (None, r\<lparr>m_errorCode := OutOfRangeIntegerValue\<rparr>))"
  using negative_value(1) [of "of_nat n"] unat_len [of n] by (simp add: decodeValueToNegative_def max_int64 CBORValue_of_int64_def)

lemma readBytes_eq: "n < 2 ^ 64 \<Longrightarrow> readBytes (of_nat n) r =
    (if n \<le> length (m_it r) then (Some (CByteString (take n (m_it r))), r\<lparr>m_it := drop n (m_it r)\<rparr>)
     else (None, r\<lparr>m_errorCode := IncompleteCBORData\<rparr>))"
  using unat_len [of n] by (simp add: readBytes_def canConsume_def)

lemma readSimpleValue_eq:
  assumes "n < 2 ^ 64"
  shows "case readSimpleValue (of_nat (head_info n)) (of_nat n) r of
      (None, r') \<Rightarrow> m_it r' = m_it r \<and> m_errorCode r' \<noteq> CBORNoError
    | (Some v, r') \<Rightarrow> r' = r \<and> (\<exists>s. v = CSimple s \<and> n = simple_code s)"
proof -
  have "(of_nat n :: u64) = of_nat k \<longleftrightarrow> n = k" if "k < 24" for k
    using that assms by (simp add: word_unat_eq_iff unat_of_nat)
  from this [of 20] this [of 21] this [of 22] this [of 23] show ?thesis
    by (auto simp: readSimpleValue_def intro: exI [of _ FalseValue] exI [of _ TrueValue] exI [of _ NullValue] exI [of _ UndefinedValue])
qed

lemma readString_eq:
  assumes "n < 2 ^ 64"
  shows "case readString (of_nat n) r of
      None \<Rightarrow> StringImpl_MaxLength < length (m_it r)
    | Some (None, r') \<Rightarrow> length (m_it r') \<le> length (m_it r) \<and> m_errorCode r' \<noteq> CBORNoError
    | Some (Some v, r') \<Rightarrow> m_errorCode r' = m_errorCode r \<and> n \<le> length (m_it r) \<and> m_it r' = drop n (m_it r)
        \<and> (\<exists>ns. scalars ns \<and> take n (m_it r) = utf8_encoding ns \<and> v = CString (utf16_encoding ns))"
proof (cases "n \<le> length (m_it r)")
  case False
  then show ?thesis using unat_len [OF assms] by (simp add: readString_def canConsume_def)
next
  case len: True
  let ?bs = "take n (m_it r)"
  have code: "readString (of_nat n) r =
     (case fromUTF8Impl False ?bs of
        None \<Rightarrow> None
      | Some result \<Rightarrow>
          let s = (case result of None \<Rightarrow> [] | Some s \<Rightarrow> s); r = r\<lparr>m_it := drop n (m_it r)\<rparr>
          in if n = 0 then Some (Some (CString s), r)
             else if s = [] then Some (None, r\<lparr>m_errorCode := InvalidUTF8\<rparr>) else Some (Some (CString s), r))"
  proof -
    have "(of_nat n :: u64) = 0 \<longleftrightarrow> n = 0" using unat_len [OF assms] by (auto simp flip: unat_eq_zero)
    then show ?thesis using len unat_len [OF assms]
      by (auto simp: readString_def canConsume_def hasValidUTF8Format_def Let_def split: option.split)
  qed
  show ?thesis
  proof (cases "length ?bs \<le> StringImpl_MaxLength")
    case False
    then have "fromUTF8Impl False ?bs = None" "StringImpl_MaxLength < length (m_it r)" by (simp_all add: fromUTF8Impl_def)
    then show ?thesis unfolding code by simp
  next
    case fits: True
    then obtain result where res: "fromUTF8Impl False ?bs = Some result"
      by (cases "fromUTF8Impl False ?bs") (auto simp: fromUTF8Impl_def split: if_splits)
    have ok: "result = Some s \<longleftrightarrow> (\<exists>ns. scalars ns \<and> ?bs = utf8_encoding ns \<and> s = utf16_encoding ns)" for s
      using fromUTF8Impl_iff [OF fits, of s] res by simp
    consider "n = 0" | "n \<noteq> 0" "result = None \<or> result = Some []" | s where "n \<noteq> 0" "result = Some s" "s \<noteq> []" by (cases result) auto
    then show ?thesis
    proof cases
      case 1
      then have "result = Some []" using ok [of "[]"] by (auto intro: exI [of _ "[]"])
      then show ?thesis unfolding code using 1 res by (auto intro: exI [of _ "[]"])
    next
      case 2
      then show ?thesis unfolding code using res by auto
    next
      case 3
      then show ?thesis unfolding code using res ok [of s] len by auto
    qed
  qed
qed

lemma readCBORArray_sound:
  assumes "decodes_soundly l dec"
  shows "case readCBORArray dec n acc r of
      None \<Rightarrow> StringImpl_MaxLength < length (m_it r)
    | Some (None, r') \<Rightarrow> length (m_it r') \<le> length (m_it r) \<and> m_errorCode r' \<noteq> CBORNoError
    | Some (Some v, r') \<Rightarrow> m_errorCode r' = m_errorCode r \<and>
        (\<exists>vs. v = CArray (acc @ vs) \<and> length vs = n \<and> (\<forall>v \<in> set vs. cbor_wf v \<and> int (cbor_depth v) \<le> l)
          \<and> m_it r = concat (map cbor_bytes vs) @ m_it r')"
proof (induction n arbitrary: acc r)
  case 0
  then show ?case by (simp add: readCBORArray.simps [of _ 0])
next
  case (Suc n)
  show ?case
  proof (cases "dec r")
    case None
    then show ?thesis using decodes_soundlyD(1) [OF assms] by (simp add: readCBORArray.simps [of _ "Suc n"])
  next
    case (Some x)
    obtain e r1 where x: "x = (e, r1)" by (cases x)
    have d: "decoded l r (e, r1)" using decodes_soundlyD(2) [OF assms Some] x by simp
    show ?thesis
    proof (cases e)
      case None
      then show ?thesis using d Some x by (simp add: readCBORArray.simps [of _ "Suc n"] decoded_def)
    next
      case e: (Some v)
      have v: "cbor_wf v" "int (cbor_depth v) \<le> l" "m_it r = cbor_bytes v @ m_it r1" "m_errorCode r1 = m_errorCode r"
        using d e by (simp_all add: decoded_def)
      have code: "readCBORArray dec (Suc n) acc r = readCBORArray dec n (acc @ [v]) r1"
        using Some x e by (simp add: readCBORArray.simps [of _ "Suc n"])
      consider "readCBORArray dec n (acc @ [v]) r1 = None" | r' where "readCBORArray dec n (acc @ [v]) r1 = Some (None, r')"
        | w r' where "readCBORArray dec n (acc @ [v]) r1 = Some (Some w, r')"
        by (metis not_None_eq surj_pair)
      then show ?thesis
      proof cases
        case 1
        then show ?thesis unfolding code using Suc [where acc = "acc @ [v]" and r = r1] v(3) by simp
      next
        case 2
        then show ?thesis unfolding code using Suc [where acc = "acc @ [v]" and r = r1] v(3) by simp
      next
        case 3
        then obtain vs where "m_errorCode r' = m_errorCode r1" "w = CArray ((acc @ [v]) @ vs)" "length vs = n"
          "\<forall>v \<in> set vs. cbor_wf v \<and> int (cbor_depth v) \<le> l" "m_it r1 = concat (map cbor_bytes vs) @ m_it r'"
          using Suc [where acc = "acc @ [v]" and r = r1] by auto
        then show ?thesis unfolding code using 3 v by (simp del: cbor_bytes.simps)
      qed
    qed
  qed
qed

text \<open>The entry the two key checks let through extends the map in order.\<close>

lemma map_entry:
  assumes "std_sorted CTAPLess is_key m" "isString k \<or> isInteger k" "std_find CTAPLess k m = None" "m = [] \<or> \<not> CTAPLess k (fst (last m))"
  shows "std_sorted CTAPLess is_key (m @ [(k, v)])" "std_emplace CTAPLess k v m = m @ [(k, v)]"
proof -
  have k: "is_key k" using assms(2) by (auto simp: is_key_def)
  have "m = [] \<or> CTAPLess (fst (last m)) k" using ctap.above_last [OF assms(1) k] assms(3,4) by auto
  then show s: "std_sorted CTAPLess is_key (m @ [(k, v)])" unfolding ctap.sorted_snoc using assms(1) k by blast
  show "std_emplace CTAPLess k v m = m @ [(k, v)]" using s by (rule ctap.emplace_above_last)
qed

lemma readCBORMap_sound:
  assumes "decodes_soundly l dec" "std_sorted CTAPLess is_key acc"
  shows "case readCBORMap dec n acc r of
      None \<Rightarrow> StringImpl_MaxLength < length (m_it r)
    | Some (None, r') \<Rightarrow> length (m_it r') \<le> length (m_it r) \<and> m_errorCode r' \<noteq> CBORNoError
    | Some (Some v, r') \<Rightarrow> m_errorCode r' = m_errorCode r \<and>
        (\<exists>m. v = CMap (acc @ m) \<and> length m = n \<and> std_sorted CTAPLess is_key (acc @ m)
          \<and> (\<forall>(k, v) \<in> set m. cbor_wf k \<and> cbor_wf v \<and> int (cbor_depth k) \<le> l \<and> int (cbor_depth v) \<le> l)
          \<and> m_it r = concat (map (\<lambda>(k, v). cbor_bytes k @ cbor_bytes v) m) @ m_it r')"
  using assms(2)
proof (induction n arbitrary: acc r)
  case 0
  then show ?case by (simp add: readCBORMap.simps [of _ 0])
next
  case (Suc n)
  note code = readCBORMap.simps [of dec "Suc n" acc r]
  show ?case
  proof (cases "dec r")
    case None
    then show ?thesis using decodes_soundlyD(1) [OF assms(1)] by (simp add: code)
  next
    case (Some x)
    obtain key r1 where x: "dec r = Some (key, r1)" using Some by (cases x) simp
    have dk: "decoded l r (key, r1)" using decodes_soundlyD(2) [OF assms(1) x] .
    show ?thesis
    proof (cases "dec r1")
      case None
      then show ?thesis using decodes_soundlyD(1) [OF assms(1) None] dk x by (simp add: code decoded_def)
    next
      case (Some y)
      obtain "value" r2 where y: "dec r1 = Some (value, r2)" using Some by (cases y) simp
      have dv: "decoded l r1 (value, r2)" using decodes_soundlyD(2) [OF assms(1) y] .
      show ?thesis
      proof (cases "key = None \<or> value = None")
        case True
        then have "readCBORMap dec (Suc n) acc r = Some (None, r2)" using x y by (auto simp: code split: option.split)
        moreover have "length (m_it r2) \<le> length (m_it r)" using dk dv by (simp add: decoded_def)
        moreover have "m_errorCode r2 \<noteq> CBORNoError" using dk dv True by (auto simp: decoded_def split: option.splits)
        ultimately show ?thesis by simp
      next
        case False
        then obtain k v where kv: "key = Some k" "value = Some v" by auto
        have d: "cbor_wf k" "cbor_wf v" "int (cbor_depth k) \<le> l" "int (cbor_depth v) \<le> l"
          "m_it r = cbor_bytes k @ cbor_bytes v @ m_it r2" "m_errorCode r2 = m_errorCode r"
          using dk dv kv by (simp_all add: decoded_def)
        show ?thesis
        proof (cases "(isString k \<or> isInteger k) \<and> std_find CTAPLess k acc = None \<and> (acc = [] \<or> \<not> CTAPLess k (fst (last acc)))")
          case no: False
          then show ?thesis using x y kv d(5)
            by (auto simp: code checkDuplicateKey_def checkOutOfOrderKey_def)
        next
          case ok: True
          note entry = map_entry [OF Suc.prems, of k v]
          have s: "std_sorted CTAPLess is_key (acc @ [(k, v)])" and em: "std_emplace CTAPLess k v acc = acc @ [(k, v)]"
            using entry ok by simp_all
          have code': "readCBORMap dec (Suc n) acc r = readCBORMap dec n (acc @ [(k, v)]) r2"
            using x y kv ok em by (auto simp: code checkDuplicateKey_def checkOutOfOrderKey_def)
          consider "readCBORMap dec n (acc @ [(k, v)]) r2 = None" | r' where "readCBORMap dec n (acc @ [(k, v)]) r2 = Some (None, r')"
            | w r' where "readCBORMap dec n (acc @ [(k, v)]) r2 = Some (Some w, r')"
            by (metis not_None_eq surj_pair)
          then show ?thesis
          proof cases
            case 1
            then show ?thesis unfolding code' using Suc.IH [OF s, of r2] d(5) by simp
          next
            case 2
            then show ?thesis unfolding code' using Suc.IH [OF s, of r2] d(5) by simp
          next
            case 3
            then obtain m where "m_errorCode r' = m_errorCode r2" "w = CMap ((acc @ [(k, v)]) @ m)" "length m = n"
              "std_sorted CTAPLess is_key ((acc @ [(k, v)]) @ m)"
              "\<forall>(k, v) \<in> set m. cbor_wf k \<and> cbor_wf v \<and> int (cbor_depth k) \<le> l \<and> int (cbor_depth v) \<le> l"
              "m_it r2 = concat (map (\<lambda>(k, v). cbor_bytes k @ cbor_bytes v) m) @ m_it r'"
              using Suc.IH [OF s, of r2] by auto
            then show ?thesis unfolding code' using 3 d by simp
          qed
        qed
      qed
    qed
  qed
qed

lemma well_formed_encoding: "scalars ns \<Longrightarrow> scalars_of (utf16_encoding ns) = ns"
  by (rule utf16_encoding_scalars_of) simp_all

lemma simple_wf: "n = simple_code s \<Longrightarrow> cbor_head 7 n = cbor_bytes (CSimple s)"
  by simp

lemma decode_major_sound:
  assumes "decodes_soundly (l - 1) (decodeCBOR (l - 1))" "0 \<le> l" "n < 2 ^ 64"
  shows "case decode_major l m n r of
      None \<Rightarrow> StringImpl_MaxLength < length (m_it r)
    | Some (None, r') \<Rightarrow> length (m_it r') \<le> length (m_it r) \<and> m_errorCode r' \<noteq> CBORNoError
    | Some (Some v, r') \<Rightarrow> cbor_wf v \<and> int (cbor_depth v) \<le> l \<and> m_errorCode r' = m_errorCode r
        \<and> cbor_head m n @ m_it r = cbor_bytes v @ m_it r'"
proof -
  consider "m = 0" | "m = 1" | "m = 2" | "m = 3" | "m = 4" | "m = 5" | "m = 7" | "m \<notin> {0, 1, 2, 3, 4, 5, 7}" by blast
  then show ?thesis
  proof cases
    case 1
    show ?thesis
    proof (cases "n < 2 ^ 63")
      case True
      then show ?thesis using 1 assms(2,3) sint_of_nat [OF True] unat_len [OF assms(3)]
        by (simp add: decode_major_def decodeValueToUnsigned_eq)
    qed (use 1 assms(3) in \<open>simp add: decode_major_def decodeValueToUnsigned_eq\<close>)
  next
    case 2
    show ?thesis
    proof (cases "n < 2 ^ 63")
      case True
      have u: "unat (of_nat n :: u64) = n" using unat_len [OF assms(3)] .
      have "sint (- of_nat n - 1 :: u64) < 0" using negative_value(1) [of "of_nat n"] True unfolding u by simp
      moreover have "- ((- of_nat n - 1) + 1) = (of_nat n :: u64)" by simp
      ultimately show ?thesis using 2 True assms(2,3) u by (simp add: decode_major_def decodeValueToNegative_eq)
    qed (use 2 assms(3) in \<open>simp add: decode_major_def decodeValueToNegative_eq\<close>)
  next
    case 3
    then show ?thesis using assms(2,3) by (auto simp: decode_major_def readBytes_eq)
  next
    case 4
    have code: "decode_major l m n r = readString (of_nat n) r" using 4 by (simp add: decode_major_def)
    consider "readString (of_nat n) r = None" | r' where "readString (of_nat n) r = Some (None, r')"
      | v r' where "readString (of_nat n) r = Some (Some v, r')" by (metis not_None_eq surj_pair)
    then show ?thesis
    proof cases
      case (3 v r')
      then obtain ns where ns: "scalars ns" "take n (m_it r) = utf8_encoding ns" "v = CString (utf16_encoding ns)"
        and r': "m_errorCode r' = m_errorCode r" "n \<le> length (m_it r)" "m_it r' = drop n (m_it r)"
        using readString_eq [OF assms(3), of r] by auto
      have len: "length (utf8_encoding ns) = n" using ns(2) r'(2) by (metis length_take min.absorb2)
      have "m_it r = utf8_encoding ns @ m_it r'" unfolding r'(3) ns(2) [symmetric] by simp
      then show ?thesis unfolding code 3 using ns(3) 4 r'(1) assms(2,3) len well_formed_encoding [OF ns(1)] ns(1)
        by (auto simp: well_formed_utf16_iff)
    qed (use readString_eq [OF assms(3), of r] code in simp_all)
  next
    case 5
    have code: "decode_major l m n r = readCBORArray (decodeCBOR (l - 1)) n [] r" using 5 by (simp add: decode_major_def)
    note sound = readCBORArray_sound [OF assms(1), where n = n and acc = "[]" and r = r]
    consider "readCBORArray (decodeCBOR (l - 1)) n [] r = None" | r' where "readCBORArray (decodeCBOR (l - 1)) n [] r = Some (None, r')"
      | v r' where "readCBORArray (decodeCBOR (l - 1)) n [] r = Some (Some v, r')" by (metis not_None_eq surj_pair)
    then show ?thesis
    proof cases
      case (3 v r')
      then obtain vs where vs: "v = CArray vs" "length vs = n" "\<forall>v \<in> set vs. cbor_wf v \<and> int (cbor_depth v) \<le> l - 1"
        "m_it r = concat (map cbor_bytes vs) @ m_it r'" "m_errorCode r' = m_errorCode r" using sound by auto
      have "int (cbor_depth v) \<le> l" unfolding vs(1) using depth_elements [of vs l] vs(3) assms(2) by (cases "vs = []") auto
      moreover have "cbor_wf v" unfolding vs(1) using vs(2,3) assms(3) by (simp add: list_all_iff)
      ultimately show ?thesis unfolding code 3 using vs(1,2,4,5) 5 by simp
    qed (use sound code in simp_all)
  next
    case 6
    have code: "decode_major l m n r = readCBORMap (decodeCBOR (l - 1)) n [] r" using 6 by (simp add: decode_major_def)
    have "std_sorted CTAPLess is_key ([] :: (cbor_value, cbor_value) std_map)" by (simp add: std_sorted_def)
    note sound = readCBORMap_sound [OF assms(1) this, where n = n and r = r]
    consider "readCBORMap (decodeCBOR (l - 1)) n [] r = None" | r' where "readCBORMap (decodeCBOR (l - 1)) n [] r = Some (None, r')"
      | v r' where "readCBORMap (decodeCBOR (l - 1)) n [] r = Some (Some v, r')" by (metis not_None_eq surj_pair)
    then show ?thesis
    proof cases
      case (3 v r')
      then obtain e where e: "v = CMap e" "length e = n" "std_sorted CTAPLess is_key e"
        "\<forall>(k, v) \<in> set e. cbor_wf k \<and> cbor_wf v \<and> int (cbor_depth k) \<le> l - 1 \<and> int (cbor_depth v) \<le> l - 1"
        "m_it r = concat (map (\<lambda>(k, v). cbor_bytes k @ cbor_bytes v) e) @ m_it r'" "m_errorCode r' = m_errorCode r" using sound by auto
      have "\<forall>(k, v) \<in> set e. int (cbor_depth k) \<le> l - 1 \<and> int (cbor_depth v) \<le> l - 1" using e(4) by blast
      then have "int (cbor_depth v) \<le> l" unfolding e(1) using depth_entries [of e l] assms(2) by (cases "e = []") (auto simp del: cbor_depth.simps, simp)
      moreover have "list_all (\<lambda>(k, v). cbor_wf k \<and> cbor_wf v) e" unfolding list_all_iff using e(4) by blast
      then have "cbor_wf v" unfolding e(1) using e(2,3) assms(3) by simp
      ultimately show ?thesis unfolding code 3 using e(1,2,5,6) 6 by simp
    qed (use sound code in simp_all)
  next
    case 7
    have code: "decode_major l m n r = Some (readSimpleValue (of_nat (head_info n)) (of_nat n) r)" using 7 by (simp add: decode_major_def)
    obtain e r' where x: "readSimpleValue (of_nat (head_info n)) (of_nat n) r = (e, r')" by fastforce
    show ?thesis
    proof (cases e)
      case None
      then show ?thesis unfolding code x using readSimpleValue_eq [OF assms(3), of r] x by simp
    next
      case (Some v)
      then have "r' = r" "\<exists>s. v = CSimple s \<and> n = simple_code s" using readSimpleValue_eq [OF assms(3), of r] x by simp_all
      then obtain s where "v = CSimple s" "n = simple_code s" "r' = r" by blast
      then show ?thesis unfolding code x Some using 7 assms(2) by simp
    qed
  next
    case 8
    then show ?thesis by (simp add: decode_major_def)
  qed
qed

lemma readVariadicLengthInteger_None:
  "readVariadicLengthInteger i r = (None, r') \<Longrightarrow> length (m_it r') \<le> length (m_it r) \<and> m_errorCode r' \<noteq> CBORNoError"
  using read_big_endian_length [of "info_bytes (unat i)" 0 "m_it r"]
  by (auto simp: readVariadicLengthInteger_eq split: if_splits prod.splits)

lemma decodeCBOR_sound: "decodes_soundly l (decodeCBOR l)"
proof (induction "nat (l + 1)" arbitrary: l rule: less_induct)
  case less
  show ?case unfolding decodes_soundly_def
  proof
    fix r :: cbor_reader
    consider "l < 0 \<or> 16 < l" | "0 \<le> l" "l \<le> 16" "m_it r = []" | b it where "0 \<le> l" "l \<le> 16" "m_it r = b # it"
      by (cases "m_it r") force+
    then show "case decodeCBOR l r of None \<Rightarrow> StringImpl_MaxLength < length (m_it r) | Some x \<Rightarrow> decoded l r x"
    proof cases
      case 1
      then show ?thesis by (simp add: decodeCBOR_level decoded_def)
    next
      case 2
      then show ?thesis by (simp add: decodeCBOR_empty decoded_def)
    next
      case (3 b it)
      have rec: "decodes_soundly (l - 1) (decodeCBOR (l - 1))" using 3(1) by (intro less) simp
      obtain e r1 where rd: "readVariadicLengthInteger (getAdditionalInfo b) (r\<lparr>m_it := it\<rparr>) = (e, r1)" by fastforce
      show ?thesis
      proof (cases e)
        case None
        then show ?thesis using readVariadicLengthInteger_None [of "getAdditionalInfo b" "r\<lparr>m_it := it\<rparr>" r1] rd 3
          by (simp add: decodeCBOR_Cons decoded_def)
      next
        case (Some v)
        let ?m = "unat (getMajorType b)"
        have head: "m_it r = cbor_head ?m (unat v) @ m_it r1" "m_errorCode r1 = m_errorCode r"
          using read_head_sound [OF rd [unfolded Some] refl] 3(3) by simp_all
        have len: "length (m_it r1) \<le> length (m_it r)" using head(1) by simp
        have code: "decodeCBOR l r = decode_major l ?m (unat v) r1" using 3 rd Some by (simp add: decodeCBOR_Cons)
        have "unat v < 2 ^ 64" using unsigned_less [of v, where 'a = nat] by simp
        note sound = decode_major_sound [OF rec 3(1) this, where m = ?m and r = r1]
        consider "decode_major l ?m (unat v) r1 = None" | r' where "decode_major l ?m (unat v) r1 = Some (None, r')"
          | w r' where "decode_major l ?m (unat v) r1 = Some (Some w, r')" by (metis not_None_eq surj_pair)
        then show ?thesis
        proof cases
          case 1
          then show ?thesis unfolding code using sound len by simp
        next
          case 2
          then show ?thesis unfolding code using sound len by (simp add: decoded_def)
        next
          case (3 w r')
          then have w: "cbor_wf w" "int (cbor_depth w) \<le> l" "m_errorCode r' = m_errorCode r1" "m_it r = cbor_bytes w @ m_it r'"
            using sound head(1) by simp_all
          then show ?thesis unfolding code 3 using head(2) by (simp add: decoded_def)
        qed
      qed
    qed
  qed
qed

section \<open>Completeness of the reader\<close>

lemma decodeCBOR_head:
  assumes "0 \<le> l" "l \<le> 16" "m < 8" "n < 2 ^ 64" "m_it r = cbor_head m n @ rest"
  shows "decodeCBOR l r = decode_major l m n (r\<lparr>m_it := rest\<rparr>)"
proof -
  obtain b it where b: "m_it r = b # it" using assms(5) unfolding cbor_head_info by simp
  have eq: "b # it = cbor_head m n @ rest" using b assms(5) by simp
  have it: "m_it (r\<lparr>m_it := it\<rparr>) = it" by simp
  note rd = read_head_complete [OF assms(4,3) eq it]
  show ?thesis unfolding decodeCBOR_Cons [of l r b it, OF assms(1,2) b] rd(1,2) by (simp add: unat_len [OF assms(4)])
qed

lemma readCBORArray_complete:
  assumes "\<And>v r rest. v \<in> set vs \<Longrightarrow> m_it r = cbor_bytes v @ rest \<Longrightarrow> dec r = Some (Some v, r\<lparr>m_it := rest\<rparr>)"
    "m_it r = concat (map cbor_bytes vs) @ rest"
  shows "readCBORArray dec (length vs) acc r = Some (Some (CArray (acc @ vs)), r\<lparr>m_it := rest\<rparr>)"
  using assms
proof (induction vs arbitrary: acc r)
  case Nil
  then show ?case by (simp add: readCBORArray.simps [of _ 0])
next
  case (Cons v vs)
  have "dec r = Some (Some v, r\<lparr>m_it := concat (map cbor_bytes vs) @ rest\<rparr>)" using Cons.prems(2) by (intro Cons.prems(1)) simp_all
  moreover have "readCBORArray dec (length vs) (acc @ [v]) (r\<lparr>m_it := concat (map cbor_bytes vs) @ rest\<rparr>) =
      Some (Some (CArray ((acc @ [v]) @ vs)), r\<lparr>m_it := concat (map cbor_bytes vs) @ rest\<rparr>\<lparr>m_it := rest\<rparr>)"
    using Cons.prems(1) by (intro Cons.IH) simp_all
  ultimately show ?case by (simp add: readCBORArray.simps [of _ "Suc (length vs)"])
qed

lemma readCBORMap_complete:
  assumes "\<And>k v r rest. (k, v) \<in> set m \<Longrightarrow> (m_it r = cbor_bytes k @ rest \<longrightarrow> dec r = Some (Some k, r\<lparr>m_it := rest\<rparr>))
      \<and> (m_it r = cbor_bytes v @ rest \<longrightarrow> dec r = Some (Some v, r\<lparr>m_it := rest\<rparr>))"
    "m_it r = concat (map (\<lambda>(k, v). cbor_bytes k @ cbor_bytes v) m) @ rest" "std_sorted CTAPLess is_key (acc @ m)"
  shows "readCBORMap dec (length m) acc r = Some (Some (CMap (acc @ m)), r\<lparr>m_it := rest\<rparr>)"
  using assms
proof (induction m arbitrary: acc r)
  case Nil
  then show ?case by (simp add: readCBORMap.simps [of _ 0])
next
  case (Cons e m)
  obtain k v where e: "e = (k, v)" by (cases e)
  let ?rest = "concat (map (\<lambda>(k, v). cbor_bytes k @ cbor_bytes v) m) @ rest"
  have k: "dec r = Some (Some k, r\<lparr>m_it := cbor_bytes v @ ?rest\<rparr>)" using Cons.prems(1) [of k v r] Cons.prems(2) e by simp
  have v: "dec (r\<lparr>m_it := cbor_bytes v @ ?rest\<rparr>) = Some (Some v, r\<lparr>m_it := cbor_bytes v @ ?rest\<rparr>\<lparr>m_it := ?rest\<rparr>)"
    using Cons.prems(1) [of k v "r\<lparr>m_it := cbor_bytes v @ ?rest\<rparr>"] e by simp
  have sorted: "std_sorted CTAPLess is_key ((acc @ [(k, v)]) @ m)" using Cons.prems(3) e by simp
  then have s: "std_sorted CTAPLess is_key (acc @ [(k, v)])" "is_key k" by (auto simp: std_sorted_def sorted_wrt_append)
  then have acc: "std_sorted CTAPLess is_key acc" "acc = [] \<or> CTAPLess (fst (last acc)) k" unfolding ctap.sorted_snoc by simp_all
  have asym: "acc = [] \<or> \<not> CTAPLess k (fst (last acc))"
    using acc ctap.less_asym ctap.sorted_keys [OF acc(1)] s(2) last_in_set by blast
  then have "std_find CTAPLess k acc = None" using ctap.above_last [OF acc(1) s(2)] acc(2) by (cases "acc = []") simp_all
  moreover have "isString k \<or> isInteger k" using s(2) by (auto simp: is_key_def)
  moreover have "std_emplace CTAPLess k v acc = acc @ [(k, v)]" using s(1) by (rule ctap.emplace_above_last)
  ultimately have "readCBORMap dec (Suc (length m)) acc r = readCBORMap dec (length m) (acc @ [(k, v)]) (r\<lparr>m_it := ?rest\<rparr>)"
    using k v asym by (auto simp: readCBORMap.simps [of _ "Suc (length m)"] checkDuplicateKey_def checkOutOfOrderKey_def)
  moreover have "readCBORMap dec (length m) (acc @ [(k, v)]) (r\<lparr>m_it := ?rest\<rparr>) =
      Some (Some (CMap ((acc @ [(k, v)]) @ m)), r\<lparr>m_it := ?rest\<rparr>\<lparr>m_it := rest\<rparr>)"
    by (rule Cons.IH, rule Cons.prems(1)) (use sorted in simp_all)
  ultimately show ?case using e by simp
qed

lemma unsigned_lt: "0 \<le> sint i \<Longrightarrow> unat i < 2 ^ 63" for i :: u64
proof -
  assume s: "0 \<le> sint i"
  have "sint i < 2 ^ 63" using sint_lt [of i] by simp
  moreover have "take_bit LENGTH(64) (sint i) = sint i"
    by (rule take_bit_int_eq_self [OF s]) (rule less_trans [OF calculation], simp)
  then have "uint i = sint i" unfolding uint_sint [of i] .
  ultimately have "int (unat i) < 2 ^ 63" by (simp only: uint_nat)
  then show ?thesis using of_nat_less_iff [of "unat i" "2 ^ 63", where 'a = int] by simp
qed

lemma negative_lt:
  fixes i :: u64
  assumes "sint i < 0"
  shows "unat (- (i + 1)) < 2 ^ 63"
proof (rule unsigned_lt)
  have r: "- (2 ^ 63) \<le> sint i" using sint_ge [of i] by simp
  have "- (i + 1) = word_of_int (- (sint i + 1))" by simp
  then have "sint (- (i + 1)) = sint (word_of_int (- (sint i + 1)) :: u64)" by (rule arg_cong)
  also have "\<dots> = signed_take_bit (LENGTH(64) - 1) (- (sint i + 1))" by (rule sint_sbintrunc')
  also have "\<dots> = - (sint i + 1)" using r assms by (simp add: signed_take_bit_int_eq_self)
  finally show "0 \<le> sint (- (i + 1))" using assms by simp
qed

lemma simple_head_info: "head_info (simple_code s) = simple_code s" "simple_code s < 2 ^ 64"
  by (cases s; simp add: head_info_def)+

lemma readSimpleValue_complete: "readSimpleValue (of_nat (head_info (simple_code s))) (of_nat (simple_code s)) r = (Some (CSimple s), r)"
  unfolding simple_head_info by (cases s) (simp_all add: readSimpleValue_def word_less_nat_alt)

lemma member_length: "v \<in> set vs \<Longrightarrow> length (f v) \<le> length (concat (map f vs))"
  by (induction vs) auto

lemma decodeCBOR_complete:
  assumes "cbor_wf v" "int (cbor_depth v) \<le> l" "l \<le> 16" "m_it r = cbor_bytes v @ rest" "length (cbor_bytes v) \<le> StringImpl_MaxLength"
  shows "decodeCBOR l r = Some (Some v, r\<lparr>m_it := rest\<rparr>)"
  using assms
proof (induction v arbitrary: l r rest)
  case CNone
  then show ?case by simp
next
  case (CUnsigned i)
  then have lt: "unat i < 2 ^ 63" by (intro unsigned_lt) simp
  then have lt': "unat i < 2 ^ 64" by simp
  have "decodeCBOR l r = decode_major l 0 (unat i) (r\<lparr>m_it := rest\<rparr>)" using CUnsigned lt' by (intro decodeCBOR_head) simp_all
  then show ?case using decodeValueToUnsigned_eq [OF lt', of "r\<lparr>m_it := rest\<rparr>"] lt by (simp add: decode_major_def)
next
  case (CNegative i)
  then have lt: "unat (- (i + 1)) < 2 ^ 63" by (intro negative_lt) simp
  then have lt': "unat (- (i + 1)) < 2 ^ 64" by simp
  have "decodeCBOR l r = decode_major l 1 (unat (- (i + 1))) (r\<lparr>m_it := rest\<rparr>)" using CNegative lt' by (intro decodeCBOR_head) simp_all
  moreover have "of_nat (unat (- (i + 1))) = - (i + 1)" by (rule word_of_unat)
  then have "- of_nat (unat (- (i + 1))) - 1 = i" by simp
  ultimately show ?case using decodeValueToNegative_eq [OF lt', of "r\<lparr>m_it := rest\<rparr>"] lt by (simp only: decode_major_def) simp
next
  case (CByteString bs)
  then have "decodeCBOR l r = decode_major l 2 (length bs) (r\<lparr>m_it := bs @ rest\<rparr>)" by (intro decodeCBOR_head) simp_all
  then show ?case using CByteString.prems(1) by (simp add: decode_major_def readBytes_eq)
next
  case (CString s)
  let ?bs = "utf8_encoding (scalars_of s)"
  have s: "utf16_encoding (scalars_of s) = s" "length ?bs < 2 ^ 64" using CString.prems(1) by (simp_all add: well_formed_utf16_def)
  have code: "decodeCBOR l r = decode_major l 3 (length ?bs) (r\<lparr>m_it := ?bs @ rest\<rparr>)" using CString by (intro decodeCBOR_head) simp_all
  have fits: "length ?bs \<le> StringImpl_MaxLength" using CString.prems(5) by simp
  have dec: "fromUTF8Impl False ?bs = Some (Some s)" unfolding fromUTF8Impl_iff [OF fits] using s(1) scalars_scalars_of by metis
  have ne: "s = [] \<Longrightarrow> ?bs = []" by simp
  have z: "(of_nat (length ?bs) :: u64) = 0 \<longleftrightarrow> length ?bs = 0" using unat_len [OF s(2)] by (auto simp flip: unat_eq_zero)
  have "readString (of_nat (length ?bs)) (r\<lparr>m_it := ?bs @ rest\<rparr>) = Some (Some (CString s), r\<lparr>m_it := rest\<rparr>)"
    using unat_len [OF s(2)] dec ne z by (auto simp: readString_def canConsume_def hasValidUTF8Format_def Let_def)
  then show ?case unfolding code by (simp add: decode_major_def)
next
  case (CArray vs)
  have l: "0 \<le> l" using CArray.prems(2) by linarith
  have deep: "\<forall>v \<in> set vs. int (cbor_depth v) \<le> l - 1" using depth_elements [of vs l] CArray.prems(2) by (cases "vs = []") simp_all
  let ?it = "concat (map cbor_bytes vs) @ rest"
  have "decodeCBOR l r = decode_major l 4 (length vs) (r\<lparr>m_it := ?it\<rparr>)" using CArray.prems l by (intro decodeCBOR_head) simp_all
  moreover have "readCBORArray (decodeCBOR (l - 1)) (length vs) [] (r\<lparr>m_it := ?it\<rparr>) = Some (Some (CArray ([] @ vs)), r\<lparr>m_it := ?it\<rparr>\<lparr>m_it := rest\<rparr>)"
  proof (rule readCBORArray_complete)
    fix v and r :: cbor_reader and rest
    assume v: "v \<in> set vs" "m_it r = cbor_bytes v @ rest"
    have "length (cbor_bytes v) \<le> StringImpl_MaxLength" using member_length [OF v(1), of cbor_bytes] CArray.prems(5) by simp
    then show "decodeCBOR (l - 1) r = Some (Some v, r\<lparr>m_it := rest\<rparr>)"
      using CArray.prems(1,3) deep v by (intro CArray.IH) (simp_all add: list_all_iff)
  qed simp
  ultimately show ?case by (simp add: decode_major_def)
next
  case (CMap m)
  let ?f = "\<lambda>(k, v). cbor_bytes k @ cbor_bytes v"
  have l: "0 \<le> l" using CMap.prems(2) by linarith
  have deep: "\<forall>(k, v) \<in> set m. int (cbor_depth k) \<le> l - 1 \<and> int (cbor_depth v) \<le> l - 1"
    using depth_entries [of m l] CMap.prems(2) by (cases "m = []") simp_all
  let ?it = "concat (map ?f m) @ rest"
  have "decodeCBOR l r = decode_major l 5 (length m) (r\<lparr>m_it := ?it\<rparr>)" using CMap.prems l by (intro decodeCBOR_head) simp_all
  moreover have "readCBORMap (decodeCBOR (l - 1)) (length m) [] (r\<lparr>m_it := ?it\<rparr>) = Some (Some (CMap ([] @ m)), r\<lparr>m_it := ?it\<rparr>\<lparr>m_it := rest\<rparr>)"
  proof (rule readCBORMap_complete)
    fix k v and r :: cbor_reader and rest
    assume kv: "(k, v) \<in> set m"
    have "length (?f (k, v)) \<le> length (concat (map ?f m))" using kv by (rule member_length)
    then have len: "length (cbor_bytes k) \<le> StringImpl_MaxLength" "length (cbor_bytes v) \<le> StringImpl_MaxLength"
      using CMap.prems(5) by simp_all
    have kd: "int (cbor_depth k) \<le> l - 1 \<and> int (cbor_depth v) \<le> l - 1" using deep kv by blast
    have wf: "cbor_wf k \<and> cbor_wf v" using CMap.prems(1) kv by (auto simp: list_all_iff)
    have "k \<in> Basic_BNFs.fsts (k, v)" "v \<in> Basic_BNFs.snds (k, v)" by (simp_all add: fsts.simps snds.simps)
    then show "(m_it r = cbor_bytes k @ rest \<longrightarrow> decodeCBOR (l - 1) r = Some (Some k, r\<lparr>m_it := rest\<rparr>))
      \<and> (m_it r = cbor_bytes v @ rest \<longrightarrow> decodeCBOR (l - 1) r = Some (Some v, r\<lparr>m_it := rest\<rparr>))"
      using CMap.IH [OF kv, of k "l - 1" r rest] CMap.IH [OF kv, of v "l - 1" r rest] len kd wf CMap.prems(3) by linarith
  qed (use CMap.prems(1) in simp_all)
  ultimately show ?case by (simp add: decode_major_def)
next
  case (CSimple s)
  then have "decodeCBOR l r = decode_major l 7 (simple_code s) (r\<lparr>m_it := rest\<rparr>)"
    using simple_head_info(2) by (intro decodeCBOR_head) simp_all
  then show ?case using readSimpleValue_complete by (simp add: decode_major_def)
qed

end
