(* ===== verification/CBORCodec.thy ===== *)
theory CBORCodec
  imports CBORReader
begin

text \<open>
  The reader and the writer together: what \<open>read\<close> accepts (\<open>cbor_read_iff\<close>), that it never crashes on data of string
  length (\<open>cbor_read_total\<close>), the interpretation \<open>cbor\<close> of \<open>codec\<close>, deep copies, and the behaviour at some boundaries.
\<close>


section \<open>The reader and the writer\<close>

definition start :: "u8 list \<Rightarrow> cbor_reader" where "start data = \<lparr>m_it = data, m_errorCode = CBORNoError\<rparr>"

lemma cbor_read_start: "cbor_read data l =
    (case decodeCBOR l (start data) of
       None \<Rightarrow> None
     | Some (None, r) \<Rightarrow> Some (None, m_errorCode r)
     | Some (Some v, r) \<Rightarrow>
         Some (if m_it r \<noteq> [] then (None, ExtraneousData)
               else if m_errorCode r \<noteq> CBORNoError then (None, m_errorCode r) else (Some v, CBORNoError)))"
  by (auto simp: cbor_read_def start_def checkExtraneousData_def Let_def split: option.split)

lemma cbor_read_total:
  assumes "length data \<le> StringImpl_MaxLength"
  shows "\<exists>x e. cbor_read data l = Some (x, e) \<and> (x = None \<longleftrightarrow> e \<noteq> CBORNoError)"
proof (cases "decodeCBOR l (start data)")
  case None
  then show ?thesis using decodes_soundlyD(1) [OF decodeCBOR_sound None] assms by (simp add: start_def)
next
  case (Some y)
  obtain x r where y: "y = (x, r)" by (cases y)
  have d: "decoded l (start data) (x, r)" using decodes_soundlyD(2) [OF decodeCBOR_sound Some] y by simp
  show ?thesis
  proof (cases x)
    case None
    then show ?thesis using Some y d by (simp add: cbor_read_start decoded_def)
  next
    case (Some v)
    then show ?thesis using \<open>decodeCBOR l (start data) = Some y\<close> y d by (simp add: cbor_read_start decoded_def start_def)
  qed
qed

lemma cbor_read_iff:
  assumes "length data \<le> StringImpl_MaxLength"
  shows "cbor_read data l = Some (Some v, e) \<longleftrightarrow>
    cbor_wf v \<and> int (cbor_depth v) \<le> l \<and> l \<le> 16 \<and> data = cbor_bytes v \<and> e = CBORNoError"
proof
  assume rd: "cbor_read data l = Some (Some v, e)"
  then obtain x r where dec: "decodeCBOR l (start data) = Some (x, r)" by (auto simp: cbor_read_start split: option.splits)
  then have x: "x = Some v" "m_it r = []" "e = CBORNoError" using rd by (auto simp: cbor_read_start split: option.splits if_splits)
  have "decoded l (start data) (x, r)" using decodes_soundlyD(2) [OF decodeCBOR_sound dec] .
  moreover have "l \<le> 16" using dec x(1) decodeCBOR_level [of l "start data"] by (cases "l \<le> 16") simp_all
  ultimately show "cbor_wf v \<and> int (cbor_depth v) \<le> l \<and> l \<le> 16 \<and> data = cbor_bytes v \<and> e = CBORNoError"
    using x by (simp add: decoded_def start_def)
next
  assume v: "cbor_wf v \<and> int (cbor_depth v) \<le> l \<and> l \<le> 16 \<and> data = cbor_bytes v \<and> e = CBORNoError"
  then have "decodeCBOR l (start data) = Some (Some v, start data\<lparr>m_it := []\<rparr>)"
    using assms by (intro decodeCBOR_complete) (simp_all add: start_def)
  then show "cbor_read data l = Some (Some v, e)" using v by (simp add: cbor_read_start start_def)
qed

lemma utf8_fits: "utf8 s LenientConversion = Some bs \<Longrightarrow> length s \<le> utf8_limit"
  by (auto simp: utf8_def tryGetUTF8ForCharacters_def utf8_limit_def split: option.splits sum.splits if_splits)

lemma encode_elements_fit:
  "(\<And>v buf b. v \<in> set vs \<Longrightarrow> encodeCBOR v l buf = Some (True, b) \<Longrightarrow> strings_fit v) \<Longrightarrow>
    encode_elements vs l buf = Some (True, b) \<Longrightarrow> list_all strings_fit vs"
proof (induction vs arbitrary: buf)
  case (Cons v vs)
  from Cons.prems(2) obtain b1 where b1: "encodeCBOR v l buf = Some (True, b1)" "encode_elements vs l b1 = Some (True, b)"
    by (auto split: option.splits if_splits)
  have "list_all strings_fit vs" by (rule Cons.IH [OF Cons.prems(1) b1(2)]) simp_all
  moreover have "strings_fit v" using Cons.prems(1) [OF _ b1(1)] by simp
  ultimately show ?case by simp
qed simp

lemma encode_entries_fit:
  "(\<And>k v buf b. (k, v) \<in> set m \<Longrightarrow> (encodeCBOR k l buf = Some (True, b) \<longrightarrow> strings_fit k) \<and> (encodeCBOR v l buf = Some (True, b) \<longrightarrow> strings_fit v)) \<Longrightarrow>
    encode_entries m l buf = Some (True, b) \<Longrightarrow> list_all (\<lambda>(k, v). strings_fit k \<and> strings_fit v) m"
proof (induction m arbitrary: buf)
  case (Cons e m)
  obtain k v where e: "e = (k, v)" by (cases e)
  from Cons.prems(2) e obtain b1 b2 where b1: "encodeCBOR k l buf = Some (True, b1)" "encodeCBOR v l b1 = Some (True, b2)"
    "encode_entries m l b2 = Some (True, b)"
    by (auto split: option.splits if_splits)
  have "list_all (\<lambda>(k, v). strings_fit k \<and> strings_fit v) m" by (rule Cons.IH [OF Cons.prems(1) b1(3)]) simp_all
  moreover have "strings_fit k" "strings_fit v" using Cons.prems(1) [of k v buf b1] Cons.prems(1) [of k v b1 b2] b1 e by simp_all
  ultimately show ?case using e by simp
qed simp

lemma encodeCBOR_fit: "encodeCBOR v l buf = Some (True, b) \<Longrightarrow> strings_fit v"
proof (induction v arbitrary: l buf b)
  case (CString s)
  then show ?case using utf8_fits by (auto simp: encodeCBOR.simps(1) split: if_splits option.splits)
next
  case (CArray vs)
  then have "encode_elements vs (l - 1) (startItem TArray (of_nat (length vs)) buf) = Some (True, b)"
    by (simp add: encodeCBOR.simps(1) [of "CArray vs"] split: if_splits)
  from encode_elements_fit [OF _ this] have "list_all strings_fit vs" using CArray.IH by blast
  then show ?case by simp
next
  case (CMap m)
  then have "encode_entries m (l - 1) (startItem TMap (of_nat (length m)) buf) = Some (True, b)"
    by (simp add: encodeCBOR.simps(1) [of "CMap m"] split: if_splits)
  moreover have "(encodeCBOR k l' buf = Some (True, b) \<longrightarrow> strings_fit k) \<and> (encodeCBOR v l' buf = Some (True, b) \<longrightarrow> strings_fit v)"
    if "(k, v) \<in> set m" for k v l' buf b
    using CMap.IH [OF that, of k l' buf b] CMap.IH [OF that, of v l' buf b] by (simp add: fsts.simps snds.simps)
  ultimately show ?case using encode_entries_fit [of m "l - 1"] by simp
qed simp_all

lemma bytes_fit: "cbor_wf v \<Longrightarrow> length (cbor_bytes v) \<le> utf8_limit \<Longrightarrow> strings_fit v"
proof (induction v)
  case (CString s)
  have "length (utf16_encoding (scalars_of s)) \<le> length (utf8_encoding (scalars_of s))" by (rule utf16_shorter)
  then show ?case using CString by (simp add: well_formed_utf16_def)
next
  case (CArray vs)
  have "length (cbor_bytes v) \<le> utf8_limit" if "v \<in> set vs" for v using member_length [OF that, of cbor_bytes] CArray.prems(2) by simp
  then show ?case using CArray by (simp add: list_all_iff)
next
  case (CMap m)
  let ?f = "\<lambda>(k, v). cbor_bytes k @ cbor_bytes v"
  have "strings_fit k \<and> strings_fit v" if kv: "(k, v) \<in> set m" for k v
  proof -
    have "length (?f (k, v)) \<le> length (concat (map ?f m))" using kv by (rule member_length)
    then have "length (cbor_bytes k) \<le> utf8_limit" "length (cbor_bytes v) \<le> utf8_limit" using CMap.prems(2) by simp_all
    moreover have "cbor_wf k \<and> cbor_wf v" using CMap.prems(1) kv by (auto simp: list_all_iff)
    ultimately show ?thesis using CMap.IH [OF kv, of k] CMap.IH [OF kv, of v] by (simp add: fsts.simps snds.simps)
  qed
  then show ?case by (auto simp: list_all_iff)
qed simp_all

text \<open>The two functions with their default nesting limits, failures as \<open>None\<close>.\<close>

definition cbor_encode :: "cbor_value \<Rightarrow> u8 list option" where
  "cbor_encode v = (case cbor_write v kDefaultMaxNestingDepth of Some bs \<Rightarrow> bs | None \<Rightarrow> None)"

definition cbor_decode :: "u8 list \<Rightarrow> cbor_value option" where
  "cbor_decode data = (case cbor_read data kCBORMaxDepth of Some (v, _) \<Rightarrow> v | None \<Rightarrow> None)"

lemma cbor_decode_iff: "length data \<le> StringImpl_MaxLength \<Longrightarrow> cbor_decode data = Some v \<longleftrightarrow>
    cbor_wf v \<and> cbor_depth v \<le> 16 \<and> data = cbor_bytes v"
  using cbor_read_iff [of data 16 v CBORNoError] cbor_read_total [of data 16]
  by (auto simp: cbor_decode_def kCBORMaxDepth_def split: option.splits)

lemma cbor_encode_eq: "cbor_wf v \<Longrightarrow> strings_fit v \<Longrightarrow> cbor_encode v = (if cbor_depth v \<le> 16 then Some (cbor_bytes v) else None)"
  using cbor_write_eq [of v 16] by (simp add: cbor_encode_def kDefaultMaxNestingDepth_def)

lemma cbor_encode_fit: "cbor_encode v = Some bs \<Longrightarrow> strings_fit v"
  using encodeCBOR_fit by (auto simp: cbor_encode_def cbor_write_def split: option.splits if_splits)

interpretation cbor: codec cbor_encode cbor_decode cbor_wf "\<lambda>bs. length bs \<le> utf8_limit"
proof
  fix v bs
  assume v: "cbor_wf v" "cbor_encode v = Some bs" "length bs \<le> utf8_limit"
  then have "cbor_depth v \<le> 16" "bs = cbor_bytes v" using cbor_encode_eq [OF v(1) cbor_encode_fit [OF v(2)]] by (simp_all split: if_splits)
  then show "cbor_decode bs = Some v" using cbor_decode_iff [of bs v] v utf8_limit_le by simp
next
  fix bs v
  assume bs: "length bs \<le> utf8_limit" "cbor_decode bs = Some v"
  then have v: "cbor_wf v" "cbor_depth v \<le> 16" "bs = cbor_bytes v" using cbor_decode_iff [of bs v] utf8_limit_le by simp_all
  then have "strings_fit v" using bytes_fit bs(1) by blast
  then show "cbor_wf v \<and> cbor_encode v = Some bs" using cbor_encode_eq [OF v(1)] v by simp
qed

lemma cbor_canonical: "length bs \<le> utf8_limit \<Longrightarrow> cbor_decode bs = Some v \<longleftrightarrow> cbor_wf v \<and> cbor_encode v = Some bs"
  by (rule cbor.decode_iff)

section \<open>Copies\<close>

lemma fold_emplace_sorted:
  "std_sorted CTAPLess is_key (acc @ m) \<Longrightarrow> fold (\<lambda>(k, v) m. std_emplace CTAPLess k v m) m acc = acc @ m"
proof (induction m arbitrary: acc)
  case (Cons e m)
  then have s: "std_sorted CTAPLess is_key ((acc @ [e]) @ m)" by simp
  then have "std_sorted CTAPLess is_key (acc @ [e])" by (auto simp: std_sorted_def sorted_wrt_append)
  then have "std_emplace CTAPLess (fst e) (snd e) acc = acc @ [e]" using ctap.emplace_above_last [of acc "fst e" "snd e"] by simp
  then show ?case using Cons.IH [OF s] by (simp add: case_prod_unfold)
qed simp

lemma clone_wf: "cbor_wf v \<Longrightarrow> clone v = v"
proof (induction v)
  case (CArray vs)
  then show ?case by (simp add: list_all_iff map_idI)
next
  case (CMap m)
  have "map (\<lambda>(k, v). (clone k, clone v)) m = m"
  proof (rule map_idI)
    fix e
    assume e: "e \<in> set m"
    obtain k v where kv: "e = (k, v)" by (cases e)
    have "cbor_wf k \<and> cbor_wf v" using CMap.prems(1) e kv by (auto simp: list_all_iff)
    then show "(\<lambda>(k, v). (clone k, clone v)) e = e" using CMap.IH [OF e, of k] CMap.IH [OF e, of v] kv by (simp add: fsts.simps snds.simps)
  qed
  then show ?case using fold_emplace_sorted [of "[]" m] CMap.prems by (simp add: CBORValue_of_map_def)
qed (simp_all add: CBORValue_of_int64_def)

section \<open>Boundary behaviour\<close>

text \<open>The order of map keys counts UTF-16 units: the reader rejects a map with the string of more units first.\<close>

lemma cbor_read_longer_first:
  assumes "cbor_wf (CString a)" "cbor_wf x" "cbor_wf (CString b)" "cbor_wf y" "cbor_depth x < 16" "cbor_depth y < 16"
    "length b < length a"
    "length (cbor_bytes (CMap [(CString a, x), (CString b, y)])) \<le> StringImpl_MaxLength"
  shows "cbor_read (cbor_bytes (CMap [(CString a, x), (CString b, y)])) 16 = Some (None, OutOfOrderKey)"
proof -
  let ?A = "cbor_bytes (CString a)" and ?X = "cbor_bytes x" and ?B = "cbor_bytes (CString b)" and ?Y = "cbor_bytes y"
  let ?r = "\<lambda>it. \<lparr>m_it = it, m_errorCode = CBORNoError\<rparr>"
  have data: "cbor_bytes (CMap [(CString a, x), (CString b, y)]) = cbor_head 5 2 @ ?A @ ?X @ ?B @ ?Y" by (simp add: numeral_2_eq_2)
  have len: "length ?A \<le> StringImpl_MaxLength" "length ?X \<le> StringImpl_MaxLength" "length ?B \<le> StringImpl_MaxLength" "length ?Y \<le> StringImpl_MaxLength"
    using assms(8) unfolding data by simp_all
  have a: "decodeCBOR 15 (?r (?A @ rest)) = Some (Some (CString a), ?r rest)" for rest
    using decodeCBOR_complete [of "CString a" 15 "?r (?A @ rest)" rest] assms(1) len(1) by simp
  have x: "decodeCBOR 15 (?r (?X @ rest)) = Some (Some x, ?r rest)" for rest
    using decodeCBOR_complete [of x 15 "?r (?X @ rest)" rest] assms(2,5) len(2) by simp
  have b: "decodeCBOR 15 (?r (?B @ rest)) = Some (Some (CString b), ?r rest)" for rest
    using decodeCBOR_complete [of "CString b" 15 "?r (?B @ rest)" rest] assms(3) len(3) by simp
  have y: "decodeCBOR 15 (?r ?Y) = Some (Some y, ?r [])"
    using decodeCBOR_complete [of y 15 "?r ?Y" "[]"] assms(4,6) len(4) by simp
  have key: "isString (CString s)" for s by (simp add: isString_def isType_def)
  have "readCBORMap (decodeCBOR 15) 2 [] (?r (?A @ ?X @ ?B @ ?Y)) = readCBORMap (decodeCBOR 15) 1 [(CString a, x)] (?r (?B @ ?Y))"
    using a [of "?X @ ?B @ ?Y"] x [of "?B @ ?Y"] key [of a]
    by (simp add: readCBORMap.simps [of _ 2] checkDuplicateKey_def checkOutOfOrderKey_def del: cbor_bytes.simps)
  also have "\<dots> = Some (None, ?r []\<lparr>m_errorCode := OutOfOrderKey\<rparr>)"
    using b [of ?Y] y key [of b] assms(7)
    by (simp add: readCBORMap.simps [of _ "Suc 0"] checkDuplicateKey_def checkOutOfOrderKey_def del: cbor_bytes.simps)
  finally have "decode_major 16 5 2 (?r (?A @ ?X @ ?B @ ?Y)) = Some (None, ?r []\<lparr>m_errorCode := OutOfOrderKey\<rparr>)"
    by (simp add: decode_major_def del: cbor_bytes.simps)
  moreover have "decodeCBOR 16 (start (cbor_head 5 2 @ ?A @ ?X @ ?B @ ?Y)) = decode_major 16 5 2 (start (cbor_head 5 2 @ ?A @ ?X @ ?B @ ?Y)\<lparr>m_it := ?A @ ?X @ ?B @ ?Y\<rparr>)"
    by (rule decodeCBOR_head) (simp_all add: start_def)
  ultimately show ?thesis unfolding data cbor_read_start by (simp add: start_def)
qed

text \<open>The value \<open>CBORValue(Type::Negative)\<close> is written as an integer no reader accepts.\<close>

lemma cbor_default_negative:
  "cbor_write (CBORValue_of_type TNegative) 16 = Some (Some (cbor_head 1 (2 ^ 64 - 1)))"
  "cbor_read (cbor_head 1 (2 ^ 64 - 1)) 16 = Some (None, OutOfRangeIntegerValue)"
proof -
  have u: "unat (- 1 :: u64) = 2 ^ 64 - 1" by (simp add: unsigned_minus_1_eq_mask mask_eq_exp_minus_1)
  show "cbor_write (CBORValue_of_type TNegative) 16 = Some (Some (cbor_head 1 (2 ^ 64 - 1)))"
    using encode_primitive(2) [of 16 0 "[]"] u by (simp add: cbor_write_def)
  have "decodeCBOR 16 (start (cbor_head 1 (2 ^ 64 - 1) @ [])) = decode_major 16 1 (2 ^ 64 - 1) (start (cbor_head 1 (2 ^ 64 - 1) @ [])\<lparr>m_it := []\<rparr>)"
    by (rule decodeCBOR_head) (simp_all add: start_def)
  then have "decodeCBOR 16 (start (cbor_head 1 (2 ^ 64 - 1))) = Some (None, start (cbor_head 1 (2 ^ 64 - 1))\<lparr>m_it := [], m_errorCode := OutOfRangeIntegerValue\<rparr>)"
    using decodeValueToNegative_eq [of "2 ^ 64 - 1"] by (simp add: decode_major_def)
  then show "cbor_read (cbor_head 1 (2 ^ 64 - 1)) 16 = Some (None, OutOfRangeIntegerValue)" by (simp add: cbor_read_start)
qed

text \<open>A floating-point number whose bits are a small integer is reported as a non-minimal integer.\<close>

lemma cbor_float_zero: "cbor_read [0xF9, 0, 0] 16 = Some (None, NonMinimalCBOREncoding)"
proof -
  have i: "unat (getAdditionalInfo 0xF9) = 25" unfolding initial_byte by simp
  have "readVariadicLengthInteger (getAdditionalInfo 0xF9) (start [0xF9, 0, 0]\<lparr>m_it := [0, 0]\<rparr>) =
      (None, start [0xF9, 0, 0]\<lparr>m_it := [], m_errorCode := NonMinimalCBOREncoding\<rparr>)"
    unfolding readVariadicLengthInteger_eq i by (simp add: info_bytes_def head_info_def numeral_2_eq_2)
  then show ?thesis using decodeCBOR_Cons [of 16 "start [0xF9, 0, 0]" "0xF9" "[0, 0]"] by (simp add: cbor_read_start start_def)
qed

end
