(* ===== verification/Base64.thy ===== *)
theory Base64
  imports Prelude
begin

text \<open>
  Base64 and base64url, \<open>WTF/wtf/text/Base64.cpp\<close> and \<open>Base64.h\<close>: the tables, the size of an encoding in 32-bit
  arithmetic, the encoder over a destination of that size, and the decoder with its conversion in place. A write beyond the
  end of the destination is \<open>None\<close>; the code has only an assertion against it.
\<close>


section \<open>Tables\<close>

definition nonAlphabet :: u8 where
  "nonAlphabet = -1"

definition decodeMapSize :: nat where
  "decodeMapSize = 128"

definition base64EncMap :: "u8 list" where
  "base64EncMap =
    [0x41, 0x42, 0x43, 0x44, 0x45, 0x46, 0x47, 0x48,
     0x49, 0x4A, 0x4B, 0x4C, 0x4D, 0x4E, 0x4F, 0x50,
     0x51, 0x52, 0x53, 0x54, 0x55, 0x56, 0x57, 0x58,
     0x59, 0x5A, 0x61, 0x62, 0x63, 0x64, 0x65, 0x66,
     0x67, 0x68, 0x69, 0x6A, 0x6B, 0x6C, 0x6D, 0x6E,
     0x6F, 0x70, 0x71, 0x72, 0x73, 0x74, 0x75, 0x76,
     0x77, 0x78, 0x79, 0x7A, 0x30, 0x31, 0x32, 0x33,
     0x34, 0x35, 0x36, 0x37, 0x38, 0x39, 0x2B, 0x2F]"

definition base64DecMap :: "u8 list" where
  "base64DecMap =
    [nonAlphabet, nonAlphabet, nonAlphabet, nonAlphabet, nonAlphabet, nonAlphabet, nonAlphabet, nonAlphabet,
     nonAlphabet, nonAlphabet, nonAlphabet, nonAlphabet, nonAlphabet, nonAlphabet, nonAlphabet, nonAlphabet,
     nonAlphabet, nonAlphabet, nonAlphabet, nonAlphabet, nonAlphabet, nonAlphabet, nonAlphabet, nonAlphabet,
     nonAlphabet, nonAlphabet, nonAlphabet, nonAlphabet, nonAlphabet, nonAlphabet, nonAlphabet, nonAlphabet,
     nonAlphabet, nonAlphabet, nonAlphabet, nonAlphabet, nonAlphabet, nonAlphabet, nonAlphabet, nonAlphabet,
     nonAlphabet, nonAlphabet, nonAlphabet, 0x3E, nonAlphabet, nonAlphabet, nonAlphabet, 0x3F,
     0x34, 0x35, 0x36, 0x37, 0x38, 0x39, 0x3A, 0x3B,
     0x3C, 0x3D, nonAlphabet, nonAlphabet, nonAlphabet, nonAlphabet, nonAlphabet, nonAlphabet,
     nonAlphabet, 0x00, 0x01, 0x02, 0x03, 0x04, 0x05, 0x06,
     0x07, 0x08, 0x09, 0x0A, 0x0B, 0x0C, 0x0D, 0x0E,
     0x0F, 0x10, 0x11, 0x12, 0x13, 0x14, 0x15, 0x16,
     0x17, 0x18, 0x19, nonAlphabet, nonAlphabet, nonAlphabet, nonAlphabet, nonAlphabet,
     nonAlphabet, 0x1A, 0x1B, 0x1C, 0x1D, 0x1E, 0x1F, 0x20,
     0x21, 0x22, 0x23, 0x24, 0x25, 0x26, 0x27, 0x28,
     0x29, 0x2A, 0x2B, 0x2C, 0x2D, 0x2E, 0x2F, 0x30,
     0x31, 0x32, 0x33, nonAlphabet, nonAlphabet, nonAlphabet, nonAlphabet, nonAlphabet]"

definition base64URLEncMap :: "u8 list" where
  "base64URLEncMap =
    [0x41, 0x42, 0x43, 0x44, 0x45, 0x46, 0x47, 0x48,
     0x49, 0x4A, 0x4B, 0x4C, 0x4D, 0x4E, 0x4F, 0x50,
     0x51, 0x52, 0x53, 0x54, 0x55, 0x56, 0x57, 0x58,
     0x59, 0x5A, 0x61, 0x62, 0x63, 0x64, 0x65, 0x66,
     0x67, 0x68, 0x69, 0x6A, 0x6B, 0x6C, 0x6D, 0x6E,
     0x6F, 0x70, 0x71, 0x72, 0x73, 0x74, 0x75, 0x76,
     0x77, 0x78, 0x79, 0x7A, 0x30, 0x31, 0x32, 0x33,
     0x34, 0x35, 0x36, 0x37, 0x38, 0x39, 0x2D, 0x5F]"

definition base64URLDecMap :: "u8 list" where
  "base64URLDecMap =
    [nonAlphabet, nonAlphabet, nonAlphabet, nonAlphabet, nonAlphabet, nonAlphabet, nonAlphabet, nonAlphabet,
     nonAlphabet, nonAlphabet, nonAlphabet, nonAlphabet, nonAlphabet, nonAlphabet, nonAlphabet, nonAlphabet,
     nonAlphabet, nonAlphabet, nonAlphabet, nonAlphabet, nonAlphabet, nonAlphabet, nonAlphabet, nonAlphabet,
     nonAlphabet, nonAlphabet, nonAlphabet, nonAlphabet, nonAlphabet, nonAlphabet, nonAlphabet, nonAlphabet,
     nonAlphabet, nonAlphabet, nonAlphabet, nonAlphabet, nonAlphabet, nonAlphabet, nonAlphabet, nonAlphabet,
     nonAlphabet, nonAlphabet, nonAlphabet, nonAlphabet, nonAlphabet, 0x3E, nonAlphabet, nonAlphabet,
     0x34, 0x35, 0x36, 0x37, 0x38, 0x39, 0x3A, 0x3B,
     0x3C, 0x3D, nonAlphabet, nonAlphabet, nonAlphabet, nonAlphabet, nonAlphabet, nonAlphabet,
     nonAlphabet, 0x00, 0x01, 0x02, 0x03, 0x04, 0x05, 0x06,
     0x07, 0x08, 0x09, 0x0A, 0x0B, 0x0C, 0x0D, 0x0E,
     0x0F, 0x10, 0x11, 0x12, 0x13, 0x14, 0x15, 0x16,
     0x17, 0x18, 0x19, nonAlphabet, nonAlphabet, nonAlphabet, nonAlphabet, 0x3F,
     nonAlphabet, 0x1A, 0x1B, 0x1C, 0x1D, 0x1E, 0x1F, 0x20,
     0x21, 0x22, 0x23, 0x24, 0x25, 0x26, 0x27, 0x28,
     0x29, 0x2A, 0x2B, 0x2C, 0x2D, 0x2E, 0x2F, 0x30,
     0x31, 0x32, 0x33, nonAlphabet, nonAlphabet, nonAlphabet, nonAlphabet, nonAlphabet]"

section \<open>Encoding\<close>

datatype Base64EncodePolicy = DoNotInsertLFs | InsertLFs | URLPolicy

datatype Base64EncodeMap = EncodeDefault | EncodeURL

definition maximumBase64LineLengthWhenInsertingLFs :: nat where
  "maximumBase64LineLengthWhenInsertingLFs = 76"

definition maximumBase64EncoderInputBufferSize :: u32 where
  "maximumBase64EncoderInputBufferSize = -1 div 77 * 76 div 4 * 3 - 2"

definition calculateBase64EncodedSize :: "u32 \<Rightarrow> Base64EncodePolicy \<Rightarrow> u32" where
  "calculateBase64EncodedSize inputLength policy =
     (if inputLength = 0 then 0
      else if inputLength > maximumBase64EncoderInputBufferSize then 0
      else
        let basePaddedEncodedSize = (inputLength + 2) div 3 * 4;
            baseUnpaddedEncodedSize = (inputLength * 4 + 2) div 3
        in case policy of
             DoNotInsertLFs \<Rightarrow> basePaddedEncodedSize
           | InsertLFs \<Rightarrow>
               basePaddedEncodedSize
                 + (basePaddedEncodedSize - 1) div of_nat maximumBase64LineLengthWhenInsertingLFs
           | URLPolicy \<Rightarrow> baseUnpaddedEncodedSize)"

text \<open>
  The destination with the index of the next write; \<open>None\<close> is a write beyond its end.
\<close>

type_synonym destination = "u8 list \<times> nat"

fun put :: "u8 \<Rightarrow> destination \<Rightarrow> destination option" where
  "put c (buffer, didx) = (if didx < length buffer then Some (buffer[didx := c], didx + 1) else None)"

fun put_all :: "u8 list \<Rightarrow> destination \<Rightarrow> destination option" where
  "put_all [] d = Some d"
| "put_all (c # cs) d = Option.bind (put c d) (put_all cs)"

definition put_LF :: "bool \<Rightarrow> nat \<Rightarrow> destination \<Rightarrow> destination option" where
  "put_LF insertLFs count d =
     (if insertLFs \<and> count > 0 \<and> count mod maximumBase64LineLengthWhenInsertingLFs = 0 then put 0x0A d else Some d)"

definition encode_group :: "u8 list \<Rightarrow> u8 \<Rightarrow> u8 \<Rightarrow> u8 \<Rightarrow> u8 list" where
  "encode_group encodeMap b0 b1 b2 =
     [encodeMap ! unat (drop_bit 2 b0 AND 0x3F),
      encodeMap ! unat ((drop_bit 4 b1 AND 0xF) OR (push_bit 4 b0 AND 0x3F)),
      encodeMap ! unat ((drop_bit 6 b2 AND 0x3) OR (push_bit 2 b1 AND 0x3F)),
      encodeMap ! unat (b2 AND 0x3F)]"

text \<open>The loop over what is left of the input from \<open>sidx\<close> on, and the last one or two bytes.\<close>

fun encode_loop :: "u8 list \<Rightarrow> bool \<Rightarrow> u8 list \<Rightarrow> nat \<Rightarrow> destination \<Rightarrow> (u8 list \<times> nat \<times> destination) option" where
  "encode_loop encodeMap insertLFs (b0 # b1 # b2 # input) count d =
     Option.bind (put_LF insertLFs count d) (\<lambda>d.
       Option.bind (put_all (encode_group encodeMap b0 b1 b2) d)
         (encode_loop encodeMap insertLFs input (if insertLFs then count + 4 else count)))"
| "encode_loop encodeMap insertLFs input count d = Some (input, count, d)"

definition encode_tail :: "u8 list \<Rightarrow> u8 list \<Rightarrow> u8 list" where
  "encode_tail encodeMap input =
     encodeMap ! unat (drop_bit 2 (input ! 0) AND 0x3F) #
     (if 0 < length input - 1
      then [encodeMap ! unat ((drop_bit 4 (input ! 1) AND 0xF) OR (push_bit 4 (input ! 0) AND 0x3F)),
            encodeMap ! unat (push_bit 2 (input ! 1) AND 0x3F)]
      else [encodeMap ! unat (push_bit 4 (input ! 0) AND 0x3F)])"

function encode_padding :: "destination \<Rightarrow> u8 list" where
  "encode_padding (buffer, didx) =
     (if didx < length buffer then encode_padding (buffer[didx := 0x3D], didx + 1) else buffer)"
  by pat_completeness auto
termination by (relation "measure (\<lambda>(buffer, didx). length buffer - didx)") auto

definition base64EncodeInternal :: "u8 list \<Rightarrow> u8 list \<Rightarrow> Base64EncodePolicy \<Rightarrow> Base64EncodeMap \<Rightarrow> u8 list option" where
  "base64EncodeInternal inputDataBuffer destinationDataBuffer policy m =
     (let encodeMap = (if m = EncodeURL then base64URLEncMap else base64EncMap);
          insertLFs = (policy = InsertLFs \<and> length destinationDataBuffer > maximumBase64LineLengthWhenInsertingLFs)
      in case encode_loop encodeMap insertLFs inputDataBuffer 0 (destinationDataBuffer, 0) of
           None \<Rightarrow> None
         | Some (input, count, d) \<Rightarrow>
             map_option encode_padding
               (if input \<noteq> [] then Option.bind (put_LF insertLFs count d) (put_all (encode_tail encodeMap input))
                else Some d))"

definition base64Encode :: "u8 list \<Rightarrow> u8 list \<Rightarrow> Base64EncodePolicy \<Rightarrow> Base64EncodeMap \<Rightarrow> u8 list option" where
  "base64Encode input destination policy m =
     (if length destination = 0 then Some destination else base64EncodeInternal input destination policy m)"

definition base64EncodeToVector :: "u8 list \<Rightarrow> Base64EncodePolicy \<Rightarrow> Base64EncodeMap \<Rightarrow> u8 list option" where
  "base64EncodeToVector input policy m =
     (let destinationLength = calculateBase64EncodedSize (of_nat (length input)) policy
      in if destinationLength = 0 then Some []
         else base64EncodeInternal input (replicate (unat destinationLength) 0) policy m)"

definition base64EncodeToString :: "u8 list \<Rightarrow> Base64EncodePolicy \<Rightarrow> Base64EncodeMap \<Rightarrow> u8 list option" where
  "base64EncodeToString input policy m =
     (let m_encodedLength = calculateBase64EncodedSize (of_nat (length input)) policy
      in base64Encode input (replicate (unat m_encodedLength) 0) policy m)"

definition base64URLEncodeToVector :: "u8 list \<Rightarrow> u8 list option" where
  "base64URLEncodeToVector input = base64EncodeToVector input URLPolicy EncodeURL"

section \<open>Decoding\<close>

datatype Base64DecodeMap = DecodeDefault | DecodeURL

datatype Base64DecodeOptions = ValidatePadding | IgnoreSpacesAndNewLines | DiscardVerticalTab

definition isLatin1 :: "nat \<Rightarrow> bool" where
  "isLatin1 character = (character \<le> 0xFF)"

definition isASCIISpace :: "nat \<Rightarrow> bool" where
  "isASCIISpace character = (character \<le> 0x20 \<and> (character = 0x20 \<or> (character \<le> 0xD \<and> character \<ge> 0x9)))"

text \<open>The first loop: it collects the values of the characters, the first \<open>destinationLength\<close> entries of the vector.\<close>

fun decode_scan :: "Base64DecodeOptions set \<Rightarrow> u8 list \<Rightarrow> 'c::len word list \<Rightarrow> nat \<Rightarrow> u8 list \<Rightarrow> (nat \<times> u8 list) option" where
  "decode_scan options decodeMap [] equalsSignCount destination = Some (equalsSignCount, destination)"
| "decode_scan options decodeMap (c # cs) equalsSignCount destination =
     (let ch = unat c in
      if ch = 0x3D then
        if ValidatePadding \<in> options \<and> equalsSignCount + 1 > 2 then None
        else decode_scan options decodeMap cs (equalsSignCount + 1) destination
      else
        let decodedCharacter = (if ch < decodeMapSize then decodeMap ! ch else nonAlphabet) in
        if decodedCharacter \<noteq> nonAlphabet then
          if equalsSignCount \<noteq> 0 then None
          else decode_scan options decodeMap cs equalsSignCount (destination @ [decodedCharacter])
        else if IgnoreSpacesAndNewLines \<notin> options \<or>
            (\<not> isLatin1 ch \<or> \<not> isASCIISpace ch \<or> (DiscardVerticalTab \<in> options \<and> ch = 0x0B)) then None
        else decode_scan options decodeMap cs equalsSignCount destination)"

text \<open>The conversion of four 6-bit values to three bytes, in place.\<close>

definition first_octet :: "u8 list \<Rightarrow> nat \<Rightarrow> u8" where
  "first_octet d sidx = (push_bit 2 (d ! sidx) AND 255) OR (drop_bit 4 (d ! (sidx + 1)) AND 0x3)"

definition second_octet :: "u8 list \<Rightarrow> nat \<Rightarrow> u8" where
  "second_octet d sidx = (push_bit 4 (d ! (sidx + 1)) AND 255) OR (drop_bit 2 (d ! (sidx + 2)) AND 0xF)"

definition third_octet :: "u8 list \<Rightarrow> nat \<Rightarrow> u8" where
  "third_octet d sidx = (push_bit 6 (d ! (sidx + 2)) AND 255) OR (d ! (sidx + 3) AND 0x3F)"

function decode_loop :: "nat \<Rightarrow> u8 list \<Rightarrow> nat \<Rightarrow> nat \<Rightarrow> u8 list \<times> nat \<times> nat" where
  "decode_loop destinationLength d sidx didx =
     (if didx < destinationLength - 2 then
        let d = d[didx := first_octet d sidx];
            d = d[didx + 1 := second_octet d sidx];
            d = d[didx + 2 := third_octet d sidx]
        in decode_loop destinationLength d (sidx + 4) (didx + 3)
      else (d, sidx, didx))"
  by pat_completeness auto
termination by (relation "measure (\<lambda>(n, d, sidx, didx). n - didx)") auto

definition decode_convert :: "nat \<Rightarrow> u8 list \<Rightarrow> u8 list" where
  "decode_convert destinationLength d =
     (let (d, sidx, didx) = (if destinationLength > 1 then decode_loop destinationLength d 0 0 else (d, 0, 0));
          d = (if didx < destinationLength then d[didx := first_octet d sidx] else d);
          didx = didx + 1;
          d = (if didx < destinationLength then d[didx := second_octet d sidx] else d)
      in take destinationLength d)"

definition base64DecodeInternal :: "'c::len word list \<Rightarrow> Base64DecodeOptions set \<Rightarrow> Base64DecodeMap \<Rightarrow> u8 list option" where
  "base64DecodeInternal inputDataBuffer options m =
     (if length inputDataBuffer = 0 then Some []
      else
        let decodeMap = (if m = DecodeURL then base64URLDecMap else base64DecMap) in
        case decode_scan options decodeMap inputDataBuffer 0 [] of
          None \<Rightarrow> None
        | Some (equalsSignCount, destination) \<Rightarrow>
            let destinationLength = length destination in
            if destinationLength = 0 then if equalsSignCount \<noteq> 0 then None else Some []
            else if ValidatePadding \<in> options \<and> equalsSignCount \<noteq> 0 \<and> (destinationLength + equalsSignCount) mod 4 \<noteq> 0 then None
            else if destinationLength mod 4 = 1 then None
            else
              let destinationLength = destinationLength - (destinationLength + 3) div 4 in
              if destinationLength = 0 then None
              else Some (decode_convert destinationLength destination))"

definition base64Decode :: "u8 list \<Rightarrow> Base64DecodeOptions set \<Rightarrow> Base64DecodeMap \<Rightarrow> u8 list option" where
  "base64Decode input options m =
     (if length input > unat (-1 :: u32) then None else base64DecodeInternal input options m)"

datatype string_view = View8 "u8 list" | View16 "u16 list"

fun base64Decode_view :: "string_view \<Rightarrow> Base64DecodeOptions set \<Rightarrow> Base64DecodeMap \<Rightarrow> u8 list option" where
  "base64Decode_view (View8 characters8) options m = base64DecodeInternal characters8 options m"
| "base64Decode_view (View16 characters16) options m = base64DecodeInternal characters16 options m"

definition base64URLDecode :: "string_view \<Rightarrow> u8 list option" where
  "base64URLDecode input = base64Decode_view input {} DecodeURL"

definition isASCIIAlphanumeric :: "nat \<Rightarrow> bool" where
  "isASCIIAlphanumeric c = ((0x30 \<le> c \<and> c \<le> 0x39) \<or> (0x61 \<le> c OR 0x20 \<and> c OR 0x20 \<le> 0x7A))"

definition isBase64OrBase64URLCharacter :: "nat \<Rightarrow> bool" where
  "isBase64OrBase64URLCharacter c = (isASCIIAlphanumeric c \<or> c = 0x2B \<or> c = 0x2F \<or> c = 0x2D \<or> c = 0x5F)"

end
