(* ===== verification/Base64Encoder.thy ===== *)
theory Base64Encoder
  imports Base64
begin

text \<open>
  The encoder writes the text that RFC 4648 defines over the bits of the input, within its destination, up to a length that
  depends on the policy; beyond 1 GiB the size of an unpadded encoding wraps around and the encoder writes past the end.
\<close>


section \<open>The encoding as RFC 4648 defines it\<close>

text \<open>
  The input is one long string of bits, cut into groups of six; the last group is filled with zeros. Each group selects a
  letter of the alphabet.
\<close>

definition octet_bits :: "u8 \<Rightarrow> bool list" where
  "octet_bits b = map (bit b) [7, 6, 5, 4, 3, 2, 1, 0]"

definition sextet_bits :: "u8 \<Rightarrow> bool list" where
  "sextet_bits b = map (bit b) [5, 4, 3, 2, 1, 0]"

definition bits_value :: "bool list \<Rightarrow> nat" where
  "bits_value bs = foldl (\<lambda>n b. 2 * n + of_bool b) 0 bs"

fun sextets :: "bool list \<Rightarrow> nat list" where
  "sextets (a # b # c # d # e # f # bs) = bits_value [a, b, c, d, e, f] # sextets bs"
| "sextets [] = []"
| "sextets bs = [bits_value (take 6 (bs @ replicate 6 False))]"

fun octets :: "bool list \<Rightarrow> nat list" where
  "octets (a # b # c # d # e # f # g # h # bs) = bits_value [a, b, c, d, e, f, g, h] # octets bs"
| "octets bs = []"

definition bits_of :: "u8 list \<Rightarrow> bool list" where
  "bits_of input = concat (map octet_bits input)"

definition pad4 :: "u8 list \<Rightarrow> u8 list" where
  "pad4 cs = cs @ replicate ((4 - length cs mod 4) mod 4) 0x3D"

fun break_lines :: "nat \<Rightarrow> u8 list \<Rightarrow> u8 list" where
  "break_lines column [] = []"
| "break_lines column (c # cs) = (if column = 76 then 0x0A # c # break_lines 1 cs else c # break_lines (column + 1) cs)"

definition alphabet :: "Base64EncodeMap \<Rightarrow> u8 list" where
  "alphabet m = (case m of EncodeDefault \<Rightarrow> base64EncMap | EncodeURL \<Rightarrow> base64URLEncMap)"

definition base64_text :: "Base64EncodePolicy \<Rightarrow> Base64EncodeMap \<Rightarrow> u8 list \<Rightarrow> u8 list" where
  "base64_text policy m input =
     (let letters = map ((!) (alphabet m)) (sextets (bits_of input)) in
      case policy of DoNotInsertLFs \<Rightarrow> pad4 letters | InsertLFs \<Rightarrow> break_lines 0 (pad4 letters) | URLPolicy \<Rightarrow> letters)"

section \<open>Groups of bits\<close>

lemma bits_of_simps [simp]:
  "bits_of [] = []" "bits_of (b # bs) = octet_bits b @ bits_of bs"
  by (simp_all add: bits_of_def)

lemma bits_value_append: "bits_value (bs @ [b]) = 2 * bits_value bs + of_bool b"
  by (simp add: bits_value_def)

lemma bits_value_eqI:
  fixes w :: u8
  assumes "\<And>n. n < length bs \<Longrightarrow> bit w n = rev bs ! n" and "\<And>n. length bs \<le> n \<Longrightarrow> \<not> bit w n"
  shows "bits_value bs = unat w"
  using assms
proof (induction bs arbitrary: w rule: rev_induct)
  case Nil
  then have "w = 0"
    by (intro bit_word_eqI) simp
  then show ?case
    by (simp add: bits_value_def)
next
  case (snoc b bs)
  have "bit (drop_bit 1 w) n = rev bs ! n" if "n < length bs" for n
    using snoc.prems(1) [of "Suc n"] that by (simp add: bit_drop_bit_eq)
  moreover have "\<not> bit (drop_bit 1 w) n" if "length bs \<le> n" for n
    using snoc.prems(2) [of "Suc n"] that by (simp add: bit_drop_bit_eq)
  ultimately have "bits_value bs = unat (drop_bit 1 w)"
    by (rule snoc.IH)
  moreover have "bit w 0 = b"
    using snoc.prems(1) [of 0] by simp
  moreover have "unat w = 2 * (unat w div 2) + of_bool (bit w 0)"
    by (simp add: odd_unat_iff [symmetric])
  ultimately show ?case
    by (simp add: bits_value_append unat_drop_bit_div)
qed

lemma bits_value_6:
  fixes w :: u8
  assumes "bit w 0 = a0" "bit w 1 = a1" "bit w 2 = a2" "bit w 3 = a3" "bit w 4 = a4" "bit w 5 = a5"
    and "\<And>n. 6 \<le> n \<Longrightarrow> \<not> bit w n"
  shows "bits_value [a5, a4, a3, a2, a1, a0] = unat w"
proof (rule bits_value_eqI)
  fix n
  assume "n < length [a5, a4, a3, a2, a1, a0]"
  then have "n \<in> {0, 1, 2, 3, 4, 5}"
    by auto
  then show "bit w n = rev [a5, a4, a3, a2, a1, a0] ! n"
    by (elim insertE emptyE) (simp_all add: assms assms(2) [simplified])
qed (use assms(7) in simp)

lemma bits_value_8:
  fixes w :: u8
  assumes "bit w 0 = a0" "bit w 1 = a1" "bit w 2 = a2" "bit w 3 = a3" "bit w 4 = a4" "bit w 5 = a5" "bit w 6 = a6" "bit w 7 = a7"
  shows "bits_value [a7, a6, a5, a4, a3, a2, a1, a0] = unat w"
proof (rule bits_value_eqI)
  fix n
  assume "n < length [a7, a6, a5, a4, a3, a2, a1, a0]"
  then have "n \<in> {0, 1, 2, 3, 4, 5, 6, 7}"
    by auto
  then show "bit w n = rev [a7, a6, a5, a4, a3, a2, a1, a0] ! n"
    by (elim insertE emptyE) (simp_all add: assms assms(2) [simplified])
next
  fix n
  assume "length [a7, a6, a5, a4, a3, a2, a1, a0] \<le> n"
  then show "\<not> bit w n"
    using bit_imp_le_length [of w n] by auto
qed

lemma u8_masks:
  "(0x3F :: u8) = mask 6" "(0xF :: u8) = mask 4" "(0x3 :: u8) = mask 2" "(255 :: u8) = mask 8"
  by (simp_all add: mask_eq_exp_minus_1)

lemma and_or_bits:
  "bit (a AND mask m) n \<longleftrightarrow> n < m \<and> bit a n" "bit (a OR b) n \<longleftrightarrow> bit a n \<or> bit b n"
  "bit (drop_bit k a) n \<longleftrightarrow> bit a (k + n)" "bit (push_bit k a) n \<longleftrightarrow> k \<le> n \<and> n < 8 \<and> bit a (n - k)"
  for a b :: u8
  by (auto simp: bit_and_iff bit_or_iff bit_drop_bit_eq bit_push_bit_iff bit_mask_iff dest: bit_imp_le_length)

lemma sextet_values:
  "bits_value [bit b0 7, bit b0 6, bit b0 5, bit b0 4, bit b0 3, bit b0 2] = unat (drop_bit 2 b0 AND 0x3F)"
  "bits_value [bit b0 1, bit b0 0, bit b1 7, bit b1 6, bit b1 5, bit b1 4] = unat ((drop_bit 4 b1 AND 0xF) OR (push_bit 4 b0 AND 0x3F))"
  "bits_value [bit b1 3, bit b1 2, bit b1 1, bit b1 0, bit b2 7, bit b2 6] = unat ((drop_bit 6 b2 AND 0x3) OR (push_bit 2 b1 AND 0x3F))"
  "bits_value [bit b2 5, bit b2 4, bit b2 3, bit b2 2, bit b2 1, bit b2 0] = unat (b2 AND 0x3F)"
  "bits_value [bit b0 1, bit b0 0, False, False, False, False] = unat (push_bit 4 b0 AND 0x3F)"
  "bits_value [bit b1 3, bit b1 2, bit b1 1, bit b1 0, False, False] = unat (push_bit 2 b1 AND 0x3F)"
  for b0 b1 b2 :: u8
  unfolding u8_masks by (rule bits_value_6; simp add: and_or_bits)+

lemma octet_values:
  "bits_value [bit s0 5, bit s0 4, bit s0 3, bit s0 2, bit s0 1, bit s0 0, bit s1 5, bit s1 4] =
    unat ((push_bit 2 s0 AND 255) OR (drop_bit 4 s1 AND 0x3))"
  "bits_value [bit s1 3, bit s1 2, bit s1 1, bit s1 0, bit s2 5, bit s2 4, bit s2 3, bit s2 2] =
    unat ((push_bit 4 s1 AND 255) OR (drop_bit 2 s2 AND 0xF))"
  "bits_value [bit s2 1, bit s2 0, bit s3 5, bit s3 4, bit s3 3, bit s3 2, bit s3 1, bit s3 0] =
    unat ((push_bit 6 s2 AND 255) OR (s3 AND 0x3F))"
  for s0 s1 s2 s3 :: u8
  unfolding u8_masks by (rule bits_value_8; simp add: and_or_bits)+

section \<open>What the loops compute\<close>

fun letters :: "u8 list \<Rightarrow> u8 list \<Rightarrow> u8 list" where
  "letters em (b0 # b1 # b2 # bs) = encode_group em b0 b1 b2 @ letters em bs"
| "letters em [] = []"
| "letters em bs = encode_tail em bs"

lemma replicate_False: "replicate 4 False = [False, False, False, False]" "replicate 2 False = [False, False]"
  by (simp_all add: eval_nat_numeral)

lemma letters_sextets: "letters em input = map ((!) em) (sextets (bits_of input))"
  by (induction em input rule: letters.induct)
     (simp_all add: octet_bits_def encode_group_def encode_tail_def sextet_values sextet_values [simplified] replicate_False)

fun joined :: "u8 list \<Rightarrow> u8 list" where
  "joined (s0 # s1 # s2 # s3 # ss) =
     first_octet [s0, s1] 0 # second_octet [s0, s1, s2] 0 # third_octet [s0, s1, s2, s3] 0 # joined ss"
| "joined [s0, s1, s2] = [first_octet [s0, s1] 0, second_octet [s0, s1, s2] 0]"
| "joined [s0, s1] = [first_octet [s0, s1] 0]"
| "joined ss = []"

lemma joined_octets: "map unat (joined ss) = octets (concat (map sextet_bits ss))"
  by (induction ss rule: joined.induct)
     (simp_all add: sextet_bits_def octet_values first_octet_def second_octet_def third_octet_def octet_values [simplified])

section \<open>What the encoder writes\<close>

lemma put_all_append: "put_all (a @ b) d = Option.bind (put_all a d) (put_all b)"
  by (induction a arbitrary: d) (simp_all add: bind_assoc split: Option.bind_split)

lemma bind_put_all_append: "Option.bind x (put_all (a @ b)) = Option.bind (Option.bind x (put_all a)) (put_all b)"
  by (cases x) (simp_all add: put_all_append)

lemma put_all_spec:
  "put_all cs (w @ rest, length w) =
     (if length cs \<le> length rest then Some ((w @ cs) @ drop (length cs) rest, length (w @ cs)) else None)"
proof (induction cs arbitrary: w rest)
  case Nil
  then show ?case by simp
next
  case (Cons c cs)
  show ?case
  proof (cases rest)
    case Nil
    then show ?thesis by simp
  next
    case (Cons r rs)
    then have "put c (w @ rest, length w) = Some ((w @ [c]) @ rs, length (w @ [c]))"
      by simp
    then show ?thesis
      using Cons.IH [of "w @ [c]" rs] Cons by (simp del: put.simps)
  qed
qed

lemma encode_padding_spec: "encode_padding (w @ rest, length w) = w @ replicate (length rest) 0x3D"
proof (induction rest arbitrary: w)
  case Nil
  then show ?case by simp
next
  case (Cons r rs)
  have "encode_padding (w @ r # rs, length w) = encode_padding ((w @ [0x3D]) @ rs, length (w @ [0x3D]))"
    by (subst encode_padding.simps) (simp del: encode_padding.simps)
  then show ?case
    using Cons.IH [of "w @ [0x3D]"] by (simp del: encode_padding.simps)
qed

definition line_feed :: "bool \<Rightarrow> nat \<Rightarrow> u8 list" where
  "line_feed insertLFs count = (if insertLFs \<and> count > 0 \<and> count mod 76 = 0 then [0x0A] else [])"

lemma put_LF_put_all: "put_LF insertLFs count d = put_all (line_feed insertLFs count) d"
  by (simp add: put_LF_def line_feed_def maximumBase64LineLengthWhenInsertingLFs_def split: Option.bind_split)

fun written :: "u8 list \<Rightarrow> bool \<Rightarrow> u8 list \<Rightarrow> nat \<Rightarrow> u8 list" where
  "written em lf (b0 # b1 # b2 # bs) count =
     line_feed lf count @ encode_group em b0 b1 b2 @ written em lf bs (if lf then count + 4 else count)"
| "written em lf [] count = []"
| "written em lf bs count = line_feed lf count @ encode_tail em bs"

definition encode_finish :: "u8 list \<Rightarrow> bool \<Rightarrow> u8 list \<times> nat \<times> destination \<Rightarrow> destination option" where
  "encode_finish em lf r =
     (case r of (input, count, d) \<Rightarrow>
        if input \<noteq> [] then Option.bind (put_LF lf count d) (put_all (encode_tail em input)) else Some d)"

lemma encode_loop_written:
  "Option.bind (encode_loop em lf input count d) (encode_finish em lf) = put_all (written em lf input count) d"
proof (induction em lf input count arbitrary: d rule: written.induct)
  case (1 em lf b0 b1 b2 bs count)
  show ?case
    using "1.IH"
    by (cases lf) (simp_all add: put_LF_put_all put_all_append bind_put_all_append bind_assoc del: put_all.simps)
qed (simp_all add: encode_finish_def put_LF_put_all put_all_append)

lemma base64EncodeInternal_written:
  "base64EncodeInternal input dest policy m =
     (let text = written (alphabet m) (policy = InsertLFs \<and> length dest > 76) input 0
      in if length text \<le> length dest then Some (text @ replicate (length dest - length text) 0x3D) else None)"
proof -
  let ?lf = "policy = InsertLFs \<and> length dest > 76"
  let ?text = "written (alphabet m) ?lf input 0"
  have a: "(if m = EncodeURL then base64URLEncMap else base64EncMap) = alphabet m"
    by (cases m) (simp_all add: alphabet_def)
  have "base64EncodeInternal input dest policy m =
      map_option encode_padding (Option.bind (encode_loop (alphabet m) ?lf input 0 (dest, 0)) (encode_finish (alphabet m) ?lf))"
    unfolding base64EncodeInternal_def Let_def a maximumBase64LineLengthWhenInsertingLFs_def
    by (simp add: encode_finish_def split: option.split)
  also have "\<dots> = map_option encode_padding (put_all ?text (dest, 0))"
    unfolding encode_loop_written by simp
  also have "put_all ?text (dest, 0) =
      (if length ?text \<le> length dest then Some (?text @ drop (length ?text) dest, length ?text) else None)"
    using put_all_spec [of ?text "[]" dest] by simp
  finally show ?thesis
    by (simp add: Let_def encode_padding_spec del: encode_padding.simps)
qed

lemma written_letters: "written em False input count = letters em input"
  by (induction em False input count rule: written.induct) (simp_all add: line_feed_def)

section \<open>Lengths\<close>

lemma length_encode_group [simp]: "length (encode_group em b0 b1 b2) = 4"
  by (simp add: encode_group_def)

lemma length_letters: "length (letters em input) = (4 * length input + 2) div 3"
  by (induction em input rule: letters.induct) (simp_all add: encode_tail_def)

lemma pad4_group: "length g = 4 \<Longrightarrow> pad4 (g @ cs) = g @ pad4 cs"
  by (simp add: pad4_def)

lemma length_pad4_letters: "length (pad4 (letters em input)) = 4 * ((length input + 2) div 3)"
proof (induction em input rule: letters.induct)
  case (1 em b0 b1 b2 bs)
  have "(length (b0 # b1 # b2 # bs) + 2) div 3 = Suc ((length bs + 2) div 3)"
    by simp
  then show ?case
    using 1 by (simp add: pad4_group)
qed (simp_all add: pad4_def encode_tail_def)

lemma pad4_letters:
  "pad4 (letters em input) = letters em input @ replicate (4 * ((length input + 2) div 3) - length (letters em input)) 0x3D"
proof -
  have "length (pad4 (letters em input)) = length (letters em input) + (4 - length (letters em input) mod 4) mod 4"
    by (simp add: pad4_def)
  then show ?thesis
    unfolding length_pad4_letters by (simp add: pad4_def)
qed

section \<open>Lines\<close>

lemma break_lines_short: "column + length cs \<le> 76 \<Longrightarrow> break_lines column cs = cs"
  by (induction column cs rule: break_lines.induct) auto

lemma length_break_lines:
  "column \<le> 76 \<Longrightarrow> length (break_lines column cs) = length cs + (if cs = [] then 0 else (column + length cs - 1) div 76)"
proof (induction column cs rule: break_lines.induct)
  case (1 column)
  then show ?case by simp
next
  case (2 column c cs)
  show ?case
  proof (cases "column = 76")
    case True
    then show ?thesis
      using 2(1) by (cases cs) simp_all
  next
    case False
    then show ?thesis
      using 2(2) 2(3) by (cases cs) simp_all
  qed
qed

lemma break_lines_group:
  assumes "column mod 4 = 0" and "column \<le> 76" and "length g = 4"
  shows "break_lines column (g @ cs) =
    (if column = 76 then [0x0A] else []) @ g @ break_lines ((if column = 76 then 0 else column) + 4) cs"
proof -
  obtain a b c d where g: "g = [a, b, c, d]"
    using assms(3) by (auto simp: length_Suc_conv eval_nat_numeral)
  have "column = 76 \<or> column \<le> 72"
    using assms(1,2) by presburger
  then show ?thesis
    by (auto simp: g eval_nat_numeral)
qed

definition column_at :: "nat \<Rightarrow> nat" where
  "column_at k = (if k = 0 then 0 else 4 * ((k - 1) mod 19) + 4)"

lemma column_at: "column_at k mod 4 = 0" "column_at k \<le> 76" "column_at 0 = 0"
  "column_at k = 76 \<longleftrightarrow> 4 * k > 0 \<and> 4 * k mod 76 = 0"
  "column_at (Suc k) = (if column_at k = 76 then 0 else column_at k) + 4"
proof -
  have m: "4 * k mod 76 = 4 * (k mod 19)"
    using mult_mod_right [of 4 k 19] by simp
  show "column_at k \<le> 76"
  proof (cases "k = 0")
    case False
    then have "column_at k = 4 * ((k - 1) mod 19) + 4"
      by (simp add: column_at_def)
    moreover have "(k - 1) mod 19 < 19"
      by simp
    ultimately show ?thesis
      by linarith
  qed (simp add: column_at_def)
  show "column_at k mod 4 = 0" "column_at 0 = 0"
    by (simp_all add: column_at_def)
  show e: "column_at k = 76 \<longleftrightarrow> 4 * k > 0 \<and> 4 * k mod 76 = 0"
    unfolding m by (cases k) (auto simp: column_at_def mod_Suc split: if_splits)
  show "column_at (Suc k) = (if column_at k = 76 then 0 else column_at k) + 4"
    unfolding e m by (cases k) (auto simp: column_at_def mod_Suc split: if_splits)
qed

lemma line_feed_column: "line_feed True (4 * k) = (if column_at k = 76 then [0x0A] else [])"
  unfolding line_feed_def column_at(4) by simp

lemma break_lines_group_at:
  "length g = 4 \<Longrightarrow> break_lines (column_at k) (g @ cs) = line_feed True (4 * k) @ g @ break_lines (column_at (Suc k)) cs"
  by (simp add: break_lines_group column_at line_feed_column)

definition pads :: "nat \<Rightarrow> u8 list" where
  "pads n = replicate ((3 - n mod 3) mod 3) 0x3D"

lemma break_lines_last:
  "length g = 4 \<Longrightarrow> break_lines (column_at k) g = line_feed True (4 * k) @ g"
  using break_lines_group_at [of g k "[]"] by simp

lemma break_lines_tail:
  "break_lines (column_at k) (pad4 (encode_tail em [v])) = line_feed True (4 * k) @ encode_tail em [v] @ pads (Suc 0)"
  "break_lines (column_at k) (pad4 (encode_tail em [v, u])) =
    line_feed True (4 * k) @ encode_tail em [v, u] @ pads (Suc (Suc 0))"
proof -
  have "pad4 (encode_tail em [v]) = encode_tail em [v] @ pads (Suc 0)"
    and "length (encode_tail em [v] @ pads (Suc 0)) = 4"
    and "pad4 (encode_tail em [v, u]) = encode_tail em [v, u] @ pads (Suc (Suc 0))"
    and "length (encode_tail em [v, u] @ pads (Suc (Suc 0))) = 4"
    by (simp_all add: pad4_def encode_tail_def pads_def)
  then show "break_lines (column_at k) (pad4 (encode_tail em [v])) = line_feed True (4 * k) @ encode_tail em [v] @ pads (Suc 0)"
    "break_lines (column_at k) (pad4 (encode_tail em [v, u])) =
      line_feed True (4 * k) @ encode_tail em [v, u] @ pads (Suc (Suc 0))"
    by (simp_all only: break_lines_last)
qed

lemma written_lines:
  "written em True input (4 * k) @ pads (length input) = break_lines (column_at k) (pad4 (letters em input))"
proof (induction em input arbitrary: k rule: letters.induct)
  case (1 em b0 b1 b2 bs)
  have "pads (length (b0 # b1 # b2 # bs)) = pads (length bs)"
    by (simp add: pads_def)
  then show ?case
    using "1.IH" [of "Suc k"] by (simp add: pad4_group break_lines_group_at add.commute)
qed (simp_all add: break_lines_tail, simp add: pads_def pad4_def)

section \<open>The size of the destination\<close>

lemma maximum_size: "unat maximumBase64EncoderInputBufferSize = 3179391370"
  by (simp add: maximumBase64EncoderInputBufferSize_def unat_div_distrib unat_word_ariths)

definition padded_size :: "nat \<Rightarrow> nat" where
  "padded_size n = 4 * ((n + 2) div 3)"

lemma line_feeds_word:
  fixes p :: u32
  assumes p: "unat p = k" and k: "0 < k" "k \<le> 4239188496"
  shows "unat (p + (p - 1) div 76) = k + (k - 1) div 76"
proof -
  have "unat (p - 1) = k - 1"
    using k p by (subst unat_sub) (auto simp: word_le_nat_alt)
  moreover have "k + (k - 1) div 76 < 4294967296"
    using k by simp
  ultimately show ?thesis
    by (simp add: unat_word_ariths unat_div_distrib p)
qed

lemma calculate_size_word:
  assumes "n \<le> 3179391370" and "0 < n"
  shows "unat (calculateBase64EncodedSize (of_nat n) policy) =
    (case policy of
       DoNotInsertLFs \<Rightarrow> padded_size n
     | InsertLFs \<Rightarrow> padded_size n + (padded_size n - 1) div 76
     | URLPolicy \<Rightarrow> (4 * n mod 2 ^ 32 + 2) mod 2 ^ 32 div 3)"
proof -
  let ?x = "of_nat n :: u32"
  have x: "unat ?x = n"
    using assms by (simp add: unsigned_of_nat take_bit_nat_eq_self)
  have n0: "?x \<noteq> 0" "\<not> ?x > maximumBase64EncoderInputBufferSize"
    using assms x by (auto simp: word_less_nat_alt maximum_size simp flip: unat_eq_zero)
  have p: "unat ((?x + 2) div 3 * 4) = padded_size n"
  proof -
    have "unat (?x + 2) = n + 2"
      using assms x by (simp add: unat_word_ariths)
    moreover have "(n + 2) div 3 * 4 < 4294967296"
      using assms by simp
    ultimately show ?thesis
      by (simp add: unat_word_ariths unat_div_distrib padded_size_def mult.commute)
  qed
  have b: "0 < padded_size n" "padded_size n \<le> 4239188496"
    using assms by (auto simp: padded_size_def)
  have q: "unat ((?x + 2) div 3 * 4 + ((?x + 2) div 3 * 4 - 1) div 76) = padded_size n + (padded_size n - 1) div 76"
    by (rule line_feeds_word [OF p b])
  have r: "unat ((?x * 4 + 2) div 3) = (4 * n mod 2 ^ 32 + 2) mod 2 ^ 32 div 3"
    by (simp add: unat_word_ariths unat_div_distrib x mult.commute)
  show ?thesis
    using n0 p q r by (simp add: calculateBase64EncodedSize_def maximumBase64LineLengthWhenInsertingLFs_def Let_def
      split: Base64EncodePolicy.split)
qed

section \<open>The encoder is correct\<close>

definition encoder_limit :: "Base64EncodePolicy \<Rightarrow> nat" where
  "encoder_limit policy = (if policy = URLPolicy then 2 ^ 30 - 1 else 3179391370)"

lemma alphabet_text: "base64_text policy m input =
    (let cs = letters (alphabet m) input in
     case policy of DoNotInsertLFs \<Rightarrow> pad4 cs | InsertLFs \<Rightarrow> break_lines 0 (pad4 cs) | URLPolicy \<Rightarrow> cs)"
  by (simp add: base64_text_def letters_sextets)

lemma pads_size: "length (letters em input) + length (pads (length input)) = padded_size (length input)"
proof (induction em input rule: letters.induct)
  case (1 em b0 b1 b2 bs)
  have "(length (b0 # b1 # b2 # bs) + 2) div 3 = Suc ((length bs + 2) div 3)"
    and "pads (length (b0 # b1 # b2 # bs)) = pads (length bs)"
    by (simp_all add: pads_def)
  then show ?case
    using 1 by (simp add: padded_size_def)
qed (simp_all add: padded_size_def pads_def encode_tail_def)

lemma length_base64_text:
  assumes "length input \<le> encoder_limit policy" and "input \<noteq> []"
  shows "length (base64_text policy m input) = unat (calculateBase64EncodedSize (of_nat (length input)) policy)"
proof -
  let ?n = "length input"
  have n: "?n \<le> 3179391370" "0 < ?n"
    using assms by (auto simp: encoder_limit_def split: if_splits)
  have p: "length (pad4 (letters (alphabet m) input)) = padded_size ?n"
    by (simp add: length_pad4_letters padded_size_def)
  moreover have "0 < padded_size ?n"
    using n(2) by (simp add: padded_size_def div_greater_zero_iff Suc_le_eq)
  then have "pad4 (letters (alphabet m) input) \<noteq> []"
    using p by (metis less_nat_zero_code list.size(3))
  ultimately have "length (break_lines 0 (pad4 (letters (alphabet m) input))) = padded_size ?n + (padded_size ?n - 1) div 76"
    by (simp add: length_break_lines)
  moreover have "(4 * ?n mod 2 ^ 32 + 2) mod 2 ^ 32 div 3 = (4 * ?n + 2) div 3" if "policy = URLPolicy"
    using assms(1) that by (simp add: encoder_limit_def)
  ultimately show ?thesis
    using p unfolding calculate_size_word [OF n] alphabet_text
    by (simp add: length_letters Let_def split: Base64EncodePolicy.split)
qed

lemma encode_internal_text:
  assumes "length dest = length (base64_text policy m input)"
  shows "base64EncodeInternal input dest policy m = Some (base64_text policy m input)"
proof -
  let ?cs = "letters (alphabet m) input"
  have p: "length ?cs + length (pads (length input)) = padded_size (length input)"
    by (rule pads_size)
  have pp: "pad4 ?cs = ?cs @ pads (length input)"
  proof -
    have "4 * ((length input + 2) div 3) - length ?cs = length (pads (length input))"
      using p by (simp add: padded_size_def)
    then show ?thesis
      by (simp add: pad4_letters pads_def)
  qed
  show ?thesis
  proof (cases policy)
    case DoNotInsertLFs
    then show ?thesis
      using assms pp by (simp add: base64EncodeInternal_written alphabet_text written_letters Let_def) (simp add: pads_def)
  next
    case URLPolicy
    then show ?thesis
      using assms by (simp add: base64EncodeInternal_written alphabet_text written_letters Let_def)
  next
    case InsertLFs
    have w: "written (alphabet m) True input 0 @ pads (length input) = break_lines 0 (pad4 ?cs)"
      using written_lines [of "alphabet m" input 0] by (simp add: column_at(3))
    show ?thesis
    proof (cases "length dest > 76")
      case True
      have "length dest = length (written (alphabet m) True input 0) + length (pads (length input))"
        using assms InsertLFs arg_cong [OF w, of length] by (simp add: alphabet_text Let_def)
      then show ?thesis
        using True InsertLFs w by (simp add: base64EncodeInternal_written alphabet_text Let_def) (simp add: pads_def)
    next
      case False
      have "length (pad4 ?cs) \<le> length dest"
        using assms InsertLFs length_break_lines [of 0 "pad4 ?cs"] by (simp add: alphabet_text Let_def)
      with False have "break_lines 0 (pad4 ?cs) = pad4 ?cs"
        by (intro break_lines_short) simp
      then show ?thesis
        using False InsertLFs assms pp
        by (simp add: base64EncodeInternal_written alphabet_text written_letters Let_def) (simp add: pads_def)
    qed
  qed
qed

lemma encode_empty: "base64_text policy m [] = []"
  by (simp add: base64_text_def pad4_def split: Base64EncodePolicy.split)

lemma encode_correct:
  assumes "length input \<le> encoder_limit policy"
  shows "base64EncodeToVector input policy m = Some (base64_text policy m input)"
    and "base64EncodeToString input policy m = Some (base64_text policy m input)"
proof -
  let ?size = "calculateBase64EncodedSize (of_nat (length input)) policy"
  have "base64EncodeToVector input policy m = Some (base64_text policy m input) \<and>
      base64EncodeToString input policy m = Some (base64_text policy m input)"
  proof (cases "input = []")
    case True
    then show ?thesis
      by (simp add: base64EncodeToVector_def base64EncodeToString_def base64Encode_def calculateBase64EncodedSize_def encode_empty)
  next
    case False
    have l: "length (base64_text policy m input) = unat ?size"
      by (rule length_base64_text [OF assms False])
    show ?thesis
    proof (cases "?size = 0")
      case True
      then show ?thesis
        using l by (simp add: base64EncodeToVector_def base64EncodeToString_def base64Encode_def)
    next
      case False
      then have "unat ?size \<noteq> 0"
        by (simp add: unat_eq_zero)
      with False show ?thesis
        using encode_internal_text [of "replicate (unat ?size) 0" policy m input] l
        by (simp add: base64EncodeToVector_def base64EncodeToString_def base64Encode_def)
    qed
  qed
  then show "base64EncodeToVector input policy m = Some (base64_text policy m input)"
    and "base64EncodeToString input policy m = Some (base64_text policy m input)"
    by simp_all
qed

lemma url_overflow:
  assumes "2 ^ 30 < length input" and "length input < 2 ^ 31"
  shows "base64EncodeToVector input URLPolicy m = None"
proof -
  let ?n = "length input"
  have n: "?n \<le> 3179391370" "0 < ?n" "4 * ?n mod 2 ^ 32 = 4 * ?n - 2 ^ 32"
    using assms le_less_trans [OF le0 assms(1)] by (simp_all add: mod_if)
  let ?size = "calculateBase64EncodedSize (of_nat ?n) URLPolicy"
  have s: "unat ?size = (4 * ?n - 2 ^ 32 + 2) div 3"
    using calculate_size_word [OF n(1,2), of URLPolicy] assms unfolding n(3) by simp
  then have z: "?size \<noteq> 0"
    using assms by (simp flip: unat_eq_zero)
  have "unat ?size < length (letters (alphabet m) input)"
    using s assms by (simp add: length_letters)
  then show ?thesis
    using z by (simp add: base64EncodeToVector_def base64EncodeInternal_written written_letters Let_def)
qed

end
