(* ===== verification/Base64Decoder.thy ===== *)
theory Base64Decoder
  imports Base64Encoder
begin

text \<open>
  The decoder accepts the texts that RFC 4648 allows, with white space and padding as its options say, and returns their
  bytes; the conversion in place never reads an entry it has overwritten. It reads back what the encoder writes.
\<close>


section \<open>The conversion in place\<close>

definition decode_last :: "nat \<Rightarrow> u8 list \<times> nat \<times> nat \<Rightarrow> u8 list" where
  "decode_last n r =
     (let (d, sidx, didx) = r;
          d = (if didx < n then d[didx := first_octet d sidx] else d);
          didx = didx + 1;
          d = (if didx < n then d[didx := second_octet d sidx] else d)
      in take n d)"

lemma decode_convert_last:
  "decode_convert n d = decode_last n (if n > 1 then decode_loop n d 0 0 else (d, 0, 0))"
  by (simp add: decode_convert_def decode_last_def)

lemma octet_reads:
  "d ! sidx = s0 \<Longrightarrow> d ! (sidx + 1) = s1 \<Longrightarrow> first_octet d sidx = first_octet [s0, s1] 0"
  "d ! (sidx + 1) = s1 \<Longrightarrow> d ! (sidx + 2) = s2 \<Longrightarrow> second_octet d sidx = second_octet [s0, s1, s2] 0"
  "d ! (sidx + 2) = s2 \<Longrightarrow> d ! (sidx + 3) = s3 \<Longrightarrow> third_octet d sidx = third_octet [s0, s1, s2, s3] 0"
  by (simp_all add: first_octet_def second_octet_def third_octet_def)

lemma take_append_update:
  "length p = i \<Longrightarrow> i < length d \<Longrightarrow> take i d = p \<Longrightarrow> take (Suc i) (d[i := x]) = p @ [x]"
  by (simp add: take_Suc_conv_app_nth)

lemma drop_eq_nth: "drop i d = a # r \<Longrightarrow> d ! i = a \<and> drop (Suc i) d = r \<and> i < length d"
  by (metis drop_eq_Nil linorder_not_le list.distinct(1) Cons_nth_drop_Suc list.inject)

lemma decode_group:
  assumes "drop sidx d = s0 # s1 # s2 # s3 # ss" and "didx \<le> sidx"
  defines "d1 \<equiv> d[didx := first_octet d sidx]"
  defines "d2 \<equiv> d1[didx + 1 := second_octet d1 sidx]"
  defines "d3 \<equiv> d2[didx + 2 := third_octet d2 sidx]"
  shows "take (didx + 3) d3 = take didx d @
      [first_octet [s0, s1] 0, second_octet [s0, s1, s2] 0, third_octet [s0, s1, s2, s3] 0]"
    and "drop (sidx + 4) d3 = ss"
proof -
  have n: "d ! sidx = s0" "d ! (sidx + 1) = s1" "d ! (sidx + 2) = s2" "d ! (sidx + 3) = s3" "drop (sidx + 4) d = ss"
    "sidx + 3 < length d"
    using drop_eq_nth [OF assms(1)] drop_eq_nth [of "Suc sidx" d] drop_eq_nth [of "Suc (Suc sidx)" d]
      drop_eq_nth [of "Suc (Suc (Suc sidx))" d] by (auto simp: eval_nat_numeral)
  have o: "first_octet d sidx = first_octet [s0, s1] 0" "second_octet d1 sidx = second_octet [s0, s1, s2] 0"
    "third_octet d2 sidx = third_octet [s0, s1, s2, s3] 0"
    using n assms(2) by (auto intro!: octet_reads simp: d1_def d2_def)
  show "drop (sidx + 4) d3 = ss"
    using n(5) assms(2) by (simp add: d3_def d2_def d1_def)
  show "take (didx + 3) d3 = take didx d @
      [first_octet [s0, s1] 0, second_octet [s0, s1, s2] 0, third_octet [s0, s1, s2, s3] 0]"
    using n(6) assms(2) unfolding d3_def o unfolding d2_def o unfolding d1_def o
    by (simp add: eval_nat_numeral take_Suc_conv_app_nth nth_list_update)
qed

lemma length_joined: "length ss mod 4 \<noteq> 1 \<Longrightarrow> length (joined ss) = length ss - (length ss + 3) div 4"
proof (induction ss rule: joined.induct)
  case (1 s0 s1 s2 s3 ss)
  have "(length (s0 # s1 # s2 # s3 # ss) + 3) div 4 = Suc ((length ss + 3) div 4)"
    by simp
  moreover have "(length ss + 3) div 4 < Suc (length ss)"
    by (simp add: div_less_iff_less_mult)
  ultimately show ?case
    using 1 by (simp add: Suc_diff_le less_Suc_eq_le)
qed simp_all

lemma decode_loop_stop: "\<not> didx < n - 2 \<Longrightarrow> decode_loop n d sidx didx = (d, sidx, didx)"
  by (subst decode_loop.simps) (rule if_not_P)

lemma decode_loop_joined:
  assumes "drop sidx d = rest" and "didx \<le> sidx" and "sidx + length rest = length d" and "length rest mod 4 \<noteq> 1"
    and "n = didx + length (joined rest)" and "1 < n"
  shows "decode_last n (decode_loop n d sidx didx) = take didx d @ joined rest"
  using assms
proof (induction rest arbitrary: d sidx didx rule: joined.induct)
  case (1 s0 s1 s2 s3 ss)
  let ?d1 = "d[didx := first_octet d sidx]"
  let ?d2 = "?d1[didx + 1 := second_octet ?d1 sidx]"
  let ?d3 = "?d2[didx + 2 := third_octet ?d2 sidx]"
  note g = decode_group [OF "1.prems"(1,2)]
  have "didx < n - 2"
    using "1.prems"(5) by simp
  then have "decode_loop n d sidx didx = decode_loop n ?d3 (sidx + 4) (didx + 3)"
    by (subst decode_loop.simps) (simp add: Let_def del: decode_loop.simps)
  moreover have "decode_last n (decode_loop n ?d3 (sidx + 4) (didx + 3)) = take (didx + 3) ?d3 @ joined ss"
    using "1.prems" by (intro "1.IH" g(2)) simp_all
  ultimately show ?case
    unfolding g(1) by simp
next
  case (2 s0 s1 s2)
  have l: "decode_loop n d sidx didx = (d, sidx, didx)"
    using "2.prems"(5) by (intro decode_loop_stop) auto
  have r: "d ! sidx = s0" "d ! (sidx + 1) = s1" "d ! (sidx + 2) = s2"
    using drop_eq_nth [OF "2.prems"(1)] drop_eq_nth [of "Suc sidx" d] drop_eq_nth [of "Suc (Suc sidx)" d] by auto
  let ?d1 = "d[didx := first_octet [s0, s1] 0]"
  have "second_octet ?d1 sidx = second_octet [s0, s1, s2] 0"
    using r "2.prems"(2) by (intro octet_reads) auto
  then show ?case
    using "2.prems" r octet_reads(1) [OF r(1,2)] unfolding l
    by (simp add: decode_last_def take_Suc_conv_app_nth nth_list_update)
next
  case (3 s0 s1)
  have l: "decode_loop n d sidx didx = (d, sidx, didx)"
    using "3.prems"(5) by (intro decode_loop_stop) auto
  have r: "d ! sidx = s0" "d ! (sidx + 1) = s1"
    using drop_eq_nth [OF "3.prems"(1)] drop_eq_nth [of "Suc sidx" d] by auto
  show ?case
    using "3.prems" octet_reads(1) [OF r] unfolding l
    by (simp add: decode_last_def take_Suc_conv_app_nth nth_list_update)
next
  case "4_1"
  then have "decode_loop n d sidx didx = (d, sidx, didx)"
    by (intro decode_loop_stop) auto
  with "4_1" show ?case
    by (simp add: decode_last_def)
qed simp_all

lemma decode_convert_joined:
  assumes "length d mod 4 \<noteq> 1" and "d \<noteq> []"
  shows "decode_convert (length d - (length d + 3) div 4) d = joined d"
proof (cases "length (joined d) > 1")
  case True
  then show ?thesis
    using decode_loop_joined [of 0 d d 0 "length (joined d)"] assms(1)
    by (simp add: decode_convert_last flip: length_joined)
next
  case False
  with assms obtain s0 s1 where "d = [s0, s1]"
    by (cases d rule: joined.cases) auto
  then show ?thesis
    by (simp add: decode_convert_last decode_last_def first_octet_def)
qed

section \<open>Decoding as RFC 4648 defines it\<close>

definition decode_alphabet :: "Base64DecodeMap \<Rightarrow> u8 list" where
  "decode_alphabet m = (case m of DecodeDefault \<Rightarrow> base64EncMap | DecodeURL \<Rightarrow> base64URLEncMap)"

text \<open>The number of a character in the alphabet, and the characters that may be left out.\<close>

definition letter_value :: "Base64DecodeMap \<Rightarrow> nat \<Rightarrow> nat option" where
  "letter_value m ch = map_of (zip (map unat (decode_alphabet m)) [0..<64]) ch"

definition ignored :: "Base64DecodeOptions set \<Rightarrow> nat \<Rightarrow> bool" where
  "ignored options ch =
     (IgnoreSpacesAndNewLines \<in> options \<and> isASCIISpace ch \<and> \<not> (DiscardVerticalTab \<in> options \<and> ch = 0x0B))"

definition letter_bits :: "Base64DecodeMap \<Rightarrow> nat \<Rightarrow> bool list" where
  "letter_bits m ch = sextet_bits (of_nat (the (letter_value m ch)))"

definition base64_bytes :: "Base64DecodeOptions set \<Rightarrow> Base64DecodeMap \<Rightarrow> nat list \<Rightarrow> nat list option" where
  "base64_bytes options m input =
     (let text = filter (\<lambda>ch. \<not> ignored options ch) input;
          body = takeWhile (\<lambda>ch. ch \<noteq> 0x3D) text;
          padding = dropWhile (\<lambda>ch. ch \<noteq> 0x3D) text
      in if list_all (\<lambda>ch. letter_value m ch \<noteq> None) body \<and> list_all (\<lambda>ch. ch = 0x3D) padding \<and>
            length body mod 4 \<noteq> 1 \<and> (body = [] \<longrightarrow> padding = []) \<and>
            (ValidatePadding \<in> options \<longrightarrow>
               length padding \<le> 2 \<and> (padding = [] \<or> (length body + length padding) mod 4 = 0))
         then Some (octets (concat (map (letter_bits m) body)))
         else None)"

section \<open>The tables\<close>

definition decode_map :: "Base64DecodeMap \<Rightarrow> u8 list" where
  "decode_map m = (if m = DecodeURL then base64URLDecMap else base64DecMap)"

definition decoded_character :: "Base64DecodeMap \<Rightarrow> nat \<Rightarrow> u8" where
  "decoded_character m ch = (if ch < decodeMapSize then decode_map m ! ch else nonAlphabet)"

lemma table_lengths:
  "length (decode_alphabet m) = 64" "length (decode_map m) = 128"
  "list_all (\<lambda>c. unat c < 128) (decode_alphabet m)"
  "length (filter (\<lambda>v. v \<noteq> nonAlphabet) (decode_map m)) = 64"
  by (cases m; simp add: decode_map_def decode_alphabet_def base64EncMap_def base64DecMap_def base64URLEncMap_def
    base64URLDecMap_def nonAlphabet_def)+

lemma upt_64: "[0..<64] = map unat ([0, 1, 2, 3, 4, 5, 6, 7, 8, 9, 10, 11, 12, 13, 14, 15, 16, 17, 18, 19, 20, 21, 22, 23, 24, 25, 26, 27, 28, 29, 30, 31, 32, 33, 34, 35, 36, 37, 38, 39, 40, 41, 42, 43, 44, 45, 46, 47, 48, 49, 50, 51, 52, 53, 54, 55, 56, 57, 58, 59, 60, 61, 62, 63] :: u8 list)"
  by (simp add: upt_rec)

lemma table_inverse: "map (\<lambda>c. unat (decode_map m ! unat c)) (decode_alphabet m) = [0..<64]"
  unfolding upt_64
  by (cases m) (simp_all add: decode_map_def decode_alphabet_def base64EncMap_def base64DecMap_def base64URLEncMap_def
    base64URLDecMap_def nonAlphabet_def)

lemma unat_nonAlphabet: "unat nonAlphabet = 255"
  by (simp add: nonAlphabet_def unsigned_minus_1_eq_mask mask_eq_exp_minus_1)

lemma table_letter: "i < 64 \<Longrightarrow> unat (decode_map m ! unat (decode_alphabet m ! i)) = i"
  using arg_cong [OF table_inverse [of m], of "\<lambda>xs. xs ! i"] by (simp add: table_lengths)

lemma distinct_alphabet: "distinct (map unat (decode_alphabet m))"
proof -
  have "map (\<lambda>k. unat (decode_map m ! k)) (map unat (decode_alphabet m)) = [0..<64]"
    using table_inverse [of m] by (simp add: comp_def)
  then show ?thesis
    by (metis distinct_map distinct_upt)
qed

lemma letter_value_nth: "i < 64 \<Longrightarrow> letter_value m (unat (decode_alphabet m ! i)) = Some i"
  using map_of_zip_nth [of "map unat (decode_alphabet m)" "[0..<64]" i] distinct_alphabet
  by (simp add: letter_value_def table_lengths)

lemma letter_value_SomeD: "letter_value m ch = Some i \<Longrightarrow> i < 64 \<and> ch = unat (decode_alphabet m ! i)"
  unfolding letter_value_def by (auto simp: in_set_zip table_lengths dest!: map_of_SomeD)

lemma letter_value_bounds: "letter_value m ch = Some i \<Longrightarrow> ch < 128 \<and> i < 64"
  using letter_value_SomeD [of m ch i] table_lengths(1,3) [of m] by (auto simp: list_all_length)

lemma letters_of_table: "{ch. ch < 128 \<and> decode_map m ! ch \<noteq> nonAlphabet} = set (map unat (decode_alphabet m))"
proof (rule sym, rule card_seteq)
  show "set (map unat (decode_alphabet m)) \<subseteq> {ch. ch < 128 \<and> decode_map m ! ch \<noteq> nonAlphabet}"
  proof
    fix ch
    assume "ch \<in> set (map unat (decode_alphabet m))"
    then obtain i where i: "i < 64" "ch = unat (decode_alphabet m ! i)"
      by (auto simp: in_set_conv_nth table_lengths)
    then have "unat (decode_map m ! ch) \<noteq> unat nonAlphabet"
      using table_letter [OF i(1)] by (simp add: unat_nonAlphabet)
    then show "ch \<in> {ch. ch < 128 \<and> decode_map m ! ch \<noteq> nonAlphabet}"
      using i table_lengths(1,3) [of m] by (auto simp: list_all_length)
  qed
  show "card {ch. ch < 128 \<and> decode_map m ! ch \<noteq> nonAlphabet} \<le> card (set (map unat (decode_alphabet m)))"
    using table_lengths(4) [of m] distinct_card [OF distinct_alphabet [of m]]
    by (simp add: length_filter_conv_card table_lengths)
qed simp

lemma decoded_character_value:
  "decoded_character m ch = (case letter_value m ch of None \<Rightarrow> nonAlphabet | Some i \<Rightarrow> of_nat i)"
proof (cases "letter_value m ch")
  case (Some i)
  then have i: "i < 64" "ch = unat (decode_alphabet m ! i)" "ch < 128"
    using letter_value_SomeD letter_value_bounds by blast+
  then have "decode_map m ! ch = of_nat i"
    using arg_cong [OF table_letter [OF i(1), of m], of "of_nat :: nat \<Rightarrow> u8"] by simp
  with Some i show ?thesis
    by (simp add: decoded_character_def decodeMapSize_def)
next
  case None
  have "ch \<notin> set (map unat (decode_alphabet m))"
  proof
    assume "ch \<in> set (map unat (decode_alphabet m))"
    then obtain i where "i < 64" "ch = unat (decode_alphabet m ! i)"
      by (auto simp: in_set_conv_nth table_lengths)
    then show False
      using None letter_value_nth [of i m] by simp
  qed
  then have "\<not> (ch < 128 \<and> decode_map m ! ch \<noteq> nonAlphabet)"
    using letters_of_table [of m] by blast
  with None show ?thesis
    by (auto simp: decoded_character_def decodeMapSize_def)
qed

lemma decoded_character_iff: "decoded_character m ch = nonAlphabet \<longleftrightarrow> letter_value m ch = None"
proof (cases "letter_value m ch")
  case (Some i)
  then have "i < 64"
    using letter_value_bounds by blast
  then have "unat (of_nat i :: u8) \<noteq> unat nonAlphabet"
    by (simp add: unat_nonAlphabet unsigned_of_nat take_bit_nat_eq_self)
  with Some show ?thesis
    by (auto simp: decoded_character_value)
qed (simp add: decoded_character_value)

lemma letter_not_special: "letter_value m ch \<noteq> None \<Longrightarrow> ch \<noteq> 0x3D \<and> \<not> ignored options ch"
proof -
  have "list_all (\<lambda>c. unat c \<noteq> 0x3D \<and> unat c > 0x20) (decode_alphabet m)"
    by (cases m) (simp_all add: decode_alphabet_def base64EncMap_def base64URLEncMap_def)
  then show "letter_value m ch \<noteq> None \<Longrightarrow> ch \<noteq> 0x3D \<and> \<not> ignored options ch"
    using letter_value_SomeD [of m ch] table_lengths(1) [of m]
    by (auto simp: list_all_length ignored_def isASCIISpace_def)
qed

section \<open>The first loop\<close>

lemma decode_scan_Cons:
  "decode_scan options (decode_map m) (c # cs) e d =
     (let ch = unat c in
      if ch = 0x3D then
        if ValidatePadding \<in> options \<and> e + 1 > 2 then None else decode_scan options (decode_map m) cs (e + 1) d
      else if letter_value m ch \<noteq> None then
        if e \<noteq> 0 then None else decode_scan options (decode_map m) cs e (d @ [decoded_character m ch])
      else if ignored options ch then decode_scan options (decode_map m) cs e d
      else None)"
proof -
  have "(if ch < decodeMapSize then decode_map m ! ch else nonAlphabet) = decoded_character m ch" for ch
    by (simp add: decoded_character_def)
  moreover have "isASCIISpace ch \<Longrightarrow> isLatin1 ch" for ch
    by (simp add: isASCIISpace_def isLatin1_def)
  ultimately show ?thesis
    by (auto simp: Let_def decoded_character_iff ignored_def)
qed

lemma decode_scan_padding:
  assumes "0 < e" and "ValidatePadding \<in> options \<Longrightarrow> e \<le> 2"
  shows "decode_scan options (decode_map m) cs e d =
    (let padding = filter (\<lambda>ch. \<not> ignored options ch) (map unat cs) in
     if list_all (\<lambda>ch. ch = 0x3D) padding \<and> (ValidatePadding \<in> options \<longrightarrow> e + length padding \<le> 2)
     then Some (e + length padding, d) else None)"
  using assms
proof (induction cs arbitrary: e)
  case Nil
  then show ?case by simp
next
  case (Cons c cs)
  have i: "\<not> ignored options 0x3D"
    by (simp add: ignored_def isASCIISpace_def)
  show ?case
  proof (cases "unat c = 0x3D \<and> \<not> (ValidatePadding \<in> options \<and> e + 1 > 2)")
    case True
    have "decode_scan options (decode_map m) cs (Suc e) d =
        (let padding = filter (\<lambda>ch. \<not> ignored options ch) (map unat cs) in
         if list_all (\<lambda>ch. ch = 0x3D) padding \<and> (ValidatePadding \<in> options \<longrightarrow> Suc e + length padding \<le> 2)
         then Some (Suc e + length padding, d) else None)"
      using True by (intro Cons.IH) auto
    then show ?thesis
      using True i by (simp add: decode_scan_Cons Let_def del: decode_scan.simps)
  next
    case False
    then show ?thesis
      using Cons.IH [of e] Cons.prems i letter_not_special [of m "unat c" options]
      by (auto simp add: decode_scan_Cons Let_def simp del: decode_scan.simps)
  qed
qed

lemma decode_scan_spec:
  "decode_scan options (decode_map m) cs 0 d =
    (let text = filter (\<lambda>ch. \<not> ignored options ch) (map unat cs);
         body = takeWhile (\<lambda>ch. ch \<noteq> 0x3D) text;
         padding = dropWhile (\<lambda>ch. ch \<noteq> 0x3D) text
     in if list_all (\<lambda>ch. letter_value m ch \<noteq> None) body \<and> list_all (\<lambda>ch. ch = 0x3D) padding \<and>
           (ValidatePadding \<in> options \<longrightarrow> length padding \<le> 2)
        then Some (length padding, d @ map (decoded_character m) body) else None)"
proof (induction cs arbitrary: d)
  case Nil
  then show ?case by simp
next
  case (Cons c cs)
  have i: "\<not> ignored options 0x3D"
    by (simp add: ignored_def isASCIISpace_def)
  show ?case
  proof (cases "unat c = 0x3D")
    case True
    then show ?thesis
      using i by (simp add: decode_scan_Cons decode_scan_padding Let_def del: decode_scan.simps)
  next
    case False
    then show ?thesis
      using Cons.IH letter_not_special [of m "unat c" options]
      by (auto simp add: decode_scan_Cons Let_def simp del: decode_scan.simps)
  qed
qed

section \<open>The decoder is correct\<close>

lemma sextet_bits_decoded: "letter_value m ch \<noteq> None \<Longrightarrow> sextet_bits (decoded_character m ch) = letter_bits m ch"
  by (auto simp: letter_bits_def decoded_character_value)

lemma joined_letters:
  "list_all (\<lambda>ch. letter_value m ch \<noteq> None) body \<Longrightarrow>
    map unat (joined (map (decoded_character m) body)) = octets (concat (map (letter_bits m) body))"
proof -
  assume "list_all (\<lambda>ch. letter_value m ch \<noteq> None) body"
  then have "map sextet_bits (map (decoded_character m) body) = map (letter_bits m) body"
    unfolding map_map comp_def by (intro map_cong refl sextet_bits_decoded) (auto simp: list_all_iff)
  then show ?thesis
    by (simp only: joined_octets)
qed

lemma joined_not_empty: "length ss mod 4 \<noteq> 1 \<Longrightarrow> ss \<noteq> [] \<Longrightarrow> joined ss \<noteq> []"
  by (cases ss rule: joined.cases) auto

lemma octet_count:
  fixes n :: nat
  assumes "n mod 4 \<noteq> 1" and "0 < n"
  shows "n - (n + 3) div 4 \<noteq> 0"
proof -
  have "n \<noteq> 1"
    using assms(1) by auto
  with assms(2) have "(n + 3) div 4 < n"
    by (simp add: div_less_iff_less_mult)
  then show ?thesis
    by simp
qed

lemma guard_cong:
  "(A \<and> B) \<and> (V \<longrightarrow> E) \<Longrightarrow>
    (if A \<and> B \<and> C \<and> D \<and> (V \<longrightarrow> E \<and> F) then x else y) = (if C \<and> D \<and> (V \<longrightarrow> F) then x else y)"
  by simp

lemma decode_internal_spec:
  "map_option (map unat) (base64DecodeInternal input options m) = base64_bytes options m (map unat input)"
proof (cases "input = []")
  case True
  then show ?thesis
    by (simp add: base64DecodeInternal_def base64_bytes_def)
next
  case False
  let ?text = "filter (\<lambda>ch. \<not> ignored options ch) (map unat input)"
  let ?body = "takeWhile (\<lambda>ch. ch \<noteq> 0x3D) ?text"
  let ?padding = "dropWhile (\<lambda>ch. ch \<noteq> 0x3D) ?text"
  let ?ok = "list_all (\<lambda>ch. letter_value m ch \<noteq> None) ?body \<and> list_all (\<lambda>ch. ch = 0x3D) ?padding"
  let ?numbers = "map (decoded_character m) ?body"
  have dm: "(if m = DecodeURL then base64URLDecMap else base64DecMap) = decode_map m"
    by (simp add: decode_map_def)
  show ?thesis
  proof (cases "?ok \<and> (ValidatePadding \<in> options \<longrightarrow> length ?padding \<le> 2)")
    case False
    then have "decode_scan options (decode_map m) input 0 [] = None"
      by (simp only: decode_scan_spec Let_def) (simp del: decode_scan.simps)
    then have "base64DecodeInternal input options m = None"
      using \<open>input \<noteq> []\<close> by (simp only: base64DecodeInternal_def dm Let_def) simp
    moreover have "base64_bytes options m (map unat input) = None"
      using False unfolding base64_bytes_def Let_def by (intro if_not_P) blast
    ultimately show ?thesis
      by simp
  next
    case True
    then have s: "decode_scan options (decode_map m) input 0 [] = Some (length ?padding, ?numbers)"
      by (simp only: decode_scan_spec Let_def) simp
    have l: "length ?numbers = length ?body"
      by simp
    have d: "base64DecodeInternal input options m =
        (if length ?body = 0 then if length ?padding \<noteq> 0 then None else Some []
         else if ValidatePadding \<in> options \<and> length ?padding \<noteq> 0 \<and> (length ?body + length ?padding) mod 4 \<noteq> 0 then None
         else if length ?body mod 4 = 1 then None
         else if length ?body - (length ?body + 3) div 4 = 0 then None
         else Some (decode_convert (length ?body - (length ?body + 3) div 4) ?numbers))"
      using \<open>input \<noteq> []\<close> unfolding base64DecodeInternal_def Let_def dm s
      by (simp only: option.case prod.case l length_0_conv map_is_Nil_conv if_False)
    have b: "base64_bytes options m (map unat input) =
        (if length ?body mod 4 \<noteq> 1 \<and> (?body = [] \<longrightarrow> ?padding = []) \<and>
            (ValidatePadding \<in> options \<longrightarrow> ?padding = [] \<or> (length ?body + length ?padding) mod 4 = 0)
         then Some (octets (concat (map (letter_bits m) ?body))) else None)"
      unfolding base64_bytes_def Let_def by (rule guard_cong [OF True])
    show ?thesis
    proof (cases "?body = []")
      case True
      then show ?thesis
        unfolding d b by simp
    next
      case False
      have j: "length ?body mod 4 \<noteq> 1 \<Longrightarrow> length ?body - (length ?body + 3) div 4 \<noteq> 0"
        using octet_count [of "length ?body"] False by simp
      have c: "length ?body mod 4 \<noteq> 1 \<Longrightarrow>
          map unat (decode_convert (length ?body - (length ?body + 3) div 4) ?numbers) = octets (concat (map (letter_bits m) ?body))"
        using decode_convert_joined [of ?numbers] False joined_letters [of m ?body] \<open>?ok \<and> _\<close> by simp
      show ?thesis
        unfolding d b using False j c by auto
    qed
  qed
qed

section \<open>The decoder reads what the encoder writes\<close>

lemma bits_value_octet: "bits_value [bit b 7, bit b 6, bit b 5, bit b 4, bit b 3, bit b 2, bit b 1, bit b 0] = unat b" for b :: u8
  by (rule bits_value_8) simp_all

lemma sextet_bits_value: "sextet_bits (of_nat (bits_value [a, b, c, d, e, f])) = [a, b, c, d, e, f]"
  by (cases a; cases b; cases c; cases d; cases e; cases f; simp add: bits_value_def sextet_bits_def)

lemma octets_of_sextets: "octets (concat (map (\<lambda>i. sextet_bits (of_nat i)) (sextets (bits_of input)))) = map unat input"
  by (induction "[] :: u8 list" input rule: letters.induct)
     (simp_all add: octet_bits_def sextet_bits_value sextet_bits_value [simplified] bits_value_octet [simplified] replicate_False)

lemma sextets_bound: "list_all (\<lambda>i. i < 64) (sextets bs)"
proof (induction bs rule: sextets.induct)
  case (1 a b c d e f bs)
  then show ?case
    by (simp add: bits_value_def)
qed (auto simp: bits_value_def eval_nat_numeral)

definition matching :: "Base64EncodeMap \<Rightarrow> Base64DecodeMap \<Rightarrow> bool" where
  "matching em dm = ((em = EncodeURL) = (dm = DecodeURL))"

lemma matching_alphabet: "matching em dm \<Longrightarrow> alphabet em = decode_alphabet dm"
  by (cases em; cases dm) (simp_all add: matching_def alphabet_def decode_alphabet_def)

lemma letters_value:
  assumes "matching em dm" and "c \<in> set (letters (alphabet em) input)"
  shows "letter_value dm (unat c) \<noteq> None"
proof -
  obtain i where "i \<in> set (sextets (bits_of input))" "c = decode_alphabet dm ! i"
    using assms by (auto simp: letters_sextets matching_alphabet)
  then show ?thesis
    using sextets_bound [of "bits_of input"] letter_value_nth [of i dm] by (auto simp: list_all_iff)
qed

lemma letters_bits:
  assumes "matching em dm"
  shows "octets (concat (map (letter_bits dm) (map unat (letters (alphabet em) input)))) = map unat input"
proof -
  have "map (letter_bits dm) (map unat (letters (alphabet em) input)) = map (\<lambda>i. sextet_bits (of_nat i)) (sextets (bits_of input))"
    unfolding letters_sextets matching_alphabet [OF assms] map_map
    using sextets_bound [of "bits_of input"] by (auto simp: list_all_iff letter_bits_def letter_value_nth)
  then show ?thesis
    by (simp only: octets_of_sextets)
qed

lemma length_letters_mod: "length (letters em input) mod 4 \<noteq> 1"
  by (induction em input rule: letters.induct) (simp_all add: encode_tail_def)

lemma filter_break_lines:
  assumes "ignored options 0x0A"
  shows "filter (\<lambda>ch. \<not> ignored options ch) (map unat (break_lines k cs)) = filter (\<lambda>ch. \<not> ignored options ch) (map unat cs)"
  using assms by (induction k cs rule: break_lines.induct) simp_all

lemma padding_bound: "length (pads n) \<le> 2"
  by (simp add: pads_def)

lemma base64_bytes_text:
  assumes m: "matching em dm" and t: "filter (\<lambda>ch. \<not> ignored options ch) text =
      map unat (letters (alphabet em) input) @ replicate k 0x3D"
    and k: "k = 0 \<or> k = length (pads (length input))"
  shows "base64_bytes options dm text = Some (map unat input)"
proof -
  let ?cs = "letters (alphabet em) input"
  have v: "letter_value dm ch \<noteq> None" "ch \<noteq> 0x3D" if "ch \<in> set (map unat ?cs)" for ch
    using that letters_value [OF m] letter_not_special [of dm ch] by auto
  have tw: "takeWhile (\<lambda>ch. ch \<noteq> 0x3D) (map unat ?cs @ replicate k 0x3D) = map unat ?cs"
    using v(2) by (subst takeWhile_append2) (auto simp: takeWhile_eq_Nil_iff)
  have dw: "dropWhile (\<lambda>ch. ch \<noteq> 0x3D) (map unat ?cs @ replicate k 0x3D) = replicate k (0x3D :: nat)"
    using v(2) by (subst dropWhile_append2) (auto simp: dropWhile_replicate)
  have l: "length ?cs + length (pads (length input)) = 4 * ((length input + 2) div 3)"
    using pads_size [of "alphabet em" input] by (simp add: padded_size_def)
  have e: "?cs = [] \<Longrightarrow> k = 0"
    using k length_letters [of "alphabet em" input] by (cases input) (auto simp: pads_def)
  have p: "k \<le> 2" "k = 0 \<or> (length ?cs + k) mod 4 = 0"
    using k l padding_bound [of "length input"] by auto
  show ?thesis
    unfolding base64_bytes_def Let_def t tw dw
    using v(1) e p length_letters_mod [of "alphabet em" input] letters_bits [OF m, of input]
    by (simp add: list_all_iff)
qed

lemma inj_unat: "inj (unat :: u8 \<Rightarrow> nat)"
  by (rule injI) (simp add: word_unat_eq_iff)

lemma decode_encoded:
  assumes m: "matching em dm" and p: "policy = InsertLFs \<Longrightarrow> IgnoreSpacesAndNewLines \<in> options"
  shows "base64DecodeInternal (base64_text policy em input) options dm = Some input"
proof -
  let ?cs = "letters (alphabet em) input"
  let ?keep = "\<lambda>ch. \<not> ignored options ch"
  have "ch \<in> set (map unat ?cs) \<Longrightarrow> ?keep ch" for ch
    using letters_value [OF m] letter_not_special [of dm ch] by auto
  then have c: "filter ?keep (map unat ?cs) = map unat ?cs"
    by (intro filter_True) blast
  have i: "\<not> ignored options 0x3D"
    by (simp add: ignored_def isASCIISpace_def)
  have pp: "pad4 ?cs = ?cs @ replicate (length (pads (length input))) 0x3D"
  proof -
    have "4 * ((length input + 2) div 3) - length ?cs = length (pads (length input))"
      using pads_size [of "alphabet em" input] by (simp add: padded_size_def)
    then show ?thesis
      by (simp only: pad4_letters)
  qed
  have f: "filter ?keep (map unat (pad4 ?cs)) = map unat ?cs @ replicate (length (pads (length input))) 0x3D"
    unfolding pp using c i by simp
  have "base64_bytes options dm (map unat (base64_text policy em input)) = Some (map unat input)"
  proof (cases policy)
    case DoNotInsertLFs
    then show ?thesis
      by (intro base64_bytes_text [OF m _ disjI2 [OF refl]]) (simp add: alphabet_text Let_def f)
  next
    case InsertLFs
    then have "ignored options 0x0A"
      using p by (simp add: ignored_def isASCIISpace_def)
    with InsertLFs show ?thesis
      by (intro base64_bytes_text [OF m _ disjI2 [OF refl]]) (simp add: alphabet_text Let_def f filter_break_lines)
  next
    case URLPolicy
    then show ?thesis
      by (intro base64_bytes_text [OF m _ disjI1 [OF refl]]) (simp add: alphabet_text Let_def c)
  qed
  then have "map_option (map unat) (base64DecodeInternal (base64_text policy em input) options dm) = Some (map unat input)"
    by (simp only: decode_internal_spec)
  then obtain out where "base64DecodeInternal (base64_text policy em input) options dm = Some out" "map unat out = map unat input"
    by auto
  moreover have "inj (unat :: u8 \<Rightarrow> nat)"
    by (rule inj_unat)
  ultimately show ?thesis
    by (simp add: inj_map_eq_map)
qed

lemma unat_widened: "unat (ucast b :: u16) = unat b" for b :: u8
proof -
  have "unat b < 2 ^ 8"
    using unsigned_less [of b] by simp
  then show ?thesis
    by (simp add: unsigned_ucast_eq take_bit_nat_eq_self)
qed

lemma decode_widened:
  "base64DecodeInternal (map ucast input :: u16 list) options m = base64DecodeInternal input options m" for input :: "u8 list"
proof -
  have "map unat (map ucast input :: u16 list) = map unat input"
    by (simp add: unat_widened)
  then have "map_option (map unat) (base64DecodeInternal (map ucast input :: u16 list) options m) =
      map_option (map unat) (base64DecodeInternal input options m)"
    by (simp only: decode_internal_spec)
  moreover have "inj (map_option (map (unat :: u8 \<Rightarrow> nat)))"
    by (intro option.inj_map list.inj_map inj_unat)
  ultimately show ?thesis
    by (simp add: inj_eq)
qed

lemma nat_or_0x20_bound: "c OR 0x20 \<le> 0x7A \<Longrightarrow> c < 128" for c :: nat
proof -
  assume "c OR 0x20 \<le> 0x7A"
  moreover have "int c \<le> int (c OR 0x20)"
    using or_greater_eq [of "0x20" "int c"] by (simp only: of_nat_or_eq) simp
  ultimately show "c < 128"
    by linarith
qed

lemma base64_characters:
  "isBase64OrBase64URLCharacter c \<longleftrightarrow> letter_value DecodeDefault c \<noteq> None \<or> letter_value DecodeURL c \<noteq> None"
proof (cases "c < 128")
  case True
  have "list_all (\<lambda>c. isBase64OrBase64URLCharacter c \<longleftrightarrow> decode_map DecodeDefault ! c \<noteq> nonAlphabet \<or> decode_map DecodeURL ! c \<noteq> nonAlphabet) [0..<128]"
    by code_simp
  with True have "isBase64OrBase64URLCharacter c \<longleftrightarrow>
      decoded_character DecodeDefault c \<noteq> nonAlphabet \<or> decoded_character DecodeURL c \<noteq> nonAlphabet"
    by (simp add: list_all_iff decoded_character_def decodeMapSize_def)
  then show ?thesis
    by (simp add: decoded_character_iff)
next
  case False
  then show ?thesis
    using letter_value_bounds nat_or_0x20_bound [of c]
    by (fastforce simp: isBase64OrBase64URLCharacter_def isASCIIAlphanumeric_def)
qed

lemma base64_round_trip:
  assumes "length input \<le> encoder_limit policy" and "matching em dm"
    and "policy = InsertLFs \<Longrightarrow> IgnoreSpacesAndNewLines \<in> options"
  shows "\<exists>text. base64EncodeToVector input policy em = Some text \<and>
    base64Decode_view (View8 text) options dm = Some input \<and>
    base64Decode_view (View16 (map ucast text)) options dm = Some input"
  using encode_correct(1) [OF assms(1)] decode_encoded [OF assms(2,3)] by (auto simp: decode_widened)

interpretation base64url: decodable base64URLEncodeToVector "\<lambda>text. base64URLDecode (View8 text)"
  "\<lambda>input. length input < 2 ^ 30" "\<lambda>_. True"
proof unfold_locales
  fix input cs
  assume "length input < 2 ^ 30" and "base64URLEncodeToVector input = Some cs"
  then show "base64URLDecode (View8 cs) = Some input"
    using encode_correct(1) [of input URLPolicy EncodeURL] decode_encoded [of EncodeURL DecodeURL URLPolicy "{}" input]
    by (simp add: base64URLEncodeToVector_def base64URLDecode_def encoder_limit_def matching_def)
qed

lemma base64url_injective:
  "length a < 2 ^ 30 \<Longrightarrow> length b < 2 ^ 30 \<Longrightarrow> base64URLEncodeToVector a = base64URLEncodeToVector b \<Longrightarrow> a = b"
  using base64url.encode_inj [of a b] encode_correct(1) [of b URLPolicy EncodeURL]
  by (simp add: base64URLEncodeToVector_def encoder_limit_def)

text \<open>The decoder does not look at the bits that are left over: two texts may stand for the same bytes.\<close>

lemma base64_stray_bits:
  "base64Decode_view (View8 [0x59, 0x51, 0x3D, 0x3D]) {ValidatePadding} DecodeDefault = Some [0x61]"
  "base64Decode_view (View8 [0x59, 0x52, 0x3D, 0x3D]) {ValidatePadding} DecodeDefault = Some [0x61]"
  by code_simp+

end
