(* ===== verification/WebSockets.thy ===== *)
theory WebSockets
  imports BigEndian
begin

text \<open>
  The frames of the WebSocket protocol, \<open>WebCore/Modules/websockets/WebSocketFrame.cpp\<close> and \<open>.h\<close>: the frame, its
  parser and its writer. The type \<open>size_t\<close> has 64 bits.
\<close>


section \<open>Frames\<close>

definition finalBit :: u8 where "finalBit = 0x80"
definition compressBit :: u8 where "compressBit = 0x40"
definition reserved2Bit :: u8 where "reserved2Bit = 0x20"
definition reserved3Bit :: u8 where "reserved3Bit = 0x10"
definition opCodeMask :: u8 where "opCodeMask = 0xF"
definition maskBit :: u8 where "maskBit = 0x80"
definition payloadLengthMask :: u8 where "payloadLengthMask = 0x7F"
definition maxPayloadLengthWithoutExtendedLengthField :: u64 where
  "maxPayloadLengthWithoutExtendedLengthField = 125"
definition payloadLengthWithTwoByteExtendedLengthField :: u64 where
  "payloadLengthWithTwoByteExtendedLengthField = 126"
definition payloadLengthWithEightByteExtendedLengthField :: u64 where
  "payloadLengthWithEightByteExtendedLengthField = 127"
definition maskingKeyWidthInBytes :: nat where "maskingKeyWidthInBytes = 4"
definition maxPayloadLength :: u64 where "maxPayloadLength = 0x7FFFFFFFFFFFFFFF"

text \<open>An operation code is a number: the parser casts any four bits to the enumeration.\<close>

type_synonym OpCode = u8

definition OpCodeContinuation :: OpCode where "OpCodeContinuation = 0x0"
definition OpCodeText :: OpCode where "OpCodeText = 0x1"
definition OpCodeBinary :: OpCode where "OpCodeBinary = 0x2"
definition OpCodeClose :: OpCode where "OpCodeClose = 0x8"
definition OpCodePing :: OpCode where "OpCodePing = 0x9"
definition OpCodePong :: OpCode where "OpCodePong = 0xA"
definition OpCodeInvalid :: OpCode where "OpCodeInvalid = 0x10"

definition isNonControlOpCode :: "OpCode \<Rightarrow> bool" where
  "isNonControlOpCode opCode = (opCode = OpCodeContinuation \<or> opCode = OpCodeText \<or> opCode = OpCodeBinary)"

definition isControlOpCode :: "OpCode \<Rightarrow> bool" where
  "isControlOpCode opCode = (opCode = OpCodeClose \<or> opCode = OpCodePing \<or> opCode = OpCodePong)"

definition isReservedOpCode :: "OpCode \<Rightarrow> bool" where
  "isReservedOpCode opCode = (\<not> isNonControlOpCode opCode \<and> \<not> isControlOpCode opCode)"

text \<open>The payload is the list of the bytes from the pointer on; its length is \<open>payloadLength\<close>.\<close>

record websocket_frame =
  frame_opCode :: OpCode
  frame_final :: bool
  frame_compress :: bool
  frame_reserved2 :: bool
  frame_reserved3 :: bool
  frame_masked :: bool
  frame_payload :: "u8 list"

definition WebSocketFrame :: "OpCode \<Rightarrow> bool \<Rightarrow> bool \<Rightarrow> bool \<Rightarrow> u8 list \<Rightarrow> websocket_frame" where
  "WebSocketFrame opCode final compress masked payload =
     \<lparr>frame_opCode = opCode, frame_final = final, frame_compress = compress, frame_reserved2 = False, frame_reserved3 = False,
      frame_masked = masked, frame_payload = payload\<rparr>"

definition needsExtendedLengthField :: "u64 \<Rightarrow> bool" where
  "needsExtendedLengthField payloadLength = (payloadLength > maxPayloadLengthWithoutExtendedLengthField)"

section \<open>Parsing\<close>

datatype ParseFrameResult = FrameOK | FrameIncomplete | FrameError

text \<open>The two error strings.\<close>

datatype frame_error = LengthNotMinimal | LengthTooLarge u64

text \<open>The length of the payload and what is left after it, or the result of the parser.\<close>

definition parsePayloadLength :: "u8 \<Rightarrow> u8 list \<Rightarrow> (ParseFrameResult \<times> frame_error option) + (u64 \<times> u8 list)" where
  "parsePayloadLength secondByte p =
     (let payloadLength64 = ucast (secondByte AND payloadLengthMask) in
      if payloadLength64 > maxPayloadLengthWithoutExtendedLengthField then
        let extendedPayloadLengthSize =
              (if payloadLength64 = payloadLengthWithTwoByteExtendedLengthField then 2 else 8 :: nat) in
        if length p < extendedPayloadLengthSize then Inl (FrameIncomplete, None)
        else
          let (payloadLength64, p) = read_big_endian extendedPayloadLengthSize 0 p in
          if extendedPayloadLengthSize = 2 \<and> payloadLength64 \<le> maxPayloadLengthWithoutExtendedLengthField
          then Inl (FrameError, Some LengthNotMinimal)
          else if extendedPayloadLengthSize = 8 \<and> payloadLength64 \<le> 0xFFFF
          then Inl (FrameError, Some LengthNotMinimal)
          else Inr (payloadLength64, p)
      else Inr (payloadLength64, p))"

definition apply_mask :: "u8 list \<Rightarrow> u8 list \<Rightarrow> u8 list" where
  "apply_mask maskingKey payload =
     map (\<lambda>i. payload ! i XOR maskingKey ! (i mod maskingKeyWidthInBytes)) [0..<length payload]"

text \<open>
  The result, the frame, the offset of \<open>frameEnd\<close> and the error string where they are set, and the data, whose payload is
  unmasked in place.
\<close>

type_synonym parse_outcome = "ParseFrameResult \<times> websocket_frame \<times> nat option \<times> frame_error option \<times> u8 list"

definition parseFrame :: "u8 list \<Rightarrow> websocket_frame \<Rightarrow> parse_outcome" where
  "parseFrame data frame =
     (if length data < 2 then (FrameIncomplete, frame, None, None, data)
      else
        let firstByte = data ! 0; secondByte = data ! 1;
            final = (firstByte AND finalBit \<noteq> 0);
            compress = (firstByte AND compressBit \<noteq> 0);
            reserved2 = (firstByte AND reserved2Bit \<noteq> 0);
            reserved3 = (firstByte AND reserved3Bit \<noteq> 0);
            opCode = firstByte AND opCodeMask;
            masked = (secondByte AND maskBit \<noteq> 0)
        in case parsePayloadLength secondByte (drop 2 data) of
             Inl (result, errorString) \<Rightarrow> (result, frame, None, errorString, data)
           | Inr (payloadLength64, p) \<Rightarrow>
               let maskingKeyLength = (if masked then maskingKeyWidthInBytes else 0) in
               if payloadLength64 > maxPayloadLength \<or> unat (payloadLength64 + of_nat maskingKeyLength) > 2 ^ 64 - 1
               then (FrameError, frame, None, Some (LengthTooLarge payloadLength64), data)
               else if length p < maskingKeyLength + unat payloadLength64 then (FrameIncomplete, frame, None, None, data)
               else
                 let header = length data - length p;
                     maskingKey = take maskingKeyLength p;
                     payload = take (unat payloadLength64) (drop maskingKeyLength p);
                     payload = (if masked then apply_mask maskingKey payload else payload);
                     frameEnd = header + maskingKeyLength + unat payloadLength64
                 in (FrameOK,
                     \<lparr>frame_opCode = opCode, frame_final = final, frame_compress = compress, frame_reserved2 = reserved2,
                      frame_reserved3 = reserved3, frame_masked = masked, frame_payload = payload\<rparr>,
                     Some frameEnd, None, take (header + maskingKeyLength) data @ payload @ drop frameEnd data))"

section \<open>Writing\<close>

text \<open>The masking key is random; \<open>maskingKey\<close> stands for what \<open>cryptographicallyRandomValues\<close> writes.\<close>

definition appendFramePayload :: "u8 list \<Rightarrow> websocket_frame \<Rightarrow> u8 list \<Rightarrow> u8 list" where
  "appendFramePayload maskingKey frame frameData =
     (if frame_masked frame
      then frameData @ maskingKey @ apply_mask maskingKey (frame_payload frame)
      else frameData @ frame_payload frame)"

primrec fillExtendedLength :: "nat \<Rightarrow> u64 \<Rightarrow> u8 list \<Rightarrow> u8 list" where
  "fillExtendedLength 0 remaining filled = filled"
| "fillExtendedLength (Suc i) remaining filled =
     fillExtendedLength i (drop_bit 8 remaining) (ucast (remaining AND 0xFF) # filled)"

definition makeFrameData :: "u8 list \<Rightarrow> websocket_frame \<Rightarrow> u8 list" where
  "makeFrameData maskingKey frame =
     (let payloadLength = of_nat (length (frame_payload frame)) :: u64;
          firstByte = (if frame_final frame then finalBit else 0) OR (if frame_compress frame then compressBit else 0) OR
            frame_opCode frame;
          secondByte = (if frame_masked frame then maskBit else 0);
          frameData =
            (if payloadLength \<le> maxPayloadLengthWithoutExtendedLengthField
             then [firstByte, secondByte OR ucast payloadLength]
             else if payloadLength \<le> 0xFFFF
             then [firstByte, secondByte OR ucast payloadLengthWithTwoByteExtendedLengthField,
               ucast (drop_bit 8 (payloadLength AND 0xFF00)), ucast (payloadLength AND 0xFF)]
             else [firstByte, secondByte OR ucast payloadLengthWithEightByteExtendedLengthField] @
               fillExtendedLength 8 payloadLength [])
      in appendFramePayload maskingKey frame frameData)"
end
