(* ===== verification/WebSocketFormat.thy ===== *)
theory WebSocketFormat
  imports WebSockets
begin

text \<open>
  The format of a frame, and the parser and the writer measured by it: the parser accepts exactly the bytes of the format,
  asks for more on every proper prefix, and the writer produces them.
\<close>


section \<open>The format\<close>

text \<open>A frame as RFC 6455 lays it out: flags and operation code, mask bit and shortest length, masking key, payload.\<close>

definition first_byte :: "websocket_frame \<Rightarrow> u8" where
  "first_byte f =
     (if frame_final f then 0x80 else 0) OR (if frame_compress f then 0x40 else 0) OR (if frame_reserved2 f then 0x20 else 0) OR
     (if frame_reserved3 f then 0x10 else 0) OR frame_opCode f"

definition length_field :: "bool \<Rightarrow> nat \<Rightarrow> u8 list" where
  "length_field masked n =
     (let second = (\<lambda>v. (if masked then 0x80 else 0) OR of_nat v) in
      if n \<le> 125 then [second n]
      else if n < 2 ^ 16 then second 126 # big_endian 2 n
      else second 127 # big_endian 8 n)"

definition frame_head :: "websocket_frame \<Rightarrow> u8 list" where
  "frame_head f = first_byte f # length_field (frame_masked f) (length (frame_payload f))"

definition frame_bytes :: "u8 list \<Rightarrow> websocket_frame \<Rightarrow> u8 list" where
  "frame_bytes key f =
     frame_head f @ key @ (if frame_masked f then apply_mask key (frame_payload f) else frame_payload f)"

definition frame_ok :: "u8 list \<Rightarrow> websocket_frame \<Rightarrow> bool" where
  "frame_ok key f =
     (unat (frame_opCode f) < 16 \<and> length (frame_payload f) < 2 ^ 63 \<and> length key = (if frame_masked f then 4 else 0))"

lemma apply_mask_twice: "apply_mask key (apply_mask key payload) = payload"
  by (rule nth_equalityI) (simp_all add: apply_mask_def xor.assoc)

lemma length_apply_mask [simp]: "length (apply_mask key payload) = length payload"
  by (simp add: apply_mask_def)

section \<open>Bits of the first two bytes\<close>

lemma flag_bit:
  "b AND 0x80 \<noteq> 0 \<longleftrightarrow> bit b 7" "b AND 0x40 \<noteq> 0 \<longleftrightarrow> bit b 6" "b AND 0x20 \<noteq> 0 \<longleftrightarrow> bit b 5" "b AND 0x10 \<noteq> 0 \<longleftrightarrow> bit b 4" for b :: u8
  using and_exp_eq_0_iff_not_bit [of b 7] and_exp_eq_0_iff_not_bit [of b 6] and_exp_eq_0_iff_not_bit [of b 5]
    and_exp_eq_0_iff_not_bit [of b 4] by simp_all

lemma u8_eqI: "(\<And>n. n \<in> {0, 1, 2, 3, 4, 5, 6, 7} \<Longrightarrow> bit a n = bit b n) \<Longrightarrow> a = b" for a b :: u8
proof (rule bit_word_eqI)
  fix n
  assume "\<And>n. n \<in> {0, 1, 2, 3, 4, 5, 6, 7} \<Longrightarrow> bit a n = bit b n" and "n < LENGTH(8)"
  moreover from this(2) have "n \<in> {0, 1, 2, 3, 4, 5, 6, 7}"
    by auto
  ultimately show "bit a n = bit b n"
    by blast
qed

lemma first_byte_bits:
  assumes "unat (frame_opCode f) < 16"
  shows "bit (first_byte f) 7 = frame_final f" "bit (first_byte f) 6 = frame_compress f" "bit (first_byte f) 5 = frame_reserved2 f"
    "bit (first_byte f) 4 = frame_reserved3 f" "first_byte f AND 0xF = frame_opCode f"
proof -
  have o: "n < 4" if "bit (frame_opCode f) n" for n
    using bit_below [of "frame_opCode f" 4 n] assms that by simp
  then have o': "\<not> bit (frame_opCode f) 4" "\<not> bit (frame_opCode f) 5" "\<not> bit (frame_opCode f) 6" "\<not> bit (frame_opCode f) 7"
    by force+
  show "bit (first_byte f) 7 = frame_final f" "bit (first_byte f) 6 = frame_compress f" "bit (first_byte f) 5 = frame_reserved2 f"
    "bit (first_byte f) 4 = frame_reserved3 f"
    using o' by (simp_all add: first_byte_def bit_or_iff)
  show "first_byte f AND 0xF = frame_opCode f"
    using o' by (intro u8_eqI) (auto simp: first_byte_def bit_or_iff bit_and_iff)
qed

lemma byte_first_byte:
  assumes "frame_opCode f = b AND 0xF" "frame_final f = bit b 7" "frame_compress f = bit b 6" "frame_reserved2 f = bit b 5"
    "frame_reserved3 f = bit b 4"
  shows "first_byte f = b" and "unat (frame_opCode f) < 16"
proof -
  show "first_byte f = b"
    unfolding first_byte_def assms by (rule u8_eqI, elim insertE emptyE; simp add: bit_or_iff bit_and_iff)
  have "b AND 0xF = b AND mask 4"
    by (simp add: mask_eq_exp_minus_1)
  then show "unat (frame_opCode f) < 16"
    unfolding assms by (simp add: unat_and_mask_mod)
qed

lemma second_byte_bits:
  assumes "v < 128"
  shows "bit ((if masked then 0x80 else 0) OR of_nat v :: u8) 7 = masked"
    and "((if masked then 0x80 else 0) OR of_nat v :: u8) AND 0x7F = of_nat v"
proof -
  have "unat (of_nat v :: u8) < 2 ^ 7"
    using assms by (simp add: unsigned_of_nat take_bit_nat_eq_self)
  then have "\<not> bit (of_nat v :: u8) 7"
    using bit_below [of "of_nat v :: u8" 7 7] by auto
  then show "bit ((if masked then 0x80 else 0) OR of_nat v :: u8) 7 = masked"
    and "((if masked then 0x80 else 0) OR of_nat v :: u8) AND 0x7F = of_nat v"
    by (simp add: bit_or_iff, intro u8_eqI, auto simp: bit_or_iff bit_and_iff)
qed

lemma byte_second_byte: "(if bit b 7 then 0x80 else 0) OR (b AND 0x7F) = b" for b :: u8
  by (rule u8_eqI, elim insertE emptyE; simp add: bit_or_iff bit_and_iff)

section \<open>The length\<close>

lemma unat_length_bits: "unat (ucast (b AND payloadLengthMask) :: u64) = unat (b AND 0x7F)" "unat (b AND 0x7F) < 128" for b :: u8
proof -
  have m: "b AND 0x7F = b AND mask 7"
    by (simp add: mask_eq_exp_minus_1)
  show l: "unat (b AND 0x7F) < 128"
    unfolding m unat_and_mask_mod by simp
  show "unat (ucast (b AND payloadLengthMask) :: u64) = unat (b AND 0x7F)"
    using l by (simp add: payloadLengthMask_def unsigned_ucast_eq take_bit_nat_eq_self)
qed

lemma parsePayloadLength_eq:
  "parsePayloadLength b p =
     (let m = unat (b AND 0x7F); size = (if m = 126 then 2 else 8) in
      if m \<le> 125 then Inr (of_nat m, p)
      else if length p < size then Inl (FrameIncomplete, None)
      else
        let (v, p) = read_big_endian size 0 p in
        if unat v \<le> (if m = 126 then 125 else 0xFFFF) then Inl (FrameError, Some LengthNotMinimal) else Inr (v, p))"
proof -
  let ?v = "ucast (b AND payloadLengthMask) :: u64"
  have v: "unat ?v = unat (b AND 0x7F)" "?v = of_nat (unat (b AND 0x7F))"
    using unat_length_bits(1) [of b] by (simp, metis word_of_unat)
  have c: "?v > maxPayloadLengthWithoutExtendedLengthField \<longleftrightarrow> \<not> unat (b AND 0x7F) \<le> 125"
    "?v = payloadLengthWithTwoByteExtendedLengthField \<longleftrightarrow> unat (b AND 0x7F) = 126"
    "w \<le> maxPayloadLengthWithoutExtendedLengthField \<longleftrightarrow> unat w \<le> 125" "w \<le> 0xFFFF \<longleftrightarrow> unat w \<le> 0xFFFF" for w
    using v(1) by (simp_all add: maxPayloadLengthWithoutExtendedLengthField_def payloadLengthWithTwoByteExtendedLengthField_def
      word_less_nat_alt word_le_nat_alt word_unat_eq_iff not_le)
  show ?thesis
    unfolding parsePayloadLength_def Let_def c v(2) [symmetric] by (auto split: prod.split)
qed

lemma length_field_126: "125 < n \<Longrightarrow> n < 2 ^ 16 \<Longrightarrow> length_field masked n = ((if masked then 0x80 else 0) OR 126) # big_endian 2 n"
  and length_field_127: "2 ^ 16 \<le> n \<Longrightarrow> length_field masked n = ((if masked then 0x80 else 0) OR 127) # big_endian 8 n"
  and length_field_short: "n \<le> 125 \<Longrightarrow> length_field masked n = [(if masked then 0x80 else 0) OR of_nat n]"
  by (simp_all add: length_field_def Let_def)

lemma parsePayloadLength_sound:
  assumes "parsePayloadLength b p = Inr (v, p')"
  shows "b # p = length_field (bit b 7) (unat v) @ p'"
proof -
  let ?m = "unat (b AND 0x7F)"
  have m: "b AND 0x7F = of_nat ?m" "?m < 128"
    using unat_length_bits(2) [of b] by simp_all
  consider "?m \<le> 125" | "?m = 126" | "?m = 127"
    using m(2) by linarith
  then show ?thesis
  proof cases
    case 1
    then have v: "v = of_nat ?m" "p' = p"
      using assms by (simp_all add: parsePayloadLength_eq)
    have "unat v = ?m"
      unfolding v using m(2) by (simp add: unsigned_ucast_eq take_bit_nat_eq_self)
    with 1 show ?thesis
      using byte_second_byte [of b] m(1) v(2) by (simp add: length_field_short)
  next
    case 2
    then have r: "read_big_endian 2 0 p = (v, p')" "2 \<le> length p" "125 < unat v"
      using assms by (auto simp: parsePayloadLength_eq Let_def split: prod.splits if_splits)
    have "p = big_endian 2 (unat v) @ p' \<and> unat v < 2 ^ 16"
      using read_big_endian_sound [OF r(1), of 0] r(2) by simp
    then show ?thesis
      using byte_second_byte [of b] m(1) 2 r(3) by (simp add: length_field_126)
  next
    case 3
    then have r: "read_big_endian 8 0 p = (v, p')" "8 \<le> length p" "2 ^ 16 \<le> unat v"
      using assms by (auto simp: parsePayloadLength_eq Let_def split: prod.splits if_splits)
    have "p = big_endian 8 (unat v) @ p'"
      using read_big_endian_sound [OF r(1), of 0] r(2) by simp
    then show ?thesis
      using byte_second_byte [of b] m(1) 3 r(3) by (simp add: length_field_127)
  qed
qed

lemma second_byte_length:
  assumes "v < 128"
  shows "unat (((if masked then 0x80 else 0) OR of_nat v :: u8) AND 0x7F) = v"
  unfolding second_byte_bits(2) [OF assms] using assms by (simp add: unsigned_of_nat take_bit_nat_eq_self)

lemma parsePayloadLength_field:
  assumes "length_field masked n = s # r" and "n < 2 ^ 64"
  shows "parsePayloadLength s (r @ p) = Inr (of_nat n, p)" and "bit s 7 = masked"
    and "k < length r \<Longrightarrow> parsePayloadLength s (take k r) = Inl (FrameIncomplete, None)"
proof -
  let ?f = "if masked then 0x80 else 0 :: u8"
  have u: "unat (of_nat n :: u64) = n"
    using assms(2) by (simp add: unsigned_of_nat take_bit_nat_eq_self)
  consider "n \<le> 125" | "125 < n" "n < 2 ^ 16" | "2 ^ 16 \<le> n"
    by linarith
  then have "parsePayloadLength s (r @ p) = Inr (of_nat n, p) \<and> bit s 7 = masked \<and>
      (k < length r \<longrightarrow> parsePayloadLength s (take k r) = Inl (FrameIncomplete, None))"
  proof cases
    case 1
    then have s: "s = ?f OR of_nat n" "r = []"
      using assms(1) by (simp_all add: length_field_short)
    have "unat (s AND 0x7F) = n" "bit s 7 = masked"
      unfolding s using 1 second_byte_length [of n masked] second_byte_bits(1) [of n masked] by simp_all
    with 1 s(2) show ?thesis
      by (simp add: parsePayloadLength_eq)
  next
    case 2
    then have s: "s = ?f OR of_nat 126" "r = big_endian 2 n"
      using assms(1) by (simp_all add: length_field_126)
    have m: "unat (s AND 0x7F) = 126" "bit s 7 = masked"
      unfolding s using second_byte_length [of 126 masked] second_byte_bits(1) [of 126 masked] by simp_all
    have "read_big_endian 2 0 (big_endian 2 n @ p) = (of_nat n, p)"
      using 2 by (intro read_big_endian_complete) simp_all
    with 2 m u show ?thesis
      by (simp add: parsePayloadLength_eq s(2) big_endian_length)
  next
    case 3
    then have s: "s = ?f OR of_nat 127" "r = big_endian 8 n"
      using assms(1) by (simp_all add: length_field_127)
    have m: "unat (s AND 0x7F) = 127" "bit s 7 = masked"
      unfolding s using second_byte_length [of 127 masked] second_byte_bits(1) [of 127 masked] by simp_all
    have "read_big_endian 8 0 (big_endian 8 n @ p) = (of_nat n, p)"
      using assms(2) by (intro read_big_endian_complete) simp_all
    with 3 m u show ?thesis
      by (simp add: parsePayloadLength_eq s(2) big_endian_length)
  qed
  then show "parsePayloadLength s (r @ p) = Inr (of_nat n, p)" and "bit s 7 = masked"
    and "k < length r \<Longrightarrow> parsePayloadLength s (take k r) = Inl (FrameIncomplete, None)"
    by simp_all
qed

section \<open>Frames\<close>

lemma length_frame_bytes:
  "frame_ok key f \<Longrightarrow> length (frame_bytes key f) = length (frame_head f) + (if frame_masked f then 4 else 0) + length (frame_payload f)"
  by (simp add: frame_bytes_def frame_ok_def)

lemma not_too_large:
  assumes "unat v < 2 ^ 63"
  shows "\<not> (v > maxPayloadLength \<or> unat (v + of_nat k) > 2 ^ 64 - 1)"
proof -
  have "unat (v + of_nat k) < 2 ^ 64"
    using unsigned_less [of "v + of_nat k", where 'a = nat] by simp
  then show ?thesis
    using assms by (simp add: maxPayloadLength_def word_less_nat_alt)
qed

definition unmasked_bytes :: "u8 list \<Rightarrow> websocket_frame \<Rightarrow> u8 list" where
  "unmasked_bytes key f = frame_head f @ key @ frame_payload f"

lemma frame_eta:
  "frame_masked f = masked \<Longrightarrow>
    \<lparr>frame_opCode = frame_opCode f, frame_final = frame_final f, frame_compress = frame_compress f,
     frame_reserved2 = frame_reserved2 f, frame_reserved3 = frame_reserved3 f, frame_masked = masked,
     frame_payload = frame_payload f\<rparr> = f"
  by simp

lemma length_field_Cons:
  obtains s r where "length_field masked n = s # r"
  by (cases "length_field masked n") (auto simp: length_field_def Let_def split: if_splits)

lemma parseFrame_complete:
  assumes f: "frame_ok key f"
  shows "parseFrame (frame_bytes key f @ rest) g =
    (FrameOK, f, Some (length (frame_bytes key f)), None, unmasked_bytes key f @ rest)"
proof -
  let ?n = "length (frame_payload f)"
  obtain s r where s: "length_field (frame_masked f) ?n = s # r"
    by (rule length_field_Cons)
  let ?body = "key @ (if frame_masked f then apply_mask key (frame_payload f) else frame_payload f)"
  let ?data = "first_byte f # s # r @ ?body @ rest"
  have d: "frame_bytes key f @ rest = ?data"
    by (simp add: frame_bytes_def frame_head_def s)
  have n: "?n < 2 ^ 63" "unat (frame_opCode f) < 16" "length key = (if frame_masked f then 4 else 0)"
    using f by (simp_all add: frame_ok_def)
  have u: "unat (of_nat ?n :: u64) = ?n"
    using n(1) by (simp add: unsigned_of_nat take_bit_nat_eq_self)
  have n64: "?n < 2 ^ 64"
    using n(1) by simp
  note p = parsePayloadLength_field [OF s n64]
  note b = first_byte_bits [OF n(2)]
  have t: "\<not> (of_nat ?n > maxPayloadLength \<or> unat (of_nat ?n + of_nat k :: u64) > 2 ^ 64 - 1)" for k
    using not_too_large [of "of_nat ?n" k] n(1) unfolding u by simp
  have l: "length ?data - length (?body @ rest) = 2 + length r"
    by simp
  have h: "frame_head f = first_byte f # s # r"
    by (simp add: frame_head_def s)
  have td: "take (6 + length r) (first_byte f # s # r @ key @ x) = first_byte f # s # r @ key"
    "drop (6 + length r + k) (first_byte f # s # r @ key @ x) = drop k x" if "length key = 4" for x k
    using that by (simp_all add: numeral_nat)
  have "parseFrame ?data g =
      (FrameOK, f, Some (2 + length r + length key + ?n), None, (first_byte f # s # r) @ key @ frame_payload f @ rest)"
    unfolding parseFrame_def Let_def
    using t [of 0] t [of 4] n(3)
    by (cases "frame_masked f") (simp_all add: p(1,2) finalBit_def compressBit_def reserved2Bit_def reserved3Bit_def opCodeMask_def
      maskBit_def maskingKeyWidthInBytes_def flag_bit b u apply_mask_twice not_less frame_eta td)
  then show ?thesis
    unfolding d using n(3) by (simp add: unmasked_bytes_def frame_bytes_def h)
qed

lemma parseFrame_prefix:
  assumes f: "frame_ok key f" and k: "k < length (frame_bytes key f)"
  shows "parseFrame (take k (frame_bytes key f)) g = (FrameIncomplete, g, None, None, take k (frame_bytes key f))"
proof -
  let ?n = "length (frame_payload f)"
  let ?data = "take k (frame_bytes key f)"
  obtain s r where s: "length_field (frame_masked f) ?n = s # r"
    by (rule length_field_Cons)
  let ?body = "key @ (if frame_masked f then apply_mask key (frame_payload f) else frame_payload f)"
  have n: "?n < 2 ^ 63" "?n < 2 ^ 64" "length key = (if frame_masked f then 4 else 0)"
    using f by (simp_all add: frame_ok_def)
  have u: "unat (of_nat ?n :: u64) = ?n"
    using n(2) by (simp add: unsigned_of_nat take_bit_nat_eq_self)
  have d: "frame_bytes key f = first_byte f # s # r @ ?body"
    by (simp add: frame_bytes_def frame_head_def s)
  note p = parsePayloadLength_field [OF s n(2)]
  consider "k < 2" | "2 \<le> k" "k - 2 < length r" | "2 \<le> k" "length r \<le> k - 2"
    by linarith
  then show ?thesis
  proof cases
    case 1
    then have "length ?data < 2"
      by simp
    then show ?thesis
      unfolding parseFrame_def by (rule if_P)
  next
    case 2
    then have e: "?data = first_byte f # s # take (k - 2) r"
      unfolding d by (simp add: take_Cons' numeral_2_eq_2)
    show ?thesis
      unfolding e parseFrame_def using p(3) [OF 2(2)] by (simp add: Let_def)
  next
    case 3
    then obtain j where j: "k = 2 + length r + j"
      by (metis add.assoc le_Suc_ex le_add_diff_inverse)
    have e: "?data = first_byte f # s # r @ take j ?body"
      unfolding d j by (simp add: numeral_2_eq_2)
    have m: "(if frame_masked f then maskingKeyWidthInBytes else 0) = length key"
      using n(3) by (simp add: maskingKeyWidthInBytes_def)
    have "length (take j ?body) < length key + ?n"
      using k unfolding d j by (cases "frame_masked f") simp_all
    moreover have "\<not> (of_nat ?n > maxPayloadLength \<or> unat (of_nat ?n + of_nat (length key) :: u64) > 2 ^ 64 - 1)"
      using not_too_large [of "of_nat ?n" "length key"] n(1) unfolding u by simp
    ultimately show ?thesis
      unfolding e parseFrame_def Let_def using p(1,2) m u by (simp add: maskBit_def flag_bit)
  qed
qed

lemma parsePayloadLength_not_OK: "parsePayloadLength b p \<noteq> Inl (FrameOK, err)"
  by (simp add: parsePayloadLength_eq Let_def split: prod.split)

lemma parseFrame_sound:
  assumes "parseFrame data g = (FrameOK, f, e, err, data')"
  shows "\<exists>key rest. frame_ok key f \<and> data = frame_bytes key f @ rest"
proof -
  have l: "\<not> length data < 2"
    using assms by (auto simp: parseFrame_def)
  then obtain a b p where d: "data = a # b # p"
    by (metis One_nat_def Suc_1 length_Cons less_2_cases_iff list.exhaust list.size(3))
  let ?masked = "bit b 7"
  obtain v q where pl: "parsePayloadLength b p = Inr (v, q)"
    using assms l parsePayloadLength_not_OK unfolding d by (auto simp: parseFrame_def Let_def split: sum.splits prod.splits)
  let ?k = "if ?masked then maskingKeyWidthInBytes else 0"
  have ok: "\<not> (v > maxPayloadLength \<or> unat (v + of_nat ?k) > 2 ^ 64 - 1)" "\<not> length q < ?k + unat v"
    using assms l pl unfolding d by (auto simp: parseFrame_def Let_def maskBit_def flag_bit split: if_splits)
  let ?key = "take ?k q" and ?raw = "take (unat v) (drop ?k q)"
  have f: "f = \<lparr>frame_opCode = a AND 0xF, frame_final = bit a 7, frame_compress = bit a 6, frame_reserved2 = bit a 5,
      frame_reserved3 = bit a 4, frame_masked = ?masked,
      frame_payload = (if ?masked then apply_mask ?key ?raw else ?raw)\<rparr>"
    using assms l pl ok unfolding d
    by (simp add: parseFrame_def Let_def maskBit_def finalBit_def compressBit_def reserved2Bit_def reserved3Bit_def opCodeMask_def
      flag_bit split: if_splits)
  have n: "length (frame_payload f) = unat v"
    using ok(2) by (cases ?masked) (auto simp: f min_def)
  have b: "first_byte f = a" "unat (frame_opCode f) < 16"
    using byte_first_byte [of f a] by (simp_all add: f)
  have "unat v < 2 ^ 63"
    using ok(1) by (simp add: maxPayloadLength_def word_less_nat_alt not_less)
  then have "frame_ok ?key f"
    using b(2) n ok(2) by (simp add: frame_ok_def f maskingKeyWidthInBytes_def)
  moreover have "data = frame_bytes ?key f @ drop (?k + unat v) q"
  proof -
    have "q = ?key @ ?raw @ drop (?k + unat v) q"
      by (metis append_take_drop_id drop_drop add.commute)
    moreover have "(if frame_masked f then apply_mask ?key (frame_payload f) else frame_payload f) = ?raw"
      by (simp add: f apply_mask_twice)
    moreover have "frame_masked f = ?masked"
      by (simp add: f)
    ultimately show ?thesis
      unfolding d frame_bytes_def frame_head_def b(1) n using parsePayloadLength_sound [OF pl] by simp
  qed
  ultimately show ?thesis
    by blast
qed

lemma parseFrame_iff:
  "parseFrame data g = (FrameOK, f, Some e, None, data') \<longleftrightarrow>
    (\<exists>key rest. frame_ok key f \<and> data = frame_bytes key f @ rest \<and> e = length (frame_bytes key f) \<and>
      data' = unmasked_bytes key f @ rest)"
proof
  assume p: "parseFrame data g = (FrameOK, f, Some e, None, data')"
  then obtain key rest where k: "frame_ok key f" "data = frame_bytes key f @ rest"
    using parseFrame_sound by blast
  then show "\<exists>key rest. frame_ok key f \<and> data = frame_bytes key f @ rest \<and> e = length (frame_bytes key f) \<and>
      data' = unmasked_bytes key f @ rest"
    using p parseFrame_complete [OF k(1), of rest g] by (intro exI [of _ key] exI [of _ rest]) simp
qed (auto simp: parseFrame_complete)

section \<open>Writing\<close>

lemma big_endian_snoc: "big_endian (Suc k) n = big_endian k (n div 256) @ [of_nat n]"
proof (induction k)
  case (Suc k)
  have "n div 256 ^ Suc k = n div 256 div 256 ^ k"
    by (simp add: div_mult2_eq)
  then show ?case
    using Suc by (simp add: big_endian_Suc [of "Suc k"] big_endian_Suc [of k "n div 256"])
qed (simp add: big_endian_def)

lemma fillExtendedLength_eq: "fillExtendedLength k v filled = big_endian k (unat v) @ filled"
proof (induction k arbitrary: v filled)
  case (Suc k)
  have "(ucast (v AND 0xFF) :: u8) = of_nat (unat v)"
    using low_byte [of v] by (simp only: and.commute)
  then show ?case
    using Suc [of "drop_bit 8 v"] by (simp add: unat_drop_bit_div big_endian_snoc del: fillExtendedLength.simps(1))
qed (simp add: big_endian_def)

lemma big_endian_2: "big_endian 2 n = [of_nat (n div 256), of_nat n]"
  by (simp add: big_endian_def upt_rec)

lemma second_low_byte: "(ucast (drop_bit 8 (v AND 0xFF00)) :: u8) = of_nat (unat v div 256)" for v :: u64
proof -
  have "(ucast (drop_bit 8 (v AND 0xFF00)) :: u8) = ucast (drop_bit 8 v)"
    by (rule u8_eqI, elim insertE emptyE; simp add: bit_ucast_iff bit_drop_bit_eq bit_and_iff)
  also have "\<dots> = of_nat (unat (drop_bit 8 v))"
    by simp
  finally show ?thesis
    by (simp only: unat_drop_bit_div) simp
qed

lemma makeFrameData_eq:
  assumes "\<not> frame_reserved2 f" "\<not> frame_reserved3 f" "length (frame_payload f) < 2 ^ 63"
  shows "makeFrameData key f = frame_bytes (if frame_masked f then key else []) f"
proof -
  let ?n = "length (frame_payload f)"
  let ?v = "of_nat ?n :: u64"
  let ?s = "if frame_masked f then maskBit else 0"
  have u: "unat ?v = ?n"
    using assms(3) by (simp add: unsigned_of_nat take_bit_nat_eq_self)
  have c: "?v \<le> maxPayloadLengthWithoutExtendedLengthField \<longleftrightarrow> ?n \<le> 125" "?v \<le> 0xFFFF \<longleftrightarrow> ?n < 2 ^ 16"
    by (auto simp: word_le_nat_alt u maxPayloadLengthWithoutExtendedLengthField_def)
  have k: "ucast payloadLengthWithTwoByteExtendedLengthField = (126 :: u8)"
    "ucast payloadLengthWithEightByteExtendedLengthField = (127 :: u8)"
    by (simp_all add: payloadLengthWithTwoByteExtendedLengthField_def payloadLengthWithEightByteExtendedLengthField_def)
  have l: "ucast ?v = (of_nat ?n :: u8)"
  proof -
    have "(of_nat (unat w) :: u8) = ucast w" for w :: u64
      by simp
    from this [of ?v] show ?thesis
      unfolding u by (rule sym)
  qed
  have b: "(if frame_final f then finalBit else 0) OR (if frame_compress f then compressBit else 0) OR frame_opCode f = first_byte f"
    using assms(1,2) by (simp add: first_byte_def finalBit_def compressBit_def)
  have "(if ?v \<le> maxPayloadLengthWithoutExtendedLengthField then [first_byte f, ?s OR ucast ?v]
      else if ?v \<le> 0xFFFF
      then [first_byte f, ?s OR ucast payloadLengthWithTwoByteExtendedLengthField,
        ucast (drop_bit 8 (?v AND 0xFF00)), ucast (?v AND 0xFF)]
      else [first_byte f, ?s OR ucast payloadLengthWithEightByteExtendedLengthField] @ fillExtendedLength 8 ?v []) = frame_head f"
    unfolding c k l second_low_byte fillExtendedLength_eq u and.commute [of ?v "0xFF"] low_byte
    by (simp add: frame_head_def length_field_def maskBit_def Let_def big_endian_2)
  then show ?thesis
    unfolding makeFrameData_def Let_def b by (simp add: appendFramePayload_def frame_bytes_def)
qed

lemma frame_fields [simp]:
  "frame_masked (WebSocketFrame opCode final compress masked payload) = masked"
  "frame_payload (WebSocketFrame opCode final compress masked payload) = payload"
  "frame_opCode (WebSocketFrame opCode final compress masked payload) = opCode"
  "\<not> frame_reserved2 (WebSocketFrame opCode final compress masked payload)"
  "\<not> frame_reserved3 (WebSocketFrame opCode final compress masked payload)"
  by (simp_all add: WebSocketFrame_def)

lemma made_frame_parses:
  assumes "unat opCode < 16" "length payload < 2 ^ 63" "length key = 4"
    and f: "f = WebSocketFrame opCode final compress masked payload"
  shows "\<exists>data'. parseFrame (makeFrameData key f @ rest) g = (FrameOK, f, Some (length (makeFrameData key f)), None, data')"
    and "k < length (makeFrameData key f) \<Longrightarrow>
      parseFrame (take k (makeFrameData key f)) g = (FrameIncomplete, g, None, None, take k (makeFrameData key f))"
proof -
  let ?key = "if masked then key else []"
  have ok: "frame_ok ?key f"
    using assms by (simp add: frame_ok_def f)
  have m: "makeFrameData key f = frame_bytes ?key f"
    using makeFrameData_eq [of f key] assms(2) by (simp add: f)
  show "\<exists>data'. parseFrame (makeFrameData key f @ rest) g = (FrameOK, f, Some (length (makeFrameData key f)), None, data')"
    unfolding m using parseFrame_complete [OF ok] by blast
  show "k < length (makeFrameData key f) \<Longrightarrow>
      parseFrame (take k (makeFrameData key f)) g = (FrameIncomplete, g, None, None, take k (makeFrameData key f))"
    unfolding m by (rule parseFrame_prefix [OF ok])
qed

text \<open>The reserved bits are read, but not written.\<close>

lemma reserved_bits_lost:
  "makeFrameData key (f\<lparr>frame_reserved2 := a, frame_reserved3 := b\<rparr>) = makeFrameData key f"
  by (simp add: makeFrameData_def appendFramePayload_def Let_def)

section \<open>Unmasked frames as a codec\<close>

definition plain_frame :: "websocket_frame \<Rightarrow> bool" where
  "plain_frame f = (frame_ok [] f \<and> \<not> frame_masked f \<and> \<not> frame_reserved2 f \<and> \<not> frame_reserved3 f)"

definition whole_frame :: "u8 list \<Rightarrow> websocket_frame option" where
  "whole_frame data =
     (case parseFrame data (WebSocketFrame OpCodeInvalid False False False []) of
        (FrameOK, f, Some frameEnd, _, _) \<Rightarrow>
          if frameEnd = length data \<and> \<not> frame_masked f \<and> \<not> frame_reserved2 f \<and> \<not> frame_reserved3 f then Some f else None
      | _ \<Rightarrow> None)"

lemma whole_frame_iff: "whole_frame data = Some f \<longleftrightarrow> plain_frame f \<and> makeFrameData [] f = data"
proof
  assume w: "whole_frame data = Some f"
  let ?g = "WebSocketFrame OpCodeInvalid False False False []"
  obtain err data' where p: "parseFrame data ?g = (FrameOK, f, Some (length data), err, data')"
    and m: "\<not> frame_masked f" "\<not> frame_reserved2 f" "\<not> frame_reserved3 f"
    using w by (auto simp: whole_frame_def split: prod.splits ParseFrameResult.splits option.splits if_splits)
  then obtain key rest where k: "frame_ok key f" "data = frame_bytes key f @ rest"
    using parseFrame_sound by blast
  then have "length data = length (frame_bytes key f)"
    using p parseFrame_complete [OF k(1), of rest ?g] by simp
  then show "plain_frame f \<and> makeFrameData [] f = data"
    using k m makeFrameData_eq [of f "[]"] by (simp add: plain_frame_def frame_ok_def)
next
  assume "plain_frame f \<and> makeFrameData [] f = data"
  moreover from this have "frame_bytes [] f = data"
    using makeFrameData_eq [of f "[]"] by (simp add: plain_frame_def frame_ok_def)
  ultimately show "whole_frame data = Some f"
    using parseFrame_complete [of "[]" f "[]"] by (simp add: whole_frame_def plain_frame_def)
qed

interpretation plain_frames: codec "\<lambda>f. Some (makeFrameData [] f)" whole_frame plain_frame "\<lambda>_. True"
  by unfold_locales (simp_all add: whole_frame_iff)

lemma plain_frame_injective:
  "plain_frame f \<Longrightarrow> plain_frame g \<Longrightarrow> makeFrameData [] f = makeFrameData [] g \<Longrightarrow> f = g"
  by (rule plain_frames.encode_inj [of f g]) simp_all

lemma parsePayloadLength_error:
  "parsePayloadLength b p = Inl (r, err) \<Longrightarrow> r = FrameIncomplete \<and> err = None \<or> r = FrameError \<and> err \<noteq> None"
  by (auto simp: parsePayloadLength_eq Let_def split: prod.splits if_splits)

lemma parseFrame_not_OK:
  "fst (parseFrame data g) = FrameOK \<or>
    (\<exists>err. snd (parseFrame data g) = (g, None, err, data) \<and> (err = None \<longleftrightarrow> fst (parseFrame data g) = FrameIncomplete))"
proof (cases "length data < 2")
  case True
  then show ?thesis
    by (simp add: parseFrame_def)
next
  case False
  show ?thesis
  proof (cases "parsePayloadLength (data ! 1) (drop 2 data)")
    case (Inl x)
    then obtain r err where "parsePayloadLength (data ! 1) (drop 2 data) = Inl (r, err)"
      by (cases x) auto
    with False show ?thesis
      using parsePayloadLength_error [of "data ! 1" "drop 2 data" r err] by (auto simp: parseFrame_def Let_def)
  next
    case (Inr x)
    then obtain v p where "parsePayloadLength (data ! 1) (drop 2 data) = Inr (v, p)"
      by (cases x) auto
    with False show ?thesis
      by (simp add: parseFrame_def Let_def)
  qed
qed

end
