(* ===== verification/ParkingLot.thy ===== *)
theory ParkingLot
  imports Prelude
begin

text \<open>
  The queue of a bucket of the parking lot, \<open>WTF/wtf/ParkingLot.cpp\<close>: threads linked by \<open>nextInQueue\<close>, the loop of
  \<open>genericDequeue\<close> over links, and the searches of the unpark operations. Each function is the part that runs under the lock
  of the bucket; the allocation and the rehashing of the table of buckets are left out.
\<close>


section \<open>A bucket\<close>

text \<open>A pointer to the data of a thread, and an address threads park on. The clock is any linear order.\<close>

type_synonym thread_data = nat
type_synonym park_address = nat

text \<open>A bucket with the field \<open>nextInQueue\<close> of every thread's data.\<close>

record 'time bucket =
  queueHead :: "thread_data option"
  queueTail :: "thread_data option"
  nextInQueue :: "thread_data \<Rightarrow> thread_data option"
  nextFairTime :: 'time

datatype DequeueResult = Ignore | RemoveAndContinue | RemoveAndStop

definition enqueue :: "thread_data \<Rightarrow> 'time bucket \<Rightarrow> 'time bucket" where
  "enqueue data b =
     (case queueTail b of
        Some tail \<Rightarrow> b\<lparr>nextInQueue := (nextInQueue b)(tail := Some data), queueTail := Some data\<rparr>
      | None \<Rightarrow> b\<lparr>queueHead := Some data, queueTail := Some data\<rparr>)"

text \<open>What \<open>currentPtr\<close> points to: the head of the queue, or the field \<open>nextInQueue\<close> of a thread.\<close>

datatype link = HeadLink | NextLink thread_data

fun load_link :: "link \<Rightarrow> 'time bucket \<Rightarrow> thread_data option" where
  "load_link HeadLink b = queueHead b"
| "load_link (NextLink d) b = nextInQueue b d"

fun store_link :: "link \<Rightarrow> thread_data option \<Rightarrow> 'time bucket \<Rightarrow> 'time bucket" where
  "store_link HeadLink v b = b\<lparr>queueHead := v\<rparr>"
| "store_link (NextLink d) v b = b\<lparr>nextInQueue := (nextInQueue b)(d := v)\<rparr>"

definition remove_current :: "link \<Rightarrow> thread_data option \<Rightarrow> thread_data \<Rightarrow> 'time bucket \<Rightarrow> 'time bucket" where
  "remove_current currentPtr previous current b =
     (let b = (if Some current = queueTail b then b\<lparr>queueTail := previous\<rparr> else b);
          b = store_link currentPtr (nextInQueue b current) b
      in b\<lparr>nextInQueue := (nextInQueue b)(current := None)\<rparr>)"

text \<open>The functor of the caller has captured variables, \<open>'c\<close>.\<close>

type_synonym 'c dequeue_functor = "'c \<Rightarrow> thread_data \<Rightarrow> bool \<Rightarrow> 'c \<times> DequeueResult"

partial_function (option) dequeue_loop ::
  "'c dequeue_functor \<Rightarrow> bool \<Rightarrow> link \<Rightarrow> thread_data option \<Rightarrow> bool \<Rightarrow> 'c \<Rightarrow> 'time bucket \<Rightarrow> ('c \<times> bool \<times> 'time bucket) option" where
  "dequeue_loop dequeueFunctor timeToBeFair currentPtr previous didDequeue captured b =
     (case load_link currentPtr b of
        None \<Rightarrow> Some (captured, didDequeue, b)
      | Some current \<Rightarrow>
          (case dequeueFunctor captured current timeToBeFair of
             (captured, result) \<Rightarrow>
               (case result of
                  Ignore \<Rightarrow> dequeue_loop dequeueFunctor timeToBeFair (NextLink current) (Some current) didDequeue captured b
                | RemoveAndStop \<Rightarrow> Some (captured, True, remove_current currentPtr previous current b)
                | RemoveAndContinue \<Rightarrow>
                    dequeue_loop dequeueFunctor timeToBeFair currentPtr previous True captured
                      (remove_current currentPtr previous current b))))"

text \<open>\<open>time\<close> is what the clock says, \<open>fairTime\<close> the random time a little later.\<close>

definition genericDequeue ::
  "'time :: linorder \<Rightarrow> 'time \<Rightarrow> 'c dequeue_functor \<Rightarrow> 'c \<Rightarrow> 'time bucket \<Rightarrow> ('c \<times> 'time bucket) option" where
  "genericDequeue time fairTime dequeueFunctor captured b =
     (if queueHead b = None then Some (captured, b)
      else
        let timeToBeFair = (time > nextFairTime b) in
        case dequeue_loop dequeueFunctor timeToBeFair HeadLink None False captured b of
          None \<Rightarrow> None
        | Some (captured, didDequeue, b) \<Rightarrow>
            Some (captured, if timeToBeFair \<and> didDequeue then b\<lparr>nextFairTime := fairTime\<rparr> else b))"

definition first_functor :: "thread_data option dequeue_functor" where
  "first_functor result element timeToBeFair = (Some element, RemoveAndStop)"

definition bucket_dequeue :: "'time :: linorder \<Rightarrow> 'time \<Rightarrow> 'time bucket \<Rightarrow> (thread_data option \<times> 'time bucket) option" where
  "bucket_dequeue time fairTime b = genericDequeue time fairTime first_functor None b"

section \<open>Unparking from a bucket\<close>

record UnparkResult =
  didUnparkThread :: bool
  mayHaveMoreThreads :: bool
  timeToBeFair :: bool

text \<open>The field \<open>address\<close> of every thread's data. The functors compare it with the address that is unparked.\<close>

type_synonym addresses = "thread_data \<Rightarrow> park_address option"

definition unpark_functor :: "addresses \<Rightarrow> park_address \<Rightarrow> (thread_data option \<times> bool) dequeue_functor" where
  "unpark_functor addresses address captured element passedTimeToBeFair =
     (if addresses element \<noteq> Some address then (captured, Ignore)
      else ((Some element, passedTimeToBeFair), RemoveAndStop))"

text \<open>The thread found, what the callback is told, and the bucket.\<close>

definition unparkOneImpl ::
  "'time :: linorder \<Rightarrow> 'time \<Rightarrow> addresses \<Rightarrow> park_address \<Rightarrow> 'time bucket \<Rightarrow>
    (thread_data option \<times> UnparkResult \<times> 'time bucket) option" where
  "unparkOneImpl time fairTime addresses address b =
     (case genericDequeue time fairTime (unpark_functor addresses address) (None, False) b of
        None \<Rightarrow> None
      | Some ((threadData, fair), b) \<Rightarrow>
          let mayHaveMore = (queueHead b \<noteq> None) in
          Some (threadData,
            \<lparr>didUnparkThread = threadData \<noteq> None, mayHaveMoreThreads = threadData \<noteq> None \<and> mayHaveMore, timeToBeFair = fair\<rparr>, b))"

definition unparkOne ::
  "'time :: linorder \<Rightarrow> 'time \<Rightarrow> addresses \<Rightarrow> park_address \<Rightarrow> 'time bucket \<Rightarrow>
    (thread_data option \<times> UnparkResult \<times> 'time bucket) option" where
  "unparkOne time fairTime addresses address b =
     (case genericDequeue time fairTime (unpark_functor addresses address) (None, False) b of
        None \<Rightarrow> None
      | Some ((threadData, _), b) \<Rightarrow>
          let mayHaveMore = (queueHead b \<noteq> None);
              result = \<lparr>didUnparkThread = threadData \<noteq> None, mayHaveMoreThreads = mayHaveMore, timeToBeFair = False\<rparr>
          in Some (threadData, if threadData = None then result\<lparr>mayHaveMoreThreads := False\<rparr> else result, b))"

definition count_functor :: "addresses \<Rightarrow> park_address \<Rightarrow> u32 \<Rightarrow> thread_data list dequeue_functor" where
  "count_functor addresses address count threadDatas element fair =
     (if addresses element \<noteq> Some address then (threadDatas, Ignore)
      else
        let threadDatas = threadDatas @ [element] in
        (threadDatas, if length threadDatas = unat count then RemoveAndStop else RemoveAndContinue))"

definition unparkCount ::
  "'time :: linorder \<Rightarrow> 'time \<Rightarrow> addresses \<Rightarrow> park_address \<Rightarrow> u32 \<Rightarrow> 'time bucket \<Rightarrow> (thread_data list \<times> 'time bucket) option" where
  "unparkCount time fairTime addresses address count b =
     (if count = 0 then Some ([], b)
      else genericDequeue time fairTime (count_functor addresses address count) [] b)"

definition unparkAll ::
  "'time :: linorder \<Rightarrow> 'time \<Rightarrow> addresses \<Rightarrow> park_address \<Rightarrow> 'time bucket \<Rightarrow> (thread_data list \<times> 'time bucket) option" where
  "unparkAll time fairTime addresses address b = unparkCount time fairTime addresses address (- 1) b"

text \<open>A thread that gives up takes its own data out of the queue.\<close>

definition cancel_functor :: "thread_data \<Rightarrow> bool dequeue_functor" where
  "cancel_functor me didDequeue element fair =
     (if element = me then (True, RemoveAndStop) else (didDequeue, Ignore))"

definition cancel_park :: "'time :: linorder \<Rightarrow> 'time \<Rightarrow> thread_data \<Rightarrow> 'time bucket \<Rightarrow> (bool \<times> 'time bucket) option" where
  "cancel_park time fairTime me b = genericDequeue time fairTime (cancel_functor me) False b"

section \<open>Buckets as lists\<close>

primrec queue_path :: "(thread_data \<Rightarrow> thread_data option) \<Rightarrow> thread_data option \<Rightarrow> thread_data list \<Rightarrow> thread_data option \<Rightarrow> bool" where
  "queue_path next p [] q \<longleftrightarrow> p = q"
| "queue_path next p (x # xs) q \<longleftrightarrow> p = Some x \<and> queue_path next (next x) xs q"

definition last_of :: "thread_data list \<Rightarrow> thread_data option" where
  "last_of ys = (if ys = [] then None else Some (last ys))"

definition link_after :: "thread_data list \<Rightarrow> link" where
  "link_after ys = (if ys = [] then HeadLink else NextLink (last ys))"

definition bucket_list :: "'time bucket \<Rightarrow> thread_data list \<Rightarrow> bool" where
  "bucket_list b xs \<longleftrightarrow> queue_path (nextInQueue b) (queueHead b) xs None \<and> distinct xs \<and> queueTail b = last_of xs"

fun dequeue_list :: "'c dequeue_functor \<Rightarrow> bool \<Rightarrow> 'c \<Rightarrow> thread_data list \<Rightarrow> 'c \<times> thread_data list \<times> thread_data list" where
  "dequeue_list dequeueFunctor fair captured [] = (captured, [], [])"
| "dequeue_list dequeueFunctor fair captured (x # xs) =
     (case dequeueFunctor captured x fair of
        (captured, Ignore) \<Rightarrow> (case dequeue_list dequeueFunctor fair captured xs of (c, kept, removed) \<Rightarrow> (c, x # kept, removed))
      | (captured, RemoveAndContinue) \<Rightarrow>
          (case dequeue_list dequeueFunctor fair captured xs of (c, kept, removed) \<Rightarrow> (c, kept, x # removed))
      | (captured, RemoveAndStop) \<Rightarrow> (captured, xs, [x]))"

lemma queue_path_append [simp]: "queue_path next p (xs @ ys) q \<longleftrightarrow> (\<exists>r. queue_path next p xs r \<and> queue_path next r ys q)"
  by (induction xs arbitrary: p) auto

lemma queue_path_upd [simp]: "z \<notin> set xs \<Longrightarrow> queue_path (next(z := v)) p xs q = queue_path next p xs q"
  by (induction xs arbitrary: p) auto

lemma queue_path_set_last:
  "distinct xs \<Longrightarrow> xs \<noteq> [] \<Longrightarrow> queue_path next p xs q \<Longrightarrow> queue_path (next(last xs := r)) p xs r"
  by (induction xs arbitrary: p) auto

lemma queue_path_last: "xs \<noteq> [] \<Longrightarrow> queue_path next p xs q \<Longrightarrow> next (last xs) = q"
  by (induction xs arbitrary: p) auto

lemma load_link_after:
  assumes "bucket_list b (ys @ xs)"
  shows "load_link (link_after ys) b = (case xs of [] \<Rightarrow> None | x # _ \<Rightarrow> Some x)"
proof -
  obtain r where r: "queue_path (nextInQueue b) (queueHead b) ys r" "queue_path (nextInQueue b) r xs None"
    using assms by (auto simp: bucket_list_def)
  then have "load_link (link_after ys) b = r"
    using queue_path_last by (cases "ys = []") (auto simp: link_after_def)
  with r(2) show ?thesis
    by (cases xs) auto
qed

lemma bucket_list_enqueue:
  assumes "bucket_list b xs" "data \<notin> set xs" "nextInQueue b data = None"
  shows "bucket_list (enqueue data b) (xs @ [data])"
proof (cases "xs = []")
  case False
  then have "queue_path ((nextInQueue b)(last xs := Some data)) (queueHead b) xs (Some data)" "last xs \<noteq> data"
    using assms queue_path_set_last [of xs "nextInQueue b" "queueHead b" None] by (auto simp: bucket_list_def)
  with False assms show ?thesis
    by (simp add: bucket_list_def enqueue_def last_of_def)
qed (use assms in \<open>simp add: bucket_list_def enqueue_def last_of_def\<close>)

lemma bucket_list_remove:
  assumes "bucket_list b (ys @ x # xs)"
  shows "bucket_list (remove_current (link_after ys) (last_of ys) x b) (ys @ xs)"
proof -
  let ?n = "nextInQueue b"
  have p: "queue_path ?n (queueHead b) ys (Some x)" "queue_path ?n (?n x) xs None"
    and d: "distinct ys" "distinct xs" "x \<notin> set ys" "x \<notin> set xs" "set ys \<inter> set xs = {}"
    using assms by (auto simp: bucket_list_def)
  have t: "Some x = queueTail b \<longleftrightarrow> xs = []" "last_of ((ys @ [x]) @ xs) = queueTail b"
    using assms by (auto simp: bucket_list_def last_of_def)
  show ?thesis
  proof (cases "ys = []")
    case True
    with p d t show ?thesis
      by (cases "xs = []") (auto simp: bucket_list_def remove_current_def link_after_def last_of_def)
  next
    case False
    then have "last ys \<in> set ys"
      by simp
    then have "last ys \<noteq> x" "last ys \<notin> set xs"
      using d by blast+
    moreover have "queue_path (?n(last ys := ?n x)) (queueHead b) ys (?n x)"
      using queue_path_set_last [OF d(1) False p(1)] .
    ultimately show ?thesis
      using False p d t by (cases "xs = []") (auto simp: bucket_list_def remove_current_def link_after_def last_of_def)
  qed
qed

end
