(* ===== verification/ParkingQueue.thy ===== *)
theory ParkingQueue
  imports ParkingLot
begin

text \<open>
  The linked queue refines a list: an interface for queues of threads, its interpretation on the links, and from it what
  every unpark operation finds and leaves.
\<close>


section \<open>The loop over the links is the function on lists\<close>

text \<open>The threads that are not in the queue keep their field, those that are removed have it cleared.\<close>

definition links_kept :: "'time bucket \<Rightarrow> 'time bucket \<Rightarrow> thread_data list \<Rightarrow> thread_data list \<Rightarrow> bool" where
  "links_kept b b' xs removed \<longleftrightarrow>
     (\<forall>d. d \<notin> set xs \<longrightarrow> nextInQueue b' d = nextInQueue b d) \<and> (\<forall>d \<in> set removed. nextInQueue b' d = None) \<and>
     nextFairTime b' = nextFairTime b"

lemma dequeue_list_subset:
  "dequeue_list dequeueFunctor fair captured xs = (c, kept, removed) \<Longrightarrow>
    set kept \<union> set removed = set xs \<and> (distinct xs \<longrightarrow> set kept \<inter> set removed = {})"
  by (induction xs arbitrary: captured c kept removed)
    (fastforce split: prod.splits DequeueResult.splits)+

lemma remove_current_links:
  assumes "bucket_list b (ys @ x # xs)"
  shows "nextInQueue (remove_current (link_after ys) (last_of ys) x b) x = None"
    and "d \<notin> set (ys @ x # xs) \<Longrightarrow> nextInQueue (remove_current (link_after ys) (last_of ys) x b) d = nextInQueue b d"
    and "nextFairTime (remove_current (link_after ys) (last_of ys) x b) = nextFairTime b"
  by (auto simp: remove_current_def link_after_def Let_def)

lemma dequeue_loop_correct:
  assumes "bucket_list b (ys @ xs)" and "dequeue_list dequeueFunctor fair captured xs = (c, kept, removed)"
  shows "\<exists>b'. dequeue_loop dequeueFunctor fair (link_after ys) (last_of ys) did captured b = Some (c, did \<or> removed \<noteq> [], b') \<and>
    bucket_list b' (ys @ kept) \<and> links_kept b b' (ys @ xs) removed"
  using assms
proof (induction xs arbitrary: b ys did captured c kept removed)
  case Nil
  then have "load_link (link_after ys) b = None"
    using load_link_after [of b ys "[]"] by simp
  then show ?case
    using Nil by (subst dequeue_loop.simps) (simp add: links_kept_def)
next
  case (Cons x xs)
  have l: "load_link (link_after ys) b = Some x"
    using load_link_after [OF Cons.prems(1)] by simp
  obtain c1 r where f: "dequeueFunctor captured x fair = (c1, r)"
    by force
  let ?b = "remove_current (link_after ys) (last_of ys) x b"
  note rm = bucket_list_remove [OF Cons.prems(1)] and ln = remove_current_links [OF Cons.prems(1)]
  show ?case
  proof (cases r)
    case Ignore
    obtain kept' where k: "dequeue_list dequeueFunctor fair c1 xs = (c, kept', removed)" "kept = x # kept'"
      using Cons.prems(2) f Ignore by (auto split: prod.splits)
    have s: "link_after (ys @ [x]) = NextLink x" "last_of (ys @ [x]) = Some x"
      by (simp_all add: link_after_def last_of_def)
    show ?thesis
      using Cons.IH [of b "ys @ [x]" c1 c kept' removed did] Cons.prems(1) k l f Ignore
      by (subst dequeue_loop.simps) (simp add: s)
  next
    case RemoveAndStop
    then have k: "c = c1" "kept = xs" "removed = [x]"
      using Cons.prems(2) f by simp_all
    show ?thesis
      using rm ln l f RemoveAndStop by (subst dequeue_loop.simps) (simp add: k links_kept_def)
  next
    case RemoveAndContinue
    obtain removed' where k: "dequeue_list dequeueFunctor fair c1 xs = (c, kept, removed')" "removed = x # removed'"
      using Cons.prems(2) f RemoveAndContinue by (auto split: prod.splits)
    obtain b' where b': "dequeue_loop dequeueFunctor fair (link_after ys) (last_of ys) True c1 ?b = Some (c, True, b')"
      "bucket_list b' (ys @ kept)" "links_kept ?b b' (ys @ xs) removed'"
      using Cons.IH [OF rm k(1), of True] by auto
    have "x \<notin> set (ys @ xs)"
      using Cons.prems(1) by (auto simp: bucket_list_def)
    then have "links_kept b b' (ys @ x # xs) removed"
      using b'(3) ln by (auto simp: links_kept_def k(2))
    then show ?thesis
      using b'(1,2) l f RemoveAndContinue by (subst dequeue_loop.simps) (simp add: k(2))
  qed
qed

lemma genericDequeue_correct:
  assumes "bucket_list b xs" and "dequeue_list dequeueFunctor (time > nextFairTime b) captured xs = (c, kept, removed)"
  shows "\<exists>b'. genericDequeue time fairTime dequeueFunctor captured b = Some (c, b') \<and> bucket_list b' kept \<and>
    (\<forall>d. d \<notin> set xs \<longrightarrow> nextInQueue b' d = nextInQueue b d) \<and> (\<forall>d \<in> set removed. nextInQueue b' d = None) \<and>
    nextFairTime b' = (if time > nextFairTime b \<and> removed \<noteq> [] then fairTime else nextFairTime b)"
proof (cases xs)
  case Nil
  then show ?thesis
    using assms by (auto simp: genericDequeue_def bucket_list_def)
next
  case (Cons x ys)
  have h: "link_after [] = HeadLink" "last_of [] = None"
    by (simp_all add: link_after_def last_of_def)
  have "bucket_list b ([] @ xs)"
    using assms(1) by simp
  from dequeue_loop_correct [OF this assms(2), of False] obtain b'
    where b': "dequeue_loop dequeueFunctor (time > nextFairTime b) HeadLink None False captured b = Some (c, removed \<noteq> [], b')"
      "bucket_list b' kept" "links_kept b b' xs removed"
    unfolding h by auto
  have "queueHead b \<noteq> None"
    using assms(1) Cons by (simp add: bucket_list_def)
  then show ?thesis
    using b' by (auto simp: genericDequeue_def Let_def links_kept_def bucket_list_def)
qed

lemma bucket_empty_iff: "bucket_list b xs \<Longrightarrow> queueHead b = None \<longleftrightarrow> xs = []"
  by (cases xs) (auto simp: bucket_list_def)

section \<open>Queues as a contract\<close>

text \<open>What the parking lot relies on: a queue that takes in at the end and is searched from the front.\<close>

locale thread_queue =
  fixes queue :: "'b \<Rightarrow> thread_data list \<Rightarrow> bool"
    and enq :: "thread_data \<Rightarrow> 'b \<Rightarrow> 'b"
    and deq :: "'c dequeue_functor \<Rightarrow> 'c \<Rightarrow> 'b \<Rightarrow> ('c \<times> 'b) option"
    and fair :: "'b \<Rightarrow> bool"
    and free :: "thread_data \<Rightarrow> 'b \<Rightarrow> bool"
  assumes queue_distinct: "queue b xs \<Longrightarrow> distinct xs"
    and queue_enq: "queue b xs \<Longrightarrow> data \<notin> set xs \<Longrightarrow> free data b \<Longrightarrow> queue (enq data b) (xs @ [data])"
    and queue_deq: "queue b xs \<Longrightarrow> dequeue_list dequeueFunctor (fair b) captured xs = (c, kept, removed) \<Longrightarrow>
      \<exists>b'. deq dequeueFunctor captured b = Some (c, b') \<and> queue b' kept \<and> (\<forall>d \<in> set removed. free d b')"
begin

lemma deq_total: "queue b xs \<Longrightarrow> deq dequeueFunctor captured b \<noteq> None"
  using queue_deq [of b xs dequeueFunctor captured] by (cases "dequeue_list dequeueFunctor (fair b) captured xs") fastforce

lemma deq_result:
  assumes "queue b xs" "deq dequeueFunctor captured b = Some (c, b')"
  shows "\<exists>kept removed. dequeue_list dequeueFunctor (fair b) captured xs = (c, kept, removed) \<and> queue b' kept"
  using queue_deq [OF assms(1), of dequeueFunctor captured] assms(2)
  by (cases "dequeue_list dequeueFunctor (fair b) captured xs") fastforce

end

interpretation linked: thread_queue bucket_list enqueue "genericDequeue time fairTime" "\<lambda>b. time > nextFairTime b"
    "\<lambda>d b. nextInQueue b d = None" for time fairTime :: "'time :: linorder"
proof
  fix b :: "'time bucket" and xs
  show "bucket_list b xs \<Longrightarrow> distinct xs"
    by (simp add: bucket_list_def)
  fix dequeueFunctor :: "'c dequeue_functor" and captured c kept removed
  assume "bucket_list b xs" "dequeue_list dequeueFunctor (time > nextFairTime b) captured xs = (c, kept, removed)"
  from genericDequeue_correct [OF this, of fairTime]
  show "\<exists>b'. genericDequeue time fairTime dequeueFunctor captured b = Some (c, b') \<and> bucket_list b' kept \<and>
      (\<forall>d \<in> set removed. nextInQueue b' d = None)"
    by blast
qed (rule bucket_list_enqueue)

section \<open>Which threads are unparked\<close>

lemma dequeue_unpark:
  "dequeue_list (unpark_functor addresses address) fair (None, False) xs =
    (case dropWhile (\<lambda>d. addresses d \<noteq> Some address) xs of
       [] \<Rightarrow> ((None, False), xs, [])
     | d # ds \<Rightarrow> ((Some d, fair), takeWhile (\<lambda>d. addresses d \<noteq> Some address) xs @ ds, [d]))"
  by (induction xs) (auto simp: unpark_functor_def simp del: dropWhile_eq_Nil_conv split: list.split)

lemma dequeue_count:
  assumes "length acc < unat count" "distinct xs"
  shows "dequeue_list (count_functor addresses address count) fair acc xs =
    (let unparked = take (unat count - length acc) (filter (\<lambda>d. addresses d = Some address) xs)
     in (acc @ unparked, filter (\<lambda>d. d \<notin> set unparked) xs, unparked))"
  using assms
proof (induction xs arbitrary: acc)
  case (Cons x xs)
  show ?case
  proof (cases "addresses x = Some address")
    case False
    let ?u = "take (unat count - length acc) (filter (\<lambda>d. addresses d = Some address) xs)"
    have "x \<notin> set ?u"
      using False by (auto dest: in_set_takeD)
    then show ?thesis
      using Cons.IH [OF Cons.prems(1)] Cons.prems(2) False by (simp add: count_functor_def Let_def)
  next
    case True
    have x: "x \<notin> set (take n (filter P xs))" "d \<in> set xs \<Longrightarrow> d \<noteq> x" for n P d
      using Cons.prems(2) by (auto dest: in_set_takeD)
    show ?thesis
    proof (cases "Suc (length acc) = unat count")
      case True
      have "filter (\<lambda>d. d \<noteq> x) xs = xs"
        using x by (simp add: filter_id_conv)
      with True show ?thesis
        using \<open>addresses x = Some address\<close> by (simp add: count_functor_def Let_def flip: True)
    next
      case False
      then have l: "length (acc @ [x]) < unat count"
        using Cons.prems(1) by simp
      have m: "unat count - length acc = Suc (unat count - length (acc @ [x]))"
        using l by simp
      have "filter (\<lambda>d. d \<noteq> x \<and> d \<notin> set u) xs = filter (\<lambda>d. d \<notin> set u) xs" for u
        using x(2) by (intro filter_cong) auto
      then show ?thesis
        unfolding m using Cons.IH [OF l] Cons.prems(2) True False by (simp add: count_functor_def Let_def)
    qed
  qed
qed simp

lemma dequeue_cancel:
  "distinct xs \<Longrightarrow> dequeue_list (cancel_functor me) fair False xs = (me \<in> set xs, remove1 me xs, if me \<in> set xs then [me] else [])"
  by (induction xs) (auto simp: cancel_functor_def)

text \<open>The first thread that waits on the address, what the callback is told, and the rest of the queue.\<close>

definition unpark_list :: "addresses \<Rightarrow> park_address \<Rightarrow> bool \<Rightarrow> thread_data list \<Rightarrow> thread_data option \<times> UnparkResult \<times> thread_data list" where
  "unpark_list addresses address fair xs =
     (case dropWhile (\<lambda>d. addresses d \<noteq> Some address) xs of
        [] \<Rightarrow> (None, \<lparr>didUnparkThread = False, mayHaveMoreThreads = False, timeToBeFair = False\<rparr>, xs)
      | d # ds \<Rightarrow>
          let rest = takeWhile (\<lambda>d. addresses d \<noteq> Some address) xs @ ds in
          (Some d, \<lparr>didUnparkThread = True, mayHaveMoreThreads = rest \<noteq> [], timeToBeFair = fair\<rparr>, rest))"

lemma unparkOneImpl_correct:
  assumes "bucket_list b xs"
  shows "\<exists>b'. unparkOneImpl time fairTime addresses address b =
      (case unpark_list addresses address (time > nextFairTime b) xs of (d, result, rest) \<Rightarrow> Some (d, result, b')) \<and>
    (case unpark_list addresses address (time > nextFairTime b) xs of (d, result, rest) \<Rightarrow> bucket_list b' rest)"
proof -
  let ?fair = "time > nextFairTime b"
  obtain c kept removed where d: "dequeue_list (unpark_functor addresses address) ?fair (None, False) xs = (c, kept, removed)"
    by (cases "dequeue_list (unpark_functor addresses address) ?fair (None, False) xs") auto
  obtain b' where b': "genericDequeue time fairTime (unpark_functor addresses address) (None, False) b = Some (c, b')"
    "bucket_list b' kept"
    using linked.queue_deq [OF assms d] by blast
  have "queueHead b' = None \<longleftrightarrow> kept = []"
    by (rule bucket_empty_iff [OF b'(2)])
  then show ?thesis
    using b' d unfolding dequeue_unpark
    by (cases "dropWhile (\<lambda>d. addresses d \<noteq> Some address) xs")
      (auto simp: unparkOneImpl_def unpark_list_def Let_def simp del: dropWhile_eq_Nil_conv)
qed

lemma unparkOne_correct:
  assumes "bucket_list b xs"
  shows "\<exists>b'. unparkOne time fairTime addresses address b =
      (case unpark_list addresses address False xs of (d, result, rest) \<Rightarrow> Some (d, result, b')) \<and>
    (case unpark_list addresses address False xs of (d, result, rest) \<Rightarrow> bucket_list b' rest)"
proof -
  let ?fair = "time > nextFairTime b"
  obtain c kept removed where d: "dequeue_list (unpark_functor addresses address) ?fair (None, False) xs = (c, kept, removed)"
    by (cases "dequeue_list (unpark_functor addresses address) ?fair (None, False) xs") auto
  obtain b' where b': "genericDequeue time fairTime (unpark_functor addresses address) (None, False) b = Some (c, b')"
    "bucket_list b' kept"
    using linked.queue_deq [OF assms d] by blast
  have "queueHead b' = None \<longleftrightarrow> kept = []"
    by (rule bucket_empty_iff [OF b'(2)])
  then show ?thesis
    using b' d unfolding dequeue_unpark
    by (cases "dropWhile (\<lambda>d. addresses d \<noteq> Some address) xs")
      (auto simp: unparkOne_def unpark_list_def Let_def simp del: dropWhile_eq_Nil_conv)
qed

lemma unparkCount_correct:
  assumes "bucket_list b xs"
  shows "\<exists>b'. unparkCount time fairTime addresses address count b =
      Some (take (unat count) (filter (\<lambda>d. addresses d = Some address) xs), b') \<and>
    bucket_list b' (filter (\<lambda>d. d \<notin> set (take (unat count) (filter (\<lambda>d. addresses d = Some address) xs))) xs)"
proof (cases "count = 0")
  case False
  then have "length [] < unat count"
    by (simp add: unat_gt_0)
  from linked.queue_deq [OF assms dequeue_count [OF this linked.queue_distinct [OF assms], unfolded Let_def], of time fairTime] False
  show ?thesis
    by (simp only: unparkCount_def if_False list.size diff_zero append_Nil) blast
qed (use assms in \<open>simp add: unparkCount_def\<close>)

lemma unparkAll_correct:
  assumes "bucket_list b xs" "length xs < 2 ^ 32 - 1"
  shows "\<exists>b'. unparkAll time fairTime addresses address b = Some (filter (\<lambda>d. addresses d = Some address) xs, b') \<and>
    bucket_list b' (filter (\<lambda>d. addresses d \<noteq> Some address) xs)"
proof -
  let ?w = "filter (\<lambda>d. addresses d = Some address) xs"
  have "length ?w \<le> unat (- 1 :: u32)"
    using le_less_trans [OF length_filter_le assms(2), of "\<lambda>d. addresses d = Some address"]
    by (simp add: unsigned_minus_1_eq_mask mask_eq_exp_minus_1)
  then have "take (unat (- 1 :: u32)) ?w = ?w"
    by simp
  moreover have "filter (\<lambda>d. d \<notin> set ?w) xs = filter (\<lambda>d. addresses d \<noteq> Some address) xs"
    by (intro filter_cong) auto
  ultimately show ?thesis
    using unparkCount_correct [OF assms(1), of time fairTime addresses address "- 1"] by (simp only: unparkAll_def)
qed

lemma cancel_park_correct:
  assumes "bucket_list b xs"
  shows "\<exists>b'. cancel_park time fairTime me b = Some (me \<in> set xs, b') \<and> bucket_list b' (remove1 me xs)"
  using linked.queue_deq [OF assms dequeue_cancel [OF linked.queue_distinct [OF assms], of me], of time fairTime]
  by (auto simp: cancel_park_def)

lemma bucket_dequeue_correct:
  assumes "bucket_list b xs"
  shows "\<exists>b'. bucket_dequeue time fairTime b = Some (case xs of [] \<Rightarrow> None | x # _ \<Rightarrow> Some x, b') \<and> bucket_list b' (tl xs)"
proof -
  have "dequeue_list first_functor (time > nextFairTime b) None xs =
      (case xs of [] \<Rightarrow> None | x # _ \<Rightarrow> Some x, tl xs, case xs of [] \<Rightarrow> [] | x # _ \<Rightarrow> [x])"
    by (cases xs) (simp_all add: first_functor_def)
  from linked.queue_deq [OF assms this, of fairTime] show ?thesis
    unfolding bucket_dequeue_def by blast
qed

end
