(* ===== verification/LockAlgorithm.thy ===== *)
theory LockAlgorithm
  imports ParkingQueue
begin

text \<open>
  The lock of WTF, \<open>WTF/wtf/LockAlgorithm.h\<close>, \<open>LockAlgorithmInlines.h\<close> and \<open>Lock.cpp\<close>, with any number of threads that share
  one lock. A step of a thread is one access to the shared memory: to the byte of the lock, to a bucket whose lock the thread
  has, or to the data of a sleeping thread. Threads interleave in any order. The queue is the list that the linked queue
  refines; the hooks are the empty ones.
\<close>


section \<open>The lock\<close>

text \<open>A \<open>Lock\<close> is one byte.\<close>

definition isHeldBit :: u8 where "isHeldBit = 1"
definition hasParkedBit :: u8 where "hasParkedBit = 2"
definition lock_mask :: u8 where "lock_mask = isHeldBit OR hasParkedBit"
definition spinLimit :: u32 where "spinLimit = 40"

datatype Token = BargingOpportunity | DirectHandoff
datatype Fairness = Unfair | Fair

text \<open>
  Where a thread is. It is \<open>Outside\<close> before a call and after it has given the lock back or has not got it, \<open>Holding\<close> after a
  call that got it; every other value is the place in front of the next access to shared memory, with the local variables
  that are alive there. The slow unlock knows whether \<open>safepoint\<close> called it.
\<close>

datatype try_kind = TryOnce | TryRetry u32 u32

datatype pc =
    Outside
  | LockFastZero
  | LockLoad
  | LockCAS u8
  | SlowLoad u32
  | SlowCAS u32 u8
  | SlowSetParked u32 u8
  | SlowPark u32 u8
  | SlowEnqueue u32 u8
  | SlowValidate u32 u8
  | SlowParked u32
  | SlowHandoff
  | TryLoad try_kind
  | TryCAS try_kind u8
  | TimedLast bool
  | Holding
  | SafepointLoad
  | UnlockFastZero Fairness
  | UnlockLoad
  | UnlockCAS u8
  | SlowUnlockLoad Fairness bool
  | SlowUnlockCAS Fairness bool u8
  | SlowUnpark Fairness bool
  | SlowCallback Fairness bool UnparkResult "thread_data option"
  | SlowClear Fairness bool UnparkResult "thread_data option" u8
  | SlowWake bool thread_data
  | Misled
  | Crashed
  | Elsewhere
  | ElsewhereWoken

text \<open>
  The byte, the threads, and of the parking lot the bucket of the lock's address: its queue, who has its lock, and the fields
  \<open>address\<close> and \<open>token\<close> of the threads' data.
\<close>

record system =
  lock_byte :: u8
  pcs :: "thread_data \<Rightarrow> pc"
  parked :: "thread_data list"
  bucket_lock :: "thread_data option"
  address_of :: addresses
  token_of :: "thread_data \<Rightarrow> Token"

definition at_pc :: "thread_data \<Rightarrow> pc \<Rightarrow> system \<Rightarrow> system" where
  "at_pc t p s = s\<lparr>pcs := (pcs s)(t := p)\<rparr>"

text \<open>A weak compare-and-exchange may fail for no reason.\<close>

definition compareExchangeWeak :: "bool \<Rightarrow> u8 \<Rightarrow> u8 \<Rightarrow> system \<Rightarrow> bool \<times> system" where
  "compareExchangeWeak spurious expected desired s =
     (if lock_byte s = expected \<and> \<not> spurious then (True, s\<lparr>lock_byte := desired\<rparr>) else (False, s))"

definition cas_then :: "thread_data \<Rightarrow> bool \<Rightarrow> u8 \<Rightarrow> u8 \<Rightarrow> pc \<Rightarrow> pc \<Rightarrow> system \<Rightarrow> system" where
  "cas_then t spurious expected desired yes no s =
     (case compareExchangeWeak spurious expected desired s of (ok, s) \<Rightarrow> at_pc t (if ok then yes else no) s)"

section \<open>Locking\<close>

text \<open>What the loop of \<open>lockSlow\<close> does with the value it has loaded.\<close>

definition lockSlow_park :: "u32 \<Rightarrow> u8 \<Rightarrow> pc" where
  "lockSlow_park spinCount currentValue =
     (if currentValue AND isHeldBit = 0 then Crashed
      else if currentValue AND hasParkedBit = 0 then Crashed
      else SlowPark spinCount currentValue)"

definition lockSlow_loaded :: "u32 \<Rightarrow> u8 \<Rightarrow> pc" where
  "lockSlow_loaded spinCount currentValue =
     (if currentValue AND isHeldBit = 0 then SlowCAS spinCount currentValue
      else if currentValue AND hasParkedBit = 0 \<and> spinCount < spinLimit then SlowLoad (spinCount + 1)
      else if currentValue AND hasParkedBit = 0 then SlowSetParked spinCount currentValue
      else lockSlow_park spinCount currentValue)"

text \<open>\<open>parkConditionallyImpl\<close>: the check before, the validation under the lock of the bucket, and the end of the sleep.\<close>

definition park_enter :: "thread_data \<Rightarrow> u32 \<Rightarrow> u8 \<Rightarrow> system \<Rightarrow> system" where
  "park_enter t spinCount currentValue s =
     (let s = s\<lparr>token_of := (token_of s)(t := BargingOpportunity)\<rparr>
      in at_pc t (if address_of s t \<noteq> None then Crashed else SlowEnqueue spinCount currentValue) s)"

definition park_validate :: "park_address \<Rightarrow> thread_data \<Rightarrow> u32 \<Rightarrow> u8 \<Rightarrow> system \<Rightarrow> system" where
  "park_validate a t spinCount currentValue s =
     (if lock_byte s = currentValue
      then at_pc t (SlowParked spinCount)
        (s\<lparr>address_of := (address_of s)(t := Some a), parked := parked s @ [t], bucket_lock := None\<rparr>)
      else at_pc t (SlowLoad spinCount) (s\<lparr>bucket_lock := None\<rparr>))"

definition park_woken :: "thread_data \<Rightarrow> u32 \<Rightarrow> system \<Rightarrow> system option" where
  "park_woken t spinCount s =
     (if address_of s t \<noteq> None then None
      else Some (case token_of s t of
          DirectHandoff \<Rightarrow> at_pc t SlowHandoff s
        | BargingOpportunity \<Rightarrow> at_pc t (SlowLoad spinCount) s))"

definition tryLock_failed :: "try_kind \<Rightarrow> pc" where
  "tryLock_failed kind =
     (case kind of
        TryOnce \<Rightarrow> Outside
      | TryRetry maxRetries tryCount \<Rightarrow>
          if tryCount \<le> maxRetries then TryLoad (TryRetry maxRetries (tryCount + 1)) else TimedLast False)"

definition tryLock_got :: "try_kind \<Rightarrow> pc" where
  "tryLock_got kind = (case kind of TryOnce \<Rightarrow> Holding | TryRetry _ _ \<Rightarrow> TimedLast True)"

text \<open>\<open>tryLockWithTimeout\<close> answers with \<open>isHeld\<close>. A thread is misled when the answer is not whether it got the lock.\<close>

definition tryLockWithTimeout_result :: "bool \<Rightarrow> u8 \<Rightarrow> pc" where
  "tryLockWithTimeout_result got value =
     (let answer = (value AND isHeldBit \<noteq> 0) in if answer \<noteq> got then Misled else if got then Holding else Outside)"

section \<open>Unlocking\<close>

definition after_unlock :: "bool \<Rightarrow> pc" where
  "after_unlock again = (if again then LockLoad else Outside)"

definition unlockFast_loaded :: "u8 \<Rightarrow> pc" where
  "unlockFast_loaded value = (if value AND lock_mask \<noteq> isHeldBit then SlowUnlockLoad Fair True else UnlockCAS value)"

definition unlockSlow_loaded :: "Fairness \<Rightarrow> bool \<Rightarrow> u8 \<Rightarrow> pc" where
  "unlockSlow_loaded fairness again oldByteValue =
     (if oldByteValue AND lock_mask \<noteq> isHeldBit \<and> oldByteValue AND lock_mask \<noteq> (isHeldBit OR hasParkedBit) then Crashed
      else if oldByteValue AND lock_mask = isHeldBit then SlowUnlockCAS fairness again oldByteValue
      else SlowUnpark fairness again)"

text \<open>\<open>unparkOneImpl\<close> under the lock of the bucket: the search, then the callback, then the token.\<close>

definition unpark_search :: "park_address \<Rightarrow> thread_data \<Rightarrow> Fairness \<Rightarrow> bool \<Rightarrow> bool \<Rightarrow> system \<Rightarrow> system" where
  "unpark_search a t fairness again fairTime s =
     (case unpark_list (address_of s) a fairTime (parked s) of
        (threadData, result, rest) \<Rightarrow>
          at_pc t (SlowCallback fairness again result threadData) (s\<lparr>parked := rest, bucket_lock := Some t\<rparr>))"

definition unpark_finish :: "thread_data \<Rightarrow> bool \<Rightarrow> Token \<Rightarrow> thread_data option \<Rightarrow> system \<Rightarrow> system" where
  "unpark_finish t again token threadData s =
     (case threadData of
        None \<Rightarrow> at_pc t (after_unlock again) (s\<lparr>bucket_lock := None\<rparr>)
      | Some d \<Rightarrow> at_pc t (SlowWake again d) (s\<lparr>token_of := (token_of s)(d := token), bucket_lock := None\<rparr>))"

definition unpark_callback ::
  "thread_data \<Rightarrow> Fairness \<Rightarrow> bool \<Rightarrow> UnparkResult \<Rightarrow> thread_data option \<Rightarrow> system \<Rightarrow> system" where
  "unpark_callback t fairness again result threadData s =
     (if didUnparkThread result \<and> (fairness = Fair \<or> timeToBeFair result)
      then unpark_finish t again DirectHandoff threadData s
      else at_pc t (SlowClear fairness again result threadData (lock_byte s)) s)"

definition cleared_value :: "UnparkResult \<Rightarrow> u8 \<Rightarrow> u8" where
  "cleared_value result value =
     (let value = value AND NOT lock_mask in if mayHaveMoreThreads result then value OR hasParkedBit else value)"

definition unpark_clear ::
  "thread_data \<Rightarrow> bool \<Rightarrow> Fairness \<Rightarrow> bool \<Rightarrow> UnparkResult \<Rightarrow> thread_data option \<Rightarrow> u8 \<Rightarrow> system \<Rightarrow> system" where
  "unpark_clear t spurious fairness again result threadData value s =
     (case compareExchangeWeak spurious value (cleared_value result value) s of
        (True, s) \<Rightarrow> unpark_finish t again BargingOpportunity threadData s
      | (False, s) \<Rightarrow> at_pc t (SlowCallback fairness again result threadData) s)"

definition unpark_wake :: "thread_data \<Rightarrow> bool \<Rightarrow> thread_data \<Rightarrow> system \<Rightarrow> system" where
  "unpark_wake t again d s = at_pc t (after_unlock again) (s\<lparr>address_of := (address_of s)(d := None)\<rparr>)"

section \<open>Steps\<close>

text \<open>
  The calls of the clients, who unlock only what they hold; \<open>ParkElsewhere\<close> is a thread that parks on another address of the
  same bucket. A step inside a call says whether a weak exchange fails and whether it is time to be fair.
\<close>

datatype call =
    CallLock
  | CallTryLock
  | CallTryLockWithTimeout u32
  | CallUnlock
  | CallUnlockFairly
  | CallSafepoint
  | ParkElsewhere park_address

datatype choice = Call call | Run bool bool

fun begin_call :: "park_address \<Rightarrow> call \<Rightarrow> thread_data \<Rightarrow> system \<Rightarrow> system option" where
  "begin_call a c t s =
     (case (c, pcs s t) of
        (CallLock, Outside) \<Rightarrow> Some (at_pc t LockFastZero s)
      | (CallTryLock, Outside) \<Rightarrow> Some (at_pc t (TryLoad TryOnce) s)
      | (CallTryLockWithTimeout maxRetries, Outside) \<Rightarrow> Some (at_pc t (TryLoad (TryRetry maxRetries 0)) s)
      | (CallUnlock, Holding) \<Rightarrow> Some (at_pc t (UnlockFastZero Unfair) s)
      | (CallUnlockFairly, Holding) \<Rightarrow> Some (at_pc t (UnlockFastZero Fair) s)
      | (CallSafepoint, Holding) \<Rightarrow> Some (at_pc t SafepointLoad s)
      | (ParkElsewhere b, Outside) \<Rightarrow>
          if b = a \<or> bucket_lock s \<noteq> None then None
          else Some (at_pc t Elsewhere (s\<lparr>address_of := (address_of s)(t := Some b), parked := parked s @ [t]\<rparr>))
      | _ \<Rightarrow> None)"

definition run_step :: "park_address \<Rightarrow> bool \<Rightarrow> bool \<Rightarrow> thread_data \<Rightarrow> system \<Rightarrow> system option" where
  "run_step a spurious fairTime t s =
     (let value = lock_byte s in
      case pcs s t of
        Outside \<Rightarrow> None
      | Holding \<Rightarrow> None
      | Misled \<Rightarrow> None
      | Crashed \<Rightarrow> None
      | LockFastZero \<Rightarrow> Some (cas_then t spurious 0 isHeldBit Holding (SlowLoad 0) s)
      | LockLoad \<Rightarrow> Some (at_pc t (if value AND isHeldBit \<noteq> 0 then SlowLoad 0 else LockCAS value) s)
      | LockCAS currentValue \<Rightarrow> Some (cas_then t spurious currentValue (currentValue OR isHeldBit) Holding LockLoad s)
      | SlowLoad spinCount \<Rightarrow> Some (at_pc t (lockSlow_loaded spinCount value) s)
      | SlowCAS spinCount currentValue \<Rightarrow>
          Some (cas_then t spurious currentValue (currentValue OR isHeldBit) Holding (SlowLoad spinCount) s)
      | SlowSetParked spinCount currentValue \<Rightarrow>
          Some (cas_then t spurious currentValue (currentValue OR hasParkedBit)
            (lockSlow_park spinCount (currentValue OR hasParkedBit)) (SlowLoad spinCount) s)
      | SlowPark spinCount currentValue \<Rightarrow> Some (park_enter t spinCount currentValue s)
      | SlowEnqueue spinCount currentValue \<Rightarrow>
          if bucket_lock s \<noteq> None then None
          else Some (at_pc t (SlowValidate spinCount currentValue) (s\<lparr>bucket_lock := Some t\<rparr>))
      | SlowValidate spinCount currentValue \<Rightarrow> Some (park_validate a t spinCount currentValue s)
      | SlowParked spinCount \<Rightarrow> park_woken t spinCount s
      | SlowHandoff \<Rightarrow> Some (at_pc t (if value AND isHeldBit = 0 then Crashed else Holding) s)
      | TryLoad kind \<Rightarrow> Some (at_pc t (if value AND isHeldBit \<noteq> 0 then tryLock_failed kind else TryCAS kind value) s)
      | TryCAS kind currentValue \<Rightarrow>
          Some (cas_then t spurious currentValue (currentValue OR isHeldBit) (tryLock_got kind) (TryLoad kind) s)
      | TimedLast got \<Rightarrow> Some (at_pc t (tryLockWithTimeout_result got value) s)
      | SafepointLoad \<Rightarrow> Some (at_pc t (if value AND hasParkedBit = 0 then Holding else UnlockLoad) s)
      | UnlockFastZero fairness \<Rightarrow> Some (cas_then t spurious isHeldBit 0 Outside (SlowUnlockLoad fairness False) s)
      | UnlockLoad \<Rightarrow> Some (at_pc t (unlockFast_loaded value) s)
      | UnlockCAS oldValue \<Rightarrow>
          Some (cas_then t spurious oldValue (oldValue AND NOT isHeldBit) (after_unlock True) UnlockLoad s)
      | SlowUnlockLoad fairness again \<Rightarrow> Some (at_pc t (unlockSlow_loaded fairness again value) s)
      | SlowUnlockCAS fairness again oldByteValue \<Rightarrow>
          Some (cas_then t spurious oldByteValue (oldByteValue AND NOT isHeldBit) (after_unlock again)
            (SlowUnlockLoad fairness again) s)
      | SlowUnpark fairness again \<Rightarrow>
          if bucket_lock s \<noteq> None then None else Some (unpark_search a t fairness again fairTime s)
      | SlowCallback fairness again result threadData \<Rightarrow> Some (unpark_callback t fairness again result threadData s)
      | SlowClear fairness again result threadData oldValue \<Rightarrow>
          Some (unpark_clear t spurious fairness again result threadData oldValue s)
      | SlowWake again d \<Rightarrow> Some (unpark_wake t again d s)
      | Elsewhere \<Rightarrow>
          if bucket_lock s \<noteq> None then None else Some (at_pc t ElsewhereWoken (s\<lparr>parked := remove1 t (parked s)\<rparr>))
      | ElsewhereWoken \<Rightarrow> Some (at_pc t Outside (s\<lparr>address_of := (address_of s)(t := None)\<rparr>)))"

fun thread_step :: "park_address \<Rightarrow> choice \<Rightarrow> thread_data \<Rightarrow> system \<Rightarrow> system option" where
  "thread_step a (Call c) t s = begin_call a c t s"
| "thread_step a (Run spurious fairTime) t s = run_step a spurious fairTime t s"

definition initial_system :: system where
  "initial_system =
     \<lparr>lock_byte = 0, pcs = \<lambda>_. Outside, parked = [], bucket_lock = None, address_of = \<lambda>_. None,
      token_of = \<lambda>_. BargingOpportunity\<rparr>"

inductive reachable_system :: "park_address \<Rightarrow> system \<Rightarrow> bool" for a where
  system_initial: "reachable_system a initial_system"
| system_step: "reachable_system a s \<Longrightarrow> thread_step a c t s = Some s' \<Longrightarrow> reachable_system a s'"

text \<open>A schedule says which thread moves next, and how.\<close>

primrec run_schedule :: "park_address \<Rightarrow> (thread_data \<times> choice) list \<Rightarrow> system \<Rightarrow> system option" where
  "run_schedule a [] s = Some s"
| "run_schedule a (x # xs) s = Option.bind (thread_step a (snd x) (fst x) s) (run_schedule a xs)"

lemma run_schedule_reachable:
  "reachable_system a s \<Longrightarrow> run_schedule a xs s = Some s' \<Longrightarrow> reachable_system a s'"
  by (induction xs arbitrary: s) (auto simp: bind_eq_Some_conv intro: system_step)

end
