(* ===== verification/LockInvariant.thy ===== *)
theory LockInvariant
  imports LockAlgorithm
begin

text \<open>
  The invariant of the lock under every interleaving, and what it says: one owner, no failing check, no sleeper that nobody
  will wake.
\<close>


section \<open>The invariant\<close>

fun holder_pc :: "pc \<Rightarrow> bool" where
  "holder_pc Holding = True"
| "holder_pc SlowHandoff = True"
| "holder_pc (TimedLast got) = got"
| "holder_pc SafepointLoad = True"
| "holder_pc (UnlockFastZero _) = True"
| "holder_pc UnlockLoad = True"
| "holder_pc (UnlockCAS _) = True"
| "holder_pc (SlowUnlockLoad _ _) = True"
| "holder_pc (SlowUnlockCAS _ _ _) = True"
| "holder_pc (SlowUnpark _ _) = True"
| "holder_pc (SlowCallback _ _ _ _) = True"
| "holder_pc (SlowClear _ _ _ _ _) = True"
| "holder_pc _ = False"

fun bucket_pc :: "pc \<Rightarrow> bool" where
  "bucket_pc (SlowValidate _ _) = True"
| "bucket_pc (SlowCallback _ _ _ _) = True"
| "bucket_pc (SlowClear _ _ _ _ _) = True"
| "bucket_pc _ = False"

fun parking_pc :: "pc \<Rightarrow> bool" where
  "parking_pc (SlowEnqueue _ _) = True"
| "parking_pc (SlowValidate _ _) = True"
| "parking_pc _ = False"

fun parked_pc :: "pc \<Rightarrow> bool" where
  "parked_pc (SlowParked _) = True"
| "parked_pc _ = False"

text \<open>On the way to the lock, and not asleep.\<close>

fun eager_pc :: "pc \<Rightarrow> bool" where
  "eager_pc (SlowLoad _) = True"
| "eager_pc (SlowCAS _ _) = True"
| "eager_pc (SlowSetParked _ _) = True"
| "eager_pc (SlowPark _ _) = True"
| "eager_pc (SlowEnqueue _ _) = True"
| "eager_pc (SlowValidate _ _) = True"
| "eager_pc _ = False"

text \<open>The thread whose sleep a thread is about to end, and what it knows of it while it has the lock of the bucket.\<close>

fun wakes :: "pc \<Rightarrow> thread_data option" where
  "wakes (SlowCallback _ _ _ w) = w"
| "wakes (SlowClear _ _ _ w _) = w"
| "wakes (SlowWake _ d) = Some d"
| "wakes _ = None"

fun callback_pc :: "pc \<Rightarrow> (UnparkResult \<times> thread_data option) option" where
  "callback_pc (SlowCallback _ _ r w) = Some (r, w)"
| "callback_pc (SlowClear _ _ r w _) = Some (r, w)"
| "callback_pc _ = None"

text \<open>What the local variables say of the byte.\<close>

fun locals_ok :: "u8 \<Rightarrow> pc \<Rightarrow> bool" where
  "locals_ok b (LockCAS v) = (v \<in> {0, 2})"
| "locals_ok b (SlowCAS _ v) = (v \<in> {0, 2})"
| "locals_ok b (TryCAS _ v) = (v \<in> {0, 2})"
| "locals_ok b (SlowSetParked _ v) = (v = 1)"
| "locals_ok b (SlowPark _ v) = (v = 3)"
| "locals_ok b (SlowEnqueue _ v) = (v = 3)"
| "locals_ok b (SlowValidate _ v) = (v = 3)"
| "locals_ok b (UnlockCAS v) = (v = 1)"
| "locals_ok b (SlowUnlockCAS _ _ v) = (v = 1)"
| "locals_ok b (SlowUnpark _ _) = (b = 3)"
| "locals_ok b (SlowCallback _ _ _ _) = (b = 3)"
| "locals_ok b (SlowClear _ _ _ _ v) = (b = 3 \<and> v = 3)"
| "locals_ok b Crashed = False"
| "locals_ok b _ = True"

definition owns :: "system \<Rightarrow> thread_data \<Rightarrow> bool" where
  "owns s t \<longleftrightarrow> holder_pc (pcs s t) \<or> parked_pc (pcs s t) \<and> token_of s t = DirectHandoff"

definition waits :: "park_address \<Rightarrow> system \<Rightarrow> thread_data \<Rightarrow> bool" where
  "waits a s t \<longleftrightarrow> t \<in> set (parked s) \<and> address_of s t = Some a"

definition eager :: "system \<Rightarrow> thread_data \<Rightarrow> bool" where
  "eager s t \<longleftrightarrow> eager_pc (pcs s t) \<or> parked_pc (pcs s t) \<and> t \<notin> set (parked s) \<and> token_of s t = BargingOpportunity"

text \<open>The byte has two bits; the one for held is set exactly when a thread owns the lock, and then one does.\<close>

definition inv_owner :: "thread_data option \<Rightarrow> system \<Rightarrow> bool" where
  "inv_owner owner s \<longleftrightarrow>
     lock_byte s \<in> {0, 1, 2, 3} \<and> (\<forall>t. owns s t \<longleftrightarrow> owner = Some t) \<and> (owner \<noteq> None \<longleftrightarrow> lock_byte s \<in> {1, 3}) \<and>
     (\<forall>t. locals_ok (lock_byte s) (pcs s t))"

text \<open>The lock of the bucket, its queue, and the addresses.\<close>

definition inv_queue :: "park_address \<Rightarrow> system \<Rightarrow> bool" where
  "inv_queue a s \<longleftrightarrow>
     (\<forall>t. bucket_pc (pcs s t) \<longleftrightarrow> bucket_lock s = Some t) \<and> distinct (parked s) \<and>
     (\<forall>t \<in> set (parked s).
        parked_pc (pcs s t) \<and> address_of s t = Some a \<and> token_of s t = BargingOpportunity \<or>
        pcs s t = Elsewhere \<and> (\<exists>b. b \<noteq> a \<and> address_of s t = Some b)) \<and>
     (\<forall>t. address_of s t \<noteq> None \<longrightarrow>
        parked_pc (pcs s t) \<and> address_of s t = Some a \<or> pcs s t = Elsewhere \<or> pcs s t = ElsewhereWoken) \<and>
     (\<forall>t. parking_pc (pcs s t) \<longrightarrow> token_of s t = BargingOpportunity)"

text \<open>Threads taken out of the queue, and who ends their sleep.\<close>

definition inv_wake :: "park_address \<Rightarrow> system \<Rightarrow> bool" where
  "inv_wake a s \<longleftrightarrow>
     (\<forall>u t. wakes (pcs s u) = Some t \<longrightarrow> parked_pc (pcs s t) \<and> t \<notin> set (parked s) \<and> address_of s t = Some a) \<and>
     (\<forall>u v t. wakes (pcs s u) = Some t \<longrightarrow> wakes (pcs s v) = Some t \<longrightarrow> u = v) \<and>
     (\<forall>t. parked_pc (pcs s t) \<and> t \<notin> set (parked s) \<and> address_of s t \<noteq> None \<longrightarrow> (\<exists>u. wakes (pcs s u) = Some t)) \<and>
     (\<forall>u r w. callback_pc (pcs s u) = Some (r, w) \<longrightarrow>
        (didUnparkThread r \<longleftrightarrow> w \<noteq> None) \<and> (mayHaveMoreThreads r \<longleftrightarrow> w \<noteq> None \<and> parked s \<noteq> []) \<and>
        (\<forall>t. w = Some t \<longrightarrow> token_of s t = BargingOpportunity) \<and> (w = None \<longrightarrow> (\<forall>t. \<not> waits a s t)))"

text \<open>A waiting thread has its bit, and somebody who will see to it.\<close>

definition inv_live :: "park_address \<Rightarrow> system \<Rightarrow> bool" where
  "inv_live a s \<longleftrightarrow>
     (\<forall>t. waits a s t \<longrightarrow> lock_byte s \<in> {2, 3} \<and> (lock_byte s = 3 \<or> (\<exists>u. eager s u)))"

definition lock_inv :: "park_address \<Rightarrow> system \<Rightarrow> bool" where
  "lock_inv a s \<longleftrightarrow> (\<exists>owner. inv_owner owner s) \<and> inv_queue a s \<and> inv_wake a s \<and> inv_live a s"

lemmas inv_defs = inv_owner_def inv_queue_def inv_wake_def inv_live_def

lemma lock_inv_initial: "lock_inv a initial_system"
proof -
  have "inv_owner None initial_system"
    by (simp add: inv_owner_def initial_system_def owns_def)
  then show ?thesis
    by (auto simp: lock_inv_def inv_queue_def inv_wake_def inv_live_def initial_system_def waits_def)
qed

section \<open>Steps that only move a thread\<close>

fun still_pc :: "pc \<Rightarrow> bool" where
  "still_pc Elsewhere = False"
| "still_pc ElsewhereWoken = False"
| "still_pc Crashed = False"
| "still_pc p = (wakes p = None \<and> \<not> parked_pc p \<and> \<not> bucket_pc p)"

lemma still_pcD: "still_pc p \<Longrightarrow> wakes p = None \<and> \<not> parked_pc p \<and> \<not> bucket_pc p \<and> callback_pc p = None \<and> p \<noteq> Elsewhere \<and> p \<noteq> ElsewhereWoken"
  by (cases p) auto

lemma at_pc_simps [simp]:
  "lock_byte (at_pc t p s) = lock_byte s" "parked (at_pc t p s) = parked s" "bucket_lock (at_pc t p s) = bucket_lock s"
  "address_of (at_pc t p s) = address_of s" "token_of (at_pc t p s) = token_of s" "pcs (at_pc t p s) = (pcs s)(t := p)"
  by (simp_all add: at_pc_def)

lemma at_pc_owner:
  assumes "inv_owner owner s" "holder_pc q = owns s t" "\<not> parked_pc q" "locals_ok (lock_byte s) q"
  shows "inv_owner owner (at_pc t q s)"
  using assms by (auto simp: inv_owner_def owns_def)

lemma at_pc_views:
  assumes "still_pc (pcs s t)" "still_pc q"
  shows "wakes (((pcs s)(t := q)) u) = wakes (pcs s u)" "parked_pc (((pcs s)(t := q)) u) = parked_pc (pcs s u)"
    "bucket_pc (((pcs s)(t := q)) u) = bucket_pc (pcs s u)" "callback_pc (((pcs s)(t := q)) u) = callback_pc (pcs s u)"
    "(((pcs s)(t := q)) u = Elsewhere) = (pcs s u = Elsewhere)" "(((pcs s)(t := q)) u = ElsewhereWoken) = (pcs s u = ElsewhereWoken)"
  using still_pcD [OF assms(1)] still_pcD [OF assms(2)] by (cases "u = t"; simp; fail)+

lemma at_pc_queue:
  assumes "inv_queue a s" "still_pc (pcs s t)" "still_pc q" "parking_pc q \<longrightarrow> token_of s t = BargingOpportunity"
  shows "inv_queue a (at_pc t q (s\<lparr>lock_byte := b\<rparr>))"
proof -
  have "parking_pc (((pcs s)(t := q)) u) \<longrightarrow> token_of s u = BargingOpportunity" for u
    using assms(1,4) by (simp add: inv_queue_def)
  then show ?thesis
    using assms(1) unfolding inv_queue_def by (simp add: at_pc_views [OF assms(2,3)] del: fun_upd_apply)
qed

lemma waits_at_pc [simp]: "waits a (at_pc t q s) u = waits a s u"
  by (simp add: waits_def)

lemma waits_byte [simp]: "waits a (s\<lparr>lock_byte := b\<rparr>) u = waits a s u"
  by (simp add: waits_def)

lemma at_pc_wake:
  assumes "inv_wake a s" "still_pc (pcs s t)" "still_pc q"
  shows "inv_wake a (at_pc t q (s\<lparr>lock_byte := b\<rparr>))"
  using assms(1) unfolding inv_wake_def by (simp add: at_pc_views [OF assms(2,3)] del: fun_upd_apply)

text \<open>A thread that stays eager, or owns the lock, leaves the waiting ones as well off as they were.\<close>

lemma at_pc_live:
  assumes "inv_live a s" "still_pc (pcs s t)" "still_pc q" "eager_pc (pcs s t) \<longrightarrow> eager_pc q"
  shows "inv_live a (at_pc t q s)"
proof -
  have e: "eager (at_pc t q s) u" if "eager s u" for u
    using that assms(2-4) still_pcD [of "pcs s t"] by (auto simp: eager_def)
  then have "\<exists>u. eager (at_pc t q s) u" if "\<exists>u. eager s u"
    using that by blast
  then show ?thesis
    using assms(1) unfolding inv_live_def by simp blast
qed

lemma still_step:
  assumes "lock_inv a s" "still_pc (pcs s t)" "still_pc q" "holder_pc q = holder_pc (pcs s t)"
    "eager_pc (pcs s t) \<longrightarrow> eager_pc q" "locals_ok (lock_byte s) q" "parking_pc q \<longrightarrow> token_of s t = BargingOpportunity"
  shows "lock_inv a (at_pc t q s)"
proof -
  have "holder_pc q = owns s t"
    using assms(2,4) still_pcD [of "pcs s t"] by (auto simp: owns_def)
  moreover have "s = s\<lparr>lock_byte := lock_byte s\<rparr>"
    by simp
  ultimately show ?thesis
    using assms still_pcD [OF assms(3)] at_pc_owner [of _ s q t] at_pc_live [of a s t q]
      at_pc_queue [of a s t q "lock_byte s"] at_pc_wake [of a s t q "lock_byte s"]
    unfolding lock_inv_def by fastforce
qed

section \<open>Steps that change the byte\<close>

text \<open>A thread gets the lock.\<close>

lemma acquire_step:
  assumes "lock_inv a s" "still_pc (pcs s t)" "still_pc q" "holder_pc q" "lock_byte s \<in> {0, 2}" "locals_ok 1 q" "locals_ok 3 q" "\<not> parking_pc q"
  shows "lock_inv a (at_pc t q (s\<lparr>lock_byte := lock_byte s OR 1\<rparr>))"
proof -
  let ?s = "at_pc t q (s\<lparr>lock_byte := lock_byte s OR 1\<rparr>)"
  obtain owner where o: "inv_owner owner s"
    using assms(1) by (auto simp: lock_inv_def)
  have b: "lock_byte s = 0 \<and> lock_byte ?s = 1 \<or> lock_byte s = 2 \<and> lock_byte ?s = 3"
    using assms(5) by auto
  then have none: "owner = None"
    using o by (auto simp: inv_owner_def)
  have "locals_ok (lock_byte ?s) (pcs ?s u)" for u
  proof (cases "u = t")
    case False
    have "locals_ok (lock_byte s) (pcs s u)" "\<not> owns s u"
      using o none by (auto simp: inv_owner_def)
    then have "locals_ok (lock_byte ?s) (pcs s u)"
      using b by (cases "pcs s u") (auto simp: owns_def)
    with False show ?thesis
      by simp
  qed (use b assms(6,7) in auto)
  moreover have "owns ?s u \<longleftrightarrow> u = t" for u
    using o none assms(2,3,4) still_pcD [OF assms(3)] by (auto simp: inv_owner_def owns_def)
  ultimately have "inv_owner (Some t) ?s"
    using b by (auto simp: inv_owner_def)
  moreover have "inv_live a ?s"
    using assms(1) b unfolding lock_inv_def inv_live_def by auto
  ultimately show ?thesis
    using assms at_pc_queue [of a s t q] at_pc_wake [of a s t q] unfolding lock_inv_def by blast
qed

text \<open>The owner gives the lock back; nobody waits.\<close>

lemma release_step:
  assumes "lock_inv a s" "still_pc (pcs s t)" "still_pc q" "holder_pc (pcs s t)" "\<not> holder_pc q" "lock_byte s = 1" "locals_ok 0 q" "\<not> parking_pc q"
  shows "lock_inv a (at_pc t q (s\<lparr>lock_byte := 0\<rparr>))"
proof -
  let ?s = "at_pc t q (s\<lparr>lock_byte := 0\<rparr>)"
  obtain owner where o: "inv_owner owner s"
    using assms(1) by (auto simp: lock_inv_def)
  have own: "owner = Some t"
    using o assms(4) by (auto simp: inv_owner_def owns_def)
  have "locals_ok 0 (pcs ?s u)" for u
  proof (cases "u = t")
    case False
    have "locals_ok (lock_byte s) (pcs s u)" "\<not> owns s u"
      using o own False by (auto simp: inv_owner_def)
    then have "locals_ok 0 (pcs s u)"
      by (cases "pcs s u") (auto simp: owns_def)
    with False show ?thesis
      by simp
  qed (use assms(7) in simp)
  moreover have "\<not> owns ?s u" for u
    using o own assms(3,5) still_pcD [OF assms(3)] by (auto simp: inv_owner_def owns_def)
  ultimately have "inv_owner None ?s"
    by (auto simp: inv_owner_def)
  moreover have "\<not> waits a s u" for u
    using assms(1,6) by (auto simp: lock_inv_def inv_live_def)
  then have "inv_live a ?s"
    by (simp add: inv_live_def)
  ultimately show ?thesis
    using assms at_pc_queue [of a s t q] at_pc_wake [of a s t q] unfolding lock_inv_def by blast
qed

text \<open>A thread announces that it will park.\<close>

lemma set_parked_step:
  assumes "lock_inv a s" "still_pc (pcs s t)" "still_pc q" "\<not> holder_pc (pcs s t)" "\<not> holder_pc q" "lock_byte s = 1" "locals_ok 3 q" "\<not> parking_pc q"
  shows "lock_inv a (at_pc t q (s\<lparr>lock_byte := 3\<rparr>))"
proof -
  let ?s = "at_pc t q (s\<lparr>lock_byte := 3\<rparr>)"
  obtain owner where o: "inv_owner owner s"
    using assms(1) by (auto simp: lock_inv_def)
  have "locals_ok 3 (pcs ?s u)" for u
  proof (cases "u = t")
    case False
    have "locals_ok (lock_byte s) (pcs s u)"
      using o by (auto simp: inv_owner_def)
    then have "locals_ok 3 (pcs s u)"
      using assms(6) by (cases "pcs s u") auto
    with False show ?thesis
      by simp
  qed (use assms(7) in simp)
  moreover have "owns ?s u \<longleftrightarrow> owns s u" for u
    using assms(2-5) still_pcD [OF assms(2)] still_pcD [OF assms(3)] by (auto simp: owns_def)
  ultimately have "inv_owner owner ?s"
    using o assms(6) by (auto simp: inv_owner_def)
  moreover have "inv_live a ?s"
    using assms(1,6) unfolding lock_inv_def inv_live_def by auto
  ultimately show ?thesis
    using assms at_pc_queue [of a s t q] at_pc_wake [of a s t q] unfolding lock_inv_def by blast
qed

section \<open>Steps of the parking lot\<close>

lemma unpark_list_facts:
  assumes "unpark_list addresses a fair xs = (w, r, rest)"
  shows "didUnparkThread r \<longleftrightarrow> w \<noteq> None" "mayHaveMoreThreads r \<longleftrightarrow> w \<noteq> None \<and> rest \<noteq> []"
    "w = None \<Longrightarrow> rest = xs \<and> (\<forall>d \<in> set xs. addresses d \<noteq> Some a)"
    "w = Some d \<Longrightarrow> d \<in> set xs \<and> addresses d = Some a \<and> rest = remove1 d xs"
proof -
  let ?P = "\<lambda>d. addresses d \<noteq> Some a"
  have c: "w = None \<and> rest = xs \<and> (\<forall>d \<in> set xs. ?P d) \<and> \<not> didUnparkThread r \<and> \<not> mayHaveMoreThreads r \<or>
      (\<exists>d. w = Some d \<and> d \<in> set xs \<and> addresses d = Some a \<and> rest = remove1 d xs \<and> didUnparkThread r \<and>
        (mayHaveMoreThreads r \<longleftrightarrow> rest \<noteq> []))"
  proof (cases "dropWhile ?P xs")
    case Nil
    then have "\<forall>d \<in> set xs. ?P d"
      by (simp only: dropWhile_eq_Nil_conv)
    with assms Nil show ?thesis
      by (auto simp: unpark_list_def)
  next
    case (Cons d ds)
    then have "\<not> ?P d"
      using hd_dropWhile [of ?P xs] by simp
    moreover obtain ys where y: "ys = takeWhile ?P xs"
      by simp
    then have "d \<notin> set ys \<or> ?P d"
      by (auto dest: set_takeWhileD)
    moreover have "xs = ys @ d # ds"
      using takeWhile_dropWhile_id [of ?P xs] Cons y by simp
    ultimately have "remove1 d xs = ys @ ds" "d \<in> set xs" "\<not> ?P d"
      by (simp_all add: remove1_append)
    with assms Cons y show ?thesis
      by (auto simp: unpark_list_def Let_def)
  qed
  then show "didUnparkThread r \<longleftrightarrow> w \<noteq> None" "mayHaveMoreThreads r \<longleftrightarrow> w \<noteq> None \<and> rest \<noteq> []"
    "w = None \<Longrightarrow> rest = xs \<and> (\<forall>d \<in> set xs. addresses d \<noteq> Some a)"
    "w = Some d \<Longrightarrow> d \<in> set xs \<and> addresses d = Some a \<and> rest = remove1 d xs"
    by blast+
qed

lemma wakeD:
  assumes "inv_wake a s"
  shows "wakes (pcs s u) = Some t \<Longrightarrow> parked_pc (pcs s t) \<and> t \<notin> set (parked s) \<and> address_of s t = Some a"
    and "wakes (pcs s u) = Some t \<Longrightarrow> wakes (pcs s v) = Some t \<Longrightarrow> u = v"
    and "callback_pc (pcs s u) = Some (r, w) \<Longrightarrow>
      (didUnparkThread r \<longleftrightarrow> w \<noteq> None) \<and> (mayHaveMoreThreads r \<longleftrightarrow> w \<noteq> None \<and> parked s \<noteq> []) \<and>
      (\<forall>t. w = Some t \<longrightarrow> token_of s t = BargingOpportunity) \<and> (w = None \<longrightarrow> (\<forall>t. \<not> waits a s t))"
proof -
  note i = assms [unfolded inv_wake_def]
  show "wakes (pcs s u) = Some t \<Longrightarrow> parked_pc (pcs s t) \<and> t \<notin> set (parked s) \<and> address_of s t = Some a"
    by (rule conjunct1 [OF i, rule_format])
  show "wakes (pcs s u) = Some t \<Longrightarrow> wakes (pcs s v) = Some t \<Longrightarrow> u = v"
    by (rule conjunct1 [OF conjunct2 [OF i], rule_format])
  show "callback_pc (pcs s u) = Some (r, w) \<Longrightarrow>
      (didUnparkThread r \<longleftrightarrow> w \<noteq> None) \<and> (mayHaveMoreThreads r \<longleftrightarrow> w \<noteq> None \<and> parked s \<noteq> []) \<and>
      (\<forall>t. w = Some t \<longrightarrow> token_of s t = BargingOpportunity) \<and> (w = None \<longrightarrow> (\<forall>t. \<not> waits a s t))"
    by (rule conjunct2 [OF conjunct2 [OF conjunct2 [OF i]], THEN spec, THEN spec, THEN spec, THEN mp])
qed

lemma pendingD:
  assumes "inv_wake a s" "parked_pc (pcs s t)" "t \<notin> set (parked s)" "address_of s t \<noteq> None"
  shows "\<exists>u. wakes (pcs s u) = Some t"
  using conjunct1 [OF conjunct2 [OF conjunct2 [OF assms(1) [unfolded inv_wake_def]]]] assms(2-4) by blast

lemma inv_wakeI:
  assumes "\<And>u t. wakes (pcs s u) = Some t \<Longrightarrow> parked_pc (pcs s t) \<and> t \<notin> set (parked s) \<and> address_of s t = Some a"
    and "\<And>u v t. wakes (pcs s u) = Some t \<Longrightarrow> wakes (pcs s v) = Some t \<Longrightarrow> u = v"
    and "\<And>t. parked_pc (pcs s t) \<Longrightarrow> t \<notin> set (parked s) \<Longrightarrow> address_of s t \<noteq> None \<Longrightarrow> \<exists>u. wakes (pcs s u) = Some t"
    and "\<And>u r w. callback_pc (pcs s u) = Some (r, w) \<Longrightarrow>
      (didUnparkThread r \<longleftrightarrow> w \<noteq> None) \<and> (mayHaveMoreThreads r \<longleftrightarrow> w \<noteq> None \<and> parked s \<noteq> []) \<and>
      (\<forall>t. w = Some t \<longrightarrow> token_of s t = BargingOpportunity) \<and> (w = None \<longrightarrow> (\<forall>t. \<not> waits a s t))"
  shows "inv_wake a s"
  unfolding inv_wake_def using assms(1,3) by (intro conjI allI impI assms(2,4)) (blast+)

text \<open>What a place in the program excludes.\<close>

lemma not_parked_facts:
  assumes "inv_queue a s" "inv_wake a s" "\<not> parked_pc (pcs s t)" "pcs s t \<noteq> Elsewhere" "pcs s t \<noteq> ElsewhereWoken"
  shows "t \<notin> set (parked s)" "address_of s t = None" "wakes (pcs s u) \<noteq> Some t"
proof -
  show "t \<notin> set (parked s)"
    using assms(1,3,4) unfolding inv_queue_def by blast
  show "address_of s t = None"
    using assms(1,3-5) unfolding inv_queue_def by blast
  show "wakes (pcs s u) \<noteq> Some t"
    using wakeD(1) [OF assms(2)] assms(3) by blast
qed

lemma inv_locals: "inv_owner x s \<Longrightarrow> pcs s t = p \<Longrightarrow> locals_ok (lock_byte s) p"
  unfolding inv_owner_def by blast

lemma bucket_free:
  assumes "inv_queue a s" "bucket_lock s = None"
  shows "\<not> bucket_pc (pcs s u)" "callback_pc (pcs s u) = None"
proof -
  show b: "\<not> bucket_pc (pcs s u)"
    using assms by (simp add: inv_queue_def)
  then show "callback_pc (pcs s u) = None"
    by (cases "pcs s u") auto
qed

lemma bucket_mine:
  assumes "inv_queue a s" "bucket_pc (pcs s t)"
  shows "bucket_lock s = Some t" "bucket_pc (pcs s u) \<longleftrightarrow> u = t" "u \<noteq> t \<Longrightarrow> callback_pc (pcs s u) = None"
proof -
  show b: "bucket_lock s = Some t" "bucket_pc (pcs s u) \<longleftrightarrow> u = t"
    using assms by (auto simp: inv_queue_def)
  then show "u \<noteq> t \<Longrightarrow> callback_pc (pcs s u) = None"
    by (cases "pcs s u") auto
qed

lemma park_enter_step:
  assumes i: "lock_inv a s" and p: "pcs s t = SlowPark n v"
  shows "lock_inv a (park_enter t n v s)"
proof -
  let ?s = "s\<lparr>token_of := (token_of s)(t := BargingOpportunity)\<rparr>"
  note parts = i [unfolded lock_inv_def]
  have t: "t \<notin> set (parked s)" "address_of s t = None" "wakes (pcs s u) \<noteq> Some t" for u
    using not_parked_facts [of a s t] parts p by auto
  have "lock_inv a ?s"
  proof -
    have o: "owns ?s u = owns s u" "eager ?s u = eager s u" "waits a ?s u = waits a s u" for u
      using p by (auto simp: owns_def eager_def waits_def)
    have "inv_owner x ?s = inv_owner x s" for x
      by (simp add: inv_owner_def o)
    moreover have "inv_queue a ?s"
      using parts t(1) by (auto simp: inv_queue_def)
    moreover have "inv_wake a ?s"
      using parts unfolding inv_wake_def o by auto
    moreover have "inv_live a ?s"
      using parts by (simp add: inv_live_def o)
    ultimately show ?thesis
      using parts by (simp add: lock_inv_def)
  qed
  moreover have "v = 3"
    using parts inv_locals [of _ s t, OF _ p] by auto
  ultimately have "lock_inv a (at_pc t (SlowEnqueue n v) ?s)"
    using p by (intro still_step) simp_all
  then show ?thesis
    using t(2) by (simp add: park_enter_def)
qed

text \<open>A thread takes the lock of the bucket, or gives it back.\<close>

lemma bucket_lock_step:
  assumes i: "lock_inv a s"
    and p: "wakes p = None" "callback_pc p = None" "\<not> parked_pc p" "pcs s t = p" "p \<noteq> Elsewhere" "p \<noteq> ElsewhereWoken"
    and q: "wakes q = None" "callback_pc q = None" "\<not> parked_pc q" "q \<noteq> Elsewhere" "q \<noteq> ElsewhereWoken"
      "holder_pc q = holder_pc p" "eager_pc q = eager_pc p" "locals_ok (lock_byte s) q" "parking_pc q \<longrightarrow> parking_pc p"
    and b: "\<And>u. bucket_pc (((pcs s)(t := q)) u) \<longleftrightarrow> l = Some u"
  shows "lock_inv a (at_pc t q (s\<lparr>bucket_lock := l\<rparr>))" (is "lock_inv a ?s")
proof -
  note parts = i [unfolded lock_inv_def]
  have v: "wakes (pcs ?s u) = wakes (pcs s u)" "parked_pc (pcs ?s u) = parked_pc (pcs s u)" "callback_pc (pcs ?s u) = callback_pc (pcs s u)"
    "bucket_pc (pcs ?s u) \<longleftrightarrow> l = Some u" "holder_pc (pcs ?s u) = holder_pc (pcs s u)" "eager_pc (pcs ?s u) = eager_pc (pcs s u)"
    "(pcs ?s u = Elsewhere) = (pcs s u = Elsewhere)" "(pcs ?s u = ElsewhereWoken) = (pcs s u = ElsewhereWoken)" for u
    using p q b [of u] by (cases "u = t"; simp; fail)+
  have loc: "locals_ok (lock_byte s) (pcs ?s u)" for u
    using parts q(8) by (auto simp: inv_owner_def)
  have par: "parking_pc (pcs ?s u) \<longrightarrow> token_of s u = BargingOpportunity" for u
    using parts q(9) p(4) by (cases "u = t") (auto simp: inv_queue_def)
  have o: "owns ?s u = owns s u" "eager ?s u = eager s u" "waits a ?s u = waits a s u" for u
    by (simp_all only: owns_def eager_def waits_def v) simp_all
  have "inv_owner x s \<Longrightarrow> inv_owner x ?s" for x
    unfolding inv_owner_def o using loc by (simp del: at_pc_simps(6))
  moreover have "inv_queue a ?s"
    using parts par unfolding inv_queue_def v by auto
  moreover have "inv_wake a ?s"
    using parts unfolding inv_wake_def v o by auto
  moreover have "inv_live a ?s"
    using parts unfolding inv_live_def o by auto
  ultimately show ?thesis
    using parts unfolding lock_inv_def by blast
qed

lemma enqueue_step:
  assumes i: "lock_inv a s" and p: "pcs s t = SlowEnqueue n v" and b: "bucket_lock s = None"
  shows "lock_inv a (at_pc t (SlowValidate n v) (s\<lparr>bucket_lock := Some t\<rparr>))"
proof -
  have "v = 3" "\<And>u. \<not> bucket_pc (pcs s u)"
    using i inv_locals [of _ s t, OF _ p] b bucket_free [of a s] by (auto simp: lock_inv_def)
  then show ?thesis
    by (intro bucket_lock_step [OF i _ _ _ p]) auto
qed

lemma validate_fail_step:
  assumes i: "lock_inv a s" and p: "pcs s t = SlowValidate n v"
  shows "lock_inv a (at_pc t (SlowLoad n) (s\<lparr>bucket_lock := None\<rparr>))"
proof -
  have "bucket_pc (pcs s u) \<longleftrightarrow> u = t" for u
    using i bucket_mine [of a s t] p by (simp add: lock_inv_def)
  then show ?thesis
    by (intro bucket_lock_step [OF i _ _ _ p]) auto
qed

section \<open>Falling asleep and waking up\<close>

lemma fall_asleep_step:
  assumes i: "lock_inv a s" and p: "pcs s t = SlowValidate n v" and b: "lock_byte s = v"
  shows "lock_inv a (at_pc t (SlowParked n)
    (s\<lparr>address_of := (address_of s)(t := Some a), parked := parked s @ [t], bucket_lock := None\<rparr>))" (is "lock_inv a ?s")
proof -
  note parts = i [unfolded lock_inv_def]
  obtain owner where o: "inv_owner owner s"
    using parts by blast
  have byte: "lock_byte s = 3"
    using inv_locals [OF o p] b by simp
  have t: "t \<notin> set (parked s)" "address_of s t = None" "wakes (pcs s u) \<noteq> Some t" "token_of s t = BargingOpportunity" for u
    using not_parked_facts [of a s t] parts p by (auto simp: inv_queue_def)
  note mine = bucket_mine [of a s t]
  have v: "wakes (pcs ?s u) = wakes (pcs s u)" "callback_pc (pcs ?s u) = None"
    "\<not> bucket_pc (pcs ?s u)" "holder_pc (pcs ?s u) = holder_pc (pcs s u)"
    "(pcs ?s u = Elsewhere) = (pcs s u = Elsewhere)" "(pcs ?s u = ElsewhereWoken) = (pcs s u = ElsewhereWoken)"
    "locals_ok (lock_byte s) (pcs ?s u) \<or> \<not> locals_ok (lock_byte s) (pcs s u)"
    "parked_pc (pcs ?s u) \<longleftrightarrow> u = t \<or> parked_pc (pcs s u)"
    "parking_pc (pcs ?s u) \<Longrightarrow> parking_pc (pcs s u)" for u
    using p mine parts by (cases "u = t"; simp; fail)+
  have own: "owns ?s u = owns s u" for u
    using t(4) p unfolding owns_def v(4,8) by auto
  have "inv_owner owner ?s"
    using o v(7) unfolding inv_owner_def own by (simp del: at_pc_simps(6))
  moreover have "inv_queue a ?s"
    using parts t v unfolding inv_queue_def by (simp del: at_pc_simps(6))
  moreover have "inv_wake a ?s"
    using parts t unfolding inv_wake_def v by (simp del: at_pc_simps(6))
  moreover have "inv_live a ?s"
    by (simp add: inv_live_def byte)
  ultimately show ?thesis
    unfolding lock_inv_def by blast
qed


lemma woken_step:
  assumes i: "lock_inv a s" and p: "pcs s t = SlowParked n" and w: "park_woken t n s = Some s'"
  shows "lock_inv a s'"
proof -
  note parts = i [unfolded lock_inv_def]
  obtain owner where o: "inv_owner owner s"
    using parts by blast
  define q where "q = (case token_of s t of DirectHandoff \<Rightarrow> SlowHandoff | BargingOpportunity \<Rightarrow> SlowLoad n)"
  have s': "s' = at_pc t q s" and a: "address_of s t = None"
    using w by (auto simp: park_woken_def q_def split: if_splits Token.splits)
  have t: "t \<notin> set (parked s)" "wakes (pcs s u) \<noteq> Some t" for u
    using parts a wakeD(1) [of a s u t] by (auto simp: inv_queue_def)
  have q: "wakes q = None" "callback_pc q = None" "\<not> parked_pc q" "\<not> bucket_pc q" "\<not> parking_pc q"
    "q \<noteq> Elsewhere" "q \<noteq> ElsewhereWoken" "locals_ok b q" "holder_pc q = owns s t" "eager_pc q = eager s t" for b
    using p t(1) by (auto simp: q_def owns_def eager_def split: Token.split)
  have v: "wakes (pcs s' u) = wakes (pcs s u)" "callback_pc (pcs s' u) = callback_pc (pcs s u)"
    "bucket_pc (pcs s' u) = bucket_pc (pcs s u)" "parking_pc (pcs s' u) = parking_pc (pcs s u)"
    "(pcs s' u = Elsewhere) = (pcs s u = Elsewhere)" "(pcs s' u = ElsewhereWoken) = (pcs s u = ElsewhereWoken)"
    "locals_ok (lock_byte s) (pcs s' u) \<or> \<not> locals_ok (lock_byte s) (pcs s u)"
    "parked_pc (pcs s' u) \<longleftrightarrow> u \<noteq> t \<and> parked_pc (pcs s u)" "owns s' u = owns s u" "eager s' u = eager s u" for u
    using p q by (cases "u = t"; simp add: s' owns_def eager_def; fail)+
  have m: "lock_byte s' = lock_byte s" "parked s' = parked s" "bucket_lock s' = bucket_lock s" "address_of s' = address_of s"
    "token_of s' = token_of s" "waits a s' u = waits a s u" for u
    by (simp_all add: s' waits_def)
  have "inv_owner owner s'"
    using o v(7) unfolding inv_owner_def v(9) m by simp
  moreover have "inv_queue a s'"
    using parts t a unfolding inv_queue_def v m by auto
  moreover have "inv_wake a s'"
    using parts t(2) a unfolding inv_wake_def v m by auto
  moreover have "inv_live a s'"
    using parts unfolding inv_live_def v m by auto
  ultimately show ?thesis
    unfolding lock_inv_def by blast
qed

section \<open>Unparking\<close>

lemma search_step:
  assumes i: "lock_inv a s" and p: "pcs s t = SlowUnpark f g" and b: "bucket_lock s = None"
  shows "lock_inv a (unpark_search a t f g fairTime s)"
proof -
  note parts = i [unfolded lock_inv_def]
  obtain owner where o: "inv_owner owner s"
    using parts by blast
  obtain w r rest where l: "unpark_list (address_of s) a fairTime (parked s) = (w, r, rest)"
    by (cases "unpark_list (address_of s) a fairTime (parked s)")
  note facts = unpark_list_facts [OF l]
  let ?s = "at_pc t (SlowCallback f g r w) (s\<lparr>parked := rest, bucket_lock := Some t\<rparr>)"
  have byte: "lock_byte s = 3"
    using inv_locals [OF o p] by simp
  have d: "distinct (parked s)"
    using parts by (simp add: inv_queue_def)
  have rest: "distinct rest" "u \<in> set rest \<longleftrightarrow> u \<in> set (parked s) \<and> w \<noteq> Some u" for u
    using facts(3,4) d by (cases w; force)+
  have dw: "parked_pc (pcs s x) \<and> address_of s x = Some a \<and> token_of s x = BargingOpportunity \<and> x \<in> set (parked s)" if "w = Some x" for x
    using facts(4) [OF that] parts by (auto simp: inv_queue_def)
  note free = bucket_free [of a s, OF _ b]
  have v: "wakes (pcs ?s u) = (if u = t then w else wakes (pcs s u))" "callback_pc (pcs ?s u) = (if u = t then Some (r, w) else None)"
    "bucket_pc (pcs ?s u) \<longleftrightarrow> u = t" "parking_pc (pcs ?s u) = parking_pc (pcs s u)" "parked_pc (pcs ?s u) = parked_pc (pcs s u)"
    "(pcs ?s u = Elsewhere) = (pcs s u = Elsewhere)" "(pcs ?s u = ElsewhereWoken) = (pcs s u = ElsewhereWoken)"
    "locals_ok (lock_byte s) (pcs ?s u) \<or> \<not> locals_ok (lock_byte s) (pcs s u)" "holder_pc (pcs ?s u) = holder_pc (pcs s u)" for u
    using p free parts by (cases "u = t"; simp add: byte; fail)+
  have own: "owns ?s u = owns s u" for u
    unfolding owns_def v by simp
  have nw: "wakes (pcs s t) = None"
    using p by simp
  have "inv_owner owner ?s"
    using o v(8) unfolding inv_owner_def own by (simp del: at_pc_simps(6))
  moreover have "inv_queue a ?s"
    using parts rest unfolding inv_queue_def v by (simp del: at_pc_simps(6)) blast
  moreover have "inv_wake a ?s"
    unfolding inv_wake_def v
  proof (intro conjI allI impI)
    fix u x
    assume "(if u = t then w else wakes (pcs s u)) = Some x"
    then show "parked_pc (pcs s x)" "x \<notin> set (parked ?s)" "address_of ?s x = Some a"
      using dw [of x] wakeD(1) [of a s u x] parts rest(2) by (auto split: if_splits)
  next
    fix u v x
    assume "(if u = t then w else wakes (pcs s u)) = Some x" "(if v = t then w else wakes (pcs s v)) = Some x"
    then show "u = v"
      using dw [of x] wakeD(1) [of a s u x] wakeD(1) [of a s v x] wakeD(2) [of a s u x v] parts by (auto split: if_splits)
  next
    fix x
    assume x: "parked_pc (pcs s x) \<and> x \<notin> set (parked ?s) \<and> address_of ?s x \<noteq> None"
    show "\<exists>u. (if u = t then w else wakes (pcs s u)) = Some x"
    proof (cases "w = Some x")
      case False
      then have "x \<notin> set (parked s)"
        using x rest(2) by simp
      then obtain u where "wakes (pcs s u) = Some x"
        using x parts by (auto simp: inv_wake_def)
      moreover from this have "u \<noteq> t"
        using nw by auto
      ultimately show ?thesis
        by auto
    qed auto
  qed (use facts dw in \<open>auto simp: waits_def split: if_splits\<close>)
  moreover have "inv_live a ?s"
    by (simp add: inv_live_def byte)
  ultimately show ?thesis
    unfolding lock_inv_def unpark_search_def l by auto
qed

text \<open>The callback ends: the token is set, the lock of the bucket given back. Either the lock goes to the sleeper, \<close>

lemma handoff_step:
  assumes i: "lock_inv a s" and p: "callback_pc (pcs s t) = Some (r, w)" and r: "didUnparkThread r"
  shows "lock_inv a (unpark_finish t g DirectHandoff w s)"
proof -
  note parts = i [unfolded lock_inv_def]
  obtain owner where o: "inv_owner owner s"
    using parts by blast
  have cases: "(\<exists>f h. pcs s t = SlowCallback f h r w) \<or> (\<exists>f h x. pcs s t = SlowClear f h r w x)"
    using p by (cases "pcs s t") auto
  then have bp: "bucket_pc (pcs s t)" "holder_pc (pcs s t)" "wakes (pcs s t) = w" "\<not> parked_pc (pcs s t)" and byte: "lock_byte s = 3"
    using inv_locals [OF o, of t] by auto
  obtain d where d: "w = Some d"
    using wakeD(3) [of a s t r w] p r parts by auto
  have wd: "parked_pc (pcs s d)" "d \<notin> set (parked s)" "address_of s d = Some a" "token_of s d = BargingOpportunity"
    using wakeD(1) [of a s t d] wakeD(3) [of a s t r w] p bp(3) d parts by auto
  let ?s = "at_pc t (SlowWake g d) (s\<lparr>token_of := (token_of s)(d := DirectHandoff), bucket_lock := None\<rparr>)"
  note mine = bucket_mine [of a s t, OF _ bp(1)]
  have td: "t \<noteq> d"
    using wd(1) bp(4) by auto
  have v: "wakes (pcs ?s u) = wakes (pcs s u)" "callback_pc (pcs ?s u) = None"
    "bucket_pc (pcs ?s u) = False" "parked_pc (pcs ?s u) = parked_pc (pcs s u)"
    "parking_pc (pcs ?s u) \<Longrightarrow> parking_pc (pcs s u)"
    "(pcs ?s u = Elsewhere) = (pcs s u = Elsewhere)" "(pcs ?s u = ElsewhereWoken) = (pcs s u = ElsewhereWoken)"
    "locals_ok (lock_byte s) (pcs ?s u) \<or> \<not> locals_ok (lock_byte s) (pcs s u)" "holder_pc (pcs ?s u) \<longleftrightarrow> u \<noteq> t \<and> holder_pc (pcs s u)" for u
    using bp d mine parts cases by (cases "u = t"; force)+
  have own: "owns ?s u \<longleftrightarrow> u = d" for u
  proof -
    have "owns s u \<longleftrightarrow> u = t"
      using o bp(2) by (auto simp: inv_owner_def owns_def)
    then show ?thesis
      using wd td bp(4) unfolding owns_def v by auto
  qed
  have fresh: "token_of ?s u = BargingOpportunity" if "parking_pc (pcs ?s u)" for u
  proof -
    have "parking_pc (pcs s u)" "u \<noteq> d"
      using v(5) [OF that] wd(1) by (cases "pcs s u"; auto)+
    then show ?thesis
      using parts by (simp add: inv_queue_def)
  qed
  have "inv_owner (Some d) ?s"
    using o v(8) byte unfolding inv_owner_def own by (auto simp del: at_pc_simps(6))
  moreover have "inv_queue a ?s"
    using parts fresh wd(2) unfolding inv_queue_def v(1-4,6-) by (auto simp del: at_pc_simps(6))
  moreover have "inv_wake a ?s"
    using parts unfolding inv_wake_def v by (simp del: at_pc_simps(6))
  moreover have "inv_live a ?s"
    by (simp add: inv_live_def byte)
  ultimately show ?thesis
    unfolding lock_inv_def unpark_finish_def d by auto
qed

text \<open>or the byte is cleared, but for the bit of those who still wait.\<close>

lemma cleared_value_3: "cleared_value r 3 = (if mayHaveMoreThreads r then 2 else 0)"
  by (simp add: cleared_value_def lock_mask_def isHeldBit_def hasParkedBit_def)

lemma barging_step:
  assumes i: "lock_inv a s" and p: "pcs s t = SlowClear f g r w x"
  shows "lock_inv a (unpark_finish t g BargingOpportunity w (s\<lparr>lock_byte := cleared_value r x\<rparr>))" (is "lock_inv a ?s")
proof -
  note parts = i [unfolded lock_inv_def]
  obtain owner where o: "inv_owner owner s"
    using parts by blast
  have byte: "lock_byte s = 3" "x = 3"
    using inv_locals [OF o p] by simp_all
  define q where "q = (case w of None \<Rightarrow> after_unlock g | Some d \<Rightarrow> SlowWake g d)"
  have q: "wakes q = w" "callback_pc q = None" "\<not> bucket_pc q" "\<not> parked_pc q" "\<not> parking_pc q" "q \<noteq> Elsewhere" "q \<noteq> ElsewhereWoken"
    "locals_ok b q" "\<not> holder_pc q" for b
    by (auto simp: q_def after_unlock_def split: option.split)
  have bp: "callback_pc (pcs s t) = Some (r, w)" "bucket_pc (pcs s t)" "holder_pc (pcs s t)" "wakes (pcs s t) = w"
    using p by simp_all
  note w = wakeD(3) [of a s t r w, OF _ bp(1)]
  have m: "lock_byte ?s = (if mayHaveMoreThreads r then 2 else 0)" "parked ?s = parked s" "bucket_lock ?s = None"
    "address_of ?s = address_of s" "token_of ?s = token_of s" "pcs ?s = (pcs s)(t := q)"
    using w parts by (auto simp: unpark_finish_def q_def byte cleared_value_3 split: option.split)
  note mine = bucket_mine [of a s t, OF _ bp(2)]
  have v: "wakes (pcs ?s u) = wakes (pcs s u)" "callback_pc (pcs ?s u) = None"
    "bucket_pc (pcs ?s u) = False" "parked_pc (pcs ?s u) = parked_pc (pcs s u)"
    "parking_pc (pcs ?s u) \<Longrightarrow> parking_pc (pcs s u)"
    "(pcs ?s u = Elsewhere) = (pcs s u = Elsewhere)" "(pcs ?s u = ElsewhereWoken) = (pcs s u = ElsewhereWoken)"
    "holder_pc (pcs ?s u) \<longleftrightarrow> u \<noteq> t \<and> holder_pc (pcs s u)" for u
    unfolding m using p q bp mine parts by (cases "u = t"; force)+
  have own: "owns s u \<longleftrightarrow> u = t" for u
    using o bp(3) by (auto simp: inv_owner_def owns_def)
  then have own': "\<not> owns ?s u" for u
    unfolding owns_def v m using bp(2) p q by auto
  have "locals_ok b (pcs ?s u)" for u b
  proof (cases "u = t")
    case False
    have "locals_ok 3 (pcs s u)" "\<not> owns s u"
      using o own False byte by (auto simp: inv_owner_def)
    then have "locals_ok b (pcs s u)"
      by (cases "pcs s u") (auto simp: owns_def)
    with False show ?thesis
      by (simp add: m)
  qed (simp add: m q)
  then have "inv_owner None ?s"
    using own' by (simp add: inv_owner_def m(1))
  moreover have "inv_queue a ?s"
    using parts v(5) unfolding inv_queue_def v(1-4,6-) m(1-5) by simp
  moreover have "inv_wake a ?s"
    using parts unfolding inv_wake_def v m(1-5) by simp
  moreover have "inv_live a ?s"
  proof -
    have "lock_byte ?s = 2 \<and> (\<exists>u. eager ?s u)" if x: "waits a ?s x" for x
    proof -
      have wx: "waits a s x" "parked s \<noteq> []"
        using x by (auto simp: waits_def m)
      then obtain d where d: "w = Some d" "mayHaveMoreThreads r" "token_of s d = BargingOpportunity"
        using w parts by auto
      have "parked_pc (pcs s d)" "d \<notin> set (parked s)"
        using wakeD(1) [of a s t d] bp(4) d(1) parts by auto
      then have "eager ?s d"
        unfolding eager_def v m(2,5) using d(3) by blast
      with d(2) m(1) show ?thesis
        by auto
    qed
    then show ?thesis
      by (simp add: inv_live_def)
  qed
  ultimately show ?thesis
    unfolding lock_inv_def by blast
qed


lemma wake_step:
  assumes i: "lock_inv a s" and p: "pcs s t = SlowWake g d"
  shows "lock_inv a (unpark_wake t g d s)"
proof -
  note parts = i [unfolded lock_inv_def]
  obtain owner where o: "inv_owner owner s"
    using parts by blast
  define q where "q = after_unlock g"
  have q: "wakes q = None" "callback_pc q = None" "\<not> bucket_pc q" "\<not> parked_pc q" "\<not> parking_pc q" "q \<noteq> Elsewhere" "q \<noteq> ElsewhereWoken"
    "locals_ok b q" "\<not> holder_pc q" "\<not> eager_pc q" for b
    by (auto simp: q_def after_unlock_def)
  have d: "parked_pc (pcs s d)" "d \<notin> set (parked s)" "address_of s d = Some a" and only: "wakes (pcs s u) = Some d \<longleftrightarrow> u = t" for u
    using wakeD(1) [of a s t d] wakeD(2) [of a s u d t] p parts by auto
  let ?s = "at_pc t q (s\<lparr>address_of := (address_of s)(d := None)\<rparr>)"
  have v: "wakes (pcs ?s u) = (if u = t then None else wakes (pcs s u))" "callback_pc (pcs ?s u) = callback_pc (pcs s u)"
    "bucket_pc (pcs ?s u) = bucket_pc (pcs s u)" "parked_pc (pcs ?s u) = parked_pc (pcs s u)"
    "parking_pc (pcs ?s u) = parking_pc (pcs s u)"
    "(pcs ?s u = Elsewhere) = (pcs s u = Elsewhere)" "(pcs ?s u = ElsewhereWoken) = (pcs s u = ElsewhereWoken)"
    "holder_pc (pcs ?s u) = holder_pc (pcs s u)" "eager_pc (pcs ?s u) = eager_pc (pcs s u)"
    "locals_ok (lock_byte s) (pcs ?s u) \<or> \<not> locals_ok (lock_byte s) (pcs s u)" for u
    using p q by (cases "u = t"; simp; fail)+
  have m: "owns ?s u = owns s u" "eager ?s u = eager s u" "waits a ?s u = waits a s u" for u
    using d(2) by (simp_all only: owns_def eager_def waits_def v) auto
  have "inv_owner owner ?s"
    using o v(10) unfolding inv_owner_def m by (simp del: at_pc_simps(6))
  moreover have "inv_queue a ?s"
    using parts d(2) unfolding inv_queue_def v by (simp del: at_pc_simps(6)) blast
  moreover have "inv_wake a ?s"
  proof (rule inv_wakeI, unfold v m)
    fix u x
    assume x: "(if u = t then None else wakes (pcs s u)) = Some x"
    then have "x \<noteq> d" "wakes (pcs s u) = Some x"
      using only [of u] by (auto split: if_splits)
    then show "parked_pc (pcs s x) \<and> x \<notin> set (parked ?s) \<and> address_of ?s x = Some a"
      using wakeD(1) [of a s u x] parts by auto
  next
    fix u u' x
    assume "(if u = t then None else wakes (pcs s u)) = Some x" "(if u' = t then None else wakes (pcs s u')) = Some x"
    then show "u = u'"
      using wakeD(2) [of a s u x u'] parts by (auto split: if_splits)
  next
    fix x
    assume x: "parked_pc (pcs s x)" "x \<notin> set (parked ?s)" "address_of ?s x \<noteq> None"
    then have "x \<noteq> d" "address_of s x \<noteq> None"
      by (auto split: if_splits)
    then obtain u where u: "wakes (pcs s u) = Some x"
      using pendingD [of a s x] x parts by auto
    moreover have "u \<noteq> t"
      using u \<open>x \<noteq> d\<close> p by auto
    ultimately show "\<exists>u. (if u = t then None else wakes (pcs s u)) = Some x"
      by auto
  qed (use wakeD(3) [of a s] parts in \<open>simp\<close>)
  moreover have "inv_live a ?s"
    using parts unfolding inv_live_def m by simp
  ultimately show ?thesis
    unfolding lock_inv_def unpark_wake_def q_def by blast
qed

section \<open>Threads that park elsewhere\<close>

lemma elsewhere_park_step:
  assumes i: "lock_inv a s" and p: "pcs s t = Outside" and b: "bucket_lock s = None" and ne: "b \<noteq> a"
  shows "lock_inv a (at_pc t Elsewhere (s\<lparr>address_of := (address_of s)(t := Some b), parked := parked s @ [t]\<rparr>))" (is "lock_inv a ?s")
proof -
  note parts = i [unfolded lock_inv_def]
  obtain owner where o: "inv_owner owner s"
    using parts by blast
  have t: "t \<notin> set (parked s)" "address_of s t = None" "wakes (pcs s u) \<noteq> Some t" for u
    using not_parked_facts [of a s t] parts p by auto
  note free = bucket_free [of a s, OF _ b]
  have v: "wakes (pcs ?s u) = wakes (pcs s u)" "callback_pc (pcs ?s u) = None"
    "bucket_pc (pcs ?s u) = False" "parked_pc (pcs ?s u) = parked_pc (pcs s u)"
    "parking_pc (pcs ?s u) = parking_pc (pcs s u)"
    "(pcs ?s u = Elsewhere) \<longleftrightarrow> u = t \<or> (pcs s u = Elsewhere)" "(pcs ?s u = ElsewhereWoken) = (pcs s u = ElsewhereWoken)"
    "holder_pc (pcs ?s u) = holder_pc (pcs s u)" "eager_pc (pcs ?s u) = eager_pc (pcs s u)"
    "locals_ok (lock_byte s) (pcs ?s u) \<or> \<not> locals_ok (lock_byte s) (pcs s u)" for u
    using p free parts by (cases "u = t"; simp; fail)+
  have tp: "\<not> parked_pc (pcs s t)"
    using p by simp
  have m: "owns ?s u = owns s u" "eager ?s u = eager s u" "waits a ?s u = waits a s u" for u
    using t ne tp by (simp_all only: owns_def eager_def waits_def v) auto
  have "inv_owner owner ?s"
    using o v(10) unfolding inv_owner_def m by (simp del: at_pc_simps(6))
  moreover have "inv_queue a ?s"
    using parts t ne free unfolding inv_queue_def v by (auto simp del: at_pc_simps(6))
  moreover have "inv_wake a ?s"
    using parts t tp wakeD [of a s] pendingD [of a s] by (intro inv_wakeI; unfold v m) (auto simp del: at_pc_simps(6) split: if_splits)
  moreover have "inv_live a ?s"
    using parts unfolding inv_live_def m by simp
  ultimately show ?thesis
    unfolding lock_inv_def by blast
qed

lemma elsewhere_unpark_step:
  assumes i: "lock_inv a s" and p: "pcs s t = Elsewhere" and b: "bucket_lock s = None"
  shows "lock_inv a (at_pc t ElsewhereWoken (s\<lparr>parked := remove1 t (parked s)\<rparr>))" (is "lock_inv a ?s")
proof -
  note parts = i [unfolded lock_inv_def]
  obtain owner where o: "inv_owner owner s"
    using parts by blast
  have d: "distinct (parked s)" and tq: "address_of s t \<noteq> Some a \<or> t \<notin> set (parked s)" and tp: "\<not> parked_pc (pcs s t)"
    using parts p by (auto simp: inv_queue_def)
  have ps: "set (remove1 t (parked s)) = set (parked s) - {t}"
    using d by simp
  note free = bucket_free [of a s, OF _ b]
  have v: "wakes (pcs ?s u) = wakes (pcs s u)" "callback_pc (pcs ?s u) = None"
    "bucket_pc (pcs ?s u) = False" "parked_pc (pcs ?s u) = parked_pc (pcs s u)"
    "parking_pc (pcs ?s u) = parking_pc (pcs s u)"
    "(pcs ?s u = Elsewhere) \<longleftrightarrow> u \<noteq> t \<and> (pcs s u = Elsewhere)" "(pcs ?s u = ElsewhereWoken) \<longleftrightarrow> u = t \<or> (pcs s u = ElsewhereWoken)"
    "holder_pc (pcs ?s u) = holder_pc (pcs s u)" "eager_pc (pcs ?s u) = eager_pc (pcs s u)"
    "locals_ok (lock_byte s) (pcs ?s u) \<or> \<not> locals_ok (lock_byte s) (pcs s u)" for u
    using p free parts by (cases "u = t"; simp; fail)+
  have m: "owns ?s u = owns s u" "eager ?s u = eager s u" "waits a ?s u = waits a s u" for u
    using tq tp ps by (simp_all only: owns_def eager_def waits_def v) auto
  have "inv_owner owner ?s"
    using o v(10) unfolding inv_owner_def m by (simp del: at_pc_simps(6))
  moreover have "inv_queue a ?s"
    using parts d tp free unfolding inv_queue_def v by (auto simp del: at_pc_simps(6))
  moreover have "inv_wake a ?s"
    using parts tp ps wakeD [of a s] pendingD [of a s] by (intro inv_wakeI; unfold v m) (auto simp del: at_pc_simps(6) split: if_splits)
  moreover have "inv_live a ?s"
    using parts unfolding inv_live_def m by simp
  ultimately show ?thesis
    unfolding lock_inv_def by blast
qed

lemma elsewhere_leave_step:
  assumes i: "lock_inv a s" and p: "pcs s t = ElsewhereWoken"
  shows "lock_inv a (at_pc t Outside (s\<lparr>address_of := (address_of s)(t := None)\<rparr>))" (is "lock_inv a ?s")
proof -
  note parts = i [unfolded lock_inv_def]
  obtain owner where o: "inv_owner owner s"
    using parts by blast
  have t: "t \<notin> set (parked s)" "wakes (pcs s u) \<noteq> Some t" "\<not> parked_pc (pcs s t)" for u
    using parts p wakeD(1) [of a s u t] by (auto simp: inv_queue_def)
  have v: "wakes (pcs ?s u) = wakes (pcs s u)" "callback_pc (pcs ?s u) = callback_pc (pcs s u)"
    "bucket_pc (pcs ?s u) = bucket_pc (pcs s u)" "parked_pc (pcs ?s u) = parked_pc (pcs s u)"
    "parking_pc (pcs ?s u) = parking_pc (pcs s u)"
    "(pcs ?s u = Elsewhere) = (pcs s u = Elsewhere)" "(pcs ?s u = ElsewhereWoken) \<longleftrightarrow> u \<noteq> t \<and> (pcs s u = ElsewhereWoken)"
    "holder_pc (pcs ?s u) = holder_pc (pcs s u)" "eager_pc (pcs ?s u) = eager_pc (pcs s u)"
    "locals_ok (lock_byte s) (pcs ?s u) \<or> \<not> locals_ok (lock_byte s) (pcs s u)" for u
    using p by (cases "u = t"; simp; fail)+
  have m: "owns ?s u = owns s u" "eager ?s u = eager s u" "waits a ?s u = waits a s u" for u
    using t by (simp_all only: owns_def eager_def waits_def v) auto
  have "inv_owner owner ?s"
    using o v(10) unfolding inv_owner_def m by (simp del: at_pc_simps(6))
  moreover have "inv_queue a ?s"
    using parts t unfolding inv_queue_def v by (auto simp del: at_pc_simps(6))
  moreover have "inv_wake a ?s"
    using parts t wakeD [of a s] pendingD [of a s] by (intro inv_wakeI; unfold v m) (auto simp del: at_pc_simps(6) split: if_splits)
  moreover have "inv_live a ?s"
    using parts unfolding inv_live_def m by simp
  ultimately show ?thesis
    unfolding lock_inv_def by blast
qed

section \<open>Every step keeps the invariant\<close>

lemmas bits_defs = isHeldBit_def hasParkedBit_def lock_mask_def

lemma byte_cases:
  assumes "lock_inv a s"
  obtains "lock_byte s = 0" | "lock_byte s = 1" | "lock_byte s = 2" | "lock_byte s = 3"
  using assms by (auto simp: lock_inv_def inv_owner_def)

lemma holder_byte:
  assumes "lock_inv a s" "owns s t"
  shows "lock_byte s = 1 \<or> lock_byte s = 3"
  using assms by (auto simp: lock_inv_def inv_owner_def)

lemma locals_at:
  assumes "lock_inv a s" "pcs s t = p"
  shows "locals_ok (lock_byte s) p"
  using assms inv_locals unfolding lock_inv_def by blast

lemma cas_step:
  assumes "compareExchangeWeak spurious e d s = (ok, s')"
  shows "(ok \<and> lock_byte s = e \<and> s' = s\<lparr>lock_byte := d\<rparr>) \<or> (\<not> ok \<and> s' = s)"
  using assms by (auto simp: compareExchangeWeak_def split: if_splits)

lemma cas_acquire:
  assumes "lock_inv a s" "pcs s t = p" "still_pc p" "still_pc yes" "still_pc no" "holder_pc yes" "v \<in> {0, 2}"
    "locals_ok 1 yes" "locals_ok 3 yes" "\<not> parking_pc yes"
    "holder_pc no = holder_pc p" "eager_pc p \<longrightarrow> eager_pc no" "locals_ok (lock_byte s) no" "\<not> parking_pc no"
  shows "lock_inv a (cas_then t spurious v (v OR 1) yes no s)"
  using acquire_step [of a s t yes] still_step [of a s t no] assms
  by (auto simp: cas_then_def compareExchangeWeak_def)

lemma cas_release:
  assumes "lock_inv a s" "pcs s t = p" "still_pc p" "still_pc yes" "still_pc no" "holder_pc p" "holder_pc no"
    "\<not> holder_pc yes" "locals_ok 0 yes" "\<not> parking_pc yes" "locals_ok (lock_byte s) no" "\<not> parking_pc no" "\<not> eager_pc p"
  shows "lock_inv a (cas_then t spurious 1 0 yes no s)"
  using release_step [of a s t yes] still_step [of a s t no] assms
  by (auto simp: cas_then_def compareExchangeWeak_def)

lemma callback_move_step:
  assumes i: "lock_inv a s" and p: "callback_pc (pcs s t) = Some c" and q: "callback_pc q = Some c" and l: "locals_ok (lock_byte s) q"
  shows "lock_inv a (at_pc t q s)"
proof -
  have c: "wakes x = snd c \<and> bucket_pc x \<and> holder_pc x \<and> \<not> parked_pc x \<and> \<not> parking_pc x \<and> \<not> eager_pc x \<and> x \<noteq> Elsewhere \<and> x \<noteq> ElsewhereWoken"
    if "callback_pc x = Some c" for x
    using that by (cases x) auto
  have v: "wakes (((pcs s)(t := q)) u) = wakes (pcs s u)" "callback_pc (((pcs s)(t := q)) u) = callback_pc (pcs s u)"
    "bucket_pc (((pcs s)(t := q)) u) = bucket_pc (pcs s u)" "parked_pc (((pcs s)(t := q)) u) = parked_pc (pcs s u)"
    "parking_pc (((pcs s)(t := q)) u) = parking_pc (pcs s u)"
    "(((pcs s)(t := q)) u = Elsewhere) = (pcs s u = Elsewhere)" "(((pcs s)(t := q)) u = ElsewhereWoken) = (pcs s u = ElsewhereWoken)"
    "holder_pc (((pcs s)(t := q)) u) = holder_pc (pcs s u)" "eager_pc (((pcs s)(t := q)) u) = eager_pc (pcs s u)" for u
    using c [OF p] c [OF q] p q by (cases "u = t"; simp; fail)+
  have m: "owns (at_pc t q s) u = owns s u" "eager (at_pc t q s) u = eager s u" for u
    by (simp_all add: owns_def eager_def v del: fun_upd_apply)
  have "inv_owner x s \<Longrightarrow> inv_owner x (at_pc t q s)" for x
    using l unfolding inv_owner_def m by auto
  moreover have "inv_queue a s \<Longrightarrow> inv_queue a (at_pc t q s)"
    unfolding inv_queue_def by (simp add: v del: fun_upd_apply)
  moreover have "inv_wake a s \<Longrightarrow> inv_wake a (at_pc t q s)"
    unfolding inv_wake_def by (simp add: v del: fun_upd_apply)
  moreover have "inv_live a s \<Longrightarrow> inv_live a (at_pc t q s)"
    unfolding inv_live_def m by simp
  ultimately show ?thesis
    using i unfolding lock_inv_def by blast
qed

lemma lockSlow_loaded_still:
  assumes "b \<in> {0, 1, 2, 3}"
  shows "still_pc (lockSlow_loaded n b) \<and> eager_pc (lockSlow_loaded n b) \<and> \<not> holder_pc (lockSlow_loaded n b) \<and>
    locals_ok b (lockSlow_loaded n b) \<and> \<not> parking_pc (lockSlow_loaded n b)"
  using assms by (auto simp: lockSlow_loaded_def lockSlow_park_def bits_defs)

lemma unlockSlow_loaded_still:
  assumes "b = 1 \<or> b = 3"
  shows "still_pc (unlockSlow_loaded f g b) \<and> \<not> eager_pc (unlockSlow_loaded f g b) \<and> holder_pc (unlockSlow_loaded f g b) \<and>
    locals_ok b (unlockSlow_loaded f g b) \<and> \<not> parking_pc (unlockSlow_loaded f g b)"
  using assms by (auto simp: unlockSlow_loaded_def bits_defs)

lemma run_step_inv:
  assumes i: "lock_inv a s" and s: "run_step a spurious fairTime t s = Some s'"
  shows "lock_inv a s'"
proof -
  have byte: "lock_byte s \<in> {0, 1, 2, 3}"
    using i by (auto simp: lock_inv_def inv_owner_def)
  have held: "lock_byte s = 1 \<or> lock_byte s = 3" if "holder_pc (pcs s t)"
    using holder_byte [OF i, of t] that by (simp add: owns_def)
  note r = s [unfolded run_step_def Let_def]
  show ?thesis
  proof (cases "pcs s t")
    case LockFastZero
    then have "s' = cas_then t spurious 0 (0 OR 1) Holding (SlowLoad 0) s"
      using r by (simp add: bits_defs)
    then show ?thesis
      using cas_acquire [OF i LockFastZero, of Holding "SlowLoad 0" 0 spurious] by (simp add: bits_defs)
  next
    case LockLoad
    then show ?thesis
      using r still_step [OF i, of t] byte by (auto simp: bits_defs)
  next
    case (LockCAS v)
    then show ?thesis
      using r cas_acquire [OF i LockCAS, of Holding LockLoad v spurious] locals_at [OF i LockCAS] by (auto simp: bits_defs)
  next
    case (SlowLoad n)
    then show ?thesis
      using r still_step [OF i, of t "lockSlow_loaded n (lock_byte s)"] lockSlow_loaded_still [OF byte] by simp
  next
    case (SlowCAS n v)
    then show ?thesis
      using r cas_acquire [OF i SlowCAS, of Holding "SlowLoad n" v spurious] locals_at [OF i SlowCAS] by (auto simp: bits_defs)
  next
    case (SlowSetParked n v)
    then have "v = 1"
      using locals_at [OF i SlowSetParked] by simp
    with SlowSetParked show ?thesis
      using r set_parked_step [OF i, of t "SlowPark n 3"] still_step [OF i, of t "SlowLoad n"]
      by (auto simp: bits_defs cas_then_def compareExchangeWeak_def lockSlow_park_def)
  next
    case (SlowPark n v)
    then show ?thesis
      using r park_enter_step [OF i SlowPark] by simp
  next
    case (SlowEnqueue n v)
    then show ?thesis
      using r enqueue_step [OF i SlowEnqueue] by (auto split: if_splits)
  next
    case (SlowValidate n v)
    then show ?thesis
      using r fall_asleep_step [OF i SlowValidate] validate_fail_step [OF i SlowValidate] by (auto simp: park_validate_def)
  next
    case (SlowParked n)
    then show ?thesis
      using r woken_step [OF i SlowParked] by simp
  next
    case SlowHandoff
    then show ?thesis
      using r still_step [OF i, of t Holding] held by (auto simp: bits_defs)
  next
    case (TryLoad kind)
    then show ?thesis
      using r still_step [OF i, of t] byte by (auto simp: bits_defs tryLock_failed_def split: try_kind.splits)
  next
    case (TryCAS kind v)
    then show ?thesis
      using r cas_acquire [OF i TryCAS, of "tryLock_got kind" "TryLoad kind" v spurious] locals_at [OF i TryCAS]
      by (auto simp: bits_defs tryLock_got_def split: try_kind.splits)
  next
    case (TimedLast got)
    then show ?thesis
      using r still_step [OF i, of t] held by (auto simp: bits_defs tryLockWithTimeout_result_def Let_def split: if_splits)
  next
    case SafepointLoad
    then show ?thesis
      using r still_step [OF i, of t] by (auto simp: bits_defs)
  next
    case (UnlockFastZero f)
    then show ?thesis
      using r cas_release [OF i UnlockFastZero, of Outside "SlowUnlockLoad f False" spurious] by (simp add: bits_defs)
  next
    case UnlockLoad
    then show ?thesis
      using r still_step [OF i, of t] held by (auto simp: bits_defs unlockFast_loaded_def)
  next
    case (UnlockCAS v)
    then show ?thesis
      using r cas_release [OF i UnlockCAS, of "after_unlock True" UnlockLoad spurious] locals_at [OF i UnlockCAS]
      by (simp add: bits_defs after_unlock_def)
  next
    case (SlowUnlockLoad f g)
    then show ?thesis
      using r still_step [OF i, of t "unlockSlow_loaded f g (lock_byte s)"] held unlockSlow_loaded_still [of "lock_byte s" f g] by simp
  next
    case (SlowUnlockCAS f g v)
    then show ?thesis
      using r cas_release [OF i SlowUnlockCAS, of "after_unlock g" "SlowUnlockLoad f g" spurious] locals_at [OF i SlowUnlockCAS]
      by (simp add: bits_defs after_unlock_def)
  next
    case (SlowUnpark f g)
    then show ?thesis
      using r search_step [OF i SlowUnpark] by (auto split: if_splits)
  next
    case (SlowCallback f g res w)
    then have "callback_pc (pcs s t) = Some (res, w)"
      by simp
    with SlowCallback show ?thesis
      using r handoff_step [OF i, of t res w g] callback_move_step [OF i, of t "(res, w)" "SlowClear f g res w (lock_byte s)"]
        locals_at [OF i SlowCallback]
      by (auto simp: unpark_callback_def split: if_splits)
  next
    case (SlowClear f g res w v)
    then have "callback_pc (pcs s t) = Some (res, w)"
      by simp
    with SlowClear show ?thesis
      using r barging_step [OF i SlowClear] callback_move_step [OF i, of t "(res, w)" "SlowCallback f g res w"]
        locals_at [OF i SlowClear]
      by (auto simp: unpark_clear_def compareExchangeWeak_def split: if_splits)
  next
    case (SlowWake g d)
    then show ?thesis
      using r wake_step [OF i SlowWake] by simp
  next
    case Elsewhere
    then show ?thesis
      using r elsewhere_unpark_step [OF i Elsewhere] by (auto split: if_splits)
  next
    case ElsewhereWoken
    then show ?thesis
      using r elsewhere_leave_step [OF i ElsewhereWoken] by simp
  qed (use r in simp_all)
qed


lemma begin_call_inv:
  assumes i: "lock_inv a s" and s: "begin_call a c t s = Some s'"
  shows "lock_inv a s'"
proof -
  consider q where "pcs s t = Outside" "q \<in> {LockFastZero, TryLoad TryOnce}" "s' = at_pc t q s"
    | n where "pcs s t = Outside" "s' = at_pc t (TryLoad (TryRetry n 0)) s"
    | q where "pcs s t = Holding" "q \<in> {UnlockFastZero Unfair, UnlockFastZero Fair, SafepointLoad}" "s' = at_pc t q s"
    | b where "pcs s t = Outside" "b \<noteq> a" "bucket_lock s = None"
      "s' = at_pc t Elsewhere (s\<lparr>address_of := (address_of s)(t := Some b), parked := parked s @ [t]\<rparr>)"
    using s by (auto split: call.splits pc.splits if_splits)
  then show ?thesis
  proof cases
    case 4
    then show ?thesis
      using elsewhere_park_step [OF i] by simp
  qed (use still_step [OF i, of t] in auto)
qed

lemma reachable_inv: "reachable_system a s \<Longrightarrow> lock_inv a s"
proof (induction rule: reachable_system.induct)
  case (system_step s c t s')
  then show ?case
    by (cases c) (auto intro: begin_call_inv run_step_inv)
qed (rule lock_inv_initial)

section \<open>What the invariant says\<close>

lemma holder_unique: "lock_inv a s \<Longrightarrow> owns s t \<Longrightarrow> owns s u \<Longrightarrow> t = u"
  by (auto simp: lock_inv_def inv_owner_def)

lemma never_crashed: "lock_inv a s \<Longrightarrow> pcs s t \<noteq> Crashed"
  using locals_at [of a s t Crashed] by auto

text \<open>Somebody can always move: whoever owns the lock, is eager, has the lock of the bucket, or is to be woken.\<close>

lemma run_enabled:
  "pcs s t \<notin> {Outside, Holding, Misled, Crashed} \<Longrightarrow> \<not> parked_pc (pcs s t) \<Longrightarrow> bucket_lock s = None \<Longrightarrow>
    run_step a spurious fairTime t s \<noteq> None"
  by (cases "pcs s t") (auto simp: run_step_def Let_def)

lemma bucket_enabled: "bucket_pc (pcs s t) \<Longrightarrow> run_step a spurious fairTime t s \<noteq> None"
  by (cases "pcs s t") (auto simp: run_step_def Let_def)

lemma wakes_enabled: "wakes (pcs s t) = Some d \<Longrightarrow> run_step a spurious fairTime t s \<noteq> None"
  by (cases "pcs s t") (auto simp: run_step_def Let_def)

lemma parked_progress:
  assumes i: "lock_inv a s" and p: "parked_pc (pcs s t)"
  shows "\<exists>u. pcs s u = Holding \<or> (pcs s u \<noteq> Elsewhere \<and> pcs s u \<noteq> ElsewhereWoken \<and> run_step a spurious fairTime u s \<noteq> None)"
proof (cases "bucket_lock s")
  case (Some b)
  then have "bucket_pc (pcs s b)"
    using i by (simp add: lock_inv_def inv_queue_def)
  then show ?thesis
    using bucket_enabled [of s b] by (intro exI [of _ b]) auto
next
  case None
  have moves: ?thesis if "holder_pc (pcs s u) \<or> eager_pc (pcs s u)" for u
    using run_enabled [of s u a spurious fairTime] None that by (cases "pcs s u") (auto intro!: exI [of _ u])
  have asleep: ?thesis if "parked_pc (pcs s u)" "u \<notin> set (parked s)" for u
  proof (cases "address_of s u")
    case None
    then have "run_step a spurious fairTime u s \<noteq> None" "pcs s u \<noteq> Elsewhere" "pcs s u \<noteq> ElsewhereWoken"
      using that(1) by (cases "pcs s u"; auto simp: run_step_def Let_def park_woken_def)+
    then show ?thesis
      by blast
  next
    case (Some b)
    then have "\<exists>v. wakes (pcs s v) = Some u"
      using pendingD [of a s u] that i by (simp add: lock_inv_def)
    then obtain v where "wakes (pcs s v) = Some u"
      by blast
    then show ?thesis
      using wakes_enabled [of s v u] by (intro exI [of _ v]) auto
  qed
  show ?thesis
  proof (cases "t \<in> set (parked s)")
    case True
    then have "waits a s t"
      using i p by (auto simp: lock_inv_def inv_queue_def waits_def)
    then consider "lock_byte s = 3" | u where "eager s u"
      using i by (auto simp: lock_inv_def inv_live_def)
    then show ?thesis
    proof cases
      case 1
      then obtain u where "owns s u"
        using i by (auto simp: lock_inv_def inv_owner_def)
      moreover have "u \<notin> set (parked s)" if "parked_pc (pcs s u)" "token_of s u = DirectHandoff"
        using i that by (auto simp: lock_inv_def inv_queue_def)
      ultimately show ?thesis
        using moves [of u] asleep [of u] by (auto simp: owns_def)
    qed (use moves asleep in \<open>auto simp: eager_def\<close>)
  qed (use asleep p in blast)
qed


lemma waiting_has_bit:
  assumes "lock_inv a s" "pcs s t = SlowParked n" "t \<in> set (parked s)"
  shows "lock_byte s AND hasParkedBit \<noteq> 0" "lock_byte s AND isHeldBit \<noteq> 0 \<or> (\<exists>u. eager s u)"
proof -
  have "waits a s t"
    using assms by (auto simp: lock_inv_def inv_queue_def waits_def)
  then have "lock_byte s \<in> {2, 3} \<and> (lock_byte s = 3 \<or> (\<exists>u. eager s u))"
    using assms(1) unfolding lock_inv_def inv_live_def by blast
  then show "lock_byte s AND hasParkedBit \<noteq> 0" "lock_byte s AND isHeldBit \<noteq> 0 \<or> (\<exists>u. eager s u)"
    by (auto simp: bits_defs)
qed

lemma held_iff_owned: "lock_inv a s \<Longrightarrow> lock_byte s AND isHeldBit \<noteq> 0 \<longleftrightarrow> (\<exists>t. owns s t)"
  by (auto simp: lock_inv_def inv_owner_def bits_defs)

lemma timed_answer:
  assumes "lock_inv a s" "pcs s t = TimedLast got"
  shows "run_step a spurious fairTime t s =
    Some (at_pc t (if got then Holding else if \<exists>u. owns s u then Misled else Outside) s)"
proof -
  have "owns s t" if got
    using that assms(2) by (simp add: owns_def)
  then show ?thesis
    using held_iff_owned [OF assms(1)] assms(2) by (auto simp: run_step_def tryLockWithTimeout_result_def Let_def)
qed

end
