(* ===== verification/LockLiveness.thy ===== *)
theory LockLiveness
  imports LockInvariant
begin

text \<open>
  Progress of the lock: from every reachable state, and wherever the other threads are, some schedule leads a thread inside
  \<open>lock\<close> to hold it. The lock of the bucket is given back; the owner, which may have to be woken first, unlocks, and either
  takes a thread out of the queue or leaves the lock free; the proof is by induction on the length of the queue.
\<close>


section \<open>Runs\<close>

definition moves :: "park_address \<Rightarrow> system \<Rightarrow> system \<Rightarrow> bool" where
  "moves a s s' \<longleftrightarrow> (\<exists>c t. thread_step a c t s = Some s')"

abbreviation leads_to :: "park_address \<Rightarrow> system \<Rightarrow> system \<Rightarrow> bool" where
  "leads_to a \<equiv> (moves a)\<^sup>*\<^sup>*"

lemma run_leads: "run_step a False False t s = Some s' \<Longrightarrow> leads_to a s s'"
  by (intro r_into_rtranclp) (metis moves_def thread_step.simps(2))

lemma call_leads: "begin_call a c t s = Some s' \<Longrightarrow> leads_to a s s'"
  by (intro r_into_rtranclp) (metis moves_def thread_step.simps(1))

lemma leads_inv: "leads_to a s s' \<Longrightarrow> lock_inv a s \<Longrightarrow> lock_inv a s'"
proof (induction rule: rtranclp_induct)
  case (step s1 s2)
  then obtain c t where "thread_step a c t s1 = Some s2"
    by (auto simp: moves_def)
  with step show ?case
    by (cases c) (auto intro: begin_call_inv run_step_inv)
qed

lemma leads_schedule: "leads_to a s s' \<Longrightarrow> \<exists>xs. run_schedule a xs s = Some s'"
proof (induction rule: converse_rtranclp_induct)
  case base
  then show ?case
    by (intro exI [of _ "[]"]) simp
next
  case (step s1 s2)
  then obtain c t xs where "thread_step a c t s1 = Some s2" "run_schedule a xs s2 = Some s'"
    by (auto simp: moves_def)
  then show ?case
    by (intro exI [of _ "(t, c) # xs"]) simp
qed

text \<open>Only one thread moves, and the queue stays as it is.\<close>

definition alone :: "thread_data \<Rightarrow> system \<Rightarrow> system \<Rightarrow> bool" where
  "alone t s s' \<longleftrightarrow> (\<forall>u. u \<noteq> t \<longrightarrow> pcs s' u = pcs s u) \<and> parked s' = parked s \<and> bucket_lock s' = bucket_lock s"

lemma alone_refl [simp]: "alone t s s"
  by (simp add: alone_def)

lemma alone_trans: "alone t s s' \<Longrightarrow> alone t s' s'' \<Longrightarrow> alone t s s''"
  by (simp add: alone_def)

lemma alone_at_pc [simp]: "alone t s (at_pc t p s)" "alone t s (at_pc t p (s\<lparr>lock_byte := b\<rparr>))"
  by (simp_all add: alone_def)

definition gets_lock :: "park_address \<Rightarrow> thread_data \<Rightarrow> system \<Rightarrow> bool" where
  "gets_lock a t s \<longleftrightarrow> (\<exists>s'. leads_to a s s' \<and> alone t s s' \<and> pcs s' t = Holding)"

lemma gets_lock_run:
  assumes "run_step a False False t s = Some s1" "alone t s s1" "gets_lock a t s1"
  shows "gets_lock a t s"
  using assms unfolding gets_lock_def by (meson alone_trans run_leads rtranclp_trans)

lemma gets_lock_end: "run_step a False False t s = Some s1 \<Longrightarrow> alone t s s1 \<Longrightarrow> pcs s1 t = Holding \<Longrightarrow> gets_lock a t s"
  unfolding gets_lock_def using run_leads by blast

section \<open>A free lock can be taken\<close>

lemma SlowLoad_gets:
  assumes "lock_byte s \<in> {0, 2}" "pcs s t = SlowLoad n"
  shows "gets_lock a t s"
proof (rule gets_lock_run)
  let ?s = "at_pc t (SlowCAS n (lock_byte s)) s"
  show "run_step a False False t s = Some ?s"
    using assms by (auto simp: run_step_def lockSlow_loaded_def bits_defs)
  show "gets_lock a t ?s"
    by (rule gets_lock_end [of a t _ "at_pc t Holding (at_pc t (SlowCAS n (lock_byte s)) s\<lparr>lock_byte := lock_byte s OR 1\<rparr>)"])
      (simp_all add: run_step_def cas_then_def compareExchangeWeak_def bits_defs alone_def)
qed simp

lemma LockLoad_gets:
  assumes "lock_byte s \<in> {0, 2}" "pcs s t = LockLoad"
  shows "gets_lock a t s"
proof (rule gets_lock_run)
  let ?s = "at_pc t (LockCAS (lock_byte s)) s"
  show "run_step a False False t s = Some ?s"
    using assms by (auto simp: run_step_def bits_defs)
  show "gets_lock a t ?s"
    by (rule gets_lock_end [of a t _ "at_pc t Holding (at_pc t (LockCAS (lock_byte s)) s\<lparr>lock_byte := lock_byte s OR 1\<rparr>)"])
      (simp_all add: run_step_def cas_then_def compareExchangeWeak_def bits_defs alone_def)
qed simp

text \<open>The places of a thread that is locking and awake.\<close>

fun locking_pc :: "pc \<Rightarrow> bool" where
  "locking_pc LockFastZero = True"
| "locking_pc LockLoad = True"
| "locking_pc (LockCAS _) = True"
| "locking_pc p = (eager_pc p \<and> \<not> bucket_pc p)"

lemma locking_gets:
  assumes i: "lock_inv a s" and b: "bucket_lock s = None" and free: "lock_byte s \<in> {0, 2}" and p: "locking_pc (pcs s t)"
  shows "gets_lock a t s"
proof -
  have validate: "gets_lock a t s'" if "pcs s' t = SlowEnqueue n 3" "bucket_lock s' = None" "lock_byte s' \<in> {0, 2}" for s' n
  proof -
    let ?s = "at_pc t (SlowValidate n 3) (s'\<lparr>bucket_lock := Some t\<rparr>)" and ?s2 = "at_pc t (SlowLoad n) s'"
    have "run_step a False False t s' = Some ?s"
      using that by (simp add: run_step_def)
    moreover have "run_step a False False t ?s = Some ((at_pc t (SlowLoad n) ?s)\<lparr>bucket_lock := None\<rparr>)"
      using that(3) by (auto simp: run_step_def park_validate_def at_pc_def)
    ultimately have l: "leads_to a s' ((at_pc t (SlowLoad n) ?s)\<lparr>bucket_lock := None\<rparr>)"
      using run_leads by (meson rtranclp_trans)
    have "gets_lock a t ((at_pc t (SlowLoad n) ?s)\<lparr>bucket_lock := None\<rparr>)"
      by (rule SlowLoad_gets [of _ _ n]) (use that(3) in simp_all)
    moreover have "alone t s' ((at_pc t (SlowLoad n) ?s)\<lparr>bucket_lock := None\<rparr>)"
      using that(2) by (simp add: alone_def)
    ultimately show ?thesis
      using l unfolding gets_lock_def by (meson alone_trans rtranclp_trans)
  qed
  note loc = locals_at [OF i, of t]
  show ?thesis
  proof (cases "pcs s t")
    case LockFastZero
    show ?thesis
    proof (cases "lock_byte s = 0")
      case True
      then show ?thesis
        by (intro gets_lock_end [of a t s "at_pc t Holding (s\<lparr>lock_byte := 1\<rparr>)"])
          (simp_all add: LockFastZero run_step_def cas_then_def compareExchangeWeak_def bits_defs)
    next
      case False
      then show ?thesis
        by (intro gets_lock_run [of a t s "at_pc t (SlowLoad 0) s"] SlowLoad_gets [of _ _ 0])
          (use free in \<open>simp_all add: LockFastZero run_step_def cas_then_def compareExchangeWeak_def bits_defs\<close>)
    qed
  next
    case LockLoad
    then show ?thesis
      by (rule LockLoad_gets [OF free])
  next
    case (LockCAS v)
    show ?thesis
    proof (cases "lock_byte s = v")
      case True
      then show ?thesis
        by (intro gets_lock_end [of a t s "at_pc t Holding (s\<lparr>lock_byte := v OR 1\<rparr>)"])
          (simp_all add: LockCAS run_step_def cas_then_def compareExchangeWeak_def bits_defs)
    next
      case False
      then show ?thesis
        by (intro gets_lock_run [of a t s "at_pc t LockLoad s"] LockLoad_gets)
          (use free in \<open>simp_all add: LockCAS run_step_def cas_then_def compareExchangeWeak_def bits_defs\<close>)
    qed
  next
    case (SlowLoad n)
    then show ?thesis
      by (rule SlowLoad_gets [OF free])
  next
    case (SlowCAS n v)
    show ?thesis
    proof (cases "lock_byte s = v")
      case True
      then show ?thesis
        by (intro gets_lock_end [of a t s "at_pc t Holding (s\<lparr>lock_byte := v OR 1\<rparr>)"])
          (simp_all add: SlowCAS run_step_def cas_then_def compareExchangeWeak_def bits_defs)
    next
      case False
      then show ?thesis
        by (intro gets_lock_run [of a t s "at_pc t (SlowLoad n) s"] SlowLoad_gets [of _ _ n])
          (use free in \<open>simp_all add: SlowCAS run_step_def cas_then_def compareExchangeWeak_def bits_defs\<close>)
    qed
  next
    case (SlowSetParked n v)
    then have "v = 1"
      using loc by simp
    then show ?thesis
      by (intro gets_lock_run [of a t s "at_pc t (SlowLoad n) s"] SlowLoad_gets [of _ _ n])
        (use free in \<open>auto simp: SlowSetParked run_step_def cas_then_def compareExchangeWeak_def bits_defs\<close>)
  next
    case (SlowPark n v)
    then have v: "v = 3" and ad: "address_of s t = None"
      using loc not_parked_facts(2) [of a s t] i by (auto simp: lock_inv_def)
    let ?s = "at_pc t (SlowEnqueue n 3) (s\<lparr>token_of := (token_of s)(t := BargingOpportunity)\<rparr>)"
    show ?thesis
    proof (rule gets_lock_run [of a t s ?s])
      show "run_step a False False t s = Some ?s"
        using ad v by (simp add: SlowPark run_step_def park_enter_def)
      show "gets_lock a t ?s"
        by (rule validate [of _ n]) (use b free in simp_all)
    qed (simp add: alone_def)
  next
    case (SlowEnqueue n v)
    then show ?thesis
      using loc validate [of s n] b free by simp
  qed (use p in simp_all)
qed

section \<open>A thread taken out of the queue wakes up\<close>

text \<open>Some run of the system leads to a state with a property.\<close>

definition can :: "park_address \<Rightarrow> (system \<Rightarrow> bool) \<Rightarrow> system \<Rightarrow> bool" where
  "can a P s \<longleftrightarrow> (\<exists>s'. leads_to a s s' \<and> P s')"

lemma can_here: "P s \<Longrightarrow> can a P s"
  unfolding can_def by blast

lemma can_run: "run_step a False False u s = Some s1 \<Longrightarrow> can a P s1 \<Longrightarrow> can a P s"
  unfolding can_def by (meson run_leads rtranclp_trans)

lemma can_call: "begin_call a c u s = Some s1 \<Longrightarrow> can a P s1 \<Longrightarrow> can a P s"
  unfolding can_def by (meson call_leads rtranclp_trans)

lemma can_inv: "lock_inv a s \<Longrightarrow> can a P s \<Longrightarrow> can a (\<lambda>s'. lock_inv a s' \<and> P s') s"
  unfolding can_def using leads_inv by blast

lemma can_then: "can a P s \<Longrightarrow> (\<And>s'. P s' \<Longrightarrow> can a Q s') \<Longrightarrow> can a Q s"
  unfolding can_def by (meson rtranclp_trans)

definition awake_pc :: "Token \<Rightarrow> u32 \<Rightarrow> pc" where
  "awake_pc token n = (case token of DirectHandoff \<Rightarrow> SlowHandoff | BargingOpportunity \<Rightarrow> SlowLoad n)"

lemma wake_sleeper:
  assumes i: "lock_inv a s" and b: "bucket_lock s = None" and p: "pcs s t = SlowParked n" and out: "t \<notin> set (parked s)"
  shows "can a (\<lambda>s'. lock_byte s' = lock_byte s \<and> parked s' = parked s \<and> bucket_lock s' = None \<and>
      pcs s' t = awake_pc (token_of s t) n \<and> (\<forall>v. v \<noteq> t \<and> wakes (pcs s v) \<noteq> Some t \<longrightarrow> pcs s' v = pcs s v)) s"
    (is "can a ?P s")
proof -
  have woken: "run_step a False False t s' = Some (at_pc t (awake_pc (token_of s' t) n) s')"
    if "pcs s' t = SlowParked n" "address_of s' t = None" for s'
    using that by (simp add: run_step_def park_woken_def awake_pc_def split: Token.split)
  show ?thesis
  proof (cases "address_of s t")
    case None
    then show ?thesis
      by (rule can_run [OF woken [OF p] can_here]) (use b in simp)
  next
    case (Some x)
    then obtain u where u: "wakes (pcs s u) = Some t"
      using pendingD [of a s t] i p out by (auto simp: lock_inv_def)
    moreover have "callback_pc (pcs s u) = None"
      using bucket_free(2) [of a s u] i b by (simp add: lock_inv_def)
    ultimately obtain again where w: "pcs s u = SlowWake again t"
      by (cases "pcs s u") auto
    let ?s = "unpark_wake u again t s"
    have "run_step a False False u s = Some ?s"
      by (simp add: run_step_def w)
    moreover have "can a ?P ?s"
    proof (rule can_run [OF woken can_here])
      show "pcs ?s t = SlowParked n" "address_of ?s t = None"
        using w p by (auto simp: unpark_wake_def)
      show "?P (at_pc t (awake_pc (token_of ?s t) n) ?s)"
        using b u by (auto simp: unpark_wake_def)
    qed
    ultimately show ?thesis
      by (rule can_run)
  qed
qed

section \<open>The owner gives the lock back\<close>

text \<open>The places of a thread in a call of \<open>lock\<close> that has not returned.\<close>

fun in_lock :: "pc \<Rightarrow> bool" where
  "in_lock (SlowParked _) = True"
| "in_lock SlowHandoff = True"
| "in_lock LockFastZero = True"
| "in_lock LockLoad = True"
| "in_lock (LockCAS _) = True"
| "in_lock p = eager_pc p"

lemma in_lock_no_waker: "in_lock p \<Longrightarrow> wakes p = None"
  by (cases p) auto

lemma in_lock_waits: "lock_inv a s \<Longrightarrow> in_lock (pcs s t) \<Longrightarrow> t \<in> set (parked s) \<Longrightarrow> waits a s t"
  by (auto simp: lock_inv_def inv_queue_def waits_def)

lemma waits_byte_bit: "lock_inv a s \<Longrightarrow> waits a s t \<Longrightarrow> lock_byte s = 2 \<or> lock_byte s = 3"
  by (auto simp: lock_inv_def inv_live_def)

text \<open>For a thread that wants the lock: it has not moved, and the queue is shorter, or the lock is free and the thread awake.\<close>

definition released :: "thread_data \<Rightarrow> system \<Rightarrow> system \<Rightarrow> bool" where
  "released t s s' \<longleftrightarrow> bucket_lock s' = None \<and> pcs s' t = pcs s t \<and>
     (length (parked s') < length (parked s) \<or> lock_byte s' \<in> {0, 2} \<and> t \<notin> set (parked s'))"

lemma owner_move:
  assumes i: "lock_inv a s" and st: "run_step a False False u s = Some (at_pc u q s)" and ne: "u \<noteq> t"
    and rest: "lock_inv a (at_pc u q s) \<Longrightarrow> can a (released t (at_pc u q s)) (at_pc u q s)"
  shows "can a (released t s) s"
proof (rule can_run [OF st])
  have "lock_inv a (at_pc u q s)"
    by (rule run_step_inv [OF i st])
  then show "can a (released t s) (at_pc u q s)"
    using rest ne by (simp add: released_def [abs_def])
qed

lemma owner_frees:
  assumes i: "lock_inv a s" and b: "bucket_lock s = None" and w: "in_lock (pcs s t)" and ne: "u \<noteq> t"
    and st: "run_step a False False u s = Some (cas_then u False 1 0 yes no s)" and one: "lock_byte s = 1"
  shows "can a (released t s) s"
proof (rule can_run [OF st can_here])
  have "t \<notin> set (parked s)"
    using in_lock_waits [OF i w] waits_byte_bit [OF i, of t] one by auto
  then show "released t s (cas_then u False 1 0 yes no s)"
    using ne b one by (simp add: released_def cas_then_def compareExchangeWeak_def)
qed

lemma SlowUnpark_releases:
  assumes i: "lock_inv a s" and b: "bucket_lock s = None" and w: "in_lock (pcs s t)" and ne: "u \<noteq> t"
    and p: "pcs s u = SlowUnpark fairness again"
  shows "can a (released t s) s"
proof -
  obtain d r rest where l: "unpark_list (address_of s) a False (parked s) = (d, r, rest)"
    by (cases "unpark_list (address_of s) a False (parked s)") auto
  note f = unpark_list_facts [OF l]
  have three: "lock_byte s = 3"
    using locals_at [OF i p] by simp
  let ?s = "at_pc u (SlowCallback fairness again r d) (s\<lparr>parked := rest, bucket_lock := Some u\<rparr>)"
  let ?c = "at_pc u (SlowClear fairness again r d 3) ?s"
  have st: "run_step a False False u s = Some ?s"
    using b p l by (simp add: run_step_def unpark_search_def)
  have finish: "released t s (unpark_finish u again token d s')"
    if "parked s' = rest" "pcs s' t = pcs s t" "d = None \<Longrightarrow> lock_byte s' = 0" for token s'
  proof (cases d)
    case None
    then have "t \<notin> set (parked s)"
      using f(3) in_lock_waits [OF i w] by (auto simp: waits_def)
    with None that f(3) ne show ?thesis
      by (simp add: released_def unpark_finish_def)
  next
    case (Some x)
    then have "length rest < length (parked s)"
      using f(4) [of x] length_pos_if_in_set [of x "parked s"] by (auto simp: length_remove1)
    with Some that ne show ?thesis
      by (simp add: released_def unpark_finish_def)
  qed
  show ?thesis
  proof (rule can_run [OF st], cases "didUnparkThread r \<and> (fairness = Fair \<or> timeToBeFair r)")
    case True
    then have c: "run_step a False False u ?s = Some (unpark_finish u again DirectHandoff d ?s)"
      by (simp add: run_step_def unpark_callback_def)
    have "released t s (unpark_finish u again DirectHandoff d ?s)"
      using True f(1) ne by (intro finish) auto
    then show "can a (released t s) ?s"
      by (intro can_run [OF c] can_here)
  next
    case False
    then have c: "run_step a False False u ?s = Some ?c"
      by (auto simp: run_step_def unpark_callback_def three)
    let ?f = "unpark_finish u again BargingOpportunity d (?c\<lparr>lock_byte := cleared_value r 3\<rparr>)"
    have c2: "run_step a False False u ?c = Some ?f"
      by (simp add: run_step_def unpark_clear_def compareExchangeWeak_def three)
    have "released t s ?f"
      using f(2) ne by (intro finish) (auto simp: cleared_value_3)
    then show "can a (released t s) ?s"
      by (intro can_run [OF c] can_run [OF c2] can_here)
  qed
qed

lemma SlowUnlockLoad_releases:
  assumes i: "lock_inv a s" and b: "bucket_lock s = None" and w: "in_lock (pcs s t)" and ne: "u \<noteq> t"
    and p: "pcs s u = SlowUnlockLoad fairness again"
  shows "can a (released t s) s"
proof -
  have byte: "lock_byte s = 1 \<or> lock_byte s = 3"
    by (rule holder_byte [OF i, of u]) (simp add: owns_def p)
  show ?thesis
  proof (cases "lock_byte s = 1")
    case True
    show ?thesis
    proof (rule owner_move [OF i _ ne])
      show "run_step a False False u s = Some (at_pc u (SlowUnlockCAS fairness again 1) s)"
        by (simp add: run_step_def p unlockSlow_loaded_def bits_defs True)
      show "can a (released t (at_pc u (SlowUnlockCAS fairness again 1) s)) (at_pc u (SlowUnlockCAS fairness again 1) s)"
        if "lock_inv a (at_pc u (SlowUnlockCAS fairness again 1) s)"
        by (rule owner_frees [OF that _ _ ne]) (use True b w ne in \<open>simp_all add: run_step_def bits_defs\<close>)
    qed
  next
    case False
    show ?thesis
    proof (rule owner_move [OF i _ ne])
      show "run_step a False False u s = Some (at_pc u (SlowUnpark fairness again) s)"
        using False byte by (simp add: run_step_def p unlockSlow_loaded_def bits_defs)
      show "can a (released t (at_pc u (SlowUnpark fairness again) s)) (at_pc u (SlowUnpark fairness again) s)"
        if "lock_inv a (at_pc u (SlowUnpark fairness again) s)"
        by (rule SlowUnpark_releases [OF that _ _ ne, where fairness = fairness and again = again]) (use b w ne in simp_all)
    qed
  qed
qed

text \<open>An exchange of 1 for 0 frees the lock, or the slow path does.\<close>

lemma cas_releases:
  assumes i: "lock_inv a s" and b: "bucket_lock s = None" and w: "in_lock (pcs s t)" and ne: "u \<noteq> t"
    and st: "run_step a False False u s = Some (cas_then u False 1 0 yes (SlowUnlockLoad fairness again) s)"
  shows "can a (released t s) s"
proof (cases "lock_byte s = 1")
  case True
  show ?thesis
    by (rule owner_frees [OF i b w ne st True])
next
  case False
  show ?thesis
  proof (rule owner_move [OF i _ ne])
    show "run_step a False False u s = Some (at_pc u (SlowUnlockLoad fairness again) s)"
      using st False by (simp add: cas_then_def compareExchangeWeak_def)
    show "can a (released t (at_pc u (SlowUnlockLoad fairness again) s)) (at_pc u (SlowUnlockLoad fairness again) s)"
      if "lock_inv a (at_pc u (SlowUnlockLoad fairness again) s)"
      by (rule SlowUnlockLoad_releases [OF that _ _ ne, where fairness = fairness and again = again]) (use b w ne in simp_all)
  qed
qed

lemma UnlockLoad_releases:
  assumes i: "lock_inv a s" and b: "bucket_lock s = None" and w: "in_lock (pcs s t)" and ne: "u \<noteq> t" and p: "pcs s u = UnlockLoad"
  shows "can a (released t s) s"
proof (cases "lock_byte s = 1")
  case True
  show ?thesis
  proof (rule owner_move [OF i _ ne])
    show "run_step a False False u s = Some (at_pc u (UnlockCAS 1) s)"
      by (simp add: run_step_def p unlockFast_loaded_def bits_defs True)
    show "can a (released t (at_pc u (UnlockCAS 1) s)) (at_pc u (UnlockCAS 1) s)" if "lock_inv a (at_pc u (UnlockCAS 1) s)"
      by (rule owner_frees [OF that _ _ ne]) (use True b w ne in \<open>simp_all add: run_step_def bits_defs\<close>)
  qed
next
  case False
  then have "lock_byte s = 3"
    using holder_byte [OF i, of u] by (simp add: owns_def p)
  show ?thesis
  proof (rule owner_move [OF i _ ne])
    show "run_step a False False u s = Some (at_pc u (SlowUnlockLoad Fair True) s)"
      using \<open>lock_byte s = 3\<close> by (simp add: run_step_def p unlockFast_loaded_def bits_defs)
    show "can a (released t (at_pc u (SlowUnlockLoad Fair True) s)) (at_pc u (SlowUnlockLoad Fair True) s)"
      if "lock_inv a (at_pc u (SlowUnlockLoad Fair True) s)"
      by (rule SlowUnlockLoad_releases [OF that _ _ ne, where fairness = Fair and again = True]) (use b w ne in simp_all)
  qed
qed

lemma Holding_releases:
  assumes i: "lock_inv a s" and b: "bucket_lock s = None" and w: "in_lock (pcs s t)" and ne: "u \<noteq> t" and p: "pcs s u = Holding"
  shows "can a (released t s) s"
proof -
  let ?s = "at_pc u (UnlockFastZero Unfair) s"
  have c: "begin_call a CallUnlock u s = Some ?s"
    by (simp add: p)
  have "can a (released t ?s) ?s"
    by (rule cas_releases [OF begin_call_inv [OF i c] _ _ ne]) (use b w ne in \<open>simp_all add: run_step_def bits_defs\<close>)
  then show ?thesis
    using ne by (intro can_call [OF c]) (simp add: released_def [abs_def])
qed

lemma to_Holding_releases:
  assumes i: "lock_inv a s" and b: "bucket_lock s = None" and w: "in_lock (pcs s t)" and ne: "u \<noteq> t"
    and st: "run_step a False False u s = Some (at_pc u Holding s)"
  shows "can a (released t s) s"
  by (rule owner_move [OF i st ne], rule Holding_releases [OF _ _ _ ne]) (use b w ne in simp_all)

text \<open>Wherever the owner is.\<close>

lemma awake_owner_releases:
  assumes i: "lock_inv a s" and b: "bucket_lock s = None" and w: "in_lock (pcs s t)" and ne: "u \<noteq> t" and h: "holder_pc (pcs s u)"
  shows "can a (released t s) s"
proof -
  have byte: "lock_byte s = 1 \<or> lock_byte s = 3"
    by (rule holder_byte [OF i, of u]) (simp add: owns_def h)
  have nb: "\<not> bucket_pc (pcs s u)"
    using bucket_free(1) [of a s u] i b by (simp add: lock_inv_def)
  show ?thesis
  proof (cases "pcs s u")
    case Holding
    show ?thesis
      by (rule Holding_releases [OF i b w ne Holding])
  next
    case SlowHandoff
    show ?thesis
      by (rule to_Holding_releases [OF i b w ne]) (use byte in \<open>auto simp: run_step_def SlowHandoff bits_defs\<close>)
  next
    case (TimedLast got)
    show ?thesis
      by (rule to_Holding_releases [OF i b w ne])
        (use byte TimedLast h in \<open>auto simp: run_step_def tryLockWithTimeout_result_def bits_defs\<close>)
  next
    case SafepointLoad
    show ?thesis
    proof (cases "lock_byte s = 1")
      case True
      show ?thesis
        by (rule to_Holding_releases [OF i b w ne]) (simp add: run_step_def SafepointLoad True bits_defs)
    next
      case False
      then have st: "run_step a False False u s = Some (at_pc u UnlockLoad s)"
        using byte by (simp add: run_step_def SafepointLoad bits_defs)
      show ?thesis
        by (rule owner_move [OF i st ne], rule UnlockLoad_releases [OF _ _ _ ne]) (use b w ne in simp_all)
    qed
  next
    case (UnlockFastZero fairness)
    show ?thesis
      by (rule cas_releases [OF i b w ne]) (simp add: run_step_def UnlockFastZero bits_defs)
  next
    case UnlockLoad
    show ?thesis
      by (rule UnlockLoad_releases [OF i b w ne UnlockLoad])
  next
    case (UnlockCAS v)
    then have v: "v = 1"
      using locals_at [OF i UnlockCAS] by simp
    have st: "run_step a False False u s = Some (cas_then u False 1 0 (after_unlock True) UnlockLoad s)"
      by (simp add: run_step_def UnlockCAS v bits_defs)
    show ?thesis
    proof (cases "lock_byte s = 1")
      case True
      show ?thesis
        by (rule owner_frees [OF i b w ne st True])
    next
      case False
      then have st: "run_step a False False u s = Some (at_pc u UnlockLoad s)"
        using st by (simp add: cas_then_def compareExchangeWeak_def)
      show ?thesis
        by (rule owner_move [OF i st ne], rule UnlockLoad_releases [OF _ _ _ ne]) (use b w ne in simp_all)
    qed
  next
    case (SlowUnlockLoad fairness again)
    show ?thesis
      by (rule SlowUnlockLoad_releases [OF i b w ne SlowUnlockLoad])
  next
    case (SlowUnlockCAS fairness again v)
    then have "v = 1"
      using locals_at [OF i SlowUnlockCAS] by simp
    then show ?thesis
      by (intro cas_releases [OF i b w ne]) (simp add: run_step_def SlowUnlockCAS bits_defs)
  next
    case (SlowUnpark fairness again)
    show ?thesis
      by (rule SlowUnpark_releases [OF i b w ne SlowUnpark])
  qed (use h nb in auto)
qed

lemma owner_releases:
  assumes i: "lock_inv a s" and b: "bucket_lock s = None" and w: "in_lock (pcs s t)" and ne: "u \<noteq> t" and o: "owns s u"
  shows "can a (released t s) s"
proof (cases "holder_pc (pcs s u)")
  case True
  show ?thesis
    by (rule awake_owner_releases [OF i b w ne True])
next
  case False
  then obtain n where p: "pcs s u = SlowParked n" and d: "token_of s u = DirectHandoff"
    using o by (cases "pcs s u") (auto simp: owns_def)
  have out: "u \<notin> set (parked s)"
    using i p d by (auto simp: lock_inv_def inv_queue_def)
  show ?thesis
  proof (rule can_then [OF can_inv [OF i wake_sleeper [OF i b p out]]])
    fix s' assume s': "lock_inv a s' \<and> lock_byte s' = lock_byte s \<and> parked s' = parked s \<and> bucket_lock s' = None \<and>
      pcs s' u = awake_pc (token_of s u) n \<and> (\<forall>v. v \<noteq> u \<and> wakes (pcs s v) \<noteq> Some u \<longrightarrow> pcs s' v = pcs s v)"
    then have t: "pcs s' t = pcs s t"
      using ne in_lock_no_waker [OF w] by auto
    have "can a (released t s') s'"
      by (rule awake_owner_releases [OF _ _ _ ne]) (use s' t w d in \<open>simp_all add: awake_pc_def\<close>)
    then show "can a (released t s) s'"
      using s' t by (simp add: released_def [abs_def])
  qed
qed

section \<open>Every thread that wants the lock can get it\<close>

abbreviation gets :: "park_address \<Rightarrow> thread_data \<Rightarrow> system \<Rightarrow> bool" where
  "gets a t \<equiv> can a (\<lambda>s'. pcs s' t = Holding)"

text \<open>A thread that does not sleep in the queue, while the lock is free, and what it leaves behind.\<close>

lemma free_gets:
  assumes i: "lock_inv a s" and b: "bucket_lock s = None" and free: "lock_byte s \<in> {0, 2}" and w: "in_lock (pcs s t)"
    and out: "t \<notin> set (parked s)"
  shows "can a (\<lambda>s'. pcs s' t = Holding \<and> parked s' = parked s \<and> bucket_lock s' = None \<and>
    (\<forall>v. v \<noteq> t \<and> wakes (pcs s v) \<noteq> Some t \<longrightarrow> pcs s' v = pcs s v)) s"
proof -
  have none: "\<not> owns s u" for u
    using holder_byte [OF i, of u] free by auto
  have nb: "\<not> bucket_pc (pcs s t)"
    using bucket_free(1) [of a s t] i b by (simp add: lock_inv_def)
  show ?thesis
  proof (cases "parked_pc (pcs s t)")
    case False
    have "locking_pc (pcs s t)"
      using w False nb none [of t] by (cases "pcs s t") (auto simp: owns_def)
    from locking_gets [OF i b free this] show ?thesis
      using b unfolding gets_lock_def can_def alone_def by fastforce
  next
    case True
    then obtain n where p: "pcs s t = SlowParked n"
      by (cases "pcs s t") auto
    have bg: "token_of s t = BargingOpportunity"
      using none [of t] p by (cases "token_of s t") (auto simp: owns_def)
    show ?thesis
    proof (rule can_then [OF wake_sleeper [OF i b p out]])
      fix s' :: system assume s': "lock_byte s' = lock_byte s \<and> parked s' = parked s \<and> bucket_lock s' = None \<and>
        pcs s' t = awake_pc (token_of s t) n \<and> (\<forall>v. v \<noteq> t \<and> wakes (pcs s v) \<noteq> Some t \<longrightarrow> pcs s' v = pcs s v)"
      then have "gets_lock a t s'"
        using free bg by (intro SlowLoad_gets [of _ _ n]) (simp_all add: awake_pc_def)
      then obtain s2 where "leads_to a s' s2" and s2: "alone t s' s2" "pcs s2 t = Holding"
        unfolding gets_lock_def by blast
      moreover have "pcs s2 v = pcs s v" if "v \<noteq> t \<and> wakes (pcs s v) \<noteq> Some t" for v
        using that s' s2(1) by (simp add: alone_def)
      moreover have "parked s2 = parked s" "bucket_lock s2 = None"
        using s' s2(1) by (simp_all add: alone_def)
      ultimately show "can a (\<lambda>s'. pcs s' t = Holding \<and> parked s' = parked s \<and> bucket_lock s' = None \<and>
          (\<forall>v. v \<noteq> t \<and> wakes (pcs s v) \<noteq> Some t \<longrightarrow> pcs s' v = pcs s v)) s'"
        unfolding can_def by (intro exI [of _ s2]) simp
    qed
  qed
qed

lemma eager_in_lock: "eager s u \<Longrightarrow> in_lock (pcs s u) \<and> wakes (pcs s u) = None"
  by (cases "pcs s u") (auto simp: eager_def)

lemma eager_out: "lock_inv a s \<Longrightarrow> eager s u \<Longrightarrow> u \<notin> set (parked s)"
  by (cases "pcs s u") (auto simp: eager_def lock_inv_def inv_queue_def)

text \<open>By induction on the length of the queue: its owner shortens it, or the thread takes the lock.\<close>

lemma unlocked_bucket_gets:
  assumes "lock_inv a s" "bucket_lock s = None" "in_lock (pcs s t)"
  shows "gets a t s"
  using assms
proof (induction "length (parked s)" arbitrary: s rule: less_induct)
  case less
  note i = less.prems(1) and b = less.prems(2) and w = less.prems(3)
  have owned: "gets a t s0" if j: "lock_inv a s0" and c: "bucket_lock s0 = None" "pcs s0 t = pcs s t" "parked s0 = parked s"
    and o: "owns s0 u" "u \<noteq> t" for s0 u
  proof (rule can_then [OF can_inv [OF j owner_releases [OF j c(1) _ o(2,1)]]])
    show "in_lock (pcs s0 t)"
      using c w by simp
    fix s1 assume s1: "lock_inv a s1 \<and> released t s0 s1"
    then have w1: "in_lock (pcs s1 t)"
      using c w by (simp add: released_def)
    show "gets a t s1"
    proof (cases "length (parked s1) < length (parked s)")
      case True
      then show ?thesis
        using s1 w1 by (intro less.hyps) (simp_all add: released_def)
    next
      case False
      then have f: "bucket_lock s1 = None" "lock_byte s1 \<in> {0, 2}" "t \<notin> set (parked s1)"
        using s1 c by (simp_all add: released_def)
      show ?thesis
        by (rule can_then [OF free_gets [OF conjunct1 [OF s1] f(1,2) w1 f(3)]]) (rule can_here, simp)
    qed
  qed
  show ?case
  proof (cases "\<exists>u. owns s u")
    case True
    then obtain u where o: "owns s u"
      by blast
    show ?thesis
    proof (cases "u = t")
      case False
      show ?thesis
        by (rule owned [OF i b refl refl o False])
    next
      case True
      have byte: "lock_byte s = 1 \<or> lock_byte s = 3"
        by (rule holder_byte [OF i o])
      have last: "gets a t s'" if "pcs s' t = SlowHandoff" "lock_byte s' = lock_byte s" for s'
        by (rule can_run [of a t s' "at_pc t Holding s'", OF _ can_here]) (use that byte in \<open>auto simp: run_step_def bits_defs\<close>)
      show ?thesis
      proof (cases "holder_pc (pcs s t)")
        case True
        then have "pcs s t = SlowHandoff"
          using w by (cases "pcs s t") auto
        then show ?thesis
          by (rule last) simp
      next
        case False
        then obtain n where p: "pcs s t = SlowParked n" and d: "token_of s t = DirectHandoff"
          using o True by (cases "pcs s t") (auto simp: owns_def)
        have out: "t \<notin> set (parked s)"
          using i p d by (auto simp: lock_inv_def inv_queue_def)
        show ?thesis
          by (rule can_then [OF wake_sleeper [OF i b p out]], rule last) (simp_all add: awake_pc_def d)
      qed
    qed
  next
    case False
    then have free: "lock_byte s \<in> {0, 2}"
      using i by (auto simp: lock_inv_def inv_owner_def)
    show ?thesis
    proof (cases "t \<in> set (parked s)")
      case False
      show ?thesis
        by (rule can_then [OF free_gets [OF i b free w False]]) (rule can_here, simp)
    next
      case True
      then have "waits a s t"
        by (rule in_lock_waits [OF i w])
      then obtain u where e: "eager s u"
        using i free by (auto simp: lock_inv_def inv_live_def)
      have ne: "u \<noteq> t"
        using eager_out [OF i e] True by blast
      show ?thesis
      proof (rule can_then [OF can_inv [OF i free_gets [OF i b free _ eager_out [OF i e]]]])
        show "in_lock (pcs s u)"
          using eager_in_lock [OF e] by blast
        fix s1 assume s1: "lock_inv a s1 \<and> pcs s1 u = Holding \<and> parked s1 = parked s \<and> bucket_lock s1 = None \<and>
          (\<forall>v. v \<noteq> u \<and> wakes (pcs s v) \<noteq> Some u \<longrightarrow> pcs s1 v = pcs s v)"
        then have "pcs s1 t = pcs s t"
          using ne in_lock_no_waker [OF w] by auto
        then show "gets a t s1"
          using s1 ne by (intro owned [of s1 u]) (auto simp: owns_def)
      qed
    qed
  qed
qed

text \<open>A thread with the lock of the bucket gives it back by itself.\<close>

lemma in_lock_keeps:
  assumes "lock_inv a s" "pcs s u = SlowValidate n v"
  shows "run_step a False False u s = Some (park_validate a u n v s)" "bucket_lock (park_validate a u n v s) = None"
    "in_lock (pcs (park_validate a u n v s) u)"
  using assms by (simp_all add: run_step_def park_validate_def)

lemma bucket_freed:
  assumes i: "lock_inv a s" and w: "in_lock (pcs s t)"
  shows "can a (\<lambda>s'. lock_inv a s' \<and> bucket_lock s' = None \<and> in_lock (pcs s' t)) s"
proof (cases "bucket_lock s")
  case None
  then show ?thesis
    using i w by (intro can_here) simp
next
  case (Some u)
  let ?P = "\<lambda>s'. bucket_lock s' = None \<and> in_lock (pcs s' t)"
  have bp: "bucket_pc (pcs s u)"
    using i Some by (simp add: lock_inv_def inv_queue_def)
  have clear: "can a ?P s'" if "pcs s' u = SlowClear f g r d 3" "lock_byte s' = 3" "u \<noteq> t" "pcs s' t = pcs s t" for s' f g r d
  proof (rule can_run [OF _ can_here])
    show "run_step a False False u s' =
        Some (unpark_finish u g BargingOpportunity d (s'\<lparr>lock_byte := cleared_value r 3\<rparr>))"
      using that by (simp add: run_step_def unpark_clear_def compareExchangeWeak_def)
    show "?P (unpark_finish u g BargingOpportunity d (s'\<lparr>lock_byte := cleared_value r 3\<rparr>))"
      using that w by (simp add: unpark_finish_def split: option.split)
  qed
  have "can a ?P s"
  proof (cases "pcs s u")
    case (SlowValidate n v)
    show ?thesis
      by (rule can_run [OF in_lock_keeps(1) [OF i SlowValidate] can_here])
        (use w in \<open>auto simp: park_validate_def\<close>)
  next
    case (SlowClear f g r d v)
    then have "u \<noteq> t" "v = 3" "lock_byte s = 3"
      using w locals_at [OF i SlowClear] by auto
    then show ?thesis
      using clear [of s f g r d] SlowClear by simp
  next
    case (SlowCallback f g r d)
    then have ne: "u \<noteq> t" and three: "lock_byte s = 3"
      using w locals_at [OF i SlowCallback] by auto
    have st: "run_step a False False u s = Some (unpark_callback u f g r d s)"
      by (simp add: run_step_def SlowCallback)
    show ?thesis
    proof (rule can_run [OF st], cases "didUnparkThread r \<and> (f = Fair \<or> timeToBeFair r)")
      case True
      then show "can a ?P (unpark_callback u f g r d s)"
        using ne w by (intro can_here) (simp add: unpark_callback_def unpark_finish_def split: option.split)
    next
      case False
      then have "unpark_callback u f g r d s = at_pc u (SlowClear f g r d 3) s"
        using three by (auto simp: unpark_callback_def)
      then show "can a ?P (unpark_callback u f g r d s)"
        using ne three by (simp add: clear)
    qed
  qed (use bp in auto)
  then show ?thesis
    by (rule can_inv [OF i])
qed

lemma in_lock_gets:
  assumes "lock_inv a s" "in_lock (pcs s t)"
  shows "\<exists>xs s'. run_schedule a xs s = Some s' \<and> pcs s' t = Holding"
proof -
  have "gets a t s"
    by (rule can_then [OF bucket_freed [OF assms]]) (blast intro: unlocked_bucket_gets)
  then show ?thesis
    using leads_schedule unfolding can_def by blast
qed

text \<open>And in every state some thread of the lock can move.\<close>

lemma in_lock_progress:
  assumes i: "lock_inv a s" and w: "in_lock (pcs s t)"
  shows "\<exists>u. pcs s u = Holding \<or> pcs s u \<notin> {Elsewhere, ElsewhereWoken} \<and> run_step a spurious fairTime u s \<noteq> None"
proof (cases "parked_pc (pcs s t)")
  case True
  then show ?thesis
    using parked_progress [OF i, of t spurious fairTime] by auto
next
  case False
  show ?thesis
  proof (cases "bucket_lock s")
    case None
    then show ?thesis
      using run_enabled [of s t a spurious fairTime] w False by (cases "pcs s t") (auto intro!: exI [of _ t])
  next
    case (Some b)
    then have "bucket_pc (pcs s b)"
      using i by (simp add: lock_inv_def inv_queue_def)
    then show ?thesis
      using bucket_enabled [of s b] by (intro exI [of _ b]) auto
  qed
qed

lemma in_lock_bit:
  assumes i: "lock_inv a s" and w: "in_lock (pcs s t)"
  shows "t \<in> set (parked s) \<longrightarrow> lock_byte s AND hasParkedBit \<noteq> 0 \<and> (lock_byte s AND isHeldBit \<noteq> 0 \<or> (\<exists>u. eager s u))"
proof
  assume t: "t \<in> set (parked s)"
  then obtain n where "pcs s t = SlowParked n"
    using i w by (cases "pcs s t") (auto simp: lock_inv_def inv_queue_def)
  then show "lock_byte s AND hasParkedBit \<noteq> 0 \<and> (lock_byte s AND isHeldBit \<noteq> 0 \<or> (\<exists>u. eager s u))"
    using waiting_has_bit [OF i _ t] by blast
qed

end
