(* ===== verification/ParkingTable.thy ===== *)
theory ParkingTable
  imports ParkingQueue
begin

text \<open>
  The growth of the table of buckets, \<open>ensureHashtableSize\<close> of \<open>WTF/wtf/ParkingLot.cpp\<close>: all threads are taken out and put
  into a larger table, with every bucket locked. The queue of every address stays what it was.
\<close>


section \<open>The table\<close>

text \<open>The queues of the buckets, by their index; a bucket that is not there is empty. The hash function is a parameter.\<close>

type_synonym hashtable = "thread_data list list"

definition maxLoadFactor :: u32 where "maxLoadFactor = 3"
definition growthFactor :: u32 where "growthFactor = 2"

definition bucket_index :: "(park_address \<Rightarrow> u32) \<Rightarrow> nat \<Rightarrow> park_address \<Rightarrow> nat" where
  "bucket_index hashAddress buckets address = unat (hashAddress address) mod buckets"

definition rehash_thread :: "(park_address \<Rightarrow> u32) \<Rightarrow> addresses \<Rightarrow> thread_data \<Rightarrow> hashtable \<Rightarrow> hashtable" where
  "rehash_thread hashAddress addresses threadData table =
     (let index = bucket_index hashAddress (length table) (the (addresses threadData))
      in table[index := table ! index @ [threadData]])"

text \<open>The buckets are emptied in the order of their pointers, which is \<open>order\<close>.\<close>

definition gather_threads :: "nat list \<Rightarrow> hashtable \<Rightarrow> thread_data list" where
  "gather_threads order table = concat (map ((!) table) order)"

text \<open>
  The outer \<open>None\<close> is the failed assertion. For sizes of 32 bits the quotient of doubles is at least 3 exactly when the size is
  at least three times the number of threads.
\<close>

definition ensureHashtableSize ::
  "(park_address \<Rightarrow> u32) \<Rightarrow> addresses \<Rightarrow> nat list \<Rightarrow> u32 \<Rightarrow> hashtable \<Rightarrow> hashtable option" where
  "ensureHashtableSize hashAddress addresses order numThreads table =
     (if unat maxLoadFactor * unat numThreads \<le> length table then Some table
      else
        let threadDatas = gather_threads order table;
            newSize = numThreads * growthFactor * maxLoadFactor in
        if unat newSize \<le> length table then None
        else Some (fold (rehash_thread hashAddress addresses) threadDatas (replicate (unat newSize) [])))"

section \<open>Growing keeps every queue\<close>

definition placed :: "(park_address \<Rightarrow> u32) \<Rightarrow> addresses \<Rightarrow> hashtable \<Rightarrow> bool" where
  "placed hashAddress addresses table \<longleftrightarrow>
     (\<forall>i < length table. \<forall>d \<in> set (table ! i).
        \<exists>a. addresses d = Some a \<and> bucket_index hashAddress (length table) a = i)"

definition address_queue :: "(park_address \<Rightarrow> u32) \<Rightarrow> addresses \<Rightarrow> hashtable \<Rightarrow> park_address \<Rightarrow> thread_data list" where
  "address_queue hashAddress addresses table a =
     filter (\<lambda>d. addresses d = Some a) (table ! bucket_index hashAddress (length table) a)"

lemma length_rehash [simp]: "length (fold (rehash_thread h addresses) ds table) = length table"
  by (induction ds arbitrary: table) (simp_all add: rehash_thread_def Let_def)

lemma nth_rehash:
  "i < length table \<Longrightarrow> fold (rehash_thread h addresses) ds table ! i =
    table ! i @ filter (\<lambda>d. bucket_index h (length table) (the (addresses d)) = i) ds"
  by (induction ds arbitrary: table) (auto simp: rehash_thread_def nth_list_update Let_def)

lemma gather_address:
  assumes "placed h addresses table" "distinct order" "set order \<subseteq> {..<length table}"
  shows "filter (\<lambda>d. addresses d = Some a) (gather_threads order table) =
    (if bucket_index h (length table) a \<in> set order then address_queue h addresses table a else [])"
  using assms(2,3)
proof (induction order)
  case (Cons i order)
  let ?i = "bucket_index h (length table) a"
  have other: "filter (\<lambda>d. addresses d = Some a) (table ! i) = []" if "i \<noteq> ?i"
    using assms(1) Cons.prems(2) that by (fastforce simp: placed_def filter_empty_conv)
  show ?case
    using Cons other by (cases "i = ?i") (auto simp: gather_threads_def address_queue_def)
qed (simp add: gather_threads_def)

lemma ensureHashtableSize_correct:
  assumes p: "placed h addresses table" and o: "distinct order" "set order = {..<length table}"
    and n: "0 < length table" "ensureHashtableSize h addresses order numThreads table = Some table'"
  shows "placed h addresses table' \<and> (\<forall>a. address_queue h addresses table' a = address_queue h addresses table a) \<and>
    length table \<le> length table'"
proof (cases "unat maxLoadFactor * unat numThreads \<le> length table")
  case True
  then show ?thesis
    using n p by (simp add: ensureHashtableSize_def)
next
  case False
  let ?n = "unat (numThreads * growthFactor * maxLoadFactor)" and ?ds = "gather_threads order table"
  have t: "length table < ?n" "table' = fold (rehash_thread h addresses) ?ds (replicate ?n [])"
    using n False by (auto simp: ensureHashtableSize_def Let_def split: if_splits)
  have r: "length table' = ?n" "i < ?n \<Longrightarrow> table' ! i = filter (\<lambda>d. bucket_index h ?n (the (addresses d)) = i) ?ds" for i
    using nth_rehash [of i "replicate ?n []" h addresses ?ds] t by auto
  have addr: "\<exists>a. addresses d = Some a" if "d \<in> set ?ds" for d
    using that p o(2) by (fastforce simp: gather_threads_def placed_def)
  have "placed h addresses table'"
    unfolding placed_def
  proof (intro allI impI ballI)
    fix i d
    assume i: "i < length table'" "d \<in> set (table' ! i)"
    then have "d \<in> set ?ds" "bucket_index h ?n (the (addresses d)) = i"
      using r by auto
    then show "\<exists>a. addresses d = Some a \<and> bucket_index h (length table') a = i"
      using addr r(1) by fastforce
  qed
  moreover have "address_queue h addresses table' a = address_queue h addresses table a" for a
  proof -
    let ?i = "bucket_index h ?n a"
    have i: "?i < ?n" "bucket_index h (length table) a < length table"
      using t(1) n(1) by (simp_all add: bucket_index_def)
    have "address_queue h addresses table' a = filter (\<lambda>d. addresses d = Some a) ?ds"
      unfolding address_queue_def r(1) r(2) [OF i(1)] filter_filter by (intro filter_cong) auto
    also have "\<dots> = address_queue h addresses table a"
      using gather_address [OF p o(1)] o(2) i(2) by simp
    finally show ?thesis .
  qed
  ultimately show ?thesis
    using t(1) r(1) by simp
qed

text \<open>The assertion fails only when the product does not fit in 32 bits.\<close>

lemma ensureHashtableSize_total:
  assumes "unat numThreads < 2 ^ 32 div 6"
  shows "ensureHashtableSize h addresses order numThreads table \<noteq> None"
proof -
  have "unat (numThreads * growthFactor * maxLoadFactor) = unat numThreads * 6"
    using assms iffD1 [OF unat_mult_lem, of numThreads 6] by (simp add: growthFactor_def maxLoadFactor_def mult.assoc)
  then show ?thesis
    by (auto simp: ensureHashtableSize_def Let_def maxLoadFactor_def)
qed

end
