(* ===== verification/RunnerWindow.thy ===== *)
theory RunnerWindow
  imports Prelude
begin

text \<open>
  The window of the Windows application, \<open>src/windows/runner\<close>: class \<open>Win32Window\<close> with its window procedure and its class
  registrar (\<open>win32_window.cpp\<close>), class \<open>FlutterWindow\<close> (\<open>flutter_window.cpp\<close>) and the message loop (\<open>main.cpp\<close>). The
  system calls back into the window procedure from \<open>DestroyWindow\<close>, \<open>CreateWindow\<close> and \<open>DefWindowProc\<close>; those three are
  parameters that transform the state, and every other call is an entry of the log. \<open>SetWindowPos\<close>, \<open>MoveWindow\<close> and
  \<open>SetFocus\<close> are log entries too: the messages they send are ordinary ones, whose handlers only add to the log.
\<close>


section \<open>Messages, calls and state\<close>

text \<open>A window handle is a number, an object of class \<open>Win32Window\<close> its address. A \<open>LONG\<close> is a 32-bit word.\<close>

type_synonym hwnd = nat
type_synonym address = nat
type_synonym long = "32 word"

record rect =
  rect_left :: long
  rect_top :: long
  rect_right :: long
  rect_bottom :: long

text \<open>The messages the handlers tell apart, with what they read of the parameters.\<close>

datatype message =
    WM_NCCREATE address
  | WM_DESTROY
  | WM_NCDESTROY
  | WM_DPICHANGED rect
  | WM_SIZE
  | WM_ACTIVATE
  | WM_DWMCOLORIZATIONCOLORCHANGED
  | WM_FONTCHANGE
  | WM_CLOSE
  | WM_OTHER nat

text \<open>The calls of the system and of the Flutter engine, as the log has them.\<close>

datatype api_call =
    RegisterClass
  | UnregisterClass
  | SetWindowLongPtr hwnd address
  | EnableNonClientDpiScaling hwnd
  | FreeLibrary
  | DestroyWindow hwnd
  | PostQuitMessage nat
  | SetWindowPos hwnd long long long long
  | MoveWindow hwnd long long long long
  | SetFocus hwnd
  | SetParent hwnd "hwnd option"
  | ShowWindow "hwnd option"
  | DwmSetWindowAttribute hwnd bool
  | DefWindowProc "hwnd option" message
  | RegisterPlugins
  | SetNextFrameCallback
  | ForceRedraw
  | ReloadSystemFonts

text \<open>The Flutter controller of a window: does it have an engine, and a view.\<close>

record view_controller =
  has_engine :: bool
  has_view :: bool

text \<open>The class whose virtual functions a call reaches: in the destructor of the base class the object is no longer a
  \<open>FlutterWindow\<close>.\<close>

datatype dynamic_class = Win32Window | FlutterWindow

record window =
  dynamic_class :: dynamic_class
  quit_on_close :: bool
  window_handle :: "hwnd option"
  child_content :: "hwnd option"
  flutter_controller :: "view_controller option"

text \<open>The state of the process: the two static variables, the objects, the user data of the windows that exist, which the
  system keeps for \<open>SetWindowLongPtr\<close>, and the log.\<close>

record runner =
  g_active_window_count :: int
  class_registered :: bool
  objects :: "address \<rightharpoonup> window"
  user_data :: "hwnd \<rightharpoonup> address"
  calls :: "api_call list"

text \<open>
  The system and the engine, code outside the repository: what they answer, and the calls that come back to the window
  procedure before they return. \<open>None\<close> is undefined behaviour (an access to an object that is gone, a null pointer).
\<close>

record win32 =
  api_DestroyWindow :: "hwnd \<Rightarrow> runner \<Rightarrow> runner option"
  api_CreateWindow :: "address \<Rightarrow> runner \<Rightarrow> (hwnd option \<times> runner) option"
  api_DefWindowProc :: "hwnd option \<Rightarrow> message \<Rightarrow> runner \<Rightarrow> (int \<times> runner) option"
  api_GetClientRect :: "hwnd option \<Rightarrow> runner \<Rightarrow> rect"
  api_RegGetValue :: "runner \<Rightarrow> u32 option"
  api_LoadLibrary :: "runner \<Rightarrow> bool"
  api_GetProcAddress :: "runner \<Rightarrow> bool"
  api_ShowWindow :: "hwnd option \<Rightarrow> runner \<Rightarrow> bool"
  api_FlutterViewController :: "long \<Rightarrow> long \<Rightarrow> runner \<Rightarrow> view_controller"
  api_GetNativeWindow :: "runner \<Rightarrow> hwnd"
  api_HandleTopLevelWindowProc :: "hwnd \<Rightarrow> message \<Rightarrow> runner \<Rightarrow> int option"

definition record_call :: "api_call \<Rightarrow> runner \<Rightarrow> runner" where
  "record_call c s = s\<lparr>calls := calls s @ [c]\<rparr>"

definition update_window :: "address \<Rightarrow> (window \<Rightarrow> window) \<Rightarrow> runner \<Rightarrow> runner" where
  "update_window this f s = s\<lparr>objects := (objects s)(this := map_option f (objects s this))\<rparr>"

section \<open>Window class and theme\<close>

definition EnableFullDpiSupportIfAvailable :: "win32 \<Rightarrow> hwnd \<Rightarrow> runner \<Rightarrow> runner" where
  "EnableFullDpiSupportIfAvailable w hwnd s =
     (if \<not> api_LoadLibrary w s then s
      else
        let s = (if api_GetProcAddress w s then record_call (EnableNonClientDpiScaling hwnd) s else s)
        in record_call FreeLibrary s)"

definition GetWindowClass :: "runner \<Rightarrow> runner" where
  "GetWindowClass s = (if \<not> class_registered s then (record_call RegisterClass s)\<lparr>class_registered := True\<rparr> else s)"

definition UnregisterWindowClass :: "runner \<Rightarrow> runner" where
  "UnregisterWindowClass s = (record_call UnregisterClass s)\<lparr>class_registered := False\<rparr>"

definition UpdateTheme :: "win32 \<Rightarrow> hwnd \<Rightarrow> runner \<Rightarrow> runner" where
  "UpdateTheme w window s =
     (case api_RegGetValue w s of
        None \<Rightarrow> s
      | Some light_mode \<Rightarrow> record_call (DwmSetWindowAttribute window (light_mode = 0)) s)"

section \<open>Destruction\<close>

definition FlutterWindow_OnDestroy :: "address \<Rightarrow> runner \<Rightarrow> runner" where
  "FlutterWindow_OnDestroy this s = update_window this (\<lambda>x. x\<lparr>flutter_controller := None\<rparr>) s"

definition OnDestroy :: "address \<Rightarrow> window \<Rightarrow> runner \<Rightarrow> runner" where
  "OnDestroy this x s =
     (case dynamic_class x of Win32Window \<Rightarrow> s | FlutterWindow \<Rightarrow> FlutterWindow_OnDestroy this s)"

definition Destroy :: "win32 \<Rightarrow> address \<Rightarrow> runner \<Rightarrow> runner option" where
  "Destroy w this s =
     (case objects s this of
        None \<Rightarrow> None
      | Some x \<Rightarrow>
          let s = OnDestroy this x s in
          case (case window_handle x of
                  None \<Rightarrow> Some s
                | Some h \<Rightarrow> map_option (update_window this (\<lambda>x. x\<lparr>window_handle := None\<rparr>)) (api_DestroyWindow w h s)) of
            None \<Rightarrow> None
          | Some s \<Rightarrow> Some (if g_active_window_count s = 0 then UnregisterWindowClass s else s))"

section \<open>Messages\<close>

definition GetClientArea :: "win32 \<Rightarrow> window \<Rightarrow> runner \<Rightarrow> rect" where
  "GetClientArea w x s = api_GetClientRect w (window_handle x) s"

definition GetHandle :: "window \<Rightarrow> hwnd option" where
  "GetHandle x = window_handle x"

definition Win32Window_MessageHandler :: "win32 \<Rightarrow> address \<Rightarrow> hwnd \<Rightarrow> message \<Rightarrow> runner \<Rightarrow> (int \<times> runner) option" where
  "Win32Window_MessageHandler w this hwnd message s =
     (case objects s this of
        None \<Rightarrow> None
      | Some x \<Rightarrow>
          (case message of
             WM_DESTROY \<Rightarrow>
               (case Destroy w this (update_window this (\<lambda>x. x\<lparr>window_handle := None\<rparr>) s) of
                  None \<Rightarrow> None
                | Some s \<Rightarrow>
                    map_option (\<lambda>x. (0, if quit_on_close x then record_call (PostQuitMessage 0) s else s)) (objects s this))
           | WM_DPICHANGED r \<Rightarrow>
               let newWidth = rect_right r - rect_left r; newHeight = rect_bottom r - rect_top r
               in Some (0, record_call (SetWindowPos hwnd (rect_left r) (rect_top r) newWidth newHeight) s)
           | WM_SIZE \<Rightarrow>
               let r = GetClientArea w x s
               in Some (0, case child_content x of
                             None \<Rightarrow> s
                           | Some child \<Rightarrow>
                               record_call (MoveWindow child (rect_left r) (rect_top r) (rect_right r - rect_left r)
                                 (rect_bottom r - rect_top r)) s)
           | WM_ACTIVATE \<Rightarrow> Some (0, case child_content x of None \<Rightarrow> s | Some child \<Rightarrow> record_call (SetFocus child) s)
           | WM_DWMCOLORIZATIONCOLORCHANGED \<Rightarrow> Some (0, UpdateTheme w hwnd s)
           | _ \<Rightarrow> api_DefWindowProc w (window_handle x) message s))"

definition FlutterWindow_MessageHandler :: "win32 \<Rightarrow> address \<Rightarrow> hwnd \<Rightarrow> message \<Rightarrow> runner \<Rightarrow> (int \<times> runner) option" where
  "FlutterWindow_MessageHandler w this hwnd message s =
     (case objects s this of
        None \<Rightarrow> None
      | Some x \<Rightarrow>
          (case (if flutter_controller x \<noteq> None then api_HandleTopLevelWindowProc w hwnd message s else None) of
             Some result \<Rightarrow> Some (result, s)
           | None \<Rightarrow>
               case (if message = WM_FONTCHANGE
                     then case flutter_controller x of
                            None \<Rightarrow> None
                          | Some c \<Rightarrow> if has_engine c then Some (record_call ReloadSystemFonts s) else None
                     else Some s) of
                 None \<Rightarrow> None
               | Some s \<Rightarrow> Win32Window_MessageHandler w this hwnd message s))"

definition MessageHandler :: "win32 \<Rightarrow> address \<Rightarrow> hwnd \<Rightarrow> message \<Rightarrow> runner \<Rightarrow> (int \<times> runner) option" where
  "MessageHandler w this hwnd message s =
     (case objects s this of
        None \<Rightarrow> None
      | Some x \<Rightarrow>
          (case dynamic_class x of
             Win32Window \<Rightarrow> Win32Window_MessageHandler w this hwnd message s
           | FlutterWindow \<Rightarrow> FlutterWindow_MessageHandler w this hwnd message s))"

definition GetThisFromHandle :: "hwnd \<Rightarrow> runner \<Rightarrow> address option" where
  "GetThisFromHandle window s = user_data s window"

definition WndProc :: "win32 \<Rightarrow> hwnd \<Rightarrow> message \<Rightarrow> runner \<Rightarrow> (int \<times> runner) option" where
  "WndProc w window message s =
     (case message of
        WM_NCCREATE that \<Rightarrow>
          let s = (record_call (SetWindowLongPtr window that) s)\<lparr>user_data := (user_data s)(window \<mapsto> that)\<rparr>;
              s = EnableFullDpiSupportIfAvailable w window s
          in (case objects s that of
                None \<Rightarrow> None
              | Some _ \<Rightarrow>
                  api_DefWindowProc w (Some window) message (update_window that (\<lambda>x. x\<lparr>window_handle := Some window\<rparr>) s))
      | _ \<Rightarrow>
          (case GetThisFromHandle window s of
             Some that \<Rightarrow> MessageHandler w that window message s
           | None \<Rightarrow> api_DefWindowProc w (Some window) message s))"

section \<open>Creation\<close>

definition Show :: "win32 \<Rightarrow> window \<Rightarrow> runner \<Rightarrow> bool \<times> runner" where
  "Show w x s = (api_ShowWindow w (window_handle x) s, record_call (ShowWindow (window_handle x)) s)"

definition SetChildContent :: "win32 \<Rightarrow> address \<Rightarrow> window \<Rightarrow> hwnd \<Rightarrow> runner \<Rightarrow> runner" where
  "SetChildContent w this x content s =
     (let s = update_window this (\<lambda>x. x\<lparr>child_content := Some content\<rparr>) s;
          s = record_call (SetParent content (window_handle x)) s;
          frame = GetClientArea w x s;
          s = record_call (MoveWindow content (rect_left frame) (rect_top frame) (rect_right frame - rect_left frame)
                (rect_bottom frame - rect_top frame)) s
      in record_call (SetFocus content) s)"

definition FlutterWindow_OnCreate :: "win32 \<Rightarrow> address \<Rightarrow> window \<Rightarrow> runner \<Rightarrow> bool \<times> runner" where
  "FlutterWindow_OnCreate w this x s =
     (let frame = GetClientArea w x s;
          c = api_FlutterViewController w (rect_right frame - rect_left frame) (rect_bottom frame - rect_top frame) s;
          s = update_window this (\<lambda>x. x\<lparr>flutter_controller := Some c\<rparr>) s
      in if \<not> has_engine c \<or> \<not> has_view c then (False, s)
         else
           let s = record_call RegisterPlugins s;
               s = SetChildContent w this x (api_GetNativeWindow w s) s;
               s = record_call SetNextFrameCallback s
           in (True, record_call ForceRedraw s))"

definition OnCreate :: "win32 \<Rightarrow> address \<Rightarrow> window \<Rightarrow> runner \<Rightarrow> bool \<times> runner" where
  "OnCreate w this x s =
     (case dynamic_class x of Win32Window \<Rightarrow> (True, s) | FlutterWindow \<Rightarrow> FlutterWindow_OnCreate w this x s)"

definition Create :: "win32 \<Rightarrow> address \<Rightarrow> runner \<Rightarrow> (bool \<times> runner) option" where
  "Create w this s =
     (case Destroy w this s of
        None \<Rightarrow> None
      | Some s \<Rightarrow>
          let s = GetWindowClass s in
          case api_CreateWindow w this s of
            None \<Rightarrow> None
          | Some (None, s) \<Rightarrow> Some (False, s)
          | Some (Some window, s) \<Rightarrow>
              let s = UpdateTheme w window s in
              case objects s this of
                None \<Rightarrow> None
              | Some x \<Rightarrow> Some (OnCreate w this x s))"

definition SetQuitOnClose :: "address \<Rightarrow> bool \<Rightarrow> runner \<Rightarrow> runner" where
  "SetQuitOnClose this quit s = update_window this (\<lambda>x. x\<lparr>quit_on_close := quit\<rparr>) s"

section \<open>Objects and the main program\<close>

definition construct :: "dynamic_class \<Rightarrow> address \<Rightarrow> runner \<Rightarrow> runner" where
  "construct c this s =
     s\<lparr>g_active_window_count := g_active_window_count s + 1,
       objects := (objects s)(this \<mapsto>
         \<lparr>dynamic_class = c, quit_on_close = False, window_handle = None, child_content = None, flutter_controller = None\<rparr>)\<rparr>"

text \<open>\<open>~FlutterWindow\<close> destroys the controller, then the base destructor runs on what is now a \<open>Win32Window\<close>.\<close>

definition destruct :: "win32 \<Rightarrow> address \<Rightarrow> runner \<Rightarrow> runner option" where
  "destruct w this s =
     (let s = update_window this (\<lambda>x. x\<lparr>flutter_controller := None, dynamic_class := Win32Window\<rparr>) s;
          s = s\<lparr>g_active_window_count := g_active_window_count s - 1\<rparr>
      in map_option (\<lambda>s. s\<lparr>objects := (objects s)(this := None)\<rparr>) (Destroy w this s))"

text \<open>The message loop over what \<open>GetMessage\<close> returns, \<open>None\<close> for \<open>WM_QUIT\<close>; the result says whether the loop has
  ended. A message to a window that no longer exists is not dispatched.\<close>

fun message_loop :: "win32 \<Rightarrow> (hwnd \<times> message) option list \<Rightarrow> runner \<Rightarrow> (bool \<times> runner) option" where
  "message_loop w [] s = Some (False, s)"
| "message_loop w (None # es) s = Some (True, s)"
| "message_loop w (Some (h, m) # es) s =
     (if user_data s h = None then message_loop w es s
      else case WndProc w h m s of None \<Rightarrow> None | Some (_, s) \<Rightarrow> message_loop w es s)"

datatype exit_code = EXIT_SUCCESS | EXIT_FAILURE | STILL_RUNNING

definition wWinMain :: "win32 \<Rightarrow> address \<Rightarrow> (hwnd \<times> message) option list \<Rightarrow> runner \<Rightarrow> (exit_code \<times> runner) option" where
  "wWinMain w window messages s =
     (case Create w window (construct FlutterWindow window s) of
        None \<Rightarrow> None
      | Some (False, s) \<Rightarrow> map_option (Pair EXIT_FAILURE) (destruct w window s)
      | Some (True, s) \<Rightarrow>
          (case message_loop w messages (SetQuitOnClose window True s) of
             None \<Rightarrow> None
           | Some (False, s) \<Rightarrow> Some (STILL_RUNNING, s)
           | Some (True, s) \<Rightarrow> map_option (Pair EXIT_SUCCESS) (destruct w window s)))"

definition initial_runner :: runner where
  "initial_runner = \<lparr>g_active_window_count = 0, class_registered = False, objects = Map.empty, user_data = Map.empty, calls = []\<rparr>"

end
