(* ===== verification/RunnerContract.thy ===== *)
theory RunnerContract
  imports RunnerWindow
begin

text \<open>
  What the documentation of the system promises about its calls, the states of the runner in which the objects, the count,
  the user data of the windows and the registration of the class agree, and the proof that every operation of the runner
  keeps them so. \<open>observe\<close> leaves of the log of a state only the calls that post \<open>WM_QUIT\<close>.
\<close>


section \<open>What the system promises\<close>

fun deliver :: "win32 \<Rightarrow> hwnd \<Rightarrow> message list \<Rightarrow> runner \<Rightarrow> runner option" where
  "deliver w h [] s = Some s"
| "deliver w h (m # ms) s = (case WndProc w h m s of None \<Rightarrow> None | Some (_, s) \<Rightarrow> deliver w h ms s)"

fun queued :: "message \<Rightarrow> bool" where
  "queued (WM_NCCREATE _) = False"
| "queued WM_DESTROY = False"
| "queued WM_NCDESTROY = False"
| "queued _ = True"

definition ordinary :: "message \<Rightarrow> bool" where
  "ordinary m = (queued m \<and> m \<noteq> WM_CLOSE \<and> m \<noteq> WM_FONTCHANGE)"

definition documented_DestroyWindow :: "win32 \<Rightarrow> bool" where
  "documented_DestroyWindow w =
     (\<forall>h s. user_data s h \<noteq> None \<longrightarrow>
        api_DestroyWindow w h s =
          map_option (\<lambda>s. record_call (DestroyWindow h) (s\<lparr>user_data := (user_data s)(h := None)\<rparr>))
            (deliver w h [WM_DESTROY, WM_NCDESTROY] s))"

definition documented_CreateWindow :: "win32 \<Rightarrow> bool" where
  "documented_CreateWindow w =
     (\<forall>a s. objects s a \<noteq> None \<longrightarrow>
        api_CreateWindow w a s = Some (None, s) \<or>
        (\<exists>h ms. user_data s h = None \<and> list_all ordinary ms \<and>
           (case deliver w h (WM_NCCREATE a # ms) s of
              None \<Rightarrow> api_CreateWindow w a s = None
            | Some t \<Rightarrow> api_CreateWindow w a s \<in> {Some (Some h, t), map_option (Pair None) (api_DestroyWindow w h t)})))"

definition documented_DefWindowProc :: "win32 \<Rightarrow> bool" where
  "documented_DefWindowProc w =
     ((\<forall>h m s. m \<noteq> WM_CLOSE \<longrightarrow> (\<exists>r. api_DefWindowProc w h m s = Some (r, record_call (DefWindowProc h m) s))) \<and>
      (\<forall>h s. user_data s h \<noteq> None \<longrightarrow>
         api_DefWindowProc w (Some h) WM_CLOSE s = map_option (Pair 0) (api_DestroyWindow w h s)))"

definition documented_win32 :: "win32 \<Rightarrow> bool" where
  "documented_win32 w =
     (documented_DestroyWindow w \<and> documented_CreateWindow w \<and> documented_DefWindowProc w \<and>
      (\<forall>h s. api_HandleTopLevelWindowProc w h WM_DESTROY s = None))"

section \<open>What can be seen of a state\<close>

definition observe :: "runner \<Rightarrow> runner" where
  "observe s = s\<lparr>calls := filter (\<lambda>c. c = PostQuitMessage 0) (calls s)\<rparr>"

lemma observe_fields [simp]:
  "g_active_window_count (observe s) = g_active_window_count s" "class_registered (observe s) = class_registered s"
  "objects (observe s) = objects s" "user_data (observe s) = user_data s"
  by (simp_all add: observe_def)

lemma observe_eqD:
  assumes "observe s = observe t"
  shows "g_active_window_count s = g_active_window_count t" "class_registered s = class_registered t"
    "objects s = objects t" "user_data s = user_data t"
  using assms by (metis observe_fields)+

lemma observe_record_call [simp]:
  "c \<noteq> PostQuitMessage 0 \<Longrightarrow> observe (record_call c s) = observe s"
  by (simp add: observe_def record_call_def)

lemma record_call_fields [simp]:
  "g_active_window_count (record_call c s) = g_active_window_count s" "class_registered (record_call c s) = class_registered s"
  "objects (record_call c s) = objects s" "user_data (record_call c s) = user_data s"
  by (simp_all add: record_call_def)

lemma update_window_fields [simp]:
  "g_active_window_count (update_window a f s) = g_active_window_count s"
  "class_registered (update_window a f s) = class_registered s"
  "user_data (update_window a f s) = user_data s" "calls (update_window a f s) = calls s"
  "objects (update_window a f s) = (objects s)(a := map_option f (objects s a))"
  by (simp_all add: update_window_def)

lemma observe_update_window [simp]: "observe (update_window a f s) = update_window a f (observe s)"
  by (simp add: observe_def update_window_def)

lemma observe_UpdateTheme [simp]: "observe (UpdateTheme w h s) = observe s"
  by (simp add: UpdateTheme_def split: option.split)

lemma observe_EnableFullDpiSupportIfAvailable [simp]: "observe (EnableFullDpiSupportIfAvailable w h s) = observe s"
  by (simp add: EnableFullDpiSupportIfAvailable_def Let_def)

lemma objects_EnableFullDpiSupportIfAvailable [simp]: "objects (EnableFullDpiSupportIfAvailable w h s) = objects s"
  by (rule observe_eqD) simp

section \<open>Closed forms\<close>

definition closed_object :: "window \<Rightarrow> window" where
  "closed_object x =
     x\<lparr>window_handle := None,
       flutter_controller := (case dynamic_class x of Win32Window \<Rightarrow> flutter_controller x | FlutterWindow \<Rightarrow> None)\<rparr>"

definition window_closed :: "hwnd \<Rightarrow> address \<Rightarrow> window \<Rightarrow> runner \<Rightarrow> runner" where
  "window_closed h a x s =
     s\<lparr>class_registered := (class_registered s \<and> g_active_window_count s \<noteq> 0),
       objects := (objects s)(a \<mapsto> closed_object x),
       user_data := (user_data s)(h := None),
       calls := filter (\<lambda>c. c = PostQuitMessage 0) (calls s) @ (if quit_on_close x then [PostQuitMessage 0] else [])\<rparr>"

lemma DefWindowProc_logs:
  assumes "documented_win32 w" and "m \<noteq> WM_CLOSE"
  shows "\<exists>r. api_DefWindowProc w h m s = Some (r, record_call (DefWindowProc h m) s)"
  using assms by (auto simp: documented_win32_def documented_DefWindowProc_def)

lemma Destroy_without_window:
  assumes "objects s a = Some x" and "window_handle x = None"
  shows "Destroy w a s =
    Some (let s = OnDestroy a x s in if g_active_window_count s = 0 then UnregisterWindowClass s else s)"
  using assms by (simp add: Destroy_def Let_def)

lemma WM_DESTROY_handler:
  assumes w: "documented_win32 w" and x: "objects s a = Some x" and h: "user_data s h = Some a"
  shows "\<exists>t. WndProc w h WM_DESTROY s = Some (0, t) \<and>
    observe t = (window_closed h a x s)\<lparr>user_data := user_data s\<rparr>"
proof -
  have n: "api_HandleTopLevelWindowProc w h WM_DESTROY s = None"
    using w by (simp add: documented_win32_def)
  show ?thesis
    using x h n
    by (cases "dynamic_class x")
       (simp_all add: WndProc_def GetThisFromHandle_def MessageHandler_def Win32Window_MessageHandler_def
         FlutterWindow_MessageHandler_def Destroy_without_window OnDestroy_def FlutterWindow_OnDestroy_def
         UnregisterWindowClass_def record_call_def observe_def window_closed_def closed_object_def update_window_def Let_def)
qed

lemma observe_idem [simp]: "observe (observe s) = observe s"
  by (simp add: observe_def)

lemma observe_eq_quits: "observe s = observe t \<Longrightarrow> filter (\<lambda>c. c = PostQuitMessage 0) (calls s) = filter (\<lambda>c. c = PostQuitMessage 0) (calls t)"
  by (simp add: observe_def) (metis runner.select_convs(5) runner.surjective runner.update_convs(5))

lemma observe_user_data: "observe (s\<lparr>user_data := u\<rparr>) = (observe s)\<lparr>user_data := u\<rparr>"
  by (simp add: observe_def)

lemma DestroyWindow_closes:
  assumes w: "documented_win32 w" and x: "objects s a = Some x" and h: "user_data s h = Some a"
  shows "\<exists>t. api_DestroyWindow w h s = Some t \<and> observe t = window_closed h a x s"
proof -
  obtain t where t: "WndProc w h WM_DESTROY s = Some (0, t)"
    and ot: "observe t = (window_closed h a x s)\<lparr>user_data := user_data s\<rparr>"
    using WM_DESTROY_handler [OF w x h] by auto
  have f: "objects t = (objects s)(a \<mapsto> closed_object x)" "user_data t = user_data s"
    using arg_cong [OF ot, of objects] arg_cong [OF ot, of user_data] by (simp_all add: window_closed_def)
  have c: "flutter_controller (closed_object x) = None \<or> dynamic_class x = Win32Window"
    by (cases "dynamic_class x") (simp_all add: closed_object_def)
  have d: "dynamic_class (closed_object x) = dynamic_class x"
    by (simp add: closed_object_def)
  obtain r where r: "api_DefWindowProc w None WM_NCDESTROY t = Some (r, record_call (DefWindowProc None WM_NCDESTROY) t)"
    using DefWindowProc_logs [OF w, of WM_NCDESTROY None t] by auto
  have nc: "WndProc w h WM_NCDESTROY t = Some (r, record_call (DefWindowProc None WM_NCDESTROY) t)"
    using c r f h d
    by (cases "dynamic_class x") (auto simp: WndProc_def GetThisFromHandle_def MessageHandler_def
      Win32Window_MessageHandler_def FlutterWindow_MessageHandler_def closed_object_def)
  have "api_DestroyWindow w h s =
    map_option (\<lambda>s. record_call (DestroyWindow h) (s\<lparr>user_data := (user_data s)(h := None)\<rparr>))
      (deliver w h [WM_DESTROY, WM_NCDESTROY] s)"
    using w h unfolding documented_win32_def documented_DestroyWindow_def by simp
  also have "\<dots> = Some (record_call (DestroyWindow h)
      ((record_call (DefWindowProc None WM_NCDESTROY) t)\<lparr>user_data := (user_data t)(h := None)\<rparr>))"
    by (simp add: t nc)
  finally show ?thesis
    using f(2) by (simp add: ot observe_user_data) (simp add: window_closed_def)
qed

section \<open>Consistent states\<close>

definition consistent :: "runner \<Rightarrow> bool" where
  "consistent s =
     (finite (dom (objects s)) \<and>
      g_active_window_count s = int (card (dom (objects s))) \<and>
      (\<forall>h a. user_data s h = Some a \<longleftrightarrow> (\<exists>x. objects s a = Some x \<and> window_handle x = Some h)) \<and>
      (user_data s \<noteq> Map.empty \<longrightarrow> class_registered s) \<and>
      (objects s = Map.empty \<longrightarrow> \<not> class_registered s))"

lemma consistent_observe [simp]: "consistent (observe s) = consistent s"
  by (simp add: consistent_def)

lemma consistent_cong: "observe s = observe t \<Longrightarrow> consistent s \<longleftrightarrow> consistent t"
  by (metis consistent_observe)

lemma consistent_count: "consistent s \<Longrightarrow> objects s a = Some x \<Longrightarrow> g_active_window_count s \<noteq> 0"
  by (auto simp: consistent_def)

lemma consistent_userD:
  "consistent s \<Longrightarrow> user_data s h = Some a \<Longrightarrow> \<exists>x. objects s a = Some x \<and> window_handle x = Some h"
  by (simp add: consistent_def)

lemma consistent_handleD:
  "consistent s \<Longrightarrow> objects s a = Some x \<Longrightarrow> window_handle x = Some h \<Longrightarrow> user_data s h = Some a"
  by (simp add: consistent_def)

lemma consistent_registered: "consistent s \<Longrightarrow> user_data s h = Some a \<Longrightarrow> class_registered s"
  by (auto simp: consistent_def fun_eq_iff)

lemma consistentI:
  assumes "finite (dom (objects s))" and "g_active_window_count s = int (card (dom (objects s)))"
    and "\<And>h a. user_data s h = Some a \<longleftrightarrow> (\<exists>x. objects s a = Some x \<and> window_handle x = Some h)"
    and "user_data s \<noteq> Map.empty \<Longrightarrow> class_registered s" and "objects s = Map.empty \<Longrightarrow> \<not> class_registered s"
  shows "consistent s"
  unfolding consistent_def using assms by blast

lemma consistentD:
  assumes "consistent s"
  shows "finite (dom (objects s))" and "g_active_window_count s = int (card (dom (objects s)))"
    and "\<And>h a. user_data s h = Some a \<longleftrightarrow> (\<exists>x. objects s a = Some x \<and> window_handle x = Some h)"
    and "user_data s \<noteq> Map.empty \<Longrightarrow> class_registered s" and "objects s = Map.empty \<Longrightarrow> \<not> class_registered s"
  using assms unfolding consistent_def by blast+

lemma consistent_update:
  assumes s: "consistent s" and x: "objects s a = Some x" and f: "window_handle (f x) = window_handle x"
  shows "consistent (update_window a f s)"
proof (rule consistentI)
  fix h b
  show "user_data (update_window a f s) h = Some b \<longleftrightarrow>
      (\<exists>y. objects (update_window a f s) b = Some y \<and> window_handle y = Some h)"
    using consistentD(3) [OF s, of h b] x f by auto
qed (use consistentD [OF s] x insert_absorb [OF domI [of "objects s", OF x]] in \<open>simp_all\<close>)

lemma consistent_window_closed:
  assumes s: "consistent s" and x: "objects s a = Some x" and h: "window_handle x = Some h"
  shows "consistent (window_closed h a x s)"
proof (rule consistentI)
  have u: "user_data s h = Some a"
    by (rule consistent_handleD [OF s x h])
  show "user_data (window_closed h a x s) k = Some b \<longleftrightarrow>
      (\<exists>y. objects (window_closed h a x s) b = Some y \<and> window_handle y = Some k)" for k b
    using consistentD(3) [OF s, of k b] consistentD(3) [OF s, of h b] u x h
    by (auto simp: window_closed_def closed_object_def)
  have "user_data s \<noteq> Map.empty"
    using u by auto
  then show "class_registered (window_closed h a x s)"
    using consistentD(4) [OF s] consistent_count [OF s x] by (simp add: window_closed_def)
  show "\<not> class_registered (window_closed h a x s)" if "objects (window_closed h a x s) = Map.empty"
    using that by (simp add: window_closed_def)
qed (use consistentD [OF s] x insert_absorb [OF domI [of "objects s", OF x]] in \<open>simp_all add: window_closed_def\<close>)

lemma ordinary_step:
  assumes w: "documented_win32 w" and s: "consistent s" and h: "user_data s h \<noteq> None" and m: "ordinary m"
  shows "\<exists>r t. WndProc w h m s = Some (r, t) \<and> observe t = observe s"
proof -
  obtain a x where a: "user_data s h = Some a" and x: "objects s a = Some x" "window_handle x = Some h"
    using h consistent_userD [OF s] by blast
  have q: "queued m" and c: "m \<noteq> WM_CLOSE" and f: "m \<noteq> WM_FONTCHANGE"
    using m by (simp_all add: ordinary_def)
  obtain r where r: "api_DefWindowProc w (Some h) m s = Some (r, record_call (DefWindowProc (Some h) m) s)"
    using DefWindowProc_logs [OF w c] by blast
  have b: "\<exists>r t. Win32Window_MessageHandler w a h m s = Some (r, t) \<and> observe t = observe s"
    using x r c f q by (cases m) (auto simp: Win32Window_MessageHandler_def Let_def split: option.split)
  show ?thesis
  proof (cases "dynamic_class x")
    case Win32Window
    then show ?thesis
      using b a x q by (cases m) (auto simp: WndProc_def GetThisFromHandle_def MessageHandler_def)
  next
    case FlutterWindow
    then have "WndProc w h m s = FlutterWindow_MessageHandler w a h m s"
      using a x q by (cases m) (auto simp: WndProc_def GetThisFromHandle_def MessageHandler_def)
    with b f x show ?thesis
      by (auto simp: FlutterWindow_MessageHandler_def split: option.split)
  qed
qed

lemma deliver_ordinary:
  assumes w: "documented_win32 w" and "consistent s" and "user_data s h \<noteq> None" and "list_all ordinary ms"
  shows "\<exists>t. deliver w h ms s = Some t \<and> observe t = observe s"
  using assms(2-)
proof (induction ms arbitrary: s)
  case Nil
  then show ?case by simp
next
  case (Cons m ms)
  obtain r t where t: "WndProc w h m s = Some (r, t)" "observe t = observe s"
    using ordinary_step [OF w Cons.prems(1,2), of m] Cons.prems(3) by auto
  have "consistent t" "user_data t h \<noteq> None"
    using Cons.prems t consistent_cong [OF t(2)] observe_eqD(4) [OF t(2)] by auto
  from Cons.IH [OF this] Cons.prems(3) t show ?case
    by auto
qed

definition quits :: "runner \<Rightarrow> api_call list" where
  "quits s = filter (\<lambda>c. c = PostQuitMessage 0) (calls s)"

lemma quits_observe [simp]: "quits (observe s) = quits s"
  by (simp add: quits_def observe_def)

lemma quits_cong: "observe s = observe t \<Longrightarrow> quits s = quits t"
  by (metis quits_observe)

lemma quits_window_closed: "quits (window_closed h a x s) = quits s @ (if quit_on_close x then [PostQuitMessage 0] else [])"
  by (simp add: quits_def window_closed_def)

lemma closed_object_fields [simp]:
  "window_handle (closed_object x) = None" "dynamic_class (closed_object x) = dynamic_class x"
  "quit_on_close (closed_object x) = quit_on_close x" "child_content (closed_object x) = child_content x"
  by (simp_all add: closed_object_def)

definition destroyed :: "address \<Rightarrow> window \<Rightarrow> runner \<Rightarrow> runner" where
  "destroyed a x s =
     (case window_handle x of
        None \<Rightarrow>
          (observe s)\<lparr>class_registered := (class_registered s \<and> g_active_window_count s \<noteq> 0),
            objects := (objects s)(a \<mapsto> closed_object x)\<rparr>
      | Some h \<Rightarrow> window_closed h a x s)"

lemma Destroy_spec:
  assumes w: "documented_win32 w" and x: "objects s a = Some x"
    and h: "\<And>h. window_handle x = Some h \<Longrightarrow> user_data s h = Some a"
  shows "\<exists>t. Destroy w a s = Some t \<and> observe t = destroyed a x s"
proof (cases "window_handle x")
  case None
  have "x\<lparr>window_handle := None\<rparr> = x" "x\<lparr>window_handle := None, flutter_controller := None\<rparr> = x\<lparr>flutter_controller := None\<rparr>"
    using None by simp_all
  with None show ?thesis
    using x map_upd_triv [of "objects s", OF x] by (cases "dynamic_class x"; cases s) (auto simp: Destroy_without_window OnDestroy_def FlutterWindow_OnDestroy_def
      UnregisterWindowClass_def destroyed_def closed_object_def observe_def record_call_def update_window_def Let_def)
next
  case (Some h)
  let ?s = "OnDestroy a x s"
  obtain y where y: "objects ?s a = Some y" "closed_object y = closed_object x" "quit_on_close y = quit_on_close x"
    using x by (cases "dynamic_class x") (auto simp: OnDestroy_def FlutterWindow_OnDestroy_def closed_object_def)
  have o: "window_closed h a y ?s = window_closed h a x s"
    using y x by (cases "dynamic_class x")
      (simp_all add: OnDestroy_def FlutterWindow_OnDestroy_def window_closed_def update_window_def)
  have "user_data ?s h = Some a"
    using assms(3) [OF Some] by (cases "dynamic_class x") (simp_all add: OnDestroy_def FlutterWindow_OnDestroy_def)
  from DestroyWindow_closes [OF w y(1) this] obtain t where
    t: "api_DestroyWindow w h ?s = Some t" "observe t = window_closed h a x s"
    using o by auto
  let ?t = "update_window a (\<lambda>x. x\<lparr>window_handle := None\<rparr>) t"
  have "objects t = (objects s)(a \<mapsto> closed_object x)"
    using arg_cong [OF t(2), of objects] by (simp add: window_closed_def)
  then have n: "?t = t"
    by (cases t; cases x) (simp add: update_window_def closed_object_def)
  have d: "Destroy w a s = Some (if g_active_window_count t = 0 then UnregisterWindowClass t else t)"
    using x Some t(1) n by (simp add: Destroy_def Let_def)
  have f: "g_active_window_count t = g_active_window_count s"
    "class_registered t = (class_registered s \<and> g_active_window_count s \<noteq> 0)"
    using arg_cong [OF t(2), of g_active_window_count] arg_cong [OF t(2), of class_registered]
    by (simp_all add: window_closed_def)
  have "observe (UnregisterWindowClass t) = (observe t)\<lparr>class_registered := False\<rparr>"
    by (simp add: UnregisterWindowClass_def observe_def record_call_def)
  then show ?thesis
    using d f t(2) Some by (auto simp: destroyed_def window_closed_def)
qed

lemma destroyed_fields:
  "objects (destroyed a x s) = (objects s)(a \<mapsto> closed_object x)"
  "g_active_window_count (destroyed a x s) = g_active_window_count s"
  "quits (destroyed a x s) = quits s @ (if quit_on_close x \<and> window_handle x \<noteq> None then [PostQuitMessage 0] else [])"
  by (auto simp: destroyed_def window_closed_def quits_def observe_def split: option.split)

lemma consistent_destroyed:
  assumes s: "consistent s" and x: "objects s a = Some x"
  shows "consistent (destroyed a x s)"
proof (cases "window_handle x")
  case None
  have "destroyed a x s = update_window a (\<lambda>_. closed_object x) (observe s)"
    using None consistent_count [OF s x] x by (simp add: destroyed_def update_window_def)
  then show ?thesis
    using consistent_update [of "observe s" a x "\<lambda>_. closed_object x"] s x None by simp
next
  case (Some h)
  then show ?thesis
    using consistent_window_closed [OF s x Some] by (simp add: destroyed_def)
qed

section \<open>Creation\<close>

definition window_opened :: "hwnd \<Rightarrow> address \<Rightarrow> runner \<Rightarrow> runner" where
  "window_opened h a s =
     update_window a (\<lambda>x. x\<lparr>window_handle := Some h\<rparr>) ((observe s)\<lparr>user_data := (user_data s)(h \<mapsto> a)\<rparr>)"

lemma WM_NCCREATE_handler:
  assumes w: "documented_win32 w" and x: "objects s a = Some x"
  shows "\<exists>r t. WndProc w h (WM_NCCREATE a) s = Some (r, t) \<and> observe t = window_opened h a s"
proof -
  let ?s = "(record_call (SetWindowLongPtr h a) s)\<lparr>user_data := (user_data s)(h \<mapsto> a)\<rparr>"
  let ?t = "update_window a (\<lambda>x. x\<lparr>window_handle := Some h\<rparr>) (EnableFullDpiSupportIfAvailable w h ?s)"
  obtain r where "api_DefWindowProc w (Some h) (WM_NCCREATE a) ?t =
      Some (r, record_call (DefWindowProc (Some h) (WM_NCCREATE a)) ?t)"
    using DefWindowProc_logs [OF w, of "WM_NCCREATE a" "Some h" ?t] by auto
  then show ?thesis
    using x by (auto simp: WndProc_def window_opened_def observe_user_data Let_def)
qed

lemma consistent_opened:
  assumes s: "consistent s" and x: "objects s a = Some x" and n: "window_handle x = None"
    and h: "user_data s h = None" and c: "class_registered s"
  shows "consistent (window_opened h a s)"
proof (rule consistentI)
  show "user_data (window_opened h a s) k = Some b \<longleftrightarrow>
      (\<exists>y. objects (window_opened h a s) b = Some y \<and> window_handle y = Some k)" for k b
    using consistentD(3) [OF s, of k b] consistentD(3) [OF s, of h b] x n h by (auto simp: window_opened_def)
qed (use consistentD [OF s] x c insert_absorb [OF domI [of "objects s", OF x]] in \<open>simp_all add: window_opened_def\<close>)

lemma consistent_GetWindowClass:
  assumes "consistent s" and "objects s a = Some x"
  shows "consistent (GetWindowClass s)" and "class_registered (GetWindowClass s)"
    and "objects (GetWindowClass s) = objects s" and "quits (GetWindowClass s) = quits s"
  using assms by (auto simp: GetWindowClass_def consistent_def quits_def record_call_def)

lemma OnCreate_spec:
  assumes s: "consistent s" and x: "objects s a = Some x"
  shows "\<exists>r t y. OnCreate w a x s = (r, t) \<and> consistent t \<and> objects t = (objects s)(a \<mapsto> y) \<and> quits t = quits s \<and>
    window_handle y = window_handle x \<and> quit_on_close y = quit_on_close x \<and> dynamic_class y = dynamic_class x \<and>
    (r \<longrightarrow> dynamic_class x = FlutterWindow \<longrightarrow> (\<exists>c. flutter_controller y = Some c \<and> has_engine c))"
proof (cases "dynamic_class x")
  case Win32Window
  then show ?thesis
    using s x by (auto simp: OnCreate_def intro!: exI [of _ x])
next
  case FlutterWindow
  let ?r = "GetClientArea w x s"
  let ?c = "api_FlutterViewController w (rect_right ?r - rect_left ?r) (rect_bottom ?r - rect_top ?r) s"
  let ?s = "update_window a (\<lambda>x. x\<lparr>flutter_controller := Some ?c\<rparr>) s"
  have c: "consistent ?s"
    by (rule consistent_update [OF s x]) simp
  show ?thesis
  proof (cases "has_engine ?c \<and> has_view ?c")
    case False
    then have "OnCreate w a x s = (False, ?s)"
      using FlutterWindow by (auto simp: OnCreate_def FlutterWindow_OnCreate_def Let_def)
    with c x show ?thesis
      by (intro exI [of _ False] exI [of _ ?s] exI [of _ "x\<lparr>flutter_controller := Some ?c\<rparr>"]) (simp add: quits_def)
  next
    case True
    let ?n = "api_GetNativeWindow w (record_call RegisterPlugins ?s)"
    let ?t = "update_window a (\<lambda>x. x\<lparr>child_content := Some ?n\<rparr>) ?s"
    obtain t where t: "OnCreate w a x s = (True, t)" "observe t = observe ?t"
      using FlutterWindow True
      by (simp add: OnCreate_def FlutterWindow_OnCreate_def SetChildContent_def Let_def del: update_window_fields)
    from t(2)
    moreover have "consistent ?t"
      using x by (auto intro: consistent_update [OF c])
    ultimately have "consistent t" "objects t = objects ?t" "quits t = quits ?t"
      using consistent_cong observe_eqD(3) quits_cong by blast+
    moreover have "quits ?t = quits s"
      by (simp add: quits_def)
    moreover have "objects ?t = (objects s)(a \<mapsto> x\<lparr>flutter_controller := Some ?c, child_content := Some ?n\<rparr>)"
      using x by simp
    ultimately have "consistent t" "quits t = quits s"
      "objects t = (objects s)(a \<mapsto> x\<lparr>flutter_controller := Some ?c, child_content := Some ?n\<rparr>)"
      by simp_all
    with t True show ?thesis
      by (intro exI [of _ True] exI [of _ t] exI [of _ "x\<lparr>flutter_controller := Some ?c, child_content := Some ?n\<rparr>"]) simp
  qed
qed

lemma OnCreate_keeps:
  assumes "consistent s" and "objects s a = Some x" and "OnCreate w a x s = (r, t)"
  shows "\<exists>y. consistent t \<and> objects t = (objects s)(a \<mapsto> y) \<and> quits t = quits s \<and>
    window_handle y = window_handle x \<and> quit_on_close y = quit_on_close x \<and> dynamic_class y = dynamic_class x \<and>
    (r \<longrightarrow> dynamic_class x = FlutterWindow \<longrightarrow> (\<exists>c. flutter_controller y = Some c \<and> has_engine c))"
  using OnCreate_spec [OF assms(1,2), of w] assms(3) by auto

lemma CreateWindow_spec:
  assumes w: "documented_win32 w" and s: "consistent s" and x: "objects s a = Some x" and n: "window_handle x = None"
    and c: "class_registered s"
  shows "\<exists>r t y. api_CreateWindow w a s = Some (r, t) \<and> consistent t \<and> objects t = (objects s)(a \<mapsto> y) \<and>
    window_handle y = r \<and> quit_on_close y = quit_on_close x \<and> dynamic_class y = dynamic_class x \<and>
    (quit_on_close x \<or> quits t = quits s)"
proof -
  have d: "documented_CreateWindow w"
    using w by (simp add: documented_win32_def)
  consider "api_CreateWindow w a s = Some (None, s)"
    | h ms where "user_data s h = None" and "list_all ordinary ms"
      and "case deliver w h (WM_NCCREATE a # ms) s of
          None \<Rightarrow> api_CreateWindow w a s = None
        | Some t \<Rightarrow> api_CreateWindow w a s \<in> {Some (Some h, t), map_option (Pair None) (api_DestroyWindow w h t)}"
    using d x unfolding documented_CreateWindow_def by blast
  then show ?thesis
  proof cases
    case 1
    then show ?thesis
      using s x n by (intro exI [of _ None] exI [of _ s] exI [of _ x]) (simp add: map_upd_triv)
  next
    case 2
    obtain r t where t: "WndProc w h (WM_NCCREATE a) s = Some (r, t)" and ot: "observe t = window_opened h a s"
      using WM_NCCREATE_handler [OF w x] by blast
    have f: "objects t = (objects s)(a \<mapsto> x\<lparr>window_handle := Some h\<rparr>)" "user_data t = (user_data s)(h \<mapsto> a)"
      using arg_cong [OF ot, of objects] arg_cong [OF ot, of user_data] x by (simp_all add: window_opened_def)
    have ct: "consistent t"
      using consistent_opened [OF s x n 2(1) c] ot by (metis consistent_observe)
    obtain u where u: "deliver w h ms t = Some u" and ou: "observe u = observe t"
      using deliver_ordinary [OF w ct _ 2(2), of h] f(2) by auto
    have "deliver w h (WM_NCCREATE a # ms) s = Some u"
      using t u by simp
    with 2(3) have r: "api_CreateWindow w a s \<in> {Some (Some h, u), map_option (Pair None) (api_DestroyWindow w h u)}"
      by simp
    have cu: "consistent u"
      using ct consistent_cong [OF ou] by simp
    have q: "quits u = quits s"
      using quits_cong [OF ou] arg_cong [OF ot, of quits] by (simp add: window_opened_def quits_def observe_def)
    have fu: "objects u = (objects s)(a \<mapsto> x\<lparr>window_handle := Some h\<rparr>)" "user_data u h = Some a"
      using f observe_eqD(3,4) [OF ou] by simp_all
    let ?y = "x\<lparr>window_handle := Some h\<rparr>"
    show ?thesis
    proof (cases "api_CreateWindow w a s = Some (Some h, u)")
      case True
      then show ?thesis
        using cu q fu by (intro exI [of _ "Some h"] exI [of _ u] exI [of _ ?y]) simp
    next
      case False
      obtain v where v: "api_DestroyWindow w h u = Some v" "observe v = window_closed h a ?y u"
        using DestroyWindow_closes [OF w, of u a ?y h] fu by auto
      have "consistent v"
        using consistent_window_closed [OF cu, of a ?y h] fu v(2) by (metis consistent_observe fun_upd_same window.select_convs(3) window.surjective window.update_convs(3))
      moreover have "objects v = (objects s)(a \<mapsto> closed_object ?y)"
        using arg_cong [OF v(2), of objects] fu by (simp add: window_closed_def)
      moreover have "quit_on_close x \<or> quits v = quits s"
        using arg_cong [OF v(2), of quits] q by (simp add: quits_window_closed)
      ultimately show ?thesis
        using r False v(1) by (intro exI [of _ None] exI [of _ v] exI [of _ "closed_object ?y"]) simp
    qed
  qed
qed

lemma Create_spec:
  assumes w: "documented_win32 w" and s: "consistent s" and x: "objects s a = Some x"
  shows "\<exists>r t y. Create w a s = Some (r, t) \<and> consistent t \<and> objects t = (objects s)(a \<mapsto> y) \<and>
    quit_on_close y = quit_on_close x \<and> dynamic_class y = dynamic_class x \<and>
    (quit_on_close x \<or> quits t = quits s) \<and>
    (r \<longrightarrow> window_handle y \<noteq> None) \<and>
    (r \<longrightarrow> dynamic_class x = FlutterWindow \<longrightarrow> (\<exists>c. flutter_controller y = Some c \<and> has_engine c))"
proof -
  obtain s1 where s1: "Destroy w a s = Some s1" and o1: "observe s1 = destroyed a x s"
    using Destroy_spec [OF w x consistent_handleD [OF s x]] by blast
  let ?x = "closed_object x"
  have c1: "consistent s1"
    using consistent_destroyed [OF s x] o1 by (metis consistent_observe)
  have f1: "objects s1 = (objects s)(a \<mapsto> ?x)" "quit_on_close x \<or> quits s1 = quits s"
    using arg_cong [OF o1, of objects] arg_cong [OF o1, of quits] by (auto simp: destroyed_fields)
  let ?s = "GetWindowClass s1"
  have g: "consistent ?s" "class_registered ?s" "objects ?s = objects s1" "quits ?s = quits s1"
    using consistent_GetWindowClass [OF c1, of a ?x] f1 by simp_all
  obtain r t y where cw: "api_CreateWindow w a ?s = Some (r, t)" and t: "consistent t" "objects t = (objects s)(a \<mapsto> y)"
    and y: "window_handle y = r" "quit_on_close y = quit_on_close x" "dynamic_class y = dynamic_class x"
    and q: "quit_on_close x \<or> quits t = quits s"
    using CreateWindow_spec [OF w g(1), of a ?x] g f1 by fastforce
  show ?thesis
  proof (cases r)
    case None
    then have "Create w a s = Some (False, t)"
      using s1 cw by (simp add: Create_def Let_def)
    then show ?thesis
      using t y q by (intro exI [of _ False] exI [of _ t] exI [of _ y]) simp
  next
    case (Some h)
    let ?t = "UpdateTheme w h t"
    have u: "consistent ?t" "objects ?t = objects t" "quits ?t = quits t"
      using t(1) consistent_cong [OF observe_UpdateTheme] observe_eqD(3) [OF observe_UpdateTheme]
        quits_cong [OF observe_UpdateTheme] by simp_all
    obtain b v where b: "OnCreate w a y ?t = (b, v)"
      by fastforce
    have "objects ?t a = Some y"
      using u t by simp
    from OnCreate_keeps [OF u(1) this b] obtain z where z: "consistent v" "objects v = (objects s)(a \<mapsto> z)"
      "quits v = quits t" "window_handle z = Some h" "quit_on_close z = quit_on_close y" "dynamic_class z = dynamic_class y"
      "b \<longrightarrow> dynamic_class y = FlutterWindow \<longrightarrow> (\<exists>c. flutter_controller z = Some c \<and> has_engine c)"
      using u t y Some by auto
    have "Create w a s = Some (b, v)"
      using s1 cw Some u t b by (simp add: Create_def Let_def)
    then show ?thesis
      using z y q by (intro exI [of _ b] exI [of _ v] exI [of _ z]) simp
  qed
qed

section \<open>Messages that close a window, and destructors\<close>

lemma observe_window_closedD:
  assumes "observe t = window_closed h a x s"
  shows "objects t = (objects s)(a \<mapsto> closed_object x)" and "user_data t = (user_data s)(h := None)"
    and "g_active_window_count t = g_active_window_count s"
    and "class_registered t = (class_registered s \<and> g_active_window_count s \<noteq> 0)"
    and "quits t = quits s @ (if quit_on_close x then [PostQuitMessage 0] else [])"
  using arg_cong [OF assms, of objects] arg_cong [OF assms, of user_data] arg_cong [OF assms, of g_active_window_count]
    arg_cong [OF assms, of class_registered] arg_cong [OF assms, of quits]
  by (simp_all add: quits_window_closed) (simp_all add: window_closed_def)

definition intercepted :: "win32 \<Rightarrow> hwnd \<Rightarrow> message \<Rightarrow> window \<Rightarrow> runner \<Rightarrow> bool" where
  "intercepted w h m x s =
     (dynamic_class x = FlutterWindow \<and> flutter_controller x \<noteq> None \<and> api_HandleTopLevelWindowProc w h m s \<noteq> None)"

lemma WM_CLOSE_step:
  assumes w: "documented_win32 w" and s: "consistent s" and x: "objects s a = Some x" and h: "window_handle x = Some h"
  shows "\<exists>r t. WndProc w h WM_CLOSE s = Some (r, t) \<and>
    observe t = (if intercepted w h WM_CLOSE x s then observe s else window_closed h a x s)"
proof -
  have u: "user_data s h = Some a"
    by (rule consistent_handleD [OF s x h])
  obtain t where t: "api_DestroyWindow w h s = Some t" "observe t = window_closed h a x s"
    using DestroyWindow_closes [OF w x u] by blast
  have "api_DefWindowProc w (Some h) WM_CLOSE s = Some (0, t)"
    using w u t by (simp add: documented_win32_def documented_DefWindowProc_def)
  then show ?thesis
    using x h u t
    by (cases "dynamic_class x") (auto simp: WndProc_def GetThisFromHandle_def MessageHandler_def intercepted_def
      FlutterWindow_MessageHandler_def Win32Window_MessageHandler_def split: option.split)
qed

lemma WM_FONTCHANGE_step:
  assumes w: "documented_win32 w" and s: "consistent s" and x: "objects s a = Some x" and h: "window_handle x = Some h"
    and c: "dynamic_class x = FlutterWindow \<Longrightarrow> \<exists>c. flutter_controller x = Some c \<and> has_engine c"
  shows "\<exists>r t. WndProc w h WM_FONTCHANGE s = Some (r, t) \<and> observe t = observe s"
proof -
  have u: "user_data s h = Some a"
    by (rule consistent_handleD [OF s x h])
  have "\<exists>r. api_DefWindowProc w (Some h) WM_FONTCHANGE t = Some (r, record_call (DefWindowProc (Some h) WM_FONTCHANGE) t)" for t
    using DefWindowProc_logs [OF w, of WM_FONTCHANGE "Some h" t] by simp
  then show ?thesis
    using x h u c
    by (cases "dynamic_class x") (fastforce simp: WndProc_def GetThisFromHandle_def MessageHandler_def
      FlutterWindow_MessageHandler_def Win32Window_MessageHandler_def split: option.split)+
qed

lemma destruct_spec:
  assumes w: "documented_win32 w" and s: "consistent s" and x: "objects s a = Some x"
  shows "\<exists>t. destruct w a s = Some t \<and> consistent t \<and> objects t = (objects s)(a := None) \<and>
    quits t = quits s @ (if quit_on_close x \<and> window_handle x \<noteq> None then [PostQuitMessage 0] else [])"
proof -
  let ?x = "x\<lparr>flutter_controller := None, dynamic_class := Win32Window\<rparr>"
  let ?s = "(update_window a (\<lambda>x. x\<lparr>flutter_controller := None, dynamic_class := Win32Window\<rparr>) s)
    \<lparr>g_active_window_count := g_active_window_count s - 1\<rparr>"
  have u: "user_data s h = Some a" if "window_handle x = Some h" for h
    by (rule consistent_handleD [OF s x that])
  obtain t where t: "Destroy w a ?s = Some t" "observe t = destroyed a ?x ?s"
    using Destroy_spec [OF w, of ?s a ?x] x u by auto
  let ?t = "t\<lparr>objects := (objects t)(a := None)\<rparr>"
  have d: "destruct w a s = Some ?t"
    using t(1) by (simp add: destruct_def Let_def update_window_def)
  have q: "quits ?t = quits s @ (if quit_on_close x \<and> window_handle x \<noteq> None then [PostQuitMessage 0] else [])"
    using arg_cong [OF t(2), of quits] by (simp add: destroyed_fields) (simp add: quits_def)
  have o: "objects ?t = (objects s)(a := None)"
    using arg_cong [OF t(2), of objects] by (simp add: destroyed_fields)
  have c: "g_active_window_count t = g_active_window_count s - 1"
    using arg_cong [OF t(2), of g_active_window_count] by (simp add: destroyed_fields)
  have ud: "user_data t = (case window_handle x of None \<Rightarrow> user_data s | Some h \<Rightarrow> (user_data s)(h := None))"
    using arg_cong [OF t(2), of user_data] by (simp add: destroyed_def window_closed_def split: option.splits)
  have cr: "class_registered t = (class_registered s \<and> g_active_window_count s \<noteq> 1)"
    using arg_cong [OF t(2), of class_registered] by (simp add: destroyed_def window_closed_def split: option.splits)
  have card: "int (card (dom (objects s) - {a})) = g_active_window_count s - 1"
    using consistentD(1,2) [OF s] domI [of "objects s", OF x] card_gt_0_iff [of "dom (objects s)"] by auto
  have ne: "objects s b \<noteq> None" if "b \<noteq> a" "objects ?t b = Some y" for b y
    using that o by simp
  have "consistent ?t"
  proof (rule consistentI)
    show "user_data ?t h = Some b \<longleftrightarrow> (\<exists>y. objects ?t b = Some y \<and> window_handle y = Some h)" for h b
      using consistentD(3) [OF s, of h b] consistentD(3) [OF s, of "the (window_handle x)" b] x u ud o
      by (auto split: option.splits if_splits)
    show "class_registered ?t" if n: "user_data ?t \<noteq> Map.empty"
    proof -
      obtain h b where hb: "user_data t h = Some b"
        using n by (auto simp: fun_eq_iff)
      then have sb: "user_data s h = Some b"
        using ud by (auto split: option.splits if_splits)
      obtain y where y: "objects s b = Some y" "window_handle y = Some h"
        using consistent_userD [OF s sb] by blast
      have "b \<noteq> a"
        using hb y x ud by (auto split: option.splits)
      then have "dom (objects s) - {a} \<noteq> {}"
        using y by auto
      then have "g_active_window_count s \<noteq> 1"
        using card consistentD(1) [OF s] by (metis card_0_eq diff_numeral_special(9) finite_Diff int_eq_iff_numeral of_nat_0_eq_iff)
      moreover have "class_registered s"
        by (rule consistent_registered [OF s sb])
      ultimately show ?thesis
        using cr by simp
    qed
    show "\<not> class_registered ?t" if "objects ?t = Map.empty"
    proof -
      have "dom (objects s) - {a} = {}"
        using that o by (metis dom_empty dom_fun_upd)
      with card have "int (card ({} :: address set)) = g_active_window_count s - 1"
        by (simp only:)
      then show ?thesis
        using cr by simp
    qed
    show "finite (dom (objects ?t))"
      using consistentD(1) [OF s] o by simp
    show "g_active_window_count ?t = int (card (dom (objects ?t)))"
      using o c card by simp
  qed
  then show ?thesis
    using d o q by blast
qed

lemma consistent_construct:
  assumes s: "consistent s" and n: "objects s a = None"
  shows "consistent (construct c a s)"
proof (rule consistentI)
  show "user_data (construct c a s) h = Some b \<longleftrightarrow>
      (\<exists>x. objects (construct c a s) b = Some x \<and> window_handle x = Some h)" for h b
    using consistentD(3) [OF s, of h b] n by (auto simp: construct_def)
qed (use consistentD [OF s] n in \<open>auto simp: construct_def card_insert_if\<close>)

section \<open>The transitions of the runner\<close>

inductive step :: "win32 \<Rightarrow> runner \<Rightarrow> runner \<Rightarrow> bool" for w where
  step_construct: "objects s a = None \<Longrightarrow> step w s (construct c a s)"
| step_Create: "objects s a \<noteq> None \<Longrightarrow> Create w a s = Some (r, t) \<Longrightarrow> step w s t"
| step_Show: "objects s a = Some x \<Longrightarrow> Show w x s = (r, t) \<Longrightarrow> step w s t"
| step_SetQuitOnClose: "objects s a \<noteq> None \<Longrightarrow> step w s (SetQuitOnClose a b s)"
| step_dispatch: "user_data s h \<noteq> None \<Longrightarrow> queued m \<Longrightarrow> WndProc w h m s = Some (r, t) \<Longrightarrow> step w s t"
| step_Destroy: "objects s a \<noteq> None \<Longrightarrow> Destroy w a s = Some t \<Longrightarrow> step w s t"
| step_destruct: "objects s a \<noteq> None \<Longrightarrow> destruct w a s = Some t \<Longrightarrow> step w s t"

inductive reachable :: "win32 \<Rightarrow> runner \<Rightarrow> bool" for w where
  reachable_initial: "reachable w initial_runner"
| reachable_step: "reachable w s \<Longrightarrow> step w s t \<Longrightarrow> reachable w t"

lemma consistent_initial: "consistent initial_runner"
  by (simp add: consistent_def initial_runner_def)

lemma WM_FONTCHANGE_result:
  assumes w: "documented_win32 w" and s: "consistent s" and x: "objects s a = Some x" and h: "window_handle x = Some h"
    and r: "WndProc w h WM_FONTCHANGE s = Some (r, t)"
  shows "observe t = observe s"
proof (cases "dynamic_class x = FlutterWindow \<and> (\<forall>c. flutter_controller x = Some c \<longrightarrow> \<not> has_engine c)")
  case False
  then have "\<exists>r t. WndProc w h WM_FONTCHANGE s = Some (r, t) \<and> observe t = observe s"
    using WM_FONTCHANGE_step [OF w s x h] by blast
  with r show ?thesis
    by simp
next
  case True
  have u: "user_data s h = Some a"
    by (rule consistent_handleD [OF s x h])
  have "FlutterWindow_MessageHandler w a h WM_FONTCHANGE s = Some (r, t)"
    using True r x u by (simp add: WndProc_def GetThisFromHandle_def MessageHandler_def)
  then have "t = s"
    using True x by (cases "flutter_controller x"; cases "api_HandleTopLevelWindowProc w h WM_FONTCHANGE s")
      (simp_all add: FlutterWindow_MessageHandler_def)
  then show ?thesis
    by simp
qed

lemma queued_step:
  assumes w: "documented_win32 w" and s: "consistent s" and x: "objects s a = Some x" and h: "window_handle x = Some h"
    and m: "queued m"
    and c: "m = WM_FONTCHANGE \<Longrightarrow> dynamic_class x = FlutterWindow \<Longrightarrow> \<exists>c. flutter_controller x = Some c \<and> has_engine c"
  shows "\<exists>r t. WndProc w h m s = Some (r, t) \<and>
    observe t = (if m = WM_CLOSE \<and> \<not> intercepted w h m x s then window_closed h a x s else observe s)"
proof -
  have u: "user_data s h \<noteq> None"
    using consistent_handleD [OF s x h] by simp
  consider "ordinary m" | "m = WM_CLOSE" | "m = WM_FONTCHANGE"
    using m by (auto simp: ordinary_def)
  then show ?thesis
  proof cases
    case 1
    then show ?thesis
      using ordinary_step [OF w s u 1] by (simp add: ordinary_def)
  next
    case 2
    then show ?thesis
      using WM_CLOSE_step [OF w s x h] by auto
  next
    case 3
    then show ?thesis
      using WM_FONTCHANGE_step [OF w s x h c] by simp
  qed
qed

lemma consistent_dispatch:
  assumes w: "documented_win32 w" and s: "consistent s" and h: "user_data s h \<noteq> None" and m: "queued m"
    and r: "WndProc w h m s = Some (r, t)"
  shows "consistent t"
proof -
  obtain a x where x: "objects s a = Some x" "window_handle x = Some h"
    using h consistent_userD [OF s] by blast
  consider "ordinary m" | "m = WM_CLOSE" | "m = WM_FONTCHANGE"
    using m by (auto simp: ordinary_def)
  then show ?thesis
  proof cases
    case 1
    have "observe t = observe s"
      using ordinary_step [OF w s h 1] r by auto
    with s show ?thesis
      using consistent_cong by blast
  next
    case 2
    have "observe t = observe s \<or> observe t = window_closed h a x s"
      using WM_CLOSE_step [OF w s x] r 2 by (auto split: if_splits)
    then show ?thesis
      using consistent_window_closed [OF s x] s by (metis consistent_observe)
  next
    case 3
    then have "observe t = observe s"
      using WM_FONTCHANGE_result [OF w s x] r by simp
    with s show ?thesis
      using consistent_cong by blast
  qed
qed

lemma consistent_step:
  assumes w: "documented_win32 w" and s: "consistent s" and t: "step w s t"
  shows "consistent t"
  using t
proof cases
  case (step_construct a c)
  then show ?thesis
    using consistent_construct [OF s] by simp
next
  case (step_Create a r)
  then show ?thesis
    using Create_spec [OF w s, of a] by auto
next
  case (step_Show a x r)
  have "observe t = observe s"
    using step_Show by (auto simp: Show_def)
  then show ?thesis
    using s consistent_cong by blast
next
  case (step_SetQuitOnClose a b)
  then show ?thesis
    using consistent_update [OF s] by (auto simp: SetQuitOnClose_def)
next
  case (step_dispatch h m r)
  then show ?thesis
    using consistent_dispatch [OF w s] by blast
next
  case (step_Destroy a)
  then obtain x where x: "objects s a = Some x"
    by auto
  show ?thesis
    using Destroy_spec [OF w x consistent_handleD [OF s x]] step_Destroy consistent_destroyed [OF s x]
    by (metis consistent_observe option.inject)
next
  case (step_destruct a)
  then show ?thesis
    using destruct_spec [OF w s, of a] by auto
qed

lemma consistent_reachable:
  assumes "documented_win32 w" and "reachable w s"
  shows "consistent s"
  using assms(2) by induction (auto intro: consistent_initial consistent_step [OF assms(1)])

end
