(* ===== verification/RunnerMain.thy ===== *)
theory RunnerMain
  imports RunnerContract
begin

text \<open>
  The main program: its states while the message loop runs, what it leaves behind, a concrete system that keeps the
  promises, and three runs of it that show how calls are ordered.
\<close>


section \<open>The main program\<close>

definition running :: "address \<Rightarrow> runner \<Rightarrow> bool" where
  "running a s =
     (consistent s \<and>
      (\<exists>x. objects s = [a \<mapsto> x] \<and> quit_on_close x \<and> dynamic_class x = FlutterWindow \<and>
         (window_handle x \<noteq> None \<longrightarrow> (\<exists>c. flutter_controller x = Some c \<and> has_engine c)) \<and>
         quits s = (if window_handle x = None then [PostQuitMessage 0] else [])))"

lemma running_observe [simp]: "running a (observe s) = running a s"
  by (simp add: running_def)

lemma running_cong: "observe s = observe t \<Longrightarrow> running a s \<longleftrightarrow> running a t"
  by (metis running_observe)

lemma running_dispatch:
  assumes w: "documented_win32 w" and s: "running a s" and h: "user_data s h \<noteq> None" and m: "queued m"
  shows "\<exists>r t. WndProc w h m s = Some (r, t) \<and> running a t"
proof -
  have cs: "consistent s"
    using s by (simp add: running_def)
  obtain x where o: "objects s = [a \<mapsto> x]" "quit_on_close x" "dynamic_class x = FlutterWindow" "window_handle x = Some h"
    "\<exists>c. flutter_controller x = Some c \<and> has_engine c" "quits s = []"
    using s h consistent_userD [OF cs] by (fastforce simp: running_def split: if_splits)
  have x: "objects s a = Some x"
    using o by simp
  have "\<exists>r t. WndProc w h m s = Some (r, t) \<and> (observe t = observe s \<or> observe t = window_closed h a x s)"
    using queued_step [OF w cs x o(4) m o(5)] by metis
  moreover have "running a (window_closed h a x s)"
    using consistent_window_closed [OF cs x o(4)] o
    by (auto simp: running_def quits_window_closed intro!: exI [of _ "closed_object x"]) (auto simp: window_closed_def)
  ultimately show ?thesis
    using s by (metis running_observe)
qed

lemma running_loop:
  assumes w: "documented_win32 w" and "running a s" and "\<forall>h m. Some (h, m) \<in> set es \<longrightarrow> queued m"
  shows "\<exists>t. message_loop w es s = Some (None \<in> set es, t) \<and> running a t"
  using assms(2,3)
proof (induction es arbitrary: s)
  case Nil
  then show ?case by simp
next
  case (Cons e es)
  show ?case
  proof (cases e)
    case None
    then show ?thesis
      using Cons.prems by simp
  next
    case (Some p)
    obtain h m where p: "p = (h, m)"
      by fastforce
    have q: "queued m" "\<forall>h m. Some (h, m) \<in> set es \<longrightarrow> queued m"
      using Cons.prems(2) Some p by auto
    show ?thesis
    proof (cases "user_data s h = None")
      case True
      then show ?thesis
        using Cons.IH [OF Cons.prems(1) q(2)] Some p by simp
    next
      case False
      obtain r t where t: "WndProc w h m s = Some (r, t)" "running a t"
        using running_dispatch [OF w Cons.prems(1) False q(1)] by blast
      show ?thesis
        using Cons.IH [OF t(2) q(2)] t(1) Some p False by (auto simp del: not_None_eq)
    qed
  qed
qed

definition clean :: "runner \<Rightarrow> bool" where
  "clean s = (objects s = Map.empty \<and> user_data s = Map.empty \<and> g_active_window_count s = 0 \<and> \<not> class_registered s)"

lemma consistent_clean:
  assumes s: "consistent s" and o: "objects s = Map.empty"
  shows "clean s"
proof -
  have "user_data s h = None" for h
    using consistentD(3) [OF s, of h] o by (cases "user_data s h") auto
  then show ?thesis
    using consistentD(2,5) [OF s] o by (auto simp: clean_def)
qed

lemma running_after_Create:
  assumes w: "documented_win32 w" and c: "Create w a (construct FlutterWindow a initial_runner) = Some (True, t)"
  shows "running a (SetQuitOnClose a True t)"
proof -
  let ?s = "construct FlutterWindow a initial_runner"
  let ?x = "\<lparr>dynamic_class = FlutterWindow, quit_on_close = False, window_handle = None, child_content = None,
    flutter_controller = None\<rparr>"
  have s: "consistent ?s" "objects ?s a = Some ?x" "objects ?s = [a \<mapsto> ?x]" "quits ?s = []"
    using consistent_construct [OF consistent_initial]
    by (simp_all add: construct_def initial_runner_def quits_def)
  obtain y where t: "consistent t" "objects t = [a \<mapsto> y]" "quits t = []" "dynamic_class y = FlutterWindow"
    "window_handle y \<noteq> None" "\<exists>c. flutter_controller y = Some c \<and> has_engine c"
    using Create_spec [OF w s(1,2)] c s by auto
  have "consistent (SetQuitOnClose a True t)"
    using consistent_update [OF t(1), of a y] t(2) by (simp add: SetQuitOnClose_def)
  then show ?thesis
    using t unfolding running_def
    by (intro conjI exI [of _ "y\<lparr>quit_on_close := True\<rparr>"]) (simp_all add: SetQuitOnClose_def quits_def)
qed

lemma wWinMain_result:
  assumes w: "documented_win32 w" and e: "\<forall>h m. Some (h, m) \<in> set es \<longrightarrow> queued m" and n: "None \<in> set es"
  shows "\<exists>code t. wWinMain w a es initial_runner = Some (code, t) \<and> clean t \<and>
    (code = EXIT_SUCCESS \<and> quits t = [PostQuitMessage 0] \<or> code = EXIT_FAILURE \<and> quits t = [])"
proof -
  let ?s = "construct FlutterWindow a initial_runner"
  let ?x = "\<lparr>dynamic_class = FlutterWindow, quit_on_close = False, window_handle = None, child_content = None,
    flutter_controller = None\<rparr>"
  have s: "consistent ?s" "objects ?s a = Some ?x" "objects ?s = [a \<mapsto> ?x]" "quits ?s = []"
    using consistent_construct [OF consistent_initial]
    by (simp_all add: construct_def initial_runner_def quits_def)
  obtain r t y where c: "Create w a ?s = Some (r, t)" "consistent t" "objects t = [a \<mapsto> y]" "quits t = []"
    "\<not> quit_on_close y"
    using Create_spec [OF w s(1,2)] s by auto
  show ?thesis
  proof (cases r)
    case True
    obtain u where u: "message_loop w es (SetQuitOnClose a True t) = Some (True, u)" "running a u"
      using running_loop [OF w running_after_Create [OF w] e] c n True by fastforce
    then obtain z where z: "consistent u" "objects u = [a \<mapsto> z]" "quit_on_close z"
      "quits u = (if window_handle z = None then [PostQuitMessage 0] else [])"
      by (auto simp: running_def)
    obtain v where "destruct w a u = Some v" "consistent v" "objects v = Map.empty" "quits v = [PostQuitMessage 0]"
      using destruct_spec [OF w z(1), of a z] z by (auto split: if_splits)
    then show ?thesis
      using c u True consistent_clean by (simp add: wWinMain_def)
  next
    case False
    obtain v where "destruct w a t = Some v" "consistent v" "objects v = Map.empty" "quits v = []"
      using destruct_spec [OF w c(2), of a y] c by auto
    then show ?thesis
      using c False consistent_clean by (simp add: wWinMain_def)
  qed
qed

section \<open>A system that keeps the promises\<close>

definition silent_win32 :: win32 where
  "silent_win32 =
     \<lparr>api_DestroyWindow = (\<lambda>h s. None),
      api_CreateWindow = (\<lambda>a s. Some (None, s)),
      api_DefWindowProc = (\<lambda>h m s. Some (0, record_call (DefWindowProc h m) s)),
      api_GetClientRect = (\<lambda>h s. \<lparr>rect_left = 0, rect_top = 0, rect_right = 1280, rect_bottom = 720\<rparr>),
      api_RegGetValue = (\<lambda>s. Some 0),
      api_LoadLibrary = (\<lambda>s. True),
      api_GetProcAddress = (\<lambda>s. True),
      api_ShowWindow = (\<lambda>h s. False),
      api_FlutterViewController = (\<lambda>x y s. \<lparr>has_engine = True, has_view = True\<rparr>),
      api_GetNativeWindow = (\<lambda>s. 200),
      api_HandleTopLevelWindowProc = (\<lambda>h m s. None)\<rparr>"

definition plain_DestroyWindow :: "hwnd \<Rightarrow> runner \<Rightarrow> runner option" where
  "plain_DestroyWindow h s =
     map_option (\<lambda>s. record_call (DestroyWindow h) (s\<lparr>user_data := (user_data s)(h := None)\<rparr>))
       (deliver silent_win32 h [WM_DESTROY, WM_NCDESTROY] s)"

definition plain_win32 :: win32 where
  "plain_win32 = silent_win32
     \<lparr>api_DestroyWindow := plain_DestroyWindow,
      api_CreateWindow := (\<lambda>a s.
        if user_data s 100 \<noteq> None then Some (None, s)
        else map_option (Pair (Some 100)) (deliver silent_win32 100 [WM_NCCREATE a, WM_SIZE] s)),
      api_DefWindowProc := (\<lambda>h m s.
        if m = WM_CLOSE then map_option (Pair 0) (case h of None \<Rightarrow> Some s | Some h \<Rightarrow> plain_DestroyWindow h s)
        else Some (0, record_call (DefWindowProc h m) s))\<rparr>"

lemma plain_WM_DESTROY:
  "WndProc plain_win32 h WM_DESTROY s = WndProc silent_win32 h WM_DESTROY s"
  by (simp add: WndProc_def GetThisFromHandle_def MessageHandler_def FlutterWindow_MessageHandler_def
    Win32Window_MessageHandler_def Destroy_without_window plain_win32_def silent_win32_def
    split: option.split dynamic_class.split)

lemma plain_WndProc:
  assumes "m \<in> {WM_NCCREATE a, WM_NCDESTROY, WM_SIZE}"
  shows "WndProc plain_win32 h m s = WndProc silent_win32 h m s"
  using assms
  by (auto simp: WndProc_def GetThisFromHandle_def MessageHandler_def FlutterWindow_MessageHandler_def
    Win32Window_MessageHandler_def plain_win32_def silent_win32_def EnableFullDpiSupportIfAvailable_def
    GetClientArea_def split: option.split dynamic_class.split)

lemma documented_plain_win32: "documented_win32 plain_win32"
proof -
  have d: "deliver plain_win32 h [WM_DESTROY, WM_NCDESTROY] s = deliver silent_win32 h [WM_DESTROY, WM_NCDESTROY] s" for h s
    by (simp add: plain_WM_DESTROY plain_WndProc [of WM_NCDESTROY 0] split: option.split)
  have c: "deliver plain_win32 h [WM_NCCREATE a, WM_SIZE] s = deliver silent_win32 h [WM_NCCREATE a, WM_SIZE] s" for h a s
    by (simp add: plain_WndProc [of _ a] split: option.split)
  have "documented_DestroyWindow plain_win32"
    unfolding documented_DestroyWindow_def d by (simp add: plain_win32_def plain_DestroyWindow_def)
  moreover have "documented_CreateWindow plain_win32"
    unfolding documented_CreateWindow_def
  proof (intro allI impI)
    fix a s
    show "api_CreateWindow plain_win32 a s = Some (None, s) \<or>
        (\<exists>h ms. user_data s h = None \<and> list_all ordinary ms \<and>
           (case deliver plain_win32 h (WM_NCCREATE a # ms) s of
              None \<Rightarrow> api_CreateWindow plain_win32 a s = None
            | Some t \<Rightarrow> api_CreateWindow plain_win32 a s \<in>
                {Some (Some h, t), map_option (Pair None) (api_DestroyWindow plain_win32 h t)}))"
    proof (cases "user_data s 100 = None")
      case True
      then have p: "api_CreateWindow plain_win32 a s =
          map_option (Pair (Some 100)) (deliver plain_win32 100 [WM_NCCREATE a, WM_SIZE] s)"
        unfolding c by (simp add: plain_win32_def)
      have "case deliver plain_win32 100 [WM_NCCREATE a, WM_SIZE] s of
              None \<Rightarrow> api_CreateWindow plain_win32 a s = None
            | Some t \<Rightarrow> api_CreateWindow plain_win32 a s \<in>
                {Some (Some 100, t), map_option (Pair None) (api_DestroyWindow plain_win32 100 t)}"
        unfolding p by (cases "deliver plain_win32 100 [WM_NCCREATE a, WM_SIZE] s") simp_all
      then show ?thesis
        using True by (intro disjI2 exI [of _ 100] exI [of _ "[WM_SIZE]"]) (simp add: ordinary_def)
    next
      case False
      then show ?thesis
        by (simp add: plain_win32_def)
    qed
  qed
  moreover have "documented_DefWindowProc plain_win32"
    by (simp add: documented_DefWindowProc_def plain_win32_def)
  ultimately show ?thesis
    by (simp add: documented_win32_def) (simp add: plain_win32_def silent_win32_def)
qed

definition plain_created :: runner where
  "plain_created = SetQuitOnClose 10 True (snd (the (Create plain_win32 10 (construct FlutterWindow 10 initial_runner))))"

lemma plain_created_window:
  "objects plain_created 10 = Some
     \<lparr>dynamic_class = FlutterWindow, quit_on_close = True, window_handle = Some 100, child_content = Some 200,
      flutter_controller = Some \<lparr>has_engine = True, has_view = True\<rparr>\<rparr>"
  "quits plain_created = []"
  by code_simp+

lemma plain_created_reachable:
  "reachable plain_win32 plain_created" "dom (objects plain_created) = {10}"
proof -
  let ?s = "construct FlutterWindow 10 initial_runner"
  let ?x = "\<lparr>dynamic_class = FlutterWindow, quit_on_close = False, window_handle = None, child_content = None,
    flutter_controller = None\<rparr>"
  have o: "objects ?s = [10 \<mapsto> ?x]" and c: "consistent ?s"
    using consistent_construct [OF consistent_initial] by (simp_all add: construct_def initial_runner_def)
  obtain r t y where t: "Create plain_win32 10 ?s = Some (r, t)" "objects t = [10 \<mapsto> y]"
    using Create_spec [OF documented_plain_win32 c, of 10 ?x] o by auto
  have "reachable plain_win32 ?s"
    by (rule reachable_step [OF reachable_initial step_construct]) (simp add: initial_runner_def)
  then have "reachable plain_win32 t"
    by (rule reachable_step [OF _ step_Create [OF _ t(1)]]) (simp add: o)
  then have "reachable plain_win32 (SetQuitOnClose 10 True t)"
    by (rule reachable_step [OF _ step_SetQuitOnClose]) (simp add: t(2))
  with t show "reachable plain_win32 plain_created" "dom (objects plain_created) = {10}"
    by (simp_all add: plain_created_def SetQuitOnClose_def)
qed

section \<open>An order the class registrar does not expect\<close>

text \<open>
  When the application quits with its window open, the destructor has already lowered the count of objects when
  \<open>DestroyWindow\<close> calls back: the handler of \<open>WM_DESTROY\<close> unregisters the class while the window still exists, and the
  destructor unregisters it a second time.
\<close>

lemma unregistered_while_open:
  "map_option (\<lambda>(code, t). (code, drop 12 (calls t))) (wWinMain plain_win32 10 [None] initial_runner) =
   Some (EXIT_SUCCESS, [UnregisterClass, PostQuitMessage 0, DefWindowProc None WM_NCDESTROY, DestroyWindow 100, UnregisterClass])"
  by code_simp

text \<open>A second \<open>Create\<close> of a window that quits on close posts \<open>WM_QUIT\<close>.\<close>

lemma create_again_quits:
  "map_option (\<lambda>(created, t). (created, quits t))
     (Option.bind (Create plain_win32 10 (construct FlutterWindow 10 initial_runner))
        (\<lambda>(_, s). Create plain_win32 10 (SetQuitOnClose 10 True s))) =
   Some (True, [PostQuitMessage 0])"
  by code_simp

text \<open>A font change that reaches a window whose engine could not be created dereferences a null pointer.\<close>

lemma font_change_without_engine:
  "Option.bind
     (Create (plain_win32\<lparr>api_FlutterViewController := (\<lambda>x y s. \<lparr>has_engine = False, has_view = True\<rparr>)\<rparr>) 10
        (construct FlutterWindow 10 initial_runner))
     (\<lambda>(created, s). if created then Some (0, s) else WndProc plain_win32 100 WM_FONTCHANGE s) = None"
  by code_simp

end
