(* ===== verification/RunnerUtils.thy ===== *)
theory RunnerUtils
  imports UnicodeStrings
begin

text \<open>
  The command line of the Windows application, \<open>src/windows/runner/utils.cpp\<close>: the conversion of a string of the system to
  UTF-8 and of all arguments. \<open>WideCharToMultiByte\<close> is a parameter; the interface \<open>wide_conversion\<close> is what is documented of it.
\<close>


section \<open>Strings\<close>

text \<open>
  \<open>WideCharToMultiByte\<close> with the flags the code passes: from the units of a string before its terminator, the number of units
  to convert (a signed 32-bit number; -1 is the whole string with its terminator) and the size of the destination to the number
  of bytes, 0 for a failure, and the bytes written.
\<close>

type_synonym wide_converter = "u16 list \<Rightarrow> u32 \<Rightarrow> u32 \<Rightarrow> u32 \<times> u8 list"

text \<open>\<open>std::string\<close> has a largest size; \<open>resize\<close> throws when the memory is not there (the outer \<open>None\<close>).\<close>

definition Utf8FromUtf16 :: "wide_converter \<Rightarrow> nat \<Rightarrow> (nat \<Rightarrow> bool) \<Rightarrow> u16 list option \<Rightarrow> u8 list option" where
  "Utf8FromUtf16 WideCharToMultiByte max_size can_allocate utf16_string =
     (case utf16_string of
        None \<Rightarrow> Some []
      | Some utf16_string \<Rightarrow>
          let target_length = fst (WideCharToMultiByte utf16_string (- 1) 0) - 1;
              input_length = of_nat (length utf16_string) :: u32 in
          if target_length = 0 \<or> unat target_length > max_size then Some []
          else if \<not> can_allocate (unat target_length) then None
          else
            let utf8_string = replicate (unat target_length) 0;
                (converted_length, written) = WideCharToMultiByte utf16_string input_length target_length;
                utf8_string = written @ drop (length written) utf8_string
            in if converted_length = 0 then Some [] else Some utf8_string)"

primrec convert_arguments :: "(u16 list option \<Rightarrow> u8 list option) \<Rightarrow> u16 list list \<Rightarrow> u8 list list option" where
  "convert_arguments convert [] = Some []"
| "convert_arguments convert (arg # args) =
     (case convert (Some arg) of
        None \<Rightarrow> None
      | Some converted \<Rightarrow> map_option ((#) converted) (convert_arguments convert args))"

text \<open>\<open>argv\<close> is what \<open>CommandLineToArgvW\<close> makes of the command line, null when it fails.\<close>

definition GetCommandLineArguments ::
  "wide_converter \<Rightarrow> nat \<Rightarrow> (nat \<Rightarrow> bool) \<Rightarrow> u16 list list option \<Rightarrow> u8 list list option" where
  "GetCommandLineArguments WideCharToMultiByte max_size can_allocate argv =
     (case argv of
        None \<Rightarrow> Some []
      | Some argv \<Rightarrow> convert_arguments (Utf8FromUtf16 WideCharToMultiByte max_size can_allocate) (drop 1 argv))"

section \<open>What the system documents\<close>

abbreviation utf8_of :: "u16 list \<Rightarrow> u8 list" where
  "utf8_of s \<equiv> utf8_encoding (scalars_of s)"

text \<open>
  The size that is needed, with the terminator, when no destination is given; the encoding when it fits; a failure on unpaired
  surrogates, which the flag \<open>WC_ERR_INVALID_CHARS\<close> asks for.
\<close>

locale wide_conversion =
  fixes W :: wide_converter
  assumes W_size: "well_formed_utf16 s \<Longrightarrow> length (utf8_of s) + 1 < 2 ^ 31 \<Longrightarrow> fst (W s (- 1) 0) = of_nat (length (utf8_of s) + 1)"
    and W_convert: "well_formed_utf16 s \<Longrightarrow> s \<noteq> [] \<Longrightarrow> length s < 2 ^ 31 \<Longrightarrow> 0 < unat room \<Longrightarrow> length (utf8_of s) \<le> unat room \<Longrightarrow>
      unat room < 2 ^ 31 \<Longrightarrow> W s (of_nat (length s)) room = (of_nat (length (utf8_of s)), utf8_of s)"
    and W_invalid: "\<not> well_formed_utf16 s \<Longrightarrow> fst (W s (- 1) 0) = 0"
      "\<not> well_formed_utf16 s \<Longrightarrow> length s < 2 ^ 31 \<Longrightarrow> fst (W s (of_nat (length s)) room) = 0"
begin

lemma units_shorter: "well_formed_utf16 s \<Longrightarrow> length s \<le> length (utf8_of s)"
  using utf16_shorter [of "scalars_of s"] by (simp add: well_formed_utf16_def)

lemma converts:
  assumes s: "well_formed_utf16 s" "length (utf8_of s) + 1 < 2 ^ 31"
    and m: "length (utf8_of s) \<le> max_size" "can_allocate (length (utf8_of s))"
  shows "Utf8FromUtf16 W max_size can_allocate (Some s) = Some (utf8_of s)"
proof (cases "s = []")
  case True
  then show ?thesis
    using W_size [OF s] by (simp add: Utf8FromUtf16_def utf8_encoding_def)
next
  case False
  let ?n = "length (utf8_of s)"
  have l: "length s < 2 ^ 31" "0 < ?n"
    using units_shorter [OF s(1)] s(2) False by (auto simp: Suc_le_eq)
  have t: "fst (W s (- 1) 0) - 1 = of_nat ?n"
    using W_size [OF s] by simp
  have u: "unat (of_nat ?n :: u32) = ?n"
    using s(2) by (simp add: unsigned_of_nat take_bit_nat_eq_self)
  have nz: "(of_nat ?n :: u32) \<noteq> 0"
    using u l(2) by (metis unat_0 less_irrefl)
  have c: "W s (of_nat (length s)) (of_nat ?n) = (of_nat ?n, utf8_of s)"
    by (rule W_convert [OF s(1) False l(1)]) (use u l s(2) in simp_all)
  show ?thesis
    unfolding Utf8FromUtf16_def Let_def option.case t u c using nz m by simp
qed

text \<open>The failure of the first call is taken for a length: the string is given four gigabytes before it is thrown away.\<close>

lemma invalid:
  assumes "\<not> well_formed_utf16 s" "length s < 2 ^ 31"
  shows "Utf8FromUtf16 W max_size can_allocate (Some s) =
    (if 2 ^ 32 - 1 \<le> max_size \<and> \<not> can_allocate (2 ^ 32 - 1) then None else Some [])"
proof -
  have t: "fst (W s (- 1) 0) - 1 = - 1" "unat (- 1 :: u32) = 2 ^ 32 - 1" "(- 1 :: u32) \<noteq> 0"
    using W_invalid(1) [OF assms(1)] by (simp_all add: unsigned_minus_1_eq_mask mask_eq_exp_minus_1)
  obtain w where w: "W s (of_nat (length s)) (- 1) = (0, w)"
    using W_invalid(2) [OF assms, of "- 1"] by (cases "W s (of_nat (length s)) (- 1)") simp
  show ?thesis
    unfolding Utf8FromUtf16_def Let_def option.case t(1,2) w using t(3) by (auto simp: not_le)
qed

lemma convert_all:
  assumes "\<forall>s \<in> set args. well_formed_utf16 s \<and> length (utf8_of s) + 1 < 2 ^ 31 \<and> length (utf8_of s) \<le> max_size \<and>
    can_allocate (length (utf8_of s))"
  shows "convert_arguments (Utf8FromUtf16 W max_size can_allocate) args = Some (map utf8_of args)"
  using assms by (induction args) (simp_all add: converts)

end

text \<open>A converter that keeps the contract, on the encoders of this development.\<close>

definition encoding_converter :: wide_converter where
  "encoding_converter s count room =
     (let units = (if count = - 1 then s @ [0] else take (unat count) s); bs = utf8_of units in
      if \<not> well_formed_utf16 units \<or> units = [] \<or> 2 ^ 31 \<le> length bs then (0, [])
      else if room = 0 then (of_nat (length bs), [])
      else if length bs \<le> unat room then (of_nat (length bs), bs) else (0, []))"

lemma scalars_of_snoc_zero: "scalars_of (s @ [0]) = scalars_of s @ [0]"
  by (induction s rule: scalars_of.induct) auto

lemma terminated:
  "well_formed_utf16 (s @ [0]) \<longleftrightarrow> well_formed_utf16 s" "length (utf8_of (s @ [0])) = length (utf8_of s) + 1"
  by (simp_all add: well_formed_utf16_def scalars_of_snoc_zero encoding_append utf8_encoding_def utf16_encoding_def utf16_units_def utf8_bytes_def)

interpretation encoding: wide_conversion encoding_converter
proof
  fix s :: "u16 list" and room :: u32
  have c: "(of_nat (length s) :: u32) \<noteq> - 1" "unat (of_nat (length s) :: u32) = length s" if "length s < 2 ^ 31"
  proof -
    show u: "unat (of_nat (length s) :: u32) = length s"
      using that by (simp add: unsigned_of_nat take_bit_nat_eq_self)
    have "unat (- 1 :: u32) = 2 ^ 32 - 1"
      by (simp add: unsigned_minus_1_eq_mask mask_eq_exp_minus_1)
    then show "(of_nat (length s) :: u32) \<noteq> - 1"
      using u that by (intro notI) simp
  qed
  show "well_formed_utf16 s \<Longrightarrow> length (utf8_of s) + 1 < 2 ^ 31 \<Longrightarrow>
      fst (encoding_converter s (- 1) 0) = of_nat (length (utf8_of s) + 1)"
    by (simp add: encoding_converter_def terminated)
  show "\<not> well_formed_utf16 s \<Longrightarrow> fst (encoding_converter s (- 1) 0) = 0"
    by (simp add: encoding_converter_def terminated)
  show "\<not> well_formed_utf16 s \<Longrightarrow> length s < 2 ^ 31 \<Longrightarrow> fst (encoding_converter s (of_nat (length s)) room) = 0"
    using c by (simp add: encoding_converter_def)
  show "encoding_converter s (of_nat (length s)) room = (of_nat (length (utf8_of s)), utf8_of s)"
    if "well_formed_utf16 s" "s \<noteq> []" "length s < 2 ^ 31" "0 < unat room" "length (utf8_of s) \<le> unat room" "unat room < 2 ^ 31"
  proof -
    have "room \<noteq> 0" "\<not> 2 ^ 31 \<le> length (utf8_of s)"
      using that(4-6) by (auto simp: unat_gt_0)
    with that c show ?thesis
      unfolding encoding_converter_def by (simp add: Let_def)
  qed
qed

end
