(* ===== verification/Spec2Isabelle.thy ===== *)
theory Spec2Isabelle
  imports BigIntDouble BigIntTyping StringHash CBORCodec Base64Decoder WebSocketFormat LockLiveness ParkingTable RunnerMain RunnerUtils
begin

text \<open>
  A verification development for this repository: a Flutter application, whose Windows host is the C++ program in
  \<open>src/windows/runner\<close>, and the tree of WebKitGTK 2.40.5 that it carries, \<open>src/webkitgtk-2.40.5/Source\<close>, of which parts
  of JavaScriptCore, WTF and WebCore are modelled. Paths below are relative to these two directories.

  \<^bold>\<open>Parts, and how they interact\<close>

  \<^item> The \<^emph>\<open>big integers\<close> of JavaScript, \<open>JavaScriptCore/runtime/JSBigInt.cpp\<close> and \<open>.h\<close>. A number is a heap cell with a sign
    and 64-bit digits, the least significant first; the interpreter calls the \<open>...Impl\<close> operators, which throw when a
    result has more than \<open>maxLength\<close> digits. Signed operators use the loops on magnitudes, those the routines on digits.
  \<^item> \<^emph>\<open>Unicode\<close>: the macros of ICU in \<open>WTF/icu/unicode\<close>, the conversions of \<open>WTF/wtf/unicode/UTF8Conversion.cpp\<close> and
    \<open>WTF/wtf/text/StringImpl.cpp\<close>, the hash of \<open>StringHasher.h\<close>. CBOR and the command line rest on their specifications.
  \<^item> \<^emph>\<open>Base64\<close>, \<open>WTF/wtf/text/Base64.cpp\<close> and \<open>.h\<close>.
  \<^item> The \<^emph>\<open>lock\<close> of WTF, \<open>WTF/wtf/Lock.cpp\<close> over \<open>LockAlgorithm.h\<close>, and the \<^emph>\<open>parking lot\<close> it sleeps in, \<open>ParkingLot.cpp\<close>.
  \<^item> \<^emph>\<open>CBOR\<close>, the encoding of authenticator messages, \<open>WebCore/Modules/webauthn/cbor\<close>: values, writer, reader.
  \<^item> The \<^emph>\<open>frames of WebSocket\<close>, \<open>WebCore/Modules/websockets/WebSocketFrame.cpp\<close>.
  \<^item> The \<^emph>\<open>Windows runner\<close>: the base class \<open>Win32Window\<close> with its window procedure, \<open>FlutterWindow\<close>, the main program, and
    the conversion of the command line.

  \<^bold>\<open>Conventions\<close>

  A function keeps the name of the source unless HOL uses it. Machine integers are words of their width, so arithmetic wraps
  as it does in the code; \<open>size_t\<close> has 64 bits. State is passed explicitly, and parameters by reference are results. A
  JavaScriptCore operation that may throw returns \<open>Inl\<close> of the error or \<open>Inr\<close> of its value, and \<open>andThen\<close> is
  \<open>RETURN_IF_EXCEPTION\<close>. Where a checked operation, an assertion of the release build or a write beyond a buffer ends the program or is undefined,
  the result is an outer \<open>None\<close>, so "returns \<open>Some\<close>" is a statement that this does not happen. Buffers and pointers into
  them are lists of what is there from the pointer on. Code that is not in the repository is a parameter: the hardware
  division (\<open>digit_divider\<close>), ICU's space separators, the calls of Windows (\<open>win32\<close>, \<open>wide_converter\<close>), the random masking
  key, the hash of addresses; what is documented of it is a hypothesis with a concrete instance beside it
  (\<open>documented_win32\<close> with \<open>plain_win32\<close>, \<open>wide_conversion\<close> with \<open>encoding_converter\<close>).

  \<^bold>\<open>Theories\<close>

  \<^item> \<open>Prelude\<close>: result type, word types, the contracts \<open>decodable\<close> and \<open>codec\<close> of an encoder and a decoder, which UTF-8, CBOR,
    Base64 and WebSocket frames interpret, and lemmas on words and lists. \<open>BigEndian\<close>: numbers in network order.
  \<^item> \<open>BigIntDigits\<close> (carry, borrow, high half, \<open>digitDiv\<close>), \<open>BigIntMagnitude\<close> (the cell, allocation, comparison, sums and
    differences of magnitudes), \<open>BigIntMultiply\<close>, \<open>BigIntDivision\<close> (Algorithm D), \<open>BigIntArith\<close> (signed operators),
    \<open>BigIntBitwise\<close>, \<open>BigIntShift\<close>, \<open>BigIntTruncate\<close> (\<open>asIntN\<close>, \<open>asUintN\<close>), \<open>BigIntToString\<close>, \<open>BigIntParse\<close>,
    \<open>BigIntDouble\<close>, \<open>BigIntTyping\<close>. The abstraction is \<open>bigint_val\<close>, the invariant of a cell \<open>canonical\<close>: no leading zero
    digit, no negative zero, at most \<open>maxLength\<close> digits. Each operator is proved to return the canonical cell of the exact
    result, with the exact condition under which it throws (for powers, a bound on the result). \<open>digit_divider\<close> is the contract of the division of two digits by
    one, which \<open>digitDiv\<close> meets; \<open>digitwise_op\<close> is the contract of the digitwise loops, met by and, or and xor. A double is
    its bit pattern, with the values of IEEE 754.
  \<^item> \<open>UnicodeMacros\<close> (one code point), \<open>UnicodeStrings\<close> (strings), \<open>StringHash\<close>. The reference is a list of scalar values
    with its two encodings.
  \<^item> \<open>Base64\<close> (the code), \<open>Base64Encoder\<close> and \<open>Base64Decoder\<close> (RFC 4648 over the bits of the input, and the refinement).
  \<^item> \<open>ParkingLot\<close> (links), \<open>ParkingQueue\<close> (the links refine a list; contract \<open>thread_queue\<close>), \<open>ParkingTable\<close> (growth of the
    table), \<open>LockAlgorithm\<close> (a step relation: a step is one access to shared memory, weak exchanges may fail, threads
    interleave at will), \<open>LockInvariant\<close> (the invariant, by induction over reachable states),
    \<open>LockLiveness\<close> (from every reachable state some schedule gives the lock to any thread that wants it; that a schedule is
    fair is not assumed, so nothing is said of every schedule).
  \<^item> \<open>StdMap\<close> (\<open>std::map\<close> as ordered entries, contract \<open>ordered_map\<close>), \<open>CBORValue\<close>, \<open>CBORWriter\<close>, \<open>CBORReader\<close>,
    \<open>CBORCodec\<close>. The reference is \<open>cbor_bytes\<close>, the shortest encoding of a value.
  \<^item> \<open>WebSockets\<close> (the code), \<open>WebSocketFormat\<close> (RFC 6455 as \<open>frame_bytes\<close>, and the proofs).
  \<^item> \<open>RunnerWindow\<close> (the code, over a state of objects, windows, class registration and a log of the calls to the system),
    \<open>RunnerContract\<close> (what the system promises, the consistent states, preservation), \<open>RunnerMain\<close> (whole runs),
    \<open>RunnerUtils\<close> (the command line).

  \<^bold>\<open>Bounds and fuel\<close>

  \<^item> \<open>maxLength\<close> is \<open>2^20 / 64 = 16384\<close> digits, as in the code; no theorem on big integers bounds the operands further, except that
    parsing is compared with the grammar up to \<open>2^18\<close> code units, where the estimate of the size cannot exceed \<open>maxLength\<close> in any radix.
  \<^item> The loops of the code are recursions on the data or on a counter and end; \<open>dequeue_loop\<close> alone is a
    \<open>partial_function\<close>, since a cyclic list would keep it running, and is proved to return on every queue.
  \<^item> CBOR nests at most 16 levels, the reader's own bound. Strings have at most \<open>StringImpl_MaxLength = 2^31 - 1\<close> units; \<open>utf8_limit\<close> is a third
    of it, up to which the buffer of a conversion to UTF-8 can be allocated.
  \<^item> \<open>encoder_limit\<close> for Base64: \<open>2^30 - 1\<close> bytes without padding, 3179391370 with, the limit the code tests.
  \<^item> A frame's payload is below \<open>2^63\<close> bytes, the parser's own bound.

  \<^bold>\<open>Properties\<close>

  The properties below are in the order of the parts: big integers (C1 to C16), Unicode, CBOR, the window and the command
  line, Base64, WebSocket frames, the lock and the parking lot, and the types of the operators on big integers. Where the
  code does not do what it means to, the property says what it does; a lemma of the part's theory does for smaller ones
  (\<open>equal_latin1_truncates\<close>, \<open>utf8_lenient_lone_lead\<close>, \<open>cbor_default_negative\<close>, \<open>cbor_float_zero\<close>,
  \<open>unregistered_while_open\<close>, \<open>font_change_without_engine\<close>, \<open>create_again_quits\<close>).

  \<^bold>\<open>Not modelled\<close>

  \<^item> Memory and its exhaustion, except the limits the code itself tests; lifetimes and the garbage collector.
  \<^item> Of big integers: the \<open>BigInt32\<close> overloads, which are compiled out, and the x86 instruction in \<open>digitDiv\<close>, for which
    \<open>digit_divider\<close> stands.
  \<^item> Of Unicode: the other operations of \<open>String\<close>, the output \<open>sourceAllASCII\<close>, variants for null-terminated arrays.
  \<^item> Of Base64: destinations of 16-bit units, which hold the same values.
  \<^item> Of the parking lot: the allocation of tables and buckets, \<open>forEach\<close>, the \<open>WordLock\<close> of a bucket and the condition
    variables of the system, which are taken as mutual exclusion and as a sleep that ends when it is ended. Of the lock: hooks
    other than the empty ones. Memory orders play no part, since the byte is one atomic object and the buckets have a lock.
  \<^item> Of the runner: position and size of the window (the scale factor is a double), texts of names and titles, the console,
    COM, and messages that the system sends from inside \<open>SetWindowPos\<close>, \<open>MoveWindow\<close> and \<open>SetFocus\<close>, whose handlers only add to the log.
  \<^item> The Linux runner and the Dart application: glue to GTK and Flutter.
  \<^item> The rest of the tree: the other parts of WTF, JavaScriptCore, WebCore and WebKit, \<open>bmalloc\<close> and the third-party code
    (ANGLE and others) are far more than one development holds.
\<close>
section \<open>Concrete numbers for the witnesses\<close>

definition bi :: "bool \<Rightarrow> digit list \<Rightarrow> js_bigint" where
  "bi s ds = \<lparr>m_sign = s, m_data = ds\<rparr>"

lemma bi_canonical: "length ds \<le> 3 \<Longrightarrow> ds \<noteq> [] \<Longrightarrow> last ds \<noteq> 0 \<Longrightarrow> canonical (bi s ds)"
  by (simp add: canonical_def trimmed_def bi_length_def bi_def maxLength_def maxLengthBits_def digitBits_def)

lemma bi_small: "length ds \<le> 3 \<Longrightarrow> bi_length (bi s ds) < maxLength"
  by (simp add: bi_length_def bi_def maxLength_def maxLengthBits_def digitBits_def)

lemma bi_val: "bigint_val (bi s ds) = with_sign s (dval ds)"
  by (simp add: bi_def bigint_val_def with_sign_def)

lemmas bi_facts = bi_canonical bi_small bi_val with_sign_def dbase_def

section \<open>Arithmetic of big integers\<close>

text \<open>C1: division and remainder never fail on a non-zero divisor and a dividend below the
  maximal length (or a one-digit divisor); the results are canonical, satisfy the division
  identity, the remainder is smaller than the divisor and has the sign of the dividend. This covers
  both paths: division by a digit and Knuth's Algorithm D.\<close>

theorem bigint_div_rem:
  assumes "canonical x" "canonical y" "bigint_val y \<noteq> 0" "bi_length x < maxLength \<or> bi_length y = 1"
  shows "\<exists>q r. divideImpl digitDiv x y = Inr q \<and> remainderImpl digitDiv x y = Inr r \<and> canonical q \<and> canonical r
    \<and> bigint_val x = bigint_val q * bigint_val y + bigint_val r \<and> \<bar>bigint_val r\<bar> < \<bar>bigint_val y\<bar>
    \<and> (bigint_val r = 0 \<or> (bigint_val r < 0 \<longleftrightarrow> bigint_val x < 0))"
proof -
  let ?x = "bigint_val x" and ?y = "bigint_val y"
  have "?x = ?x sdiv ?y * ?y + ?x smod ?y" by (simp add: sdiv_mult_smod_eq)
  moreover have m: "0 \<le> \<bar>?x\<bar> mod \<bar>?y\<bar>" "\<bar>?x\<bar> mod \<bar>?y\<bar> < \<bar>?y\<bar>"
    using assms(3) by (simp_all add: pos_mod_sign pos_mod_bound)
  have s: "?x smod ?y = sgn ?x * (\<bar>?x\<bar> mod \<bar>?y\<bar>)" by (simp add: signed_modulo_int_def)
  have "\<bar>?x smod ?y\<bar> < \<bar>?y\<bar>" "?x smod ?y = 0 \<or> (?x smod ?y < 0 \<longleftrightarrow> ?x < 0)"
    using m assms(3) unfolding s by (cases "?x" "0 :: int" rule: linorder_cases; simp; linarith)+
  ultimately show ?thesis
    using portable.divideImpl_correct [OF assms] portable.remainderImpl_correct [OF assms] by metis
qed

theorem bigint_div_rem_witness:
  "\<exists>q r. divideImpl digitDiv (bi True [7, 5, 9]) (bi False [3, 4]) = Inr q
    \<and> remainderImpl digitDiv (bi True [7, 5, 9]) (bi False [3, 4]) = Inr r \<and> canonical q \<and> canonical r
    \<and> bigint_val (bi True [7, 5, 9]) = bigint_val q * bigint_val (bi False [3, 4]) + bigint_val r
    \<and> \<bar>bigint_val r\<bar> < \<bar>bigint_val (bi False [3, 4])\<bar>
    \<and> (bigint_val r = 0 \<or> (bigint_val r < 0 \<longleftrightarrow> bigint_val (bi True [7, 5, 9]) < 0))"
  by (rule bigint_div_rem) (simp_all add: bi_facts)

text \<open>C2: division and remainder by zero throw a \<open>RangeError\<close>; a dividend of the maximal length
  divided by a divisor of two or more digits that is not larger throws an \<open>OutOfMemoryError\<close>, because
  the shifted copy of the dividend has one digit more.\<close>

theorem bigint_div_errors:
  assumes "canonical x" "canonical y"
    and "bigint_val y = 0 \<or> bi_length x = maxLength \<and> 2 \<le> bi_length y \<and> \<bar>bigint_val y\<bar> \<le> \<bar>bigint_val x\<bar>"
  shows "\<exists>e. divideImpl digitDiv x y = Inl e \<and> remainderImpl digitDiv x y = Inl e
    \<and> (if bigint_val y = 0 then e = RangeError else e = OutOfMemoryError)"
proof (cases "bigint_val y = 0")
  case True
  then show ?thesis using divideImpl_by_zero canonicalD(5) [OF assms(2)] by simp
next
  case False
  then show ?thesis
    using assms(3) divideImpl_max_length [OF assms(1,2)] canonical_compare [OF assms(1,2)] by (auto simp: int_compare_def)
qed

theorem bigint_div_errors_witness:
  "(\<exists>e. divideImpl digitDiv \<lparr>m_sign = False, m_data = replicate maxLength 1\<rparr> (bi True [0, 1]) = Inl e
    \<and> remainderImpl digitDiv \<lparr>m_sign = False, m_data = replicate maxLength 1\<rparr> (bi True [0, 1]) = Inl e
    \<and> (if bigint_val (bi True [0, 1]) = 0 then e = RangeError else e = OutOfMemoryError))"
proof (rule bigint_div_errors)
  let ?x = "\<lparr>m_sign = False, m_data = replicate maxLength (1 :: digit)\<rparr>"
  have m: "0 < maxLength" "1 < maxLength - 1"
    by (simp_all add: maxLength_def maxLengthBits_def digitBits_def)
  then show "canonical ?x" by (simp add: canonical_def trimmed_def bi_length_def)
  show "canonical (bi True [0, 1])" by (simp add: bi_canonical)
  have "dbase ^ (maxLength - 1) \<le> bigint_val ?x"
    using dval_last_ge [of "replicate maxLength 1"] m(1) by (simp add: bigint_val_def)
  moreover have "dbase ^ 1 < dbase ^ (maxLength - 1)" using m(2) by (intro power_strict_increasing) simp_all
  ultimately have "\<bar>bigint_val (bi True [0, 1])\<bar> \<le> \<bar>bigint_val ?x\<bar>" by (simp add: bi_val with_sign_def)
  moreover have "bi_length ?x = maxLength" "bi_length (bi True [0, 1]) = 2" by (simp_all add: bi_length_def bi_def)
  ultimately show "bigint_val (bi True [0, 1]) = 0 \<or> bi_length ?x = maxLength \<and> 2 \<le> bi_length (bi True [0, 1])
      \<and> \<bar>bigint_val (bi True [0, 1])\<bar> \<le> \<bar>bigint_val ?x\<bar>" by simp
qed

text \<open>C3: the product of canonical numbers is canonical and exact, and multiplication throws exactly
  when both operands are non-zero and have together more than \<open>maxLength\<close> digits.\<close>

theorem bigint_multiply:
  assumes "canonical x" "canonical y"
  shows "if bigint_val x \<noteq> 0 \<and> bigint_val y \<noteq> 0 \<and> maxLength < bi_length x + bi_length y
    then multiplyImpl x y = Inl OutOfMemoryError
    else \<exists>r. multiplyImpl x y = Inr r \<and> canonical r \<and> bigint_val r = bigint_val x * bigint_val y"
proof (cases "bi_length x + bi_length y \<le> maxLength")
  case True
  with multiplyImpl_correct [OF assms True] show ?thesis by force
next
  case False
  with multiplyImpl_error [of x y] canonicalD(5) [OF assms(1)] canonicalD(5) [OF assms(2)] assms show ?thesis
    by (auto simp: multiplyImpl_def)
qed

theorem bigint_multiply_witness:
  "if bigint_val (bi True [3, 9]) \<noteq> 0 \<and> bigint_val (bi False [5]) \<noteq> 0
      \<and> maxLength < bi_length (bi True [3, 9]) + bi_length (bi False [5])
    then multiplyImpl (bi True [3, 9]) (bi False [5]) = Inl OutOfMemoryError
    else \<exists>r. multiplyImpl (bi True [3, 9]) (bi False [5]) = Inr r \<and> canonical r
      \<and> bigint_val r = bigint_val (bi True [3, 9]) * bigint_val (bi False [5])"
  by (rule bigint_multiply) (simp_all add: bi_canonical)

text \<open>C4: the sum and the difference of canonical numbers are canonical and exact; addition throws exactly when two
  non-zero numbers of one sign are added and the longer one has the maximal length, subtraction exactly when two non-zero
  numbers of different signs are subtracted and the longer one has the maximal length.\<close>

theorem bigint_add_sub:
  assumes "canonical x" "canonical y"
  shows "(if bigint_val x \<noteq> 0 \<and> bigint_val y \<noteq> 0 \<and> m_sign x = m_sign y \<and> max (bi_length x) (bi_length y) = maxLength
     then addImpl x y = Inl OutOfMemoryError
     else \<exists>r. addImpl x y = Inr r \<and> canonical r \<and> bigint_val r = bigint_val x + bigint_val y) \<and>
    (if bigint_val x \<noteq> 0 \<and> bigint_val y \<noteq> 0 \<and> m_sign x \<noteq> m_sign y \<and> max (bi_length x) (bi_length y) = maxLength
     then subImpl x y = Inl OutOfMemoryError
     else \<exists>r. subImpl x y = Inr r \<and> canonical r \<and> bigint_val r = bigint_val x - bigint_val y)"
  using addImpl_exact [OF assms] subImpl_exact [OF assms] by blast

theorem bigint_add_sub_witness:
  "(\<exists>r. addImpl (bi False [- 1, - 1]) (bi False [1]) = Inr r \<and> canonical r
     \<and> bigint_val r = bigint_val (bi False [- 1, - 1]) + bigint_val (bi False [1]))
   \<and> (\<exists>r. subImpl (bi False [- 1, - 1]) (bi False [1]) = Inr r \<and> canonical r
     \<and> bigint_val r = bigint_val (bi False [- 1, - 1]) - bigint_val (bi False [1]))"
proof -
  let ?x = "bi False [- 1, - 1]" and ?y = "bi False [1]"
  have "canonical ?x" "canonical ?y"
    by (simp_all add: bi_canonical)
  note r = bigint_add_sub [OF this]
  have "max (bi_length ?x) (bi_length ?y) \<noteq> maxLength" "m_sign ?x = m_sign ?y"
    by (simp_all add: bi_def bi_length_def maxLength_def maxLengthBits_def digitBits_def)
  with r show ?thesis
    by (simp only: simp_thms if_True if_False)
qed

text \<open>C5: exponentiation throws a \<open>RangeError\<close> exactly for negative exponents; otherwise it returns the
  canonical exact power, or throws an \<open>OutOfMemoryError\<close>, which only happens when the power has at least
  \<open>maxLength\<close> digits. The binary exponentiation loop returns for every exponent.\<close>

theorem bigint_exponentiate:
  assumes "canonical x" "canonical e"
  shows "if bigint_val e < 0 then exponentiateImpl x e = Inl RangeError
    else (\<exists>r. exponentiateImpl x e = Inr r \<and> canonical r \<and> bigint_val r = bigint_val x ^ nat (bigint_val e))
      \<or> exponentiateImpl x e = Inl OutOfMemoryError \<and> dbase ^ (maxLength - 1) \<le> \<bar>bigint_val x\<bar> ^ nat (bigint_val e)"
proof (cases "bigint_val e < 0")
  case True
  then show ?thesis using canonicalD(6) [OF assms(2)] by (simp add: exponentiateImpl_def)
next
  case False
  show ?thesis
  proof (cases "exponentiateImpl x e")
    case (Inl err)
    with exponentiateImpl_Inl [OF assms Inl] False show ?thesis by simp
  next
    case (Inr r)
    with exponentiateImpl_Inr [OF assms Inr] False show ?thesis by simp
  qed
qed

theorem bigint_exponentiate_witness:
  "if bigint_val (bi False [3]) < 0 then exponentiateImpl (bi True [7]) (bi False [3]) = Inl RangeError
    else (\<exists>r. exponentiateImpl (bi True [7]) (bi False [3]) = Inr r \<and> canonical r
        \<and> bigint_val r = bigint_val (bi True [7]) ^ nat (bigint_val (bi False [3])))
      \<or> exponentiateImpl (bi True [7]) (bi False [3]) = Inl OutOfMemoryError
        \<and> dbase ^ (maxLength - 1) \<le> \<bar>bigint_val (bi True [7])\<bar> ^ nat (bigint_val (bi False [3]))"
  by (rule bigint_exponentiate) (simp_all add: bi_canonical)

text \<open>C6: the bitwise operators compute AND, OR and XOR of the infinite two's complement
  representations, in all four sign cases, with canonical results; only AND of two negative numbers and XOR of
  numbers of different signs throw, and only for an operand of the maximal length.\<close>

theorem bigint_bitwise:
  assumes "canonical x" "canonical y"
  shows "(if m_sign x \<and> m_sign y \<and> max (bi_length x) (bi_length y) = maxLength
      then bitwiseAndImpl x y = Inl OutOfMemoryError
      else \<exists>r. bitwiseAndImpl x y = Inr r \<and> canonical r \<and> bigint_val r = bigint_val x AND bigint_val y)
    \<and> (\<exists>r. bitwiseOrImpl x y = Inr r \<and> canonical r \<and> bigint_val r = bigint_val x OR bigint_val y)
    \<and> (if m_sign x \<noteq> m_sign y \<and> max (bi_length x) (bi_length y) = maxLength
      then bitwiseXorImpl x y = Inl OutOfMemoryError
      else \<exists>r. bitwiseXorImpl x y = Inr r \<and> canonical r \<and> bigint_val r = bigint_val x XOR bigint_val y)"
proof -
  have le: "max (bi_length x) (bi_length y) \<le> maxLength"
    using canonicalD(2) [OF assms(1)] canonicalD(2) [OF assms(2)] by simp
  show ?thesis
    using le bitwise_max_length [of x y] bitwiseAndImpl_correct [OF assms] bitwiseXorImpl_correct [OF assms]
      bitwiseOrImpl_correct [OF assms]
    by (cases "max (bi_length x) (bi_length y) = maxLength") (simp_all add: order_less_le)
qed

theorem bigint_bitwise_witness:
  "(if m_sign (bi True [6]) \<and> m_sign (bi False [0, 9]) \<and> max (bi_length (bi True [6])) (bi_length (bi False [0, 9])) = maxLength
      then bitwiseAndImpl (bi True [6]) (bi False [0, 9]) = Inl OutOfMemoryError
      else \<exists>r. bitwiseAndImpl (bi True [6]) (bi False [0, 9]) = Inr r \<and> canonical r
        \<and> bigint_val r = bigint_val (bi True [6]) AND bigint_val (bi False [0, 9]))
    \<and> (\<exists>r. bitwiseOrImpl (bi True [6]) (bi False [0, 9]) = Inr r \<and> canonical r
        \<and> bigint_val r = bigint_val (bi True [6]) OR bigint_val (bi False [0, 9]))
    \<and> (if m_sign (bi True [6]) \<noteq> m_sign (bi False [0, 9]) \<and> max (bi_length (bi True [6])) (bi_length (bi False [0, 9])) = maxLength
      then bitwiseXorImpl (bi True [6]) (bi False [0, 9]) = Inl OutOfMemoryError
      else \<exists>r. bitwiseXorImpl (bi True [6]) (bi False [0, 9]) = Inr r \<and> canonical r
        \<and> bigint_val r = bigint_val (bi True [6]) XOR bigint_val (bi False [0, 9]))"
  by (rule bigint_bitwise) (simp_all add: bi_canonical)

text \<open>C7: a left shift multiplies by a power of two, a shift by a negative amount floors towards minus infinity, and the
  shift throws exactly when the result does not fit in \<open>maxLength\<close> digits; the signed right shift is the left shift by the
  opposite amount, rounding negative numbers towards minus infinity.\<close>

theorem bigint_shifts:
  assumes "canonical x" "canonical y"
  shows "(if \<bar>shift_spec (bigint_val x) (bigint_val y)\<bar> < dbase ^ maxLength
     then \<exists>r. leftShiftImpl x y = Inr r \<and> canonical r \<and> bigint_val r = shift_spec (bigint_val x) (bigint_val y)
     else leftShiftImpl x y = Inl OutOfMemoryError) \<and>
    (if \<bar>shift_spec (bigint_val x) (- bigint_val y)\<bar> < dbase ^ maxLength
     then \<exists>r. signedRightShiftImpl x y = Inr r \<and> canonical r \<and> bigint_val r = shift_spec (bigint_val x) (- bigint_val y)
     else signedRightShiftImpl x y = Inl OutOfMemoryError)"
  by (rule conjI [OF leftShiftImpl_correct [OF assms] signedRightShiftImpl_correct [OF assms]])

theorem bigint_shifts_witness:
  "(if \<bar>shift_spec (bigint_val (bi True [5, 1])) (bigint_val (bi False [65]))\<bar> < dbase ^ maxLength
     then \<exists>r. leftShiftImpl (bi True [5, 1]) (bi False [65]) = Inr r \<and> canonical r
       \<and> bigint_val r = shift_spec (bigint_val (bi True [5, 1])) (bigint_val (bi False [65]))
     else leftShiftImpl (bi True [5, 1]) (bi False [65]) = Inl OutOfMemoryError) \<and>
    (if \<bar>shift_spec (bigint_val (bi True [5, 1])) (- bigint_val (bi False [65]))\<bar> < dbase ^ maxLength
     then \<exists>r. signedRightShiftImpl (bi True [5, 1]) (bi False [65]) = Inr r \<and> canonical r
       \<and> bigint_val r = shift_spec (bigint_val (bi True [5, 1])) (- bigint_val (bi False [65]))
     else signedRightShiftImpl (bi True [5, 1]) (bi False [65]) = Inl OutOfMemoryError)"
  by (rule bigint_shifts) (simp_all add: bi_canonical)

text \<open>C8: comparison and equality of canonical numbers are comparison and equality of their values, also
  against a 32-bit integer.\<close>

theorem bigint_compare:
  assumes "canonical x" "canonical y"
  shows "compareImpl x y = int_compare (bigint_val x) (bigint_val y) \<and> (equals x y \<longleftrightarrow> bigint_val x = bigint_val y)
    \<and> compare_int32_bigint v x = int_compare (sint v) (bigint_val x)
    \<and> compare_bigint_int32 x v = int_compare (bigint_val x) (sint v)"
  using compareImpl_correct [OF assms] canonical_inj [OF assms] compare_int32_correct [OF assms(1)]
  by (auto simp: equals_iff_eq)

theorem bigint_compare_witness:
  "compareImpl (bi True [3]) (bi False [0, 1]) = int_compare (bigint_val (bi True [3])) (bigint_val (bi False [0, 1]))
    \<and> (equals (bi True [3]) (bi False [0, 1]) \<longleftrightarrow> bigint_val (bi True [3]) = bigint_val (bi False [0, 1]))
    \<and> compare_int32_bigint (- 3) (bi True [3]) = int_compare (sint (- 3 :: 32 word)) (bigint_val (bi True [3]))
    \<and> compare_bigint_int32 (bi True [3]) (- 3) = int_compare (bigint_val (bi True [3])) (sint (- 3 :: 32 word))"
  by (rule bigint_compare) (simp_all add: bi_canonical)

text \<open>C9: \<open>BigInt.asIntN(n, x)\<close> never throws and is the signed value of the low \<open>n\<close> bits of the two's
  complement representation of \<open>x\<close>, in every sign case and for the minimum \<open>n\<close>-bit integer (\<open>n\<close> comes from
  \<open>ToIndex\<close>, hence is below \<open>2^53\<close>); \<open>BigInt.asUintN(n, x)\<close> is the value of the low \<open>n\<close> bits and throws exactly when \<open>x\<close>
  is negative and \<open>n\<close> exceeds \<open>maxLengthBits\<close>. The conversions to 64-bit integers keep the low 64 bits, read as an
  unsigned and as a signed number.\<close>

theorem bigint_as_n_bits:
  assumes "canonical x" "unat n < 2 ^ 63"
  shows "(\<exists>r. asIntNImpl n x = Inr r \<and> canonical r
      \<and> bigint_val r = (if n = 0 then 0 else signed_take_bit (unat n - 1) (bigint_val x))) \<and>
    (if bigint_val x < 0 \<and> maxLengthBits < unat n then asUintNImpl n x = Inl OutOfMemoryError
     else \<exists>r. asUintNImpl n x = Inr r \<and> canonical r \<and> bigint_val r = take_bit (unat n) (bigint_val x)) \<and>
    uint (toBigUInt64Heap x) = take_bit 64 (bigint_val x) \<and> sint (toBigInt64 x) = signed_take_bit 63 (bigint_val x)"
  using asIntNImpl_correct [OF assms] asUintNImpl_correct [OF assms] toBigUInt64Heap_correct [OF assms(1)] by simp

theorem bigint_as_n_bits_witness:
  "(\<exists>r. asIntNImpl 3 (bi True [12]) = Inr r \<and> canonical r
      \<and> bigint_val r = (if (3 :: 64 word) = 0 then 0 else signed_take_bit (unat (3 :: 64 word) - 1) (bigint_val (bi True [12])))) \<and>
    (if bigint_val (bi True [12]) < 0 \<and> maxLengthBits < unat (3 :: 64 word) then asUintNImpl 3 (bi True [12]) = Inl OutOfMemoryError
     else \<exists>r. asUintNImpl 3 (bi True [12]) = Inr r \<and> canonical r
       \<and> bigint_val r = take_bit (unat (3 :: 64 word)) (bigint_val (bi True [12]))) \<and>
    uint (toBigUInt64Heap (bi True [12])) = take_bit 64 (bigint_val (bi True [12])) \<and>
    sint (toBigInt64 (bi True [12])) = signed_take_bit 63 (bigint_val (bi True [12]))"
  by (rule bigint_as_n_bits) (simp_all add: bi_canonical)

text \<open>C10: \<open>toString(radix)\<close> of a big integer returns, for every radix from 2 to 36, a minus sign if the number is
  negative and then its digits without leading zeros. Both algorithms, the one for powers of two and the one that divides by
  chunks, are covered; the loops end and no error is raised.\<close>

theorem bigint_to_string:
  assumes "canonical x" "2 \<le> r" "r \<le> 36"
  shows "toString digitDiv x r = Some (Inr (string_in_radix r (bigint_val x)))"
  by (rule portable.toString_correct [OF assms])

theorem bigint_to_string_witness:
  "toString digitDiv (bi True [5, 7]) 10 = Some (Inr (string_in_radix 10 (bigint_val (bi True [5, 7]))))"
  by (rule bigint_to_string) (simp_all add: bi_canonical)

text \<open>C11: \<open>parseInt\<close> never crashes in its checked arithmetic and, on every string of at most \<open>2^18\<close> code units, agrees with
  the string-to-BigInt grammar of the language (white space at both ends, a radix prefix or a signed decimal number, the empty
  string for zero): it returns the canonical number, or fails as the mode asks for, with a syntax error or an empty value. The
  exceptions are the strings with no digit where the grammar wants one, a sign alone or a prefix before white space: the
  grammar has no value for them, and \<open>parseInt\<close> reads zero.\<close>

theorem bigint_parse:
  assumes "length s \<le> 2 ^ 18"
  shows "if empty_literal sp s
    then string_integer sp s = None \<and> parseInt sp s mode = Some (Inr (Some \<lparr>m_sign = False, m_data = []\<rparr>))
    else case string_integer sp s of
        None \<Rightarrow> parseInt sp s mode = Some (parse_failure mode)
      | Some v \<Rightarrow> \<exists>x. parseInt sp s mode = Some (Inr (Some x)) \<and> canonical x \<and> bigint_val x = v"
proof (cases "empty_literal sp s")
  case True
  then show ?thesis
    using parse_empty_literal [OF True] by simp
next
  case False
  then show ?thesis
    using parseInt_correct [OF assms False, of mode] by (simp add: answers_def returns_value_def split: option.splits)
qed

theorem bigint_parse_witness:
  "case string_integer (\<lambda>_. False) [32, 45, 49, 50, 10] of
      None \<Rightarrow> parseInt (\<lambda>_. False) [32, 45, 49, 50, 10] IgnoreExceptions = Some (parse_failure IgnoreExceptions)
    | Some v \<Rightarrow> \<exists>x. parseInt (\<lambda>_. False) [32, 45, 49, 50, 10] IgnoreExceptions = Some (Inr (Some x)) \<and> canonical x
        \<and> bigint_val x = v"
proof -
  have "\<not> empty_literal (\<lambda>_. False) [32, 45, 49, 50, 10]"
    by code_simp
  with bigint_parse [of "[32, 45, 49, 50, 10]" "\<lambda>_. False" IgnoreExceptions] show ?thesis
    by simp
qed

text \<open>C12: a number printed in decimal is parsed back to the same cell, when its decimal string has at most \<open>2^18\<close>
  characters.\<close>

theorem bigint_parse_print:
  assumes "canonical x" "toString digitDiv x 10 = Some (Inr s)" "length s \<le> 2 ^ 18"
  shows "stringToBigInt sp (map ucast s) = Some (Inr (Some x))"
  using portable.toString_correct [OF assms(1), of 10] parse_string_in_radix [OF assms(1)] assms(2,3)
  by (simp add: stringToBigInt_def)

theorem bigint_parse_print_witness:
  "stringToBigInt (\<lambda>_. False) (map ucast (string_in_radix 10 (- 1205))) = Some (Inr (Some (bi True [1205])))"
proof (rule bigint_parse_print)
  have "bigint_val (bi True [1205]) = - 1205" by (simp add: bi_facts)
  then show "toString digitDiv (bi True [1205]) 10 = Some (Inr (string_in_radix 10 (- 1205)))"
    using portable.toString_correct [of "bi True [1205]" 10] by (simp add: bi_canonical)
  show "length (string_in_radix 10 (- 1205)) \<le> 2 ^ 18" by (simp add: string_in_radix_def base_digits_step)
qed (simp add: bi_canonical)

text \<open>C13: a big integer made from a double that is an integer has exactly its value.\<close>

theorem bigint_from_double:
  assumes "integer_double d"
  shows "\<exists>x. createFrom_double d = Inr x \<and> canonical x \<and> bigint_val x * int unit_scale = double_num d"
  by (rule createFrom_double_correct [OF assms])

theorem bigint_from_double_witness:
  "\<exists>x. createFrom_double 0x4330000000000001 = Inr x \<and> canonical x
    \<and> bigint_val x * int unit_scale = double_num 0x4330000000000001"
proof (rule bigint_from_double)
  have e: "raw_exponent 0x4330000000000001 = 52 + 1023" by code_simp
  have "unit_scale = 2 ^ (52 + 1022)" by (simp add: unit_scale_def)
  then have "unit_scale dvd double_mag 0x4330000000000001" unfolding double_mag_normal [OF e] by (simp only: dvd_triv_right)
  then show "integer_double 0x4330000000000001" using e by (simp add: integer_double_def finite_double_def)
qed

text \<open>C14: the comparison of a big integer with a double is the comparison of the two values, without rounding; everything is
  below positive infinity and above negative infinity, and NaN is incomparable. Equality with a number, an int32 or a double,
  follows it.\<close>

theorem bigint_compare_double:
  assumes "canonical x"
  shows "(finite_double y \<longrightarrow> compareToDouble x y = int_compare (bigint_val x * int unit_scale) (double_num y))
    \<and> (double_isnan y \<longrightarrow> compareToDouble x y = Undefined)
    \<and> compareToDouble x (double_infinity False) = LessThan \<and> compareToDouble x (double_infinity True) = GreaterThan
    \<and> (equalsToNumber x (Int32Value v) \<longleftrightarrow> bigint_val x = sint v)
    \<and> (equalsToNumber x (DoubleValue y) \<longleftrightarrow> finite_double y \<and> bigint_val x * int unit_scale = double_num y)"
  using compareToDouble_finite [OF assms] compareToDouble_special equalsToNumber_correct [OF assms] by blast

theorem bigint_compare_double_witness:
  "compareToDouble (bi False [1]) 0x3FE0000000000000 =
    int_compare (bigint_val (bi False [1]) * int unit_scale) (double_num 0x3FE0000000000000)"
proof -
  have "raw_exponent 0x3FE0000000000000 = 1022" by code_simp
  then have "finite_double 0x3FE0000000000000" by (simp add: finite_double_def)
  then show ?thesis using bigint_compare_double [of "bi False [1]" "0x3FE0000000000000"] bi_canonical [of "[1]" False] by simp
qed

text \<open>C15: the conversion to a number returns the nearest double, the even one of two equally near, and infinity
  exactly when the rounded value exceeds the largest finite double.\<close>

theorem bigint_to_number:
  assumes "canonical x"
  shows "nearest_double (bigint_val x) (toNumberHeap x)"
  by (rule toNumberHeap_correct [OF assms])

theorem bigint_to_number_witness:
  "nearest_double (bigint_val (bi True [3, 1])) (toNumberHeap (bi True [3, 1]))"
  by (rule bigint_to_number) (simp add: bi_canonical)

text \<open>C16: a double that is an integer, other than the two zeros, survives the conversion to a big integer and back.\<close>

theorem bigint_double_roundtrip:
  assumes "integer_double d" "\<not> double_zero d" "createFrom_double d = Inr x"
  shows "toNumberHeap x = d"
  by (rule toNumberHeap_createFrom_double [OF assms])

theorem bigint_double_roundtrip_witness:
  "\<exists>x. createFrom_double 0xC014000000000000 = Inr x \<and> toNumberHeap x = 0xC014000000000000"
proof -
  have e: "raw_exponent 0xC014000000000000 = 2 + 1023" by code_simp
  have m: "unat ((0xC014000000000000 AND mask 52) OR push_bit 52 1 :: 64 word) = 5 * 2 ^ 50" unfolding mantissa_value by simp
  have "unit_scale = 2 ^ 50 * 2 ^ (2 + 1022)" unfolding unit_scale_def power_add [symmetric] by simp
  then have "unit_scale dvd double_mag 0xC014000000000000"
    unfolding double_mag_normal [OF e] m mult.assoc by (simp only: dvd_triv_right)
  then have i: "integer_double 0xC014000000000000" using e by (simp add: integer_double_def finite_double_def)
  then obtain x where x: "createFrom_double 0xC014000000000000 = Inr x" using createFrom_double_correct by blast
  have "\<not> double_zero 0xC014000000000000" by code_simp
  then have "toNumberHeap x = 0xC014000000000000" using i x by (intro bigint_double_roundtrip)
  with x show ?thesis by blast
qed

section \<open>Unicode\<close>

text \<open>C17: \<open>String::fromUTF8\<close> accepts exactly the UTF-8 encodings of sequences of scalar values (no overlong form, no
  surrogate, nothing beyond U+10FFFF, no truncated sequence) and returns the UTF-16 encoding of the same sequence.\<close>

theorem utf8_decode:
  assumes "length bs \<le> StringImpl_MaxLength"
  shows "fromUTF8Impl False bs = Some (Some s) \<longleftrightarrow> (\<exists>ns. scalars ns \<and> bs = utf8_encoding ns \<and> s = utf16_encoding ns)"
  by (rule fromUTF8Impl_iff [OF assms])

theorem utf8_decode_witness:
  "fromUTF8Impl False [0xE2, 0x82, 0xAC] = Some (Some [0x20AC]) \<longleftrightarrow>
    (\<exists>ns. scalars ns \<and> [0xE2, 0x82, 0xAC] = utf8_encoding ns \<and> [0x20AC] = utf16_encoding ns)"
  by (rule utf8_decode) (simp add: StringImpl_MaxLength_def)

text \<open>C18: up to a third of the longest string length, the strict conversion to UTF-8 and \<open>String::fromUTF8\<close> are inverse to
  each other: bytes decode to a string exactly when the string encodes to those bytes.\<close>

theorem utf8_roundtrip:
  assumes "length bs \<le> utf8_limit"
  shows "from_utf8 bs = Some s \<longleftrightarrow> length s \<le> utf8_limit \<and> strict_utf8 s = Some bs"
  by (rule utf8_strict_canonical [OF assms])

theorem utf8_roundtrip_witness:
  "from_utf8 [0xF0, 0x9F, 0x98, 0x80] = Some [0xD83D, 0xDE00] \<longleftrightarrow>
    length [0xD83D :: u16, 0xDE00] \<le> utf8_limit \<and> strict_utf8 [0xD83D, 0xDE00] = Some [0xF0, 0x9F, 0x98, 0x80]"
  by (rule utf8_roundtrip) (simp add: utf8_limit_def StringImpl_MaxLength_def)

text \<open>C19: the conversion that replaces unpaired surrogates never fails on a string whose buffer can be allocated, whatever
  units it holds: it writes the UTF-8 encoding of the string's scalar values, with U+FFFD for each unpaired surrogate.\<close>

theorem utf8_replacing:
  assumes "length s \<le> StringImpl_MaxLength div 3"
  shows "utf8 s StrictConversionReplacingUnpairedSurrogatesWithFFFD = Some (utf8_encoding (scalars_of s))"
  unfolding utf8_def using tryGetUTF8_replacing [OF assms] by simp

theorem utf8_replacing_witness:
  "utf8 [0xDC00, 0xD800] StrictConversionReplacingUnpairedSurrogatesWithFFFD = Some (utf8_encoding (scalars_of [0xDC00, 0xD800]))"
  by (rule utf8_replacing) (simp add: StringImpl_MaxLength_def)

text \<open>C20: the hash the atom table computes from UTF-8 bytes is the hash of the string they decode to, with that string's
  length, and is never 0; for bytes that do not decode it is 0.\<close>

theorem utf8_hash:
  assumes "length data \<le> StringImpl_MaxLength"
  shows "case from_utf8 data of
      Some s \<Rightarrow> calculateStringHashAndLengthFromUTF8MaskingTop8Bits data = (computeHashAndMaskTop8Bits s, of_nat (length s))
        \<and> computeHashAndMaskTop8Bits s \<noteq> 0
    | None \<Rightarrow> fst (calculateStringHashAndLengthFromUTF8MaskingTop8Bits data) = 0"
proof (cases "from_utf8 data")
  case None
  then have "\<not> (\<exists>ns. scalars ns \<and> data = utf8_encoding ns)" using from_utf8_iff [OF assms] by auto
  then show ?thesis using None hashUTF8_loop_invalid by (simp add: calculateStringHashAndLengthFromUTF8MaskingTop8Bits_def)
next
  case (Some s)
  then obtain ns where "scalars ns" "data = utf8_encoding ns" "s = utf16_encoding ns" using from_utf8_iff [OF assms] by auto
  then show ?thesis using Some hashUTF8_loop_encoding [of ns] finalize_ne
    by (simp add: calculateStringHashAndLengthFromUTF8MaskingTop8Bits_def computeHashAndMaskTop8Bits_def hash_after_simps)
qed

theorem utf8_hash_witness:
  "case from_utf8 [0xC3, 0xA9] of
      Some s \<Rightarrow> calculateStringHashAndLengthFromUTF8MaskingTop8Bits [0xC3, 0xA9] = (computeHashAndMaskTop8Bits s, of_nat (length s))
        \<and> computeHashAndMaskTop8Bits s \<noteq> 0
    | None \<Rightarrow> fst (calculateStringHashAndLengthFromUTF8MaskingTop8Bits [0xC3, 0xA9]) = 0"
  by (rule utf8_hash) (simp add: StringImpl_MaxLength_def)

section \<open>CBOR\<close>







text \<open>C24: for encodings up to a third of the longest string length, reading and writing with the default nesting limits
  are inverse to each other: data reads as a value exactly when the value is well-formed and is written as that data.\<close>

theorem cbor_roundtrip:
  assumes "length data \<le> utf8_limit"
  shows "cbor_decode data = Some v \<longleftrightarrow> cbor_wf v \<and> cbor_encode v = Some data"
  by (rule cbor_canonical [OF assms])

theorem cbor_roundtrip_witness:
  "cbor_decode [0x61, 0x61] = Some (CString [0x61]) \<longleftrightarrow> cbor_wf (CString [0x61]) \<and> cbor_encode (CString [0x61]) = Some [0x61, 0x61]"
  by (rule cbor_roundtrip) (simp add: utf8_limit_def StringImpl_MaxLength_def)

text \<open>C25: the order of map keys counts UTF-16 units where CTAP counts the bytes of the encoded key: a map whose first key
  has more units is rejected as out of order, whatever the lengths of the encodings.\<close>

theorem cbor_key_order:
  assumes "cbor_wf (CString a)" "cbor_wf x" "cbor_wf (CString b)" "cbor_wf y" "cbor_depth x < 16" "cbor_depth y < 16"
    "length b < length a" "length (cbor_bytes (CMap [(CString a, x), (CString b, y)])) \<le> StringImpl_MaxLength"
  shows "cbor_read (cbor_bytes (CMap [(CString a, x), (CString b, y)])) 16 = Some (None, OutOfOrderKey)"
  by (rule cbor_read_longer_first [OF assms])

theorem cbor_key_order_witness:
  "length (cbor_bytes (CString [0x61, 0x61, 0x61])) < length (cbor_bytes (CString [0xE9, 0xE9]))
    \<and> cbor_read (cbor_bytes (CMap [(CString [0x61, 0x61, 0x61], CUnsigned 1), (CString [0xE9, 0xE9], CUnsigned 2)])) 16 = Some (None, OutOfOrderKey)"
proof -
  have "utf8_bytes 0x61 = [0x61]" "utf8_bytes 0xE9 = [0xC3, 0xA9]" by (simp_all add: utf8_bytes_def)
  note e = this
  have "cbor_wf (CString [0x61, 0x61, 0x61])" "cbor_wf (CString [0xE9, 0xE9])" by (simp_all add: well_formed_utf16_def utf16_units_def e)
  then show ?thesis by (intro conjI cbor_key_order) (simp_all add: e cbor_head_def StringImpl_MaxLength_def)
qed

section \<open>The window of the Windows application\<close>







text \<open>C29: with a \<open>WideCharToMultiByte\<close> that does what is documented, the engine is given every argument of the command line but
  the first, converted to UTF-8, in their order; a command line that cannot be split gives none. An argument with an unpaired
  surrogate, whose conversion fails, becomes the empty string, but only after a string of 2^32 - 1 bytes has been allocated.\<close>

theorem runner_arguments:
  assumes "wide_conversion W"
  shows "((\<forall>s \<in> set args. well_formed_utf16 s \<and> length (utf8_of s) + 1 < 2 ^ 31 \<and> length (utf8_of s) \<le> max_size \<and>
      can_allocate (length (utf8_of s))) \<longrightarrow>
    GetCommandLineArguments W max_size can_allocate (Some (name # args)) = Some (map utf8_of args)) \<and>
    GetCommandLineArguments W max_size can_allocate None = Some [] \<and>
    (\<not> well_formed_utf16 s \<and> length s < 2 ^ 31 \<longrightarrow> Utf8FromUtf16 W max_size can_allocate (Some s) =
      (if 2 ^ 32 - 1 \<le> max_size \<and> \<not> can_allocate (2 ^ 32 - 1) then None else Some []))"
proof (intro conjI impI)
  assume "\<forall>s \<in> set args. well_formed_utf16 s \<and> length (utf8_of s) + 1 < 2 ^ 31 \<and> length (utf8_of s) \<le> max_size \<and>
    can_allocate (length (utf8_of s))"
  from wide_conversion.convert_all [OF assms this]
  show "GetCommandLineArguments W max_size can_allocate (Some (name # args)) = Some (map utf8_of args)"
    by (simp add: GetCommandLineArguments_def)
next
  assume "\<not> well_formed_utf16 s \<and> length s < 2 ^ 31"
  then show "Utf8FromUtf16 W max_size can_allocate (Some s) =
      (if 2 ^ 32 - 1 \<le> max_size \<and> \<not> can_allocate (2 ^ 32 - 1) then None else Some [])"
    by (intro wide_conversion.invalid [OF assms]) simp_all
qed (simp add: GetCommandLineArguments_def)

theorem runner_arguments_witness:
  "GetCommandLineArguments encoding_converter (2 ^ 62) (\<lambda>n. n < 1000) (Some [[0x78], [0x2D, 0xE9], []]) =
    Some [utf8_of [0x2D, 0xE9], utf8_of []] \<and>
   Utf8FromUtf16 encoding_converter (2 ^ 62) (\<lambda>n. n < 1000) (Some [0xD800]) = None"
proof -
  have w: "well_formed_utf16 [0x2D, 0xE9]" "well_formed_utf16 []" "\<not> well_formed_utf16 [0xD800]"
    by (simp_all add: well_formed_utf16_def utf16_encoding_def utf16_units_def)
  have l: "length (utf8_of [0x2D, 0xE9]) = 3" "length (utf8_of []) = 0"
    by (simp_all add: utf8_encoding_def utf8_bytes_def)
  show ?thesis
    using runner_arguments [OF encoding.wide_conversion_axioms, of "[[0x2D, 0xE9], []]" "2 ^ 62" "\<lambda>n. n < 1000" "[0x78]" "[0xD800]"] w l
    by simp
qed

section \<open>Base64\<close>



text \<open>C31: an unpadded encoding of more than 1 GiB (and less than 2 GiB) overflows: the size is computed modulo 2^32, and the
  encoder writes beyond the end of the buffer it has allocated.\<close>

theorem base64_url_overflow:
  assumes "2 ^ 30 < length input" and "length input < 2 ^ 31"
  shows "base64EncodeToVector input URLPolicy m = None"
  by (rule url_overflow [OF assms])

theorem base64_url_overflow_witness:
  "base64EncodeToVector (replicate (2 ^ 30 + 1) 0) URLPolicy EncodeURL = None"
  by (rule base64_url_overflow) (simp_all only: length_replicate, simp_all)


text \<open>C33: what the encoder writes, with any policy, the decoder of the same alphabet reads back, from an 8-bit or a 16-bit
  string and with any options (line feeds must be ignored where they were inserted).\<close>

theorem base64_roundtrip:
  assumes "length input \<le> encoder_limit policy" and "matching em dm"
    and "policy = InsertLFs \<Longrightarrow> IgnoreSpacesAndNewLines \<in> options"
  shows "\<exists>text. base64EncodeToVector input policy em = Some text \<and>
    base64Decode_view (View8 text) options dm = Some input \<and>
    base64Decode_view (View16 (map ucast text)) options dm = Some input"
  by (rule base64_round_trip [OF assms])

theorem base64_roundtrip_witness:
  "\<exists>text. base64EncodeToVector [1, 2, 3, 4] URLPolicy EncodeURL = Some text \<and>
    base64Decode_view (View8 text) {ValidatePadding} DecodeURL = Some [1, 2, 3, 4] \<and>
    base64Decode_view (View16 (map ucast text)) {ValidatePadding} DecodeURL = Some [1, 2, 3, 4]"
  by (rule base64_roundtrip) (simp_all add: encoder_limit_def matching_def)

section \<open>WebSocket frames\<close>

text \<open>C34: the parser returns a frame exactly when the data begins with the bytes of that frame: flags and operation code, mask
  bit, the shortest form of a length below 2^63, masking key and payload; frameEnd is the end of those bytes, and the data
  is left with the payload unmasked in place. Every other result leaves the frame, frameEnd and the data alone.\<close>

theorem ws_parse:
  "(parseFrame data g = (FrameOK, f, Some e, None, data') \<longleftrightarrow>
     (\<exists>key rest. frame_ok key f \<and> data = frame_bytes key f @ rest \<and> e = length (frame_bytes key f) \<and>
        data' = unmasked_bytes key f @ rest)) \<and>
   (fst (parseFrame data g) = FrameOK \<or>
     (\<exists>err. snd (parseFrame data g) = (g, None, err, data) \<and> (err = None \<longleftrightarrow> fst (parseFrame data g) = FrameIncomplete)))"
  by (intro conjI parseFrame_iff parseFrame_not_OK)

text \<open>C35: whatever frame is made, with any masking key, the parser reads it back from a buffer that begins with its bytes; fed
  with fewer bytes it asks for more and never reports an error.\<close>

theorem ws_roundtrip:
  assumes "unat opCode < 16" "length payload < 2 ^ 63" "length key = 4"
    and "f = WebSocketFrame opCode final compress masked payload"
  shows "(\<exists>data'. parseFrame (makeFrameData key f @ rest) g = (FrameOK, f, Some (length (makeFrameData key f)), None, data')) \<and>
    (\<forall>k < length (makeFrameData key f).
       parseFrame (take k (makeFrameData key f)) g = (FrameIncomplete, g, None, None, take k (makeFrameData key f)))"
  using made_frame_parses [OF assms] by blast

theorem ws_roundtrip_witness:
  "\<exists>data'. parseFrame (makeFrameData [1, 2, 3, 4] (WebSocketFrame OpCodeText True False True [0x68, 0x69]) @ [0x81])
     (WebSocketFrame OpCodeInvalid False False False []) =
   (FrameOK, WebSocketFrame OpCodeText True False True [0x68, 0x69],
    Some (length (makeFrameData [1, 2, 3, 4] (WebSocketFrame OpCodeText True False True [0x68, 0x69]))), None, data')"
  using ws_roundtrip [OF _ _ _ refl, of OpCodeText "[0x68, 0x69]" "[1, 2, 3, 4]" True False True]
  by (simp add: OpCodeText_def)

section \<open>The lock and the parking lot\<close>

text \<open>C36: however threads interleave, at most one owns the lock, and the held bit of its byte is set exactly when one does:
  holding it, on the way to giving it back, or woken to have it handed over. No check of the slow paths ever fails: not the
  crashes on a byte that is neither held nor parked, not the assertion after a hand-over, not the one against parking twice.\<close>

theorem lock_mutual_exclusion:
  assumes "reachable_system a s"
  shows "(owns s t \<and> owns s u \<longrightarrow> t = u) \<and> (lock_byte s AND isHeldBit \<noteq> 0 \<longleftrightarrow> (\<exists>t. owns s t)) \<and>
    (pcs s t = Holding \<longrightarrow> owns s t) \<and> pcs s t \<noteq> Crashed"
  using holder_unique held_iff_owned never_crashed reachable_inv [OF assms] by (auto simp: owns_def)

text \<open>A schedule: thread 5 takes the lock; thread 6 spins, sets the parked bit and falls asleep.\<close>

definition sleeping_schedule :: "(thread_data \<times> choice) list" where
  "sleeping_schedule = [(5, Call CallLock), (5, Run False False), (6, Call CallLock)] @ replicate 46 (6, Run False False)"

lemma sleeping_reachable:
  obtains s where "reachable_system 7 s" "pcs s 5 = Holding" "pcs s 6 = SlowParked 40" "parked s = [6]"
proof -
  let ?s = "run_schedule 7 sleeping_schedule initial_system"
  have "?s \<noteq> None" and p: "pcs (the ?s) 5 = Holding" "pcs (the ?s) 6 = SlowParked 40" "parked (the ?s) = [6]"
    by code_simp+
  then have "reachable_system 7 (the ?s)"
    using run_schedule_reachable [OF system_initial, of 7 sleeping_schedule "the ?s"] by simp
  with p that show ?thesis
    by blast
qed

theorem lock_mutual_exclusion_witness:
  "\<exists>s. pcs s 5 = Holding \<and> pcs s 6 = SlowParked 40 \<and> owns s 5 \<and> \<not> owns s 6 \<and> lock_byte s AND isHeldBit \<noteq> 0"
proof -
  obtain s where "reachable_system 7 s" "pcs s 5 = Holding" "pcs s 6 = SlowParked 40"
    by (rule sleeping_reachable)
  with lock_mutual_exclusion [of 7 s 5 6] show ?thesis
    by (intro exI [of _ s]) auto
qed

text \<open>C37: no wakeup is lost, and \<open>lock\<close> cannot be shut out for ever. While a thread sleeps in the queue of the lock, the parked
  bit is set, so whoever unlocks takes the slow path and unparks one, and the lock is held or another thread is awake on its
  way to it. While a thread is inside \<open>lock\<close>, awake or asleep, some thread holds the lock or can take its next step, and from
  every state a schedule exists after which the thread has the lock.\<close>

theorem lock_no_lost_wakeup:
  assumes "reachable_system a s" "in_lock (pcs s t)"
  shows "(t \<in> set (parked s) \<longrightarrow>
      lock_byte s AND hasParkedBit \<noteq> 0 \<and> (lock_byte s AND isHeldBit \<noteq> 0 \<or> (\<exists>u. eager s u))) \<and>
    (\<exists>u. pcs s u = Holding \<or> pcs s u \<notin> {Elsewhere, ElsewhereWoken} \<and> run_step a spurious fairTime u s \<noteq> None) \<and>
    (\<exists>xs s'. run_schedule a xs s = Some s' \<and> pcs s' t = Holding)"
  using in_lock_bit [OF reachable_inv [OF assms(1)] assms(2)] in_lock_progress [OF reachable_inv [OF assms(1)] assms(2)]
    in_lock_gets [OF reachable_inv [OF assms(1)] assms(2)] by blast

theorem lock_no_lost_wakeup_witness:
  "\<exists>s :: system. pcs s 6 = SlowParked 40 \<and> lock_byte s AND hasParkedBit \<noteq> 0 \<and>
    (\<exists>xs s'. run_schedule 7 xs s = Some s' \<and> pcs s' 6 = Holding)"
proof -
  obtain s where s: "reachable_system 7 s" "pcs s 6 = SlowParked 40" and "parked s = [6]"
    by (rule sleeping_reachable)
  then have "6 \<in> set (parked s)" "in_lock (pcs s 6)"
    by simp_all
  with lock_no_lost_wakeup [OF s(1), of 6 False False] s(2) show ?thesis
    by blast
qed

text \<open>A schedule: thread 5 takes the lock; thread 6 tries for no time and gives up.\<close>

definition giving_up_schedule :: "(thread_data \<times> choice) list" where
  "giving_up_schedule =
     [(5, Call CallLock), (5, Run False False), (6, Call (CallTryLockWithTimeout 0)), (6, Run False False), (6, Run False False)]"

lemma giving_up_reachable:
  obtains s where "reachable_system 7 s" "pcs s 5 = Holding" "pcs s 6 = TimedLast False"
proof -
  let ?s = "run_schedule 7 giving_up_schedule initial_system"
  have "?s \<noteq> None" and p: "pcs (the ?s) 5 = Holding" "pcs (the ?s) 6 = TimedLast False"
    by code_simp+
  then have "reachable_system 7 (the ?s)"
    using run_schedule_reachable [OF system_initial, of 7 giving_up_schedule "the ?s"] by simp
  with p that show ?thesis
    by blast
qed

text \<open>C38: what \<open>tryLockWithTimeout\<close> answers is not whether the caller got the lock, but whether anybody has it: a caller that
  gives up while another thread owns the lock is told true, and one that is told false is told so because nobody owns it.\<close>

theorem trylock_timeout_answer:
  assumes "reachable_system a s" "pcs s t = TimedLast got"
  shows "run_step a spurious fairTime t s =
    Some (at_pc t (if got then Holding else if \<exists>u. owns s u then Misled else Outside) s)"
  by (rule timed_answer [OF reachable_inv [OF assms(1)] assms(2)])

theorem trylock_timeout_answer_witness:
  "\<exists>s s'. pcs s 5 = Holding \<and> run_step 7 False False 6 s = Some s' \<and> pcs s' 6 = Misled"
proof -
  obtain s where s: "reachable_system 7 s" "pcs s 5 = Holding" "pcs s 6 = TimedLast False"
    by (rule giving_up_reachable)
  then have "\<exists>u. owns s u"
    by (intro exI [of _ 5]) (simp add: owns_def)
  with trylock_timeout_answer [OF s(1,3), of False False] s(2) show ?thesis
    by (intro exI [of _ s] exI [of _ "at_pc 6 Misled s"]) simp
qed

text \<open>C39: the linked queue of a bucket is a list. A thread is added at the end; unparking one takes out the first thread that
  waits on the address, in the order they came, and says truly whether there was one and whether any thread is left;
  unparking some takes out that many of the threads that wait on the address, the first ones, and leaves the others in order.
  The loop over the links ends.\<close>

theorem parking_queue:
  assumes "bucket_list b xs"
  shows "(\<exists>b'. unparkOneImpl time fairTime addresses address b =
      (case unpark_list addresses address (time > nextFairTime b) xs of (d, result, rest) \<Rightarrow> Some (d, result, b')) \<and>
      (case unpark_list addresses address (time > nextFairTime b) xs of (d, result, rest) \<Rightarrow> bucket_list b' rest)) \<and>
    (\<exists>b'. unparkCount time fairTime addresses address count b =
        Some (take (unat count) (filter (\<lambda>d. addresses d = Some address) xs), b') \<and>
      bucket_list b' (filter (\<lambda>d. d \<notin> set (take (unat count) (filter (\<lambda>d. addresses d = Some address) xs))) xs)) \<and>
    (data \<notin> set xs \<and> nextInQueue b data = None \<longrightarrow> bucket_list (enqueue data b) (xs @ [data]))"
  using unparkOneImpl_correct [OF assms] unparkCount_correct [OF assms] bucket_list_enqueue [OF assms] by blast

theorem parking_queue_witness:
  "\<exists>b'. unparkCount (3 :: nat) 9 (\<lambda>d. Some (d mod 2)) 1 1
       (enqueue 7 (enqueue 4 \<lparr>queueHead = None, queueTail = None, nextInQueue = \<lambda>_. None, nextFairTime = 5\<rparr>)) = Some ([7], b') \<and>
     bucket_list b' [4]"
proof -
  let ?b = "\<lparr>queueHead = None, queueTail = None, nextInQueue = \<lambda>_. None, nextFairTime = 5 :: nat\<rparr>"
  have "bucket_list (enqueue 7 (enqueue 4 ?b)) [4, 7]"
    by (simp add: bucket_list_def enqueue_def last_of_def)
  from parking_queue [OF this, of 3 9 "\<lambda>d. Some (d mod 2)" 1 1 0] show ?thesis
    by simp
qed

section \<open>The types of the operators\<close>

text \<open>C40: every operator on big integers maps canonical cells to canonical cells, or throws a \<open>RangeError\<close> or an
  \<open>OutOfMemoryError\<close>, for operands of every size and sign: nothing an operator returns has leading zero digits, a negative
  zero or more than \<open>maxLength\<close> digits.\<close>

theorem bigint_types:
  assumes "canonical x" "canonical y" "unat n < 2 ^ 63"
  shows "(\<forall>f \<in> {addImpl, subImpl, multiplyImpl, divideImpl digitDiv, remainderImpl digitDiv, exponentiateImpl,
      bitwiseAndImpl, bitwiseOrImpl, bitwiseXorImpl, leftShiftImpl, signedRightShiftImpl}. returns_bigint (f x y)) \<and>
    (\<forall>f \<in> {incImpl, decImpl, bitwiseNotImpl, unaryMinusImpl, asIntNImpl n, asUintNImpl n}. returns_bigint (f x))"
  using binary_returns [OF assms(1,2)] portable.division_returns [OF assms(1,2)] unary_returns [OF assms(1)]
    truncate_returns [OF assms(1,3)] by simp

theorem bigint_types_witness:
  "returns_bigint (exponentiateImpl (bi True [7]) (bi False [3])) \<and> returns_bigint (remainderImpl digitDiv (bi True [7]) (bi False [3]))"
  using bigint_types [of "bi True [7]" "bi False [3]" 0] by (simp add: bi_canonical)

end
